(* ===== verification/Gt_Prelude.thy ===== *)
theory Gt_Prelude
  imports Main "HOL-Library.Word" "HOL-Library.List_Lexorder"
begin

text \<open>
  Shared vocabulary of the GravTree development: the machine types the sources use, the exceptions
  they throw as values, the two shapes of fallible code (a pure result and a state transformer that
  keeps the state of the point where an exception left it), and generic facts on lists and options
  that several components need.

  A \<^verbatim>\<open>std::string\<close> is a list of bytes. \<^verbatim>\<open>std::string::operator<\<close> compares bytes as unsigned
  values and a proper prefix is smaller, which is the lexicographic order of
  \<open>HOL-Library.List_Lexorder\<close> on \<open>8 word list\<close>.
\<close>

type_synonym byte = "8 word"
type_synonym bytes = "8 word list"
type_synonym u32 = "32 word"
type_synonym u64 = "64 word"

text \<open>A string literal of the sources as bytes.\<close>

definition lit :: "string \<Rightarrow> bytes" where
  "lit s = map of_char s"

text \<open>
  Every \<^verbatim>\<open>throw\<close> of the sources is one constructor. \<open>Undefined_behaviour\<close> stands for an
  operation C++ leaves undefined (a read past an allocation, a division by zero, a null
  dereference), \<open>Out_of_fuel\<close> for a recursion that has used up the fuel of its model.
\<close>

datatype error =
    Unexpected_end
  | Bloom_too_small
  | Bloom_truncated
  | Cannot_open_for_writing bytes
  | Cannot_open_node bytes
  | Node_file_too_small bytes
  | Checksum_mismatch bytes
  | Bad_magic bytes
  | Unsupported_version bytes
  | Cannot_write_manifest bytes
  | Unknown_node u64
  | Undefined_behaviour
  | Out_of_fuel

type_synonym 'a res = "error + 'a"
type_synonym ('s, 'a) exec = "'s \<Rightarrow> (error + 'a) \<times> 's"

definition bind_res :: "'a res \<Rightarrow> ('a \<Rightarrow> 'b res) \<Rightarrow> 'b res" where
  "bind_res m f = (case m of Inl e \<Rightarrow> Inl e | Inr x \<Rightarrow> f x)"

definition ret :: "'a \<Rightarrow> ('s, 'a) exec" where
  "ret x s = (Inr x, s)"

definition throw :: "error \<Rightarrow> ('s, 'a) exec" where
  "throw e s = (Inl e, s)"

definition bind :: "('s, 'a) exec \<Rightarrow> ('a \<Rightarrow> ('s, 'b) exec) \<Rightarrow> ('s, 'b) exec" where
  "bind m f s = (case m s of (Inl e, s') \<Rightarrow> (Inl e, s') | (Inr x, s') \<Rightarrow> f x s')"

definition modify :: "('s \<Rightarrow> 's) \<Rightarrow> ('s, unit) exec" where
  "modify f s = (Inr (), f s)"

definition lift_res :: "'a res \<Rightarrow> ('s, 'a) exec" where
  "lift_res r s = (r, s)"

fun for_each :: "'a list \<Rightarrow> ('a \<Rightarrow> ('s, unit) exec) \<Rightarrow> ('s, unit) exec" where
  "for_each [] f = ret ()"
| "for_each (x # xs) f = bind (f x) (\<lambda>_. for_each xs f)"

text \<open>
  The simplification rules of the development: \<open>exec_simps\<close> runs the two monads,
  \<open>codec_simps\<close> runs readers on what writers produced, \<open>sl_simps\<close> evaluates pointer reads and
  writes of the skip list.
\<close>

named_theorems exec_simps "evaluation of the result and state-exception monads"
named_theorems codec_simps "a reader applied to the bytes a writer produced"
named_theorems sl_simps "reads of the skip list heap after a write"

lemma bind_res_simps [simp, exec_simps]:
  "bind_res (Inl e) f = Inl e"
  "bind_res (Inr x) f = f x"
  by (simp_all add: bind_res_def)

lemma bind_res_eq_Inr [simp]:
  "bind_res m f = Inr y \<longleftrightarrow> (\<exists>x. m = Inr x \<and> f x = Inr y)"
  by (cases m) auto

lemma ret_apply [exec_simps]: "ret x s = (Inr x, s)"
  by (simp add: ret_def)

lemma throw_apply [exec_simps]: "throw e s = (Inl e, s)"
  by (simp add: throw_def)

lemma modify_apply [exec_simps]: "modify f s = (Inr (), f s)"
  by (simp add: modify_def)

lemma lift_res_apply [exec_simps]: "lift_res r s = (r, s)"
  by (simp add: lift_res_def)

lemma bind_Inr: "m s = (Inr x, s') \<Longrightarrow> bind m f s = f x s'"
  by (simp add: bind_def)

lemma bind_Inl: "m s = (Inl e, s') \<Longrightarrow> bind m f s = (Inl e, s')"
  by (simp add: bind_def)

lemma bind_eq_Inr:
  "bind m f s = (Inr y, t) \<longleftrightarrow> (\<exists>x s'. m s = (Inr x, s') \<and> f x s' = (Inr y, t))"
  by (auto simp: bind_def split: prod.splits sum.splits)

lemma bind_prim_apply [exec_simps]:
  "bind (ret x) f s = f x s"
  "bind (throw e) f s = (Inl e, s)"
  "bind (modify g) h s = h () (g s)"
  "bind (lift_res (Inr x)) f s = f x s"
  "bind (lift_res (Inl e)) f s = (Inl e, s)"
  by (simp_all add: bind_def ret_def throw_def modify_def lift_res_def)

lemma bind_assoc: "bind (bind m f) g = bind m (\<lambda>x. bind (f x) g)"
  by (auto simp: fun_eq_iff bind_def split: prod.splits sum.splits)

text \<open>
  \<open>keeps f m\<close>: the computation \<open>m\<close> never changes the part \<open>f\<close> of the state, whether it returns or throws.
\<close>

definition keeps :: "('s \<Rightarrow> 'b) \<Rightarrow> ('s, 'a) exec \<Rightarrow> bool" where
  "keeps f m \<longleftrightarrow> (\<forall>s. f (snd (m s)) = f s)"

named_theorems keeps_intros "computations that leave a part of the state alone"

lemma keepsD: "keeps f m \<Longrightarrow> f (snd (m s)) = f s"
  by (simp add: keeps_def)

lemma keeps_bind [keeps_intros]:
  assumes "keeps f m" "\<And>x. keeps f (g x)"
  shows "keeps f (bind m g)"
  unfolding keeps_def
proof
  fix s
  obtain r s1 where m: "m s = (r, s1)" by (cases "m s") auto
  then have "f s1 = f s" using keepsD [OF assms(1), of s] by simp
  moreover have "f (snd (g x s1)) = f s1" for x by (rule keepsD [OF assms(2)])
  ultimately show "f (snd (bind m g s)) = f s" using m by (cases r) (simp_all add: bind_def)
qed

text \<open>A computation that first looks at the state: \<open>m s\<close> is what it does on \<open>s\<close>.\<close>

lemma keeps_state:
  assumes "\<And>s. g s = m s s" "\<And>s. keeps f (m s)"
  shows "keeps f g"
  using keepsD [OF assms(2)] by (simp add: keeps_def assms(1))

lemma keeps_prim [keeps_intros]: "keeps f (ret x)" "keeps f (throw e)" "keeps f (lift_res r)"
  by (simp_all add: keeps_def ret_def throw_def lift_res_def)

lemma keeps_cases [keeps_intros]:
  "(\<And>a b. keeps f (g a b)) \<Longrightarrow> keeps f (case_prod g p)"
  "keeps f m \<Longrightarrow> keeps f m' \<Longrightarrow> keeps f (if c then m else m')"
  "keeps f m \<Longrightarrow> (\<And>x. keeps f (h x)) \<Longrightarrow> keeps f (case_option m h r)"
  by (auto split: prod.split option.split)

text \<open>Generic facts on lists.\<close>

lemma find_append:
  "find P (xs @ ys) = (case find P xs of None \<Rightarrow> find P ys | Some x \<Rightarrow> Some x)"
  by (induction xs) auto

lemma find_None_set: "find P xs = None \<longleftrightarrow> (\<forall>x\<in>set xs. \<not> P x)"
  by (auto simp: find_None_iff)

lemma find_Some_set: "find P xs = Some x \<Longrightarrow> x \<in> set xs \<and> P x"
  by (induction xs) (auto split: if_splits)

lemma find_filter: "find P xs = (case filter P xs of [] \<Rightarrow> None | x # _ \<Rightarrow> Some x)"
  by (induction xs) auto

lemma sorted_wrt_distinct:
  "sorted_wrt R xs \<Longrightarrow> (\<And>x. \<not> R x x) \<Longrightarrow> distinct xs"
  by (induction xs) auto

lemma takeWhile_sorted_iff:
  "sorted_wrt (\<lambda>x y. P y \<longrightarrow> P x) xs \<Longrightarrow> filter P xs = takeWhile P xs"
  by (induction xs) (auto simp: filter_empty_conv)

lemma dropWhile_sorted_iff:
  "sorted_wrt (\<lambda>x y. P y \<longrightarrow> P x) xs \<Longrightarrow> filter (\<lambda>x. \<not> P x) xs = dropWhile P xs"
  by (induction xs) (auto simp: filter_id_conv)

end
