(* ===== verification/Std_Algorithms.thy ===== *)
theory Std_Algorithms
  imports Gt_Prelude "HOL-Library.Multiset"
begin

text \<open>
  The two standard algorithms the sources run on entry vectors, over an arbitrary comparator:
  \<^verbatim>\<open>std::stable_sort\<close> (node.cpp, flush.cpp, tree.cpp) and \<^verbatim>\<open>std::lower_bound\<close> (node.cpp). The
  standard fixes the result of the first on every input (a permutation, ordered, equivalent elements
  in their old order), so any stable sort computes it; the second is the halving loop of the
  standard library. Their contracts are proved once, for a comparator that is a strict weak order,
  in the locale \<open>strict_weak_order\<close>.
\<close>

fun insert_stable :: "('a \<Rightarrow> 'a \<Rightarrow> bool) \<Rightarrow> 'a \<Rightarrow> 'a list \<Rightarrow> 'a list" where
  "insert_stable lt x [] = [x]"
| "insert_stable lt x (y # ys) = (if lt y x then y # insert_stable lt x ys else x # y # ys)"

definition stable_sort :: "('a \<Rightarrow> 'a \<Rightarrow> bool) \<Rightarrow> 'a list \<Rightarrow> 'a list" where
  "stable_sort lt xs = foldr (insert_stable lt) xs []"

function lower_bound_loop :: "('a \<Rightarrow> 'a \<Rightarrow> bool) \<Rightarrow> 'a list \<Rightarrow> 'a \<Rightarrow> nat \<Rightarrow> nat \<Rightarrow> nat" where
  "lower_bound_loop lt xs v first len =
     (if len = 0 then first
      else let half = len div 2; mid = first + half in
        if lt (xs ! mid) v then lower_bound_loop lt xs v (mid + 1) (len - half - 1)
        else lower_bound_loop lt xs v first half)"
  by pat_completeness auto
termination
  by (relation "measure (\<lambda>(lt, xs, v, first, len). len)") auto

declare lower_bound_loop.simps [simp del]

definition lower_bound :: "('a \<Rightarrow> 'a \<Rightarrow> bool) \<Rightarrow> 'a list \<Rightarrow> 'a \<Rightarrow> nat" where
  "lower_bound lt xs v = lower_bound_loop lt xs v 0 (length xs)"

text \<open>Facts that hold for every comparator.\<close>

lemma stable_sort_simps [simp]:
  "stable_sort lt [] = []"
  "stable_sort lt (x # xs) = insert_stable lt x (stable_sort lt xs)"
  by (simp_all add: stable_sort_def)

lemma insert_stable_split:
  "insert_stable lt x xs = takeWhile (\<lambda>y. lt y x) xs @ x # dropWhile (\<lambda>y. lt y x) xs"
  by (induction xs) auto

lemma mset_insert_stable [simp]: "mset (insert_stable lt x xs) = add_mset x (mset xs)"
  by (induction xs) auto

lemma mset_stable_sort [simp]: "mset (stable_sort lt xs) = mset xs"
  by (induction xs) auto

lemma sum_list_insert_stable:
  fixes f :: "'a \<Rightarrow> nat"
  shows "sum_list (map f (insert_stable lt x xs)) = f x + sum_list (map f xs)"
  by (induction xs) auto

lemma set_stable_sort [simp]: "set (stable_sort lt xs) = set xs"
  by (metis mset_stable_sort set_mset_mset)

lemma length_stable_sort [simp]: "length (stable_sort lt xs) = length xs"
  by (metis mset_stable_sort size_mset)

lemma set_insert_stable [simp]: "set (insert_stable lt x xs) = insert x (set xs)"
  by (metis mset_insert_stable set_mset_add_mset_insert set_mset_mset)

lemma stable_sort_eq_Nil [simp]: "stable_sort lt xs = [] \<longleftrightarrow> xs = []"
  by (metis length_0_conv length_stable_sort)

text \<open>
  The loop of \<^verbatim>\<open>std::lower_bound\<close> keeps this invariant: everything left of \<open>first\<close> is below
  the value and everything from \<open>first + len\<close> on is not.
\<close>

lemma lower_bound_loop_partition:
  assumes "n \<le> length xs"
    and "\<And>i. i < n \<Longrightarrow> lt (xs ! i) v"
    and "\<And>i. n \<le> i \<Longrightarrow> i < length xs \<Longrightarrow> \<not> lt (xs ! i) v"
    and "first \<le> n" and "n \<le> first + len" and "first + len \<le> length xs"
  shows "lower_bound_loop lt xs v first len = n"
  using assms(4-6)
proof (induction len arbitrary: first rule: less_induct)
  case (less len)
  let ?mid = "first + len div 2"
  show ?case
  proof (cases "len = 0")
    case True
    with less.prems show ?thesis by (subst lower_bound_loop.simps) simp
  next
    case False
    then have mid: "?mid < length xs" using less.prems by simp
    show ?thesis
    proof (cases "lt (xs ! ?mid) v")
      case True
      then have "?mid < n" using assms(3) mid not_le by blast
      then have "lower_bound_loop lt xs v (?mid + 1) (len - len div 2 - 1) = n"
        using less.prems False by (intro less.IH) auto
      then show ?thesis
        using True False by (subst lower_bound_loop.simps) (simp add: Let_def)
    next
      case not_lt: False
      then have "n \<le> ?mid" using assms(2) not_le by blast
      then have "lower_bound_loop lt xs v first (len div 2) = n"
        using less.prems False by (intro less.IH) auto
      then show ?thesis
        using not_lt False by (subst lower_bound_loop.simps) (simp add: Let_def)
    qed
  qed
qed

lemma lower_bound_partition:
  assumes "\<And>i j. i \<le> j \<Longrightarrow> j < length xs \<Longrightarrow> lt (xs ! j) v \<Longrightarrow> lt (xs ! i) v"
  shows "lower_bound lt xs v = length (takeWhile (\<lambda>x. lt x v) xs)"
  unfolding lower_bound_def
proof (rule lower_bound_loop_partition)
  let ?n = "length (takeWhile (\<lambda>x. lt x v) xs)"
  show "?n \<le> length xs" by (rule length_takeWhile_le)
  show "lt (xs ! i) v" if "i < ?n" for i
    using that by (metis nth_mem set_takeWhileD takeWhile_nth)
  show "\<not> lt (xs ! i) v" if "?n \<le> i" "i < length xs" for i
    using that assms nth_length_takeWhile by (metis le_less_trans)
qed (simp_all add: length_takeWhile_le)

text \<open>
  The contract: sorting orders the list and keeps the order of equivalent elements, a sorted list is
  a fixed point, and the binary search finds the first element that is not below the value.
\<close>

locale strict_weak_order =
  fixes lt :: "'a \<Rightarrow> 'a \<Rightarrow> bool"
  assumes lt_irrefl: "\<not> lt x x"
    and lt_trans: "lt x y \<Longrightarrow> lt y z \<Longrightarrow> lt x z"
    and not_lt_trans: "\<not> lt x y \<Longrightarrow> \<not> lt y z \<Longrightarrow> \<not> lt x z"
begin

definition equiv_to :: "'a \<Rightarrow> 'a \<Rightarrow> bool" where
  "equiv_to x y \<longleftrightarrow> \<not> lt x y \<and> \<not> lt y x"

definition ordered :: "'a list \<Rightarrow> bool" where
  "ordered xs \<longleftrightarrow> sorted_wrt (\<lambda>x y. \<not> lt y x) xs"

lemma lt_asym: "lt x y \<Longrightarrow> \<not> lt y x"
  using lt_irrefl lt_trans by blast

lemma ordered_insert_stable: "ordered xs \<Longrightarrow> ordered (insert_stable lt x xs)"
  unfolding ordered_def
proof (induction xs)
  case (Cons y ys)
  then show ?case
    by (auto dest: lt_asym not_lt_trans)
qed simp

lemma ordered_stable_sort: "ordered (stable_sort lt xs)"
proof (induction xs)
  case Nil
  show ?case by (simp add: ordered_def)
next
  case (Cons x xs)
  then show ?case by (simp add: ordered_insert_stable)
qed

lemma stable_sort_ordered: "ordered xs \<Longrightarrow> stable_sort lt xs = xs"
proof (induction xs)
  case (Cons x xs)
  then show ?case by (cases xs) (auto simp: ordered_def)
qed simp

lemma filter_insert_stable:
  "filter (equiv_to z) (insert_stable lt x xs) =
     (if equiv_to z x then x # filter (equiv_to z) xs else filter (equiv_to z) xs)"
  if "ordered xs"
  using that
proof (induction xs)
  case (Cons y ys)
  have "\<not> equiv_to z y" if "lt y x" "equiv_to z x"
    using that not_lt_trans [of y z x] by (auto simp: equiv_to_def)
  moreover have "ordered ys" using Cons.prems by (simp add: ordered_def)
  ultimately show ?case using Cons.IH by auto
qed simp

lemma stable_sort_stable: "filter (equiv_to z) (stable_sort lt xs) = filter (equiv_to z) xs"
proof (induction xs)
  case (Cons x xs)
  then show ?case by (simp add: filter_insert_stable [OF ordered_stable_sort])
qed simp

lemma lower_bound_ordered:
  assumes "ordered xs"
  shows "lower_bound lt xs v = length (takeWhile (\<lambda>x. lt x v) xs)"
proof (rule lower_bound_partition)
  fix i j assume *: "i \<le> j" "j < length xs" "lt (xs ! j) v"
  show "lt (xs ! i) v"
  proof (cases "i = j")
    case False
    with * assms have "\<not> lt (xs ! j) (xs ! i)"
      by (auto simp: ordered_def sorted_wrt_iff_nth_less)
    with * show ?thesis using not_lt_trans by blast
  qed (use * in simp)
qed

lemma ordered_unique:
  assumes "ordered xs" "ordered ys" "\<And>z. filter (equiv_to z) xs = filter (equiv_to z) ys"
  shows "xs = ys"
  using assms
proof (induction xs arbitrary: ys)
  case Nil
  have "equiv_to y y" for y by (simp add: equiv_to_def lt_irrefl)
  with Nil.prems(3) have "y \<notin> set ys" for y
    by (metis filter.simps(1) filter_empty_conv)
  then show ?case by (cases ys) auto
next
  case (Cons x xs)
  have refl: "equiv_to z z" for z by (simp add: equiv_to_def lt_irrefl)
  from Cons.prems(3)[of x] refl have x_in: "x \<in> set ys"
    by (metis filter.simps(2) filter_is_subset list.set_intros(1) subsetD)
  then obtain y ys' where ys: "ys = y # ys'" by (cases ys) auto
  from Cons.prems(3)[of y] refl ys have y_in: "y \<in> set (x # xs)"
    by (metis filter.simps(2) filter_is_subset list.set_intros(1) subsetD)
  have "\<not> lt x y" using x_in Cons.prems(2) ys by (auto simp: ordered_def lt_irrefl)
  moreover have "\<not> lt y x" using y_in Cons.prems(1) by (auto simp: ordered_def lt_irrefl)
  ultimately have "equiv_to x y" by (simp add: equiv_to_def)
  with Cons.prems(3)[of x] refl ys have xy: "x = y" by simp
  have "filter (equiv_to z) xs = filter (equiv_to z) ys'" for z
    using Cons.prems(3)[of z] ys xy by (auto split: if_splits)
  with Cons.IH[of ys'] Cons.prems(1,2) ys have "xs = ys'" by (auto simp: ordered_def)
  with ys xy show ?case by simp
qed

end

end
