(* ===== verification/Entry_Types.thy ===== *)
theory Entry_Types
  imports Std_Algorithms
begin

text \<open>
  The core types of \<^verbatim>\<open>include/gravtree/types.h\<close>: the record \<^verbatim>\<open>Entry\<close> with its \<^verbatim>\<open>operator<\<close>
  (key ascending, sequence number descending), \<^verbatim>\<open>KeyRange\<close>, and the constants. The field
  \<^verbatim>\<open>Entry::value\<close> is called \<open>val\<close> here.

  \<open>sort_pos\<close> names the position of an entry in that order as a linear order of its own, which
  makes \<^verbatim>\<open>operator<\<close> a strict weak order and ties \<open>stable_sort\<close> to the library's
  \<open>sort_key\<close>. \<open>newest\<close> is the specification the whole development refers to: the version of a
  key with the highest sequence number.
\<close>

type_synonym node_id = u64
type_synonym seq_number = u64

definition INVALID_NODE_ID :: node_id where "INVALID_NODE_ID = 0"
definition MAX_FANOUT :: nat where "MAX_FANOUT = 16"
definition BUFFER_THRESHOLD :: nat where "BUFFER_THRESHOLD = 4 * 1024 * 1024"
definition NODE_FILE_MAGIC :: u64 where "NODE_FILE_MAGIC = 0x4752415654524545"
definition NODE_FILE_VERSION :: u32 where "NODE_FILE_VERSION = 1"

record entry =
  key :: bytes
  val :: bytes
  seq_no :: seq_number
  deleted :: bool

definition entry_less :: "entry \<Rightarrow> entry \<Rightarrow> bool" where
  "entry_less a b = (if key a \<noteq> key b then key a < key b else seq_no a > seq_no b)"

record key_range =
  min_key :: bytes
  max_key :: bytes

definition range_contains :: "key_range \<Rightarrow> bytes \<Rightarrow> bool" where
  "range_contains r k \<longleftrightarrow> k \<ge> min_key r \<and> (max_key r = [] \<or> k \<le> max_key r)"

definition range_empty :: "key_range \<Rightarrow> bool" where
  "range_empty r \<longleftrightarrow> min_key r = [] \<and> max_key r = []"

text \<open>
  \<^verbatim>\<open>Entry{key, {}, max()}\<close>, the probe both \<^verbatim>\<open>SSTNode::get\<close> and \<^verbatim>\<open>SkipList::find_key\<close> search
  with: it sorts before every real entry of its key.
\<close>

definition probe :: "bytes \<Rightarrow> entry" where
  "probe k = \<lparr>key = k, val = [], seq_no = - 1, deleted = False\<rparr>"

text \<open>The bytes an entry accounts for in \<^verbatim>\<open>buffer_size_bytes\<close> and \<^verbatim>\<open>SkipList::bytes_\<close>.\<close>

definition entry_bytes :: "entry \<Rightarrow> nat" where
  "entry_bytes e = length (key e) + length (val e) + 8 + 1"

subsection \<open>The sort position of an entry\<close>

datatype sort_pos = Pos (pos_key: bytes) (pos_seq: seq_number)

instantiation sort_pos :: linorder
begin

definition less_sort_pos :: "sort_pos \<Rightarrow> sort_pos \<Rightarrow> bool" where
  "less_sort_pos p q \<longleftrightarrow>
     pos_key p < pos_key q \<or> pos_key p = pos_key q \<and> pos_seq q < pos_seq p"

definition less_eq_sort_pos :: "sort_pos \<Rightarrow> sort_pos \<Rightarrow> bool" where
  "less_eq_sort_pos p q \<longleftrightarrow>
     pos_key p < pos_key q \<or> pos_key p = pos_key q \<and> pos_seq q \<le> pos_seq p"

instance
proof
  fix x y z :: sort_pos
  show "(x < y) = (x \<le> y \<and> \<not> y \<le> x)"
    by (auto simp: less_sort_pos_def less_eq_sort_pos_def)
  show "x \<le> x" by (simp add: less_eq_sort_pos_def)
  show "x \<le> z" if "x \<le> y" "y \<le> z"
    using that by (auto simp: less_eq_sort_pos_def)
  show "x = y" if "x \<le> y" "y \<le> x"
    using that by (cases x; cases y) (auto simp: less_eq_sort_pos_def)
  show "x \<le> y \<or> y \<le> x"
    by (auto simp: less_eq_sort_pos_def)
qed

end

definition pos_of :: "entry \<Rightarrow> sort_pos" where
  "pos_of e = Pos (key e) (seq_no e)"

definition newest :: "bytes \<Rightarrow> entry list \<Rightarrow> entry option" where
  "newest k es = find (\<lambda>e. key e = k) (stable_sort entry_less es)"

text \<open>The newer of two versions of one key; on a tie the first.\<close>

fun newer :: "entry option \<Rightarrow> entry option \<Rightarrow> entry option" where
  "newer None y = y"
| "newer x None = x"
| "newer (Some a) (Some b) = (if seq_no b \<le> seq_no a then Some a else Some b)"

lemma entry_less_pos: "entry_less a b \<longleftrightarrow> pos_of a < pos_of b"
  by (auto simp: entry_less_def pos_of_def less_sort_pos_def)

lemma pos_of_key_le: "pos_of a \<le> pos_of b \<Longrightarrow> key a \<le> key b"
  by (auto simp: pos_of_def less_eq_sort_pos_def)

lemma pos_of_same_key: "key a = key b \<Longrightarrow> pos_of a \<le> pos_of b \<longleftrightarrow> seq_no b \<le> seq_no a"
  by (auto simp: pos_of_def less_eq_sort_pos_def)

interpretation entry_order: strict_weak_order entry_less
  by unfold_locales (auto simp: entry_less_pos)

lemma ordered_iff_sorted_pos: "entry_order.ordered es \<longleftrightarrow> sorted (map pos_of es)"
  by (simp add: entry_order.ordered_def sorted_map entry_less_pos not_less)

text \<open>A buffer in entry order, and one that moreover holds one entry per key.\<close>

abbreviation entries_sorted :: "entry list \<Rightarrow> bool" where
  "entries_sorted es \<equiv> sorted (map pos_of es)"

abbreviation keys_strict :: "entry list \<Rightarrow> bool" where
  "keys_strict es \<equiv> sorted_wrt (<) (map key es)"

abbreviation find_key_in :: "bytes \<Rightarrow> entry list \<Rightarrow> entry option" where
  "find_key_in k es \<equiv> find (\<lambda>e. key e = k) es"

lemma stable_sort_eq_sort_key: "stable_sort entry_less es = sort_key pos_of es"
proof -
  have "insert_stable entry_less x xs = insort_key pos_of x xs" for x xs
    by (induction xs) (auto simp: entry_less_pos)
  then show ?thesis by (induction es) auto
qed

lemma entries_sorted_stable_sort [simp]: "entries_sorted (stable_sort entry_less es)"
  by (simp add: stable_sort_eq_sort_key)

lemma stable_sort_id: "entries_sorted es \<Longrightarrow> stable_sort entry_less es = es"
  by (simp add: entry_order.stable_sort_ordered ordered_iff_sorted_pos)

lemma keys_strict_sorted: "keys_strict es \<Longrightarrow> entries_sorted es"
  by (auto simp: sorted_map sorted_wrt_map pos_of_def less_eq_sort_pos_def
      intro: sorted_wrt_mono_rel [rotated])

lemma keys_strict_distinct: "keys_strict es \<Longrightarrow> distinct (map key es)"
  by (rule sorted_wrt_distinct) auto

lemma entries_sorted_keys: "entries_sorted es \<Longrightarrow> sorted (map key es)"
  by (auto simp: sorted_map intro: sorted_wrt_mono_rel [rotated] dest: pos_of_key_le)

subsection \<open>The newest version of a key\<close>

lemma newer_None_right [simp]: "newer x None = x"
  by (cases x) auto

lemma newer_assoc: "newer (newer x y) z = newer x (newer y z)"
  by (cases x; cases y; cases z) auto

lemma newest_sorted: "entries_sorted es \<Longrightarrow> newest k es = find_key_in k es"
  by (simp add: newest_def stable_sort_id)

lemma newest_Nil [simp]: "newest k [] = None"
  by (simp add: newest_def)

lemma find_insert_stable:
  assumes "entries_sorted es"
  shows "find_key_in k (insert_stable entry_less e es) =
    newer (if key e = k then Some e else None) (find_key_in k es)"
  using assms
proof (induction es)
  case (Cons f fs)
  have skip: "find_key_in k fs = None" if "key e = k" "key e < key f"
    using that Cons.prems entries_sorted_keys [OF Cons.prems]
    by (auto simp: find_None_iff)
  have top: "seq_no g \<le> seq_no f" if "find_key_in k fs = Some g" "key f = k" for g
    using that Cons.prems find_Some_set [OF that(1)] by (auto simp: pos_of_same_key)
  show ?case
    using Cons skip by (auto simp: entry_less_def not_less split: if_splits)
qed simp

lemma newest_Cons [simp]:
  "newest k (e # es) = newer (if key e = k then Some e else None) (newest k es)"
  by (simp add: newest_def find_insert_stable)

lemma newest_append: "newest k (xs @ ys) = newer (newest k xs) (newest k ys)"
  by (induction xs) (simp_all add: newer_assoc)

lemma newest_stable_sort [simp]: "newest k (stable_sort entry_less es) = newest k es"
  by (simp add: newest_def stable_sort_id)

lemma newest_None_iff: "newest k es = None \<longleftrightarrow> k \<notin> key ` set es"
  by (auto simp: newest_def find_None_iff)

lemma newest_SomeD:
  assumes "newest k es = Some e"
  shows "e \<in> set es" "key e = k" "\<And>f. f \<in> set es \<Longrightarrow> key f = k \<Longrightarrow> seq_no f \<le> seq_no e"
  using assms
proof (induction es arbitrary: e)
  case (Cons x xs)
  case 1
  then show ?case using Cons.IH(1)
    by (cases "newest k xs") (auto split: if_splits)
next
  case (Cons x xs)
  case 2
  then show ?case using Cons.IH(2)
    by (cases "newest k xs") (auto split: if_splits)
next
  case (Cons x xs)
  case (3 f)
  then show ?case using Cons.IH(3) newest_None_iff [of k xs]
    by (cases "newest k xs") (fastforce split: if_splits)+
qed simp_all

lemma newest_unique:
  assumes "e \<in> set es" "key e = k"
    and "\<And>f. f \<in> set es \<Longrightarrow> key f = k \<Longrightarrow> f \<noteq> e \<Longrightarrow> seq_no f < seq_no e"
  shows "newest k es = Some e"
proof (cases "newest k es")
  case None
  with assms(1,2) show ?thesis by (auto simp: newest_None_iff)
next
  case (Some g)
  with newest_SomeD [OF Some] assms show ?thesis by (metis not_le)
qed

lemma newest_filter_key: "P k \<Longrightarrow> newest k (filter (\<lambda>e. P (key e)) es) = newest k es"
  by (induction es) auto

lemma newest_keys_strict: "keys_strict es \<Longrightarrow> newest k es = find_key_in k es"
  by (simp add: keys_strict_sorted newest_sorted)

subsection \<open>Searching with the probe\<close>

lemma entry_less_probe [simp]: "entry_less e (probe k) \<longleftrightarrow> key e < k"
  by (simp add: entry_less_def probe_def word_order.not_eq_extremum)

lemma find_key_dropWhile:
  assumes "sorted (map key es)"
  shows "find_key_in k es =
    (case dropWhile (\<lambda>e. key e < k) es of
       [] \<Rightarrow> None
     | e # _ \<Rightarrow> if key e = k then Some e else None)"
  using assms
proof (induction es)
  case (Cons e es)
  have "find_key_in k es = None" if "\<not> key e < k" "key e \<noteq> k"
    using that Cons.prems by (auto simp: find_None_iff)
  with Cons show ?case by auto
qed simp

lemma lower_bound_probe:
  assumes "entries_sorted es"
  shows "lower_bound entry_less es (probe k) = length (takeWhile (\<lambda>e. key e < k) es)"
  using entry_order.lower_bound_ordered [of es "probe k"] assms
  by (simp add: ordered_iff_sorted_pos)

end
