(* ===== verification/Byte_Codec.thy ===== *)
theory Byte_Codec
  imports Gt_Prelude
begin

text \<open>
  The byte level of the node file: the little-endian \<^verbatim>\<open>BinaryWriter\<close> and the bounds-checked
  \<^verbatim>\<open>BinaryReader\<close> of \<^verbatim>\<open>src/node.cpp\<close>, the CRC-64 that closes a file, and \<^verbatim>\<open>std::to_string\<close> on
  unsigned numbers, which names the files. The lemmas are the round trips (a reader positioned at
  what a writer produced returns the value and stops right behind it), that the reader never passes
  its size, and that the CRC tells apart any two byte sequences of which one is the other with a
  single byte changed.
\<close>

unbundle bit_operations_syntax

subsection \<open>Memory images of unsigned integers\<close>

definition le_bytes :: "nat \<Rightarrow> 'a::len word \<Rightarrow> bytes" where
  "le_bytes n w = map (\<lambda>i. ucast (drop_bit (8 * i) w)) [0..<n]"

fun le_word :: "bytes \<Rightarrow> 'a::len word" where
  "le_word [] = 0"
| "le_word (b # bs) = ucast b OR push_bit 8 (le_word bs)"

subsection \<open>BinaryWriter\<close>

definition w_u8 :: "byte \<Rightarrow> bytes \<Rightarrow> bytes" where
  "w_u8 v buf = buf @ [v]"

definition w_raw :: "bytes \<Rightarrow> bytes \<Rightarrow> bytes" where
  "w_raw p buf = buf @ p"

definition w_u32 :: "u32 \<Rightarrow> bytes \<Rightarrow> bytes" where
  "w_u32 v = w_raw (le_bytes 4 v)"

definition w_u64 :: "u64 \<Rightarrow> bytes \<Rightarrow> bytes" where
  "w_u64 v = w_raw (le_bytes 8 v)"

definition w_str :: "bytes \<Rightarrow> bytes \<Rightarrow> bytes" where
  "w_str s buf = w_u32 (of_nat (length s)) buf @ s"

subsection \<open>BinaryReader\<close>

record reader =
  rdata :: bytes
  rsize :: nat
  rpos :: nat

definition r_check :: "nat \<Rightarrow> reader \<Rightarrow> unit res" where
  "r_check n r = (if rpos r + n > rsize r then Inl Unexpected_end else Inr ())"

definition r_raw :: "nat \<Rightarrow> reader \<Rightarrow> (bytes \<times> reader) res" where
  "r_raw n r = bind_res (r_check n r)
     (\<lambda>_. Inr (take n (drop (rpos r) (rdata r)), r\<lparr>rpos := rpos r + n\<rparr>))"

definition r_u8 :: "reader \<Rightarrow> (byte \<times> reader) res" where
  "r_u8 r = bind_res (r_check 1 r)
     (\<lambda>_. Inr (rdata r ! rpos r, r\<lparr>rpos := rpos r + 1\<rparr>))"

definition r_u32 :: "reader \<Rightarrow> (u32 \<times> reader) res" where
  "r_u32 r = bind_res (r_raw 4 r) (\<lambda>(v, r'). Inr (le_word v, r'))"

definition r_u64 :: "reader \<Rightarrow> (u64 \<times> reader) res" where
  "r_u64 r = bind_res (r_raw 8 r) (\<lambda>(v, r'). Inr (le_word v, r'))"

definition r_str :: "reader \<Rightarrow> (bytes \<times> reader) res" where
  "r_str r = bind_res (r_u32 r) (\<lambda>(len, r').
     bind_res (r_check (unat len) r') (\<lambda>_.
       Inr (take (unat len) (drop (rpos r') (rdata r')), r'\<lparr>rpos := rpos r' + unat len\<rparr>)))"

subsection \<open>crc64\<close>

definition CRC_POLY :: u64 where "CRC_POLY = 0xad93d23594c935a9"

definition crc_shift :: "u64 \<Rightarrow> u64" where
  "crc_shift crc =
     (if crc AND push_bit 63 1 \<noteq> 0 then push_bit 1 crc XOR CRC_POLY else push_bit 1 crc)"

definition crc_byte :: "u64 \<Rightarrow> byte \<Rightarrow> u64" where
  "crc_byte crc b = (crc_shift ^^ 8) (crc XOR push_bit 56 (ucast b))"

definition crc64 :: "bytes \<Rightarrow> u64" where
  "crc64 bs = foldl crc_byte 0xFFFFFFFFFFFFFFFF bs XOR 0xFFFFFFFFFFFFFFFF"

subsection \<open>std::to_string\<close>

fun dec_string :: "nat \<Rightarrow> bytes" where
  "dec_string n =
     (if n < 10 then [48 + of_nat n] else dec_string (n div 10) @ [48 + of_nat (n mod 10)])"

declare dec_string.simps [simp del]

definition to_string :: "u64 \<Rightarrow> bytes" where
  "to_string w = dec_string (unat w)"

text \<open>The number a string of decimal digits denotes; the inverse of \<open>dec_string\<close>.\<close>

definition dec_value :: "bytes \<Rightarrow> nat" where
  "dec_value bs = foldl (\<lambda>acc b. acc * 10 + (unat b - 48)) 0 bs"

definition is_digit :: "byte \<Rightarrow> bool" where
  "is_digit b \<longleftrightarrow> 48 \<le> b \<and> b \<le> 57"

text \<open>
  A reader with \<open>rest\<close> still to read, \<open>pre\<close> behind it and \<open>tail\<close> beyond its size.
\<close>

definition rd_at :: "bytes \<Rightarrow> bytes \<Rightarrow> bytes \<Rightarrow> reader" where
  "rd_at pre rest tail =
     \<lparr>rdata = pre @ rest @ tail, rsize = length pre + length rest, rpos = length pre\<rparr>"

subsection \<open>Round trips of the memory images\<close>

lemma length_le_bytes [simp]: "length (le_bytes n w) = n"
  by (simp add: le_bytes_def)

lemma bit_le_word:
  "bit (le_word bs :: 'a::len word) n \<longleftrightarrow>
     n < LENGTH('a) \<and> n div 8 < length bs \<and> bit (bs ! (n div 8)) (n mod 8)"
proof (induction bs arbitrary: n)
  case (Cons b bs)
  show ?case
  proof (cases "n < 8")
    case True
    then show ?thesis by (auto simp: bit_simps)
  next
    case False
    then obtain m where m: "n = m + 8" by (metis add.commute le_Suc_ex not_less)
    have "\<not> bit b n" using False bit_imp_le_length [of b n] by auto
    moreover have "n div 8 = Suc (m div 8)" "n mod 8 = m mod 8" using m by simp_all
    ultimately show ?thesis using m Cons.IH [of m]
      by (auto simp: bit_simps)
  qed
qed simp

lemma le_word_le_bytes:
  "LENGTH('a) \<le> 8 * n \<Longrightarrow> le_word (le_bytes n w) = (w :: 'a::len word)"
  by (rule bit_word_eqI) (auto simp: bit_le_word le_bytes_def bit_simps)

lemma le_bytes_le_word:
  assumes "length bs = 8" "le_word bs = (w :: u64)" shows "le_bytes 8 w = bs"
proof (rule nth_equalityI)
  fix i assume "i < length (le_bytes 8 w)"
  then have i: "i < 8" by simp
  show "le_bytes 8 w ! i = bs ! i"
  proof (rule bit_word_eqI)
    fix m assume "m < LENGTH(8)"
    then have "m < 8" "8 * i + m < 64" "(8 * i + m) div 8 = i" "(8 * i + m) mod 8 = m" using i by simp_all
    with i assms bit_le_word [of bs "8 * i + m", where ?'a = 64]
    show "bit (le_bytes 8 w ! i) m = bit (bs ! i) m" by (simp add: le_bytes_def bit_simps)
  qed
qed (use assms in simp)

lemma le_word_u32 [simp, codec_simps]: "le_word (le_bytes 4 w) = (w :: u32)"
  by (simp add: le_word_le_bytes)

lemma le_word_u64 [simp, codec_simps]: "le_word (le_bytes 8 w) = (w :: u64)"
  by (simp add: le_word_le_bytes)

subsection \<open>Readers on written bytes\<close>

lemma r_raw_at [codec_simps]:
  "length bs = n \<Longrightarrow> r_raw n (rd_at pre (bs @ rest) tail) = Inr (bs, rd_at (pre @ bs) rest tail)"
  by (simp add: r_raw_def r_check_def rd_at_def)

lemma r_u8_at [codec_simps]:
  "r_u8 (rd_at pre (b # rest) tail) = Inr (b, rd_at (pre @ [b]) rest tail)"
  by (simp add: r_u8_def r_check_def rd_at_def nth_append)

lemma r_u32_at [codec_simps]:
  "r_u32 (rd_at pre (le_bytes 4 v @ rest) tail) = Inr (v, rd_at (pre @ le_bytes 4 v) rest tail)"
  by (simp add: r_u32_def r_raw_at)

lemma r_u64_at [codec_simps]:
  "r_u64 (rd_at pre (le_bytes 8 v @ rest) tail) = Inr (v, rd_at (pre @ le_bytes 8 v) rest tail)"
  by (simp add: r_u64_def r_raw_at)

definition str_image :: "bytes \<Rightarrow> bytes" where
  "str_image s = le_bytes 4 (of_nat (length s) :: u32) @ s"

lemma unat_of_nat_u32: "n < 2 ^ 32 \<Longrightarrow> unat (of_nat n :: u32) = n"
  by (simp add: unat_of_nat take_bit_nat_eq_self)

lemma r_str_at [codec_simps]:
  assumes "length s < 2 ^ 32"
  shows "r_str (rd_at pre (str_image s @ rest) tail) = Inr (s, rd_at (pre @ str_image s) rest tail)"
  using assms
  by (simp add: r_str_def str_image_def r_u32_at unat_of_nat_u32)
     (simp add: r_check_def rd_at_def)

lemma writer_images [codec_simps]:
  "w_u8 b buf = buf @ [b]"
  "w_u32 v buf = buf @ le_bytes 4 v"
  "w_u64 w buf = buf @ le_bytes 8 w"
  "w_str s buf = buf @ str_image s"
  "w_raw p buf = buf @ p"
  by (simp_all add: w_u8_def w_u32_def w_u64_def w_str_def w_raw_def str_image_def)

text \<open>A successful read stays inside the reader's size and only moves its position forward.\<close>

lemma r_raw_bounds:
  "r_raw n r = Inr (v, r') \<Longrightarrow>
     r' = r\<lparr>rpos := rpos r + n\<rparr> \<and> rpos r + n \<le> rsize r"
  by (auto simp: r_raw_def r_check_def split: if_splits)

lemma r_str_bounds:
  "r_str r = Inr (s, r') \<Longrightarrow> rpos r' \<le> rsize r \<and> rpos r + 4 \<le> rpos r' \<and> rsize r' = rsize r"
  by (auto simp: r_str_def r_u32_def r_check_def dest!: r_raw_bounds split: if_splits)

lemma r_str_short: "rpos r + 4 > rsize r \<Longrightarrow> r_str r = Inl Unexpected_end"
  by (simp add: r_str_def r_u32_def r_raw_def r_check_def)

subsection \<open>Error detection of crc64\<close>

lemma crc_shift_bit: "crc_shift c = (if bit c 63 then push_bit 1 c XOR CRC_POLY else push_bit 1 c)"
  by (simp add: crc_shift_def bit_iff_and_push_bit_not_eq_0)

lemma xor_cancel_right: "(a XOR c = b XOR c) = (a = b)" for a :: "'a::len word"
  by (metis bit.xor_left_self xor.commute)

lemma xor_cancel_left: "(c XOR a = c XOR b) = (a = b)" for a :: "'a::len word"
  by (metis bit.xor_left_self)

lemma bit_shift_left: "bit (push_bit 1 c) n \<longleftrightarrow> 1 \<le> n \<and> n < 64 \<and> bit c (n - 1)" for c :: u64
  by (auto simp only: bit_push_bit_iff possible_bit_word) auto

lemma crc_poly_odd: "bit CRC_POLY 0"
  by (simp add: CRC_POLY_def)

lemma bit_crc_shift_0: "bit (crc_shift c) 0 \<longleftrightarrow> bit c 63"
  using crc_poly_odd bit_shift_left [of c 0]
  by (simp add: crc_shift_bit bit_xor_iff del: push_bit_Suc One_nat_def)

lemma inj_crc_shift: "crc_shift a = crc_shift b \<Longrightarrow> a = b"
proof (rule bit_word_eqI)
  fix n
  assume eq: "crc_shift a = crc_shift b" and n: "n < LENGTH(64)"
  from eq have top: "bit a 63 \<longleftrightarrow> bit b 63" by (metis bit_crc_shift_0)
  then have "push_bit 1 a = push_bit 1 b"
    using eq unfolding crc_shift_bit by (metis xor_cancel_right)
  then have "bit (push_bit 1 a) (Suc n) = bit (push_bit 1 b) (Suc n)" by metis
  then show "bit a n = bit b n"
    using n top unfolding bit_shift_left by (cases "n = 63") auto
qed

lemma inj_crc_shift_pow: "(crc_shift ^^ n) a = (crc_shift ^^ n) b \<Longrightarrow> a = b"
  by (induction n) (auto dest: inj_crc_shift)

lemma inj_crc_byte_state: "crc_byte a x = crc_byte b x \<Longrightarrow> a = b"
  by (auto simp: crc_byte_def xor_cancel_right dest!: inj_crc_shift_pow)

lemma inj_crc_byte_data: "crc_byte c x = crc_byte c y \<Longrightarrow> x = y"
proof (rule bit_word_eqI)
  fix n
  assume eq: "crc_byte c x = crc_byte c y" and n: "n < LENGTH(8)"
  from eq have "push_bit 56 (ucast x) = (push_bit 56 (ucast y) :: u64)"
    by (auto simp: crc_byte_def xor_cancel_left dest!: inj_crc_shift_pow)
  then have "bit (push_bit 56 (ucast x) :: u64) (56 + n) = bit (push_bit 56 (ucast y) :: u64) (56 + n)"
    by simp
  then show "bit x n = bit y n" using n by (simp add: bit_simps)
qed

lemma inj_foldl_crc: "foldl crc_byte a bs = foldl crc_byte b bs \<Longrightarrow> a = b"
  by (induction bs arbitrary: a b) (auto dest: inj_crc_byte_state)

text \<open>
  Up to eight consecutive bytes reach the register as one word: the first byte in its top byte, the
  next below it, and so on. This is why a burst of at most 64 bits cannot go unnoticed.
\<close>

lemma crc_shift_xor: "crc_shift (a XOR b) = crc_shift a XOR crc_shift b"
  unfolding crc_shift_bit bit_xor_iff push_bit_xor
  by (simp add: xor.assoc xor.left_commute xor.commute bit.xor_left_self del: push_bit_Suc One_nat_def)

lemma crc_shift_pow_xor: "(crc_shift ^^ n) (a XOR b) = (crc_shift ^^ n) a XOR (crc_shift ^^ n) b"
  by (induction n) (simp_all add: crc_shift_xor)

lemma crc_shift_pow_small:
  "\<forall>n \<ge> 64 - j. \<not> bit x n \<Longrightarrow> j \<le> 64 \<Longrightarrow> (crc_shift ^^ j) x = push_bit j x"
proof (induction j)
  case (Suc j)
  then have step: "(crc_shift ^^ j) x = push_bit j x" by simp
  have "\<not> bit (push_bit j x) 63"
    using Suc.prems by (auto simp: bit_push_bit_iff)
  then have "crc_shift (push_bit j x) = push_bit 1 (push_bit j x)"
    by (simp add: crc_shift_bit del: push_bit_Suc One_nat_def)
  with step show ?case by (simp add: push_bit_push_bit del: push_bit_Suc)
qed simp

fun burst_word :: "bytes \<Rightarrow> u64" where
  "burst_word [] = 0"
| "burst_word (b # bs) = push_bit 56 (ucast b) XOR drop_bit 8 (burst_word bs)"

lemma bit_burst_word:
  "n < 64 \<Longrightarrow> bit (burst_word bs) n \<longleftrightarrow>
     (63 - n) div 8 < length bs \<and> bit (bs ! ((63 - n) div 8)) (n mod 8)"
proof (induction bs arbitrary: n)
  case (Cons b bs)
  show ?case
  proof (cases "n < 56")
    case True
    then have "(63 - n) div 8 = Suc ((63 - (n + 8)) div 8)" "(n + 8) mod 8 = n mod 8" by auto
    with True Cons.IH [of "n + 8"] show ?thesis
      by (auto simp: bit_simps add.commute)
  next
    case False
    define m where "m = n - 56"
    with False Cons.prems have m: "n = 56 + m" "m < 8" by auto
    then have "(56 + m) mod 8 = m" by presburger
    have "\<not> bit (burst_word bs) (n + 8)"
      using bit_imp_le_length [of "burst_word bs" "n + 8"] m by auto
    with m \<open>(56 + m) mod 8 = m\<close> show ?thesis by (auto simp: bit_simps add.commute)
  qed
qed simp

lemma burst_word_inj:
  assumes "burst_word xs = burst_word ys" "length xs = length ys" "length xs \<le> 8"
  shows "xs = ys"
proof (rule nth_equalityI [OF assms(2)])
  fix i assume i: "i < length xs"
  show "xs ! i = ys ! i"
  proof (rule bit_word_eqI)
    fix m assume "m < LENGTH(8)"
    then have m: "m < 8" by simp
    let ?n = "8 * (7 - i) + m"
    have "i \<le> 7" using i assms(3) by simp
    with m have "63 - ?n = 7 - m + 8 * i" by linarith
    then have n: "?n < 64" "(63 - ?n) div 8 = i" "?n mod 8 = m"
      using m \<open>i \<le> 7\<close> by (simp_all only: div_mult_self2 mod_mult_self4) simp_all
    have "bit (burst_word xs) ?n = bit (burst_word ys) ?n" using assms(1) by simp
    then show "bit (xs ! i) m = bit (ys ! i) m"
      using n i assms(2) by (simp add: bit_burst_word)
  qed
qed

lemma foldl_crc_burst:
  "length bs \<le> 8 \<Longrightarrow> foldl crc_byte c bs = (crc_shift ^^ (8 * length bs)) (c XOR burst_word bs)"
proof (induction bs arbitrary: c)
  case (Cons b bs)
  let ?w = "burst_word bs"
  have low: "\<not> bit ?w n" if "n < 8" for n
    using that Cons.prems by (auto simp: bit_burst_word)
  have "(crc_shift ^^ 8) (drop_bit 8 ?w) = push_bit 8 (drop_bit 8 ?w)"
    by (rule crc_shift_pow_small) (auto simp: bit_simps dest: bit_imp_le_length)
  also have "\<dots> = ?w"
  proof (rule bit_word_eqI)
    fix n assume "n < LENGTH(64)"
    then show "bit (push_bit 8 (drop_bit 8 ?w)) n = bit ?w n"
      using low [of n] by (cases "n < 8") (auto simp: bit_simps)
  qed
  finally have w: "(crc_shift ^^ 8) (drop_bit 8 ?w) = ?w" .
  have "foldl crc_byte c (b # bs) =
      (crc_shift ^^ (8 * length bs)) ((crc_shift ^^ 8) (c XOR push_bit 56 (ucast b)) XOR ?w)"
    using Cons by (simp add: crc_byte_def [of c b])
  also have "\<dots> = (crc_shift ^^ (8 * length bs + 8)) (c XOR burst_word (b # bs))"
    unfolding funpow_add comp_apply crc_shift_pow_xor [of 8, symmetric]
    by (simp add: crc_shift_pow_xor [of 8] w xor.assoc)
  finally show ?case by (simp add: add.commute)
qed simp

lemma crc64_burst:
  assumes "length xs = length ys" "length xs \<le> 8" "xs \<noteq> ys"
  shows "crc64 (pre @ xs @ post) \<noteq> crc64 (pre @ ys @ post)"
proof
  assume "crc64 (pre @ xs @ post) = crc64 (pre @ ys @ post)"
  then have "foldl crc_byte (foldl crc_byte 0xFFFFFFFFFFFFFFFF pre) xs =
      foldl crc_byte (foldl crc_byte 0xFFFFFFFFFFFFFFFF pre) ys"
    by (auto simp: crc64_def xor_cancel_right dest: inj_foldl_crc)
  then have "burst_word xs = burst_word ys"
    using assms by (auto simp: foldl_crc_burst xor_cancel_left dest!: inj_crc_shift_pow)
  with assms show False by (auto dest: burst_word_inj)
qed

subsection \<open>Decimal numerals\<close>

lemma dec_value_snoc: "dec_value (bs @ [b]) = dec_value bs * 10 + (unat b - 48)"
  by (simp add: dec_value_def)

lemma unat_digit: "d < 10 \<Longrightarrow> unat (48 + of_nat d :: byte) = 48 + d"
  by (simp add: unat_word_ariths unat_of_nat take_bit_nat_eq_self)

lemma dec_value_dec_string [simp]: "dec_value (dec_string n) = n"
proof (induction n rule: dec_string.induct)
  case (1 n)
  show ?case
  proof (cases "n < 10")
    case True
    then show ?thesis
      by (subst dec_string.simps) (simp add: dec_value_def unat_digit)
  next
    case False
    with 1 show ?thesis
      by (subst dec_string.simps) (simp add: dec_value_snoc unat_digit)
  qed
qed

lemma inj_dec_string: "dec_string m = dec_string n \<Longrightarrow> m = n"
  by (metis dec_value_dec_string)

lemma inj_to_string: "to_string a = to_string b \<Longrightarrow> a = b"
  by (metis inj_dec_string to_string_def unsigned_word_eqI)

lemma dec_string_not_Nil [simp]: "dec_string n \<noteq> []"
  by (subst dec_string.simps) simp

lemma is_digit_digit: "d < 10 \<Longrightarrow> is_digit (48 + of_nat d)"
  by (simp add: is_digit_def word_le_nat_alt unat_digit)

lemma dec_string_digits: "b \<in> set (dec_string n) \<Longrightarrow> is_digit b"
proof (induction n rule: dec_string.induct)
  case (1 n)
  show ?case
  proof (cases "n < 10")
    case True
    with "1.prems" show ?thesis
      by (simp add: dec_string.simps [of n] is_digit_digit)
  next
    case False
    with "1.prems" have "b \<in> set (dec_string (n div 10)) \<or> b = 48 + of_nat (n mod 10)"
      by (auto simp: dec_string.simps [of n])
    with "1.IH" False show ?thesis
      by (auto simp: is_digit_digit)
  qed
qed

end
