(* ===== verification/Ieee_Double.thy ===== *)
theory Ieee_Double
  imports Complex_Main Gt_Prelude
begin

text \<open>
  The fragment of IEEE 754 binary64 that \<^verbatim>\<open>BloomFilter::BloomFilter\<close>, \<^verbatim>\<open>GravTree::hard_limit\<close> and the
  benchmarks compute with: conversion from an unsigned integer, product, quotient and sum of non-negative
  numbers, each correctly rounded to 53 significant bits (ties to even), and truncation to an
  unsigned integer. A number is \<open>FD m e\<close> for \<open>m * 2 ^ e\<close>; the exponents met here are far from
  overflow and underflow, so no range limit is modelled.

  \<open>LOG_2\<close> and \<open>NEG_LOG_001\<close> are the doubles \<^verbatim>\<open>std::log(2.0)\<close> and \<^verbatim>\<open>-std::log(0.01)\<close>,
  bit patterns \<^verbatim>\<open>0x3FE62E42FEFA39EF\<close> and \<^verbatim>\<open>0x40126BB1BBB55515\<close>.
\<close>

datatype fdouble = FD (fd_mant: int) (fd_exp: int)

function bit_len :: "int \<Rightarrow> nat" where
  "bit_len n = (if n \<le> 0 then 0 else Suc (bit_len (n div 2)))"
  by pat_completeness auto
termination
  by (relation "measure nat") auto

declare bit_len.simps [simp del]

definition fd_round :: "int \<Rightarrow> bool \<Rightarrow> int \<Rightarrow> fdouble" where
  "fd_round m sticky e =
     (let n = bit_len m in
      if n \<le> 53 then FD m e
      else let s = n - 53; q = m div 2 ^ s; r = m mod 2 ^ s; half = 2 ^ (s - 1) in
        FD (if r > half \<or> r = half \<and> (sticky \<or> odd q) then q + 1 else q) (e + int s))"

definition fd_of_nat :: "nat \<Rightarrow> fdouble" where
  "fd_of_nat n = fd_round (int n) False 0"

fun fd_mul :: "fdouble \<Rightarrow> fdouble \<Rightarrow> fdouble" where
  "fd_mul (FD a i) (FD b j) = fd_round (a * b) False (i + j)"

fun fd_div :: "fdouble \<Rightarrow> fdouble \<Rightarrow> fdouble" where
  "fd_div (FD a i) (FD b j) =
     fd_round (a * 2 ^ 128 div b) (a * 2 ^ 128 mod b \<noteq> 0) (i - j - 128)"

fun fd_add :: "fdouble \<Rightarrow> fdouble \<Rightarrow> fdouble" where
  "fd_add (FD a i) (FD b j) =
     (let e = min i j in fd_round (a * 2 ^ nat (i - e) + b * 2 ^ nat (j - e)) False e)"

fun fd_trunc :: "fdouble \<Rightarrow> nat" where
  "fd_trunc (FD m e) = nat (if e \<ge> 0 then m * 2 ^ nat e else m div 2 ^ nat (- e))"

definition LOG_2 :: fdouble where
  "LOG_2 = FD 0x162E42FEFA39EF (- 53)"

definition NEG_LOG_001 :: fdouble where
  "NEG_LOG_001 = FD 0x126BB1BBB55515 (- 50)"

definition FD_HALF :: fdouble where
  "FD_HALF = FD 1 (- 1)"

text \<open>The number a double stands for, and the lower bounds rounding respects.\<close>

definition fd_val :: "fdouble \<Rightarrow> real" where
  "fd_val d = of_int (fd_mant d) * 2 powi (fd_exp d)"

lemma bit_len_lower: "0 < n \<Longrightarrow> 2 ^ (bit_len n - 1) \<le> n"
proof (induction n rule: bit_len.induct)
  case (1 n)
  show ?case
  proof (cases "n div 2 = 0")
    case True
    with 1 have "n = 1" by linarith
    then show ?thesis by (simp add: bit_len.simps)
  next
    case False
    then have pos: "0 < n div 2" using "1.prems" by linarith
    then have "bit_len (n div 2) \<noteq> 0" by (subst bit_len.simps) simp
    then have "2 ^ bit_len (n div 2) = 2 * (2 :: int) ^ (bit_len (n div 2) - 1)"
      by (cases "bit_len (n div 2)") auto
    also have "\<dots> \<le> 2 * (n div 2)" using 1 pos by simp
    also have "\<dots> \<le> n" by simp
    finally show ?thesis using "1.prems" by (subst bit_len.simps) simp
  qed
qed

lemma div_pow_lower: "16 * 2 ^ s \<le> m \<Longrightarrow> 9 * m \<le> 10 * (m div 2 ^ s * 2 ^ s)" for m :: int
proof -
  assume *: "16 * 2 ^ s \<le> m"
  have "16 * 2 ^ s div 2 ^ s \<le> m div 2 ^ s" using * by (rule zdiv_mono1) simp
  then have "9 * 2 ^ s \<le> m div 2 ^ s * 2 ^ s" by (intro mult_right_mono) auto
  moreover have "m = m div 2 ^ s * 2 ^ s + m mod 2 ^ s" by (metis div_mult_mod_eq)
  moreover have "m mod 2 ^ s < 2 ^ s" by simp
  ultimately show ?thesis by linarith
qed

lemma fd_round_lower: "9 / 10 * (of_int m * 2 powi e) \<le> fd_val (fd_round m sticky e)" if "0 \<le> m"
proof (cases "bit_len m \<le> 53")
  case True
  then show ?thesis using that by (simp add: fd_round_def fd_val_def Let_def)
next
  case False
  define s where "s = bit_len m - 53"
  define q where "q = m div 2 ^ s"
  have "0 < m" using False that by (cases "m = 0") (simp_all add: bit_len.simps [of 0])
  have "(2 :: int) ^ (s + 4) \<le> 2 ^ (bit_len m - 1)"
    by (rule power_increasing) (use False in \<open>auto simp: s_def\<close>)
  also have "\<dots> \<le> m" using \<open>0 < m\<close> by (rule bit_len_lower)
  finally have "9 * m \<le> 10 * (q * 2 ^ s)"
    unfolding q_def by (intro div_pow_lower) (simp add: power_add)
  then have "of_int (9 * m) \<le> (of_int (10 * (q * 2 ^ s)) :: real)" by (simp only: of_int_le_iff)
  then have "9 / 10 * of_int m * 2 powi e \<le> (of_int q * 2 ^ s) * (2 powi e :: real)"
    by (intro mult_right_mono) auto
  also have "\<dots> = of_int q * 2 powi (e + int s)" by (simp add: power_int_add)
  also have "\<dots> \<le> fd_val (fd_round m sticky e)"
    using False unfolding fd_round_def Let_def s_def [symmetric] q_def [symmetric]
    by (auto simp: fd_val_def intro!: mult_right_mono)
  finally show ?thesis by (simp add: mult.assoc)
qed

lemma fd_round_mant_pos: "0 < fd_mant (fd_round m sticky e)" if "0 < m"
proof -
  have "0 < 9 / 10 * (of_int m * 2 powi e :: real)" using that by (simp add: zero_less_power_int)
  also have "\<dots> \<le> fd_val (fd_round m sticky e)" using that by (intro fd_round_lower) simp
  finally show ?thesis
    by (simp add: fd_val_def zero_less_mult_iff zero_less_power_int)
       (metis less_asym zero_less_numeral zero_less_power_int)
qed

lemma fd_mul_lower:
  "0 \<le> fd_mant a \<Longrightarrow> 0 \<le> fd_mant b \<Longrightarrow> 9 / 10 * (fd_val a * fd_val b) \<le> fd_val (fd_mul a b)"
  using fd_round_lower [of "fd_mant a * fd_mant b" "fd_exp a + fd_exp b" False]
  by (cases a; cases b) (simp add: fd_val_def power_int_add ac_simps)

lemma fd_div_lower:
  assumes "0 < fd_mant b" and big: "10 * fd_mant b \<le> fd_mant a * 2 ^ 128"
  shows "81 / 100 * (fd_val a / fd_val b) \<le> fd_val (fd_div a b)"
proof (cases a; cases b)
  fix m e n f assume ab: "a = FD m e" "b = FD n f"
  let ?q = "m * 2 ^ 128 div n"
  have n: "0 < n" "10 * n \<le> m * 2 ^ 128" using assms ab by simp_all
  have "m * 2 ^ 128 = ?q * n + m * 2 ^ 128 mod n" by (metis div_mult_mod_eq)
  moreover have "m * 2 ^ 128 mod n < n" using n(1) by simp
  ultimately have "9 * (m * 2 ^ 128) \<le> 10 * (?q * n)" using n(2) by linarith
  then have "of_int (9 * (m * 2 ^ 128)) \<le> (of_int (10 * (?q * n)) :: real)"
    by (simp only: of_int_le_iff)
  then have q: "9 / 10 * (of_int m * 2 ^ 128 / of_int n) \<le> (of_int ?q :: real)"
    using n(1) by (simp add: field_simps)
  define P :: real where "P = 2 ^ 128"
  have scale: "2 powi e / 2 powi f = 2 powi (e - f - 128) * P"
    by (simp add: power_int_diff P_def)
  have "81 / 100 * (fd_val a / fd_val b) = 81 / 100 * (of_int m / of_int n) * (2 powi e / 2 powi f)"
    by (simp add: fd_val_def ab)
  also have "\<dots> = 9 / 10 * (9 / 10 * (of_int m * P / of_int n) * 2 powi (e - f - 128))"
    unfolding scale by simp
  also have "\<dots> \<le> 9 / 10 * (of_int ?q * 2 powi (e - f - 128))"
    using q unfolding P_def by (intro mult_left_mono mult_right_mono) auto
  also have "\<dots> \<le> fd_val (fd_div a b)"
  proof -
    have "0 \<le> ?q" using n by (simp add: pos_imp_zdiv_nonneg_iff)
    then show ?thesis unfolding ab fd_div.simps by (rule fd_round_lower)
  qed
  finally show ?thesis .
qed

lemma fd_trunc_lower: "real n \<le> fd_val d \<Longrightarrow> n \<le> fd_trunc d"
proof (cases d)
  case (FD m e)
  assume *: "real n \<le> fd_val d"
  show ?thesis
  proof (cases "e \<ge> 0")
    case True
    with * FD have "of_int (int n) \<le> (of_int (m * 2 ^ nat e) :: real)"
      by (simp add: fd_val_def power_int_def)
    then have "int n \<le> m * 2 ^ nat e" by (simp only: of_int_le_iff)
    then show ?thesis using True FD by simp
  next
    case False
    with * FD have "of_int (int n * 2 ^ nat (- e)) \<le> (of_int m :: real)"
      by (simp add: fd_val_def power_int_def field_simps)
    then have "int n * 2 ^ nat (- e) \<le> m" by (simp only: of_int_le_iff)
    then have "int n * 2 ^ nat (- e) div 2 ^ nat (- e) \<le> m div 2 ^ nat (- e)"
      by (rule zdiv_mono1) simp
    then have "int n \<le> m div 2 ^ nat (- e)" by simp
    then show ?thesis using False FD by simp
  qed
qed

text \<open>The matching upper bounds.\<close>

lemma div_pow_upper: "m div 2 ^ s * 2 ^ s \<le> m" for m :: int
  using div_mult_mod_eq [of m "2 ^ s"] pos_mod_sign [of "2 ^ s" m] zero_less_power [of "2::int" s]
  by linarith

lemma fd_round_upper: "fd_val (fd_round m sticky e) \<le> 11 / 10 * (of_int m * 2 powi e)" if "0 \<le> m"
proof (cases "bit_len m \<le> 53")
  case True
  then show ?thesis using that by (simp add: fd_round_def fd_val_def Let_def)
next
  case False
  define s where "s = bit_len m - 53"
  define q where "q = m div 2 ^ s"
  have "0 < m" using False that by (cases "m = 0") (simp_all add: bit_len.simps [of 0])
  have "(2 :: int) ^ (s + 4) \<le> 2 ^ (bit_len m - 1)"
    by (rule power_increasing) (use False in \<open>auto simp: s_def\<close>)
  also have "\<dots> \<le> m" using \<open>0 < m\<close> by (rule bit_len_lower)
  finally have "16 * 2 ^ s \<le> m" by (simp add: power_add)
  moreover have "q * 2 ^ s \<le> m"
    unfolding q_def by (rule div_pow_upper)
  moreover have "(0 :: int) < 2 ^ s" by simp
  moreover have "16 * b \<le> m \<Longrightarrow> a \<le> m \<Longrightarrow> 0 < b \<Longrightarrow> 10 * (a + b) \<le> 11 * m" for a b :: int
    by (simp add: distrib_left)
  ultimately have "10 * ((q + 1) * 2 ^ s) \<le> 11 * m" unfolding distrib_right mult_1 by blast
  then have "of_int (10 * ((q + 1) * 2 ^ s)) \<le> (of_int (11 * m) :: real)" by (simp only: of_int_le_iff)
  then have "(of_int (q + 1) * 2 ^ s) * (2 powi e :: real) \<le> 11 / 10 * of_int m * 2 powi e"
    by (intro mult_right_mono) auto
  moreover have "fd_val (fd_round m sticky e) \<le> of_int (q + 1) * 2 powi (e + int s)"
    using False unfolding fd_round_def Let_def s_def [symmetric] q_def [symmetric]
    by (auto simp: fd_val_def intro!: mult_right_mono)
  moreover have "of_int (q + 1) * 2 powi (e + int s) = (of_int (q + 1) * 2 ^ s) * (2 powi e :: real)"
    by (simp add: power_int_add)
  ultimately show ?thesis by linarith
qed

lemma fd_mul_upper:
  "0 \<le> fd_mant a \<Longrightarrow> 0 \<le> fd_mant b \<Longrightarrow> fd_val (fd_mul a b) \<le> 11 / 10 * (fd_val a * fd_val b)"
  using fd_round_upper [of "fd_mant a * fd_mant b" False "fd_exp a + fd_exp b"]
  by (cases a; cases b) (simp add: fd_val_def power_int_add ac_simps)

lemma fd_div_upper:
  assumes "0 < fd_mant b" "0 \<le> fd_mant a"
  shows "fd_val (fd_div a b) \<le> 11 / 10 * (fd_val a / fd_val b)"
proof (cases a; cases b)
  fix m e n f assume ab: "a = FD m e" "b = FD n f"
  let ?q = "m * 2 ^ 128 div n"
  have n: "0 < n" "0 \<le> m" using assms ab by simp_all
  have "?q * n \<le> m * 2 ^ 128"
    using div_mult_mod_eq [of "m * 2 ^ 128" n] pos_mod_sign [of n "m * 2 ^ 128"] n(1) by linarith
  then have "of_int (?q * n) \<le> (of_int (m * 2 ^ 128) :: real)" by (simp only: of_int_le_iff)
  then have q: "(of_int ?q :: real) \<le> of_int m * 2 ^ 128 / of_int n"
    using n(1) by (simp add: field_simps)
  define P :: real where "P = 2 ^ 128"
  have scale: "2 powi e / 2 powi f = 2 powi (e - f - 128) * P"
    by (simp add: power_int_diff P_def)
  have "0 \<le> ?q" using n by (simp add: pos_imp_zdiv_nonneg_iff)
  then have "fd_val (fd_div a b) \<le> 11 / 10 * (of_int ?q * 2 powi (e - f - 128))"
    unfolding ab fd_div.simps by (rule fd_round_upper)
  also have "\<dots> \<le> 11 / 10 * (of_int m * P / of_int n * 2 powi (e - f - 128))"
    using q unfolding P_def by (intro mult_left_mono mult_right_mono) auto
  also have "\<dots> = 11 / 10 * (of_int m / of_int n) * (2 powi e / 2 powi f)"
    unfolding scale by simp
  also have "\<dots> = 11 / 10 * (fd_val a / fd_val b)" by (simp add: fd_val_def ab)
  finally show ?thesis .
qed

lemma fd_trunc_upper: "0 \<le> fd_mant d \<Longrightarrow> real (fd_trunc d) \<le> fd_val d"
proof (cases d)
  case (FD m e)
  assume "0 \<le> fd_mant d"
  with FD have m: "0 \<le> m" by simp
  show ?thesis
  proof (cases "e \<ge> 0")
    case True
    with FD m show ?thesis by (simp add: fd_val_def power_int_def)
  next
    case False
    let ?p = "2 ^ nat (- e) :: int"
    have "m div ?p * ?p \<le> m" by (rule div_pow_upper)
    then have "of_int (m div ?p * ?p) \<le> (of_int m :: real)" by (simp only: of_int_le_iff)
    then have "of_int (m div ?p) \<le> (of_int m / 2 ^ nat (- e) :: real)" by (simp add: field_simps)
    with False FD m show ?thesis
      by (simp add: fd_val_def power_int_def field_simps pos_imp_zdiv_nonneg_iff)
  qed
qed

subsection \<open>Rounding is monotone\<close>

lemma bit_len_upper: "0 \<le> n \<Longrightarrow> n < 2 ^ bit_len n"
proof (induction n rule: bit_len.induct)
  case (1 n)
  show ?case
  proof (cases "n = 0")
    case False
    then have "n div 2 < 2 ^ bit_len (n div 2)" using 1 by (simp add: pos_imp_zdiv_nonneg_iff)
    moreover have "bit_len n = Suc (bit_len (n div 2))" using False "1.prems" by (subst bit_len.simps) simp
    ultimately show ?thesis by simp
  qed simp
qed

lemma bit_len_mono:
  assumes "0 \<le> m" "m \<le> n"
  shows "bit_len m \<le> bit_len n"
proof (cases "m = 0")
  case True
  then show ?thesis by (simp add: bit_len.simps [of 0])
next
  case False
  then have "2 ^ (bit_len m - 1) \<le> m" using assms(1) by (intro bit_len_lower) simp
  also have "\<dots> \<le> n" by (rule assms(2))
  also have "n < 2 ^ bit_len n" using assms by (intro bit_len_upper) simp
  finally show ?thesis by simp
qed

definition near :: "nat \<Rightarrow> int \<Rightarrow> int" where
  "near s m = (if m mod 2 ^ s > 2 ^ (s - 1) \<or> m mod 2 ^ s = 2 ^ (s - 1) \<and> odd (m div 2 ^ s) then m div 2 ^ s + 1 else m div 2 ^ s)"

definition rounded :: "int \<Rightarrow> int" where
  "rounded m = (if bit_len m \<le> 53 then m else near (bit_len m - 53) m * 2 ^ (bit_len m - 53))"

lemma fd_round_val: "fd_val (fd_round m False e) = of_int (rounded m) * 2 powi e"
proof (cases "bit_len m \<le> 53")
  case False
  define s where "s = bit_len m - 53"
  have "fd_round m False e = FD (near s m) (e + int s)"
    using False by (simp add: fd_round_def Let_def near_def s_def)
  moreover have "rounded m = near s m * 2 ^ s" using False by (simp add: rounded_def s_def)
  ultimately show ?thesis by (simp add: fd_val_def power_int_add)
qed (simp add: rounded_def fd_val_def fd_round_def)

lemma near_range: "m div 2 ^ s \<le> near s m" "near s m \<le> m div 2 ^ s + 1"
  by (simp_all add: near_def)

lemma rounded_range:
  assumes "53 < bit_len m" "0 \<le> m"
  shows "2 ^ (bit_len m - 1) \<le> rounded m" "rounded m \<le> 2 ^ bit_len m"
proof -
  define s where "s = bit_len m - 53"
  have s: "bit_len m = 53 + s" using assms(1) by (simp add: s_def)
  have r: "rounded m = near s m * 2 ^ s" using assms(1) by (simp add: rounded_def s)
  have "0 < m" using assms by (cases "m = 0") (simp_all add: bit_len.simps [of 0])
  have lo: "2 ^ 52 * 2 ^ s \<le> m" using bit_len_lower [OF \<open>0 < m\<close>] s by (simp add: power_add)
  have "2 ^ 52 \<le> m div 2 ^ s" using zdiv_mono1 [OF lo, of "2 ^ s"] by simp
  then have "2 ^ 52 * 2 ^ s \<le> rounded m" using near_range(1) [of m s] unfolding r by (intro mult_right_mono) auto
  then show "2 ^ (bit_len m - 1) \<le> rounded m" by (simp add: s power_add)
  have "m div 2 ^ s * 2 ^ s < 2 ^ 53 * 2 ^ s"
    using div_pow_upper [of m s] bit_len_upper [OF assms(2)] unfolding s power_add by (rule le_less_trans)
  then have "m div 2 ^ s < 2 ^ 53" by (rule mult_right_less_imp_less) simp
  then have "rounded m \<le> 2 ^ 53 * 2 ^ s" using near_range(2) [of s m] unfolding r by (intro mult_right_mono) auto
  then show "rounded m \<le> 2 ^ bit_len m" by (simp add: s power_add)
qed

lemma near_mono:
  assumes "m \<le> n"
  shows "near s m \<le> near s n"
proof -
  have q: "m div 2 ^ s \<le> n div 2 ^ s" using assms by (rule zdiv_mono1) simp
  show ?thesis
  proof (cases "m div 2 ^ s = n div 2 ^ s")
    case True
    then have "m mod 2 ^ s \<le> n mod 2 ^ s" using assms div_mult_mod_eq [of m "2 ^ s"] div_mult_mod_eq [of n "2 ^ s"] by simp
    then show ?thesis unfolding near_def True by auto
  next
    case False
    then show ?thesis using q near_range(2) [of s m] near_range(1) [of n s] by linarith
  qed
qed

lemma rounded_mono:
  assumes "0 \<le> m" "m \<le> n"
  shows "rounded m \<le> rounded n"
proof -
  note len = bit_len_mono [OF assms]
  consider "bit_len n \<le> 53" | "53 < bit_len n" "bit_len m < bit_len n" | "53 < bit_len n" "bit_len m = bit_len n"
    using len by linarith
  then show ?thesis
  proof cases
    case 1
    then show ?thesis using assms len by (simp add: rounded_def)
  next
    case 2
    have "rounded m \<le> 2 ^ bit_len m"
      using rounded_range(2) [of m] bit_len_upper [OF assms(1)] assms(1) by (cases "bit_len m \<le> 53") (simp_all add: rounded_def)
    also have "(2 :: int) ^ bit_len m \<le> 2 ^ (bit_len n - 1)" using 2 by (intro power_increasing) auto
    also have "\<dots> \<le> rounded n" using rounded_range(1) [of n] 2 assms by simp
    finally show ?thesis .
  next
    case 3
    then show ?thesis using near_mono [OF assms(2)] by (simp add: rounded_def)
  qed
qed

lemma fd_trunc_mono:
  assumes "0 \<le> fd_mant a" "fd_val a \<le> fd_val b"
  shows "fd_trunc a \<le> fd_trunc b"
  using fd_trunc_upper [OF assms(1)] assms(2) by (intro fd_trunc_lower) linarith

lemma fd_round_mant:
  assumes "0 \<le> m"
  shows "0 \<le> fd_mant (fd_round m sticky e)"
proof (cases "m = 0")
  case True
  have "bit_len 0 = 0" by (subst bit_len.simps) simp
  then have "fd_round 0 sticky e = FD 0 e" by (simp add: fd_round_def)
  then show ?thesis using True by simp
next
  case False
  then show ?thesis using fd_round_mant_pos [of m sticky e] assms by simp
qed

text \<open>Numbers below \<open>2 ^ 53\<close> are exact.\<close>

lemma fd_exact:
  assumes "n < 2 ^ 53"
  shows "fd_round (int n) False e = FD (int n) e"
proof (cases "n = 0")
  case False
  have "2 ^ (bit_len (int n) - 1) \<le> int n" using False by (intro bit_len_lower) simp
  also have "int n < 2 ^ 53" using assms by (simp add: of_nat_less_numeral_power_cancel_iff)
  finally have "bit_len (int n) - 1 < 53" by (rule power_less_imp_less_exp [rotated]) simp
  then have "bit_len (int n) \<le> 53" by linarith
  then show ?thesis by (simp add: fd_round_def)
next
  case True
  have "bit_len 0 = 0" by (subst bit_len.simps) simp
  then show ?thesis by (simp add: True fd_round_def)
qed

text \<open>Conversions and quotients, with the crude bounds the clients need.\<close>

lemma fd_of_nat_range:
  shows "0 \<le> fd_mant (fd_of_nat n)" "fd_val (fd_of_nat n) \<le> 11 / 10 * real n" "9 / 10 * real n \<le> fd_val (fd_of_nat n)"
    "0 < n \<Longrightarrow> 0 < fd_mant (fd_of_nat n)"
  using fd_round_mant [of "int n" False 0] fd_round_upper [of "int n" False 0] fd_round_lower [of "int n" 0 False]
    fd_round_mant_pos [of "int n" False 0] by (simp_all add: fd_of_nat_def)

lemma fd_div_range:
  assumes "0 \<le> fd_mant a" "fd_val a \<le> x" "0 < n"
  shows "0 \<le> fd_mant (fd_div a (fd_of_nat n))" "fd_val (fd_div a (fd_of_nat n)) \<le> 11 / 9 * (x / real n)"
proof -
  note N = fd_of_nat_range [of n]
  obtain m e k f where ab: "a = FD m e" "fd_of_nat n = FD k f" by (metis fdouble.exhaust)
  have "0 \<le> m * 2 ^ 128 div k" using assms(1) N(4) [OF assms(3)] ab by (simp add: pos_imp_zdiv_nonneg_iff)
  then show "0 \<le> fd_mant (fd_div a (fd_of_nat n))" unfolding ab fd_div.simps by (rule fd_round_mant)
  have "fd_val (fd_div a (fd_of_nat n)) \<le> 11 / 10 * (fd_val a / fd_val (fd_of_nat n))"
    by (rule fd_div_upper [OF N(4) [OF assms(3)] assms(1)])
  also have "fd_val a / fd_val (fd_of_nat n) \<le> x / (9 / 10 * real n)"
    using assms N(3) by (intro frac_le) (auto simp: fd_val_def intro: order_trans [rotated])
  finally show "fd_val (fd_div a (fd_of_nat n)) \<le> 11 / 9 * (x / real n)" by (simp add: field_simps)
qed

end
