(* ===== verification/Bloom_Filter.thy ===== *)
theory Bloom_Filter
  imports Byte_Codec Ieee_Double
begin

text \<open>
  \<^verbatim>\<open>class BloomFilter\<close> of \<^verbatim>\<open>include/gravtree/bloom.h\<close> and \<^verbatim>\<open>src/bloom.cpp\<close>: the MurmurHash3 pair
  of base hashes on 64-bit words, the constructor's sizing in double arithmetic, setting and testing
  bits, and the serialised form. A modulus by a zero bit count and a read past the end of the
  caller's memory are undefined in C++ and are the error \<open>Undefined_behaviour\<close> here.

  The contract a caller relies on is the locale \<open>approximate_set\<close>: adding returns a filter that
  answers yes for the added key and for everything it answered yes to before. It is interpreted on
  \<open>bloom_add\<close> and \<open>bloom_might_contain\<close>; the zero-false-negative theorem of the class, the
  round trip of its serialisation and its error cases follow.
\<close>

unbundle bit_operations_syntax

subsection \<open>Hashing\<close>

definition fmix64 :: "u64 \<Rightarrow> u64" where
  "fmix64 k0 =
     (let k1 = k0 XOR drop_bit 33 k0;
          k2 = k1 * 0xff51afd7ed558ccd;
          k3 = k2 XOR drop_bit 33 k2;
          k4 = k3 * 0xc4ceb9fe1a85ec53
      in k4 XOR drop_bit 33 k4)"

definition rotl :: "nat \<Rightarrow> u64 \<Rightarrow> u64" where
  "rotl n x = push_bit n x OR drop_bit (64 - n) x"

definition MURMUR_C1 :: u64 where "MURMUR_C1 = 0x87c37b91114253d5"
definition MURMUR_C2 :: u64 where "MURMUR_C2 = 0x4cf5ad432745937f"

definition mix_k1 :: "u64 \<Rightarrow> u64" where
  "mix_k1 k = rotl 31 (k * MURMUR_C1) * MURMUR_C2"

definition mix_k2 :: "u64 \<Rightarrow> u64" where
  "mix_k2 k = rotl 33 (k * MURMUR_C2) * MURMUR_C1"

definition hash_block :: "bytes \<Rightarrow> u64 \<times> u64 \<Rightarrow> nat \<Rightarrow> u64 \<times> u64" where
  "hash_block data = (\<lambda>(h1, h2) i.
     let k1 = le_word (take 8 (drop (i * 16) data));
         k2 = le_word (take 8 (drop (i * 16 + 8) data));
         h1' = (rotl 27 (h1 XOR mix_k1 k1) + h2) * 5 + 0x52dce729;
         h2' = (rotl 31 (h2 XOR mix_k2 k2) + h1') * 5 + 0x38495ab5
     in (h1', h2'))"

text \<open>
  The fall-through \<^verbatim>\<open>switch (len & 15)\<close>: case \<open>n\<close> runs every case below it, so bytes
  \<open>n - 1\<close> down to \<open>8\<close> go to \<open>k2\<close>, bytes below \<open>8\<close> to \<open>k1\<close>.
\<close>

definition hash_tail :: "bytes \<Rightarrow> nat \<Rightarrow> u64 \<times> u64 \<Rightarrow> u64 \<times> u64" where
  "hash_tail tail n = (\<lambda>(h1, h2).
     let k2 = foldl (\<lambda>k j. k XOR push_bit (8 * (j - 8)) (ucast (tail ! j))) 0 (rev [8..<n]);
         k1 = foldl (\<lambda>k j. k XOR push_bit (8 * j) (ucast (tail ! j))) 0 (rev [0..<min n 8])
     in (if n \<ge> 1 then h1 XOR mix_k1 k1 else h1, if n \<ge> 9 then h2 XOR mix_k2 k2 else h2))"

definition base_hashes :: "bytes \<Rightarrow> u64 \<times> u64" where
  "base_hashes data =
     (let len = length data;
          nblocks = len div 16;
          (a1, a2) = foldl (hash_block data) (0x9368f2a5c3b1d4e7, 0x1a2b3c4d5e6f7890) [0..<nblocks];
          (b1, b2) = hash_tail (drop (nblocks * 16) data) (len mod 16) (a1, a2);
          c1 = b1 XOR of_nat len; c2 = b2 XOR of_nat len;
          d1 = c1 + c2; d2 = c2 + d1;
          e1 = fmix64 d1; e2 = fmix64 d2;
          f1 = e1 + e2; f2 = e2 + f1
      in (f1, f2))"

subsection \<open>The filter\<close>

record bloom =
  bits :: bytes
  num_hash_funcs :: nat

definition bit_count :: "bloom \<Rightarrow> nat" where
  "bit_count f = length (bits f) * 8"

definition nth_hash :: "bloom \<Rightarrow> u64 \<Rightarrow> u64 \<Rightarrow> nat \<Rightarrow> nat res" where
  "nth_hash f h1 h2 i =
     (if bit_count f = 0 then Inl Undefined_behaviour
      else Inr (unat (h1 + of_nat i * h2) mod bit_count f))"

definition bf_set_bit :: "nat \<Rightarrow> bloom \<Rightarrow> bloom" where
  "bf_set_bit pos f = f\<lparr>bits := (bits f)[pos div 8 := bits f ! (pos div 8) OR push_bit (pos mod 8) 1]\<rparr>"

definition bf_get_bit :: "nat \<Rightarrow> bloom \<Rightarrow> bool" where
  "bf_get_bit pos f \<longleftrightarrow> drop_bit (pos mod 8) (bits f ! (pos div 8)) AND 1 \<noteq> 0"

text \<open>
  The constructor. \<open>neg_log_fpr\<close> is the double \<^verbatim>\<open>-std::log(fpr)\<close>; rounding is symmetric, so the
  sign may be moved.
\<close>

definition bloom_new :: "nat \<Rightarrow> fdouble \<Rightarrow> bloom" where
  "bloom_new expected_entries neg_log_fpr =
     (let n = (if expected_entries = 0 then 1 else expected_entries);
          m_d = fd_div (fd_mul (fd_of_nat n) neg_log_fpr) (fd_mul LOG_2 LOG_2);
          m = (fd_trunc m_d + 63) div 64 * 64;
          k = fd_trunc (fd_add (fd_mul (fd_div (fd_of_nat m) (fd_of_nat n)) LOG_2) FD_HALF);
          k' = (if k < 1 then 1 else k)
      in \<lparr>bits = replicate (m div 8) 0, num_hash_funcs = (if k' > 20 then 20 else k')\<rparr>)"

fun bloom_set_hashes :: "u64 \<Rightarrow> u64 \<Rightarrow> nat list \<Rightarrow> bloom \<Rightarrow> bloom res" where
  "bloom_set_hashes h1 h2 [] f = Inr f"
| "bloom_set_hashes h1 h2 (i # is) f =
     bind_res (nth_hash f h1 h2 i) (\<lambda>pos. bloom_set_hashes h1 h2 is (bf_set_bit pos f))"

definition bloom_add :: "bytes \<Rightarrow> bloom \<Rightarrow> bloom res" where
  "bloom_add k f = (case base_hashes k of (h1, h2) \<Rightarrow>
     bloom_set_hashes h1 h2 [0..<num_hash_funcs f] f)"

fun bloom_test_hashes :: "u64 \<Rightarrow> u64 \<Rightarrow> nat list \<Rightarrow> bloom \<Rightarrow> bool res" where
  "bloom_test_hashes h1 h2 [] f = Inr True"
| "bloom_test_hashes h1 h2 (i # is) f =
     bind_res (nth_hash f h1 h2 i) (\<lambda>pos.
       if \<not> bf_get_bit pos f then Inr False else bloom_test_hashes h1 h2 is f)"

definition bloom_might_contain :: "bloom \<Rightarrow> bytes \<Rightarrow> bool res" where
  "bloom_might_contain f k = (case base_hashes k of (h1, h2) \<Rightarrow>
     bloom_test_hashes h1 h2 [0..<num_hash_funcs f] f)"

definition bloom_serialize :: "bloom \<Rightarrow> bytes" where
  "bloom_serialize f =
     le_bytes 4 (of_nat (num_hash_funcs f) :: u32) @
     le_bytes 8 (of_nat (length (bits f) * 8) :: u64) @ bits f"

text \<open>
  \<^verbatim>\<open>deserialize(data, size)\<close>: \<open>mem\<close> is the memory from \<^verbatim>\<open>data\<close> to the end of the caller's
  allocation, which may be shorter than the \<open>sz\<close> the caller claims.
\<close>

definition bloom_deserialize :: "bytes \<Rightarrow> nat \<Rightarrow> bloom res" where
  "bloom_deserialize mem sz =
     (if sz < 12 then Inl Bloom_too_small
      else if length mem < 12 then Inl Undefined_behaviour
      else let nhf = le_word (take 4 mem) :: u32;
               nb = le_word (take 8 (drop 4 mem)) :: u64;
               byte_count = unat nb div 8
        in if sz < 12 + byte_count then Inl Bloom_truncated
           else if length mem < 12 + byte_count then Inl Undefined_behaviour
           else Inr \<lparr>bits = take byte_count (drop 12 mem), num_hash_funcs = unat nhf\<rparr>)"

fun add_all :: "('k \<Rightarrow> 'f \<Rightarrow> 'f res) \<Rightarrow> 'k list \<Rightarrow> 'f \<Rightarrow> 'f res" where
  "add_all add [] f = Inr f"
| "add_all add (k # ks) f = bind_res (add k f) (add_all add ks)"

subsection \<open>The contract of an approximate set\<close>

locale approximate_set =
  fixes add :: "'k \<Rightarrow> 'f \<Rightarrow> 'f res"
    and mem :: "'f \<Rightarrow> 'k \<Rightarrow> bool res"
    and ok :: "'f \<Rightarrow> bool"
  assumes add_returns: "ok f \<Longrightarrow> \<exists>f'. add k f = Inr f' \<and> ok f' \<and> mem f' k = Inr True"
    and add_keeps: "ok f \<Longrightarrow> add k f = Inr f' \<Longrightarrow> mem f k' = Inr True \<Longrightarrow> mem f' k' = Inr True"
    and mem_returns: "ok f \<Longrightarrow> \<exists>b. mem f k = Inr b"
begin

lemma add_all_keeps:
  "ok f \<Longrightarrow> mem f k = Inr True \<Longrightarrow> add_all add ks f = Inr f' \<Longrightarrow> mem f' k = Inr True"
proof (induction ks arbitrary: f)
  case (Cons x ks)
  then obtain g where g: "add x f = Inr g" "ok g" using add_returns by blast
  with Cons.prems have "mem g k = Inr True" "add_all add ks g = Inr f'"
    by (auto intro: add_keeps)
  with g Cons.IH show ?case by blast
qed simp

lemma no_false_negatives:
  "ok f \<Longrightarrow>
     \<exists>f'. add_all add ks f = Inr f' \<and> ok f' \<and> (\<forall>k\<in>set ks. mem f' k = Inr True)"
proof (induction ks arbitrary: f)
  case (Cons x ks)
  from Cons.prems obtain g where g: "add x f = Inr g" "ok g" "mem g x = Inr True"
    using add_returns by blast
  from Cons.IH [OF g(2)] obtain f' where
    "add_all add ks g = Inr f'" "ok f'" "\<forall>k\<in>set ks. mem f' k = Inr True" by blast
  moreover have "mem f' x = Inr True"
    using add_all_keeps [OF g(2,3)] calculation(1) by blast
  ultimately show ?case using g(1) by simp
qed simp

end

subsection \<open>Setting and testing bits\<close>

abbreviation bloom_ok :: "bloom \<Rightarrow> bool" where
  "bloom_ok f \<equiv> 0 < length (bits f)"

lemma bf_get_bit_iff: "bf_get_bit pos f \<longleftrightarrow> bit (bits f ! (pos div 8)) (pos mod 8)"
  by (simp add: bf_get_bit_def bit_iff_odd_drop_bit and_one_eq odd_iff_mod_2_eq_one)

lemma bf_set_bit_sel [simp]:
  "length (bits (bf_set_bit pos f)) = length (bits f)"
  "num_hash_funcs (bf_set_bit pos f) = num_hash_funcs f"
  "bit_count (bf_set_bit pos f) = bit_count f"
  by (simp_all add: bf_set_bit_def bit_count_def)

lemma bf_get_set_bit:
  "p < bit_count f \<Longrightarrow> bf_get_bit q (bf_set_bit p f) \<longleftrightarrow> q = p \<or> bf_get_bit q f"
proof -
  assume p: "p < bit_count f"
  then have "p div 8 < length (bits f)" by (simp add: bit_count_def less_mult_imp_div_less)
  moreover have "q = p" if "q div 8 = p div 8" "q mod 8 = p mod 8"
    using that by (metis div_mult_mod_eq)
  ultimately show ?thesis
    by (cases "q div 8 = p div 8")
       (auto simp: bf_get_bit_iff bf_set_bit_def bit_simps)
qed

lemma nth_hash_set_bit [simp]: "nth_hash (bf_set_bit p f) h1 h2 i = nth_hash f h1 h2 i"
  by (simp add: nth_hash_def)

lemma nth_hash_ok:
  "bloom_ok f \<Longrightarrow> \<exists>p. nth_hash f h1 h2 i = Inr p \<and> p < bit_count f"
  by (auto simp: nth_hash_def bit_count_def)

text \<open>The bit positions a key hashes to in a filter of this size.\<close>

definition key_bits :: "bloom \<Rightarrow> bytes \<Rightarrow> nat set" where
  "key_bits f k = (\<lambda>i. unat (fst (base_hashes k) + of_nat i * snd (base_hashes k)) mod bit_count f)
     ` {0..<num_hash_funcs f}"

lemma bloom_set_hashes_spec:
  "bloom_ok f \<Longrightarrow>
     \<exists>f'. bloom_set_hashes h1 h2 is f = Inr f' \<and> length (bits f') = length (bits f) \<and>
       num_hash_funcs f' = num_hash_funcs f \<and>
       (\<forall>q. bf_get_bit q f' \<longleftrightarrow>
          bf_get_bit q f \<or> (\<exists>i\<in>set is. q = unat (h1 + of_nat i * h2) mod bit_count f))"
proof (induction "is" arbitrary: f)
  case (Cons i "is")
  let ?p = "unat (h1 + of_nat i * h2) mod bit_count f"
  have p: "?p < bit_count f" "nth_hash f h1 h2 i = Inr ?p"
    using Cons.prems by (simp_all add: nth_hash_def bit_count_def)
  from Cons.IH [of "bf_set_bit ?p f"] Cons.prems obtain f' where
    "bloom_set_hashes h1 h2 is (bf_set_bit ?p f) = Inr f'" "length (bits f') = length (bits f)"
    "num_hash_funcs f' = num_hash_funcs f"
    "\<forall>q. bf_get_bit q f' \<longleftrightarrow>
       bf_get_bit q (bf_set_bit ?p f) \<or> (\<exists>i\<in>set is. q = unat (h1 + of_nat i * h2) mod bit_count f)"
    by auto
  with p show ?case by (auto simp: bf_get_set_bit)
qed simp

lemma bloom_add_spec:
  "bloom_ok f \<Longrightarrow>
     \<exists>f'. bloom_add k f = Inr f' \<and> length (bits f') = length (bits f) \<and>
       num_hash_funcs f' = num_hash_funcs f \<and>
       (\<forall>q. bf_get_bit q f' \<longleftrightarrow> bf_get_bit q f \<or> q \<in> key_bits f k)"
  using bloom_set_hashes_spec
    [of f "fst (base_hashes k)" "snd (base_hashes k)" "[0..<num_hash_funcs f]"]
  by (auto simp: bloom_add_def key_bits_def split: prod.splits)

lemma bloom_test_hashes_spec:
  "bloom_ok f \<Longrightarrow> bloom_test_hashes h1 h2 is f =
     Inr (\<forall>i\<in>set is. bf_get_bit (unat (h1 + of_nat i * h2) mod bit_count f) f)"
  by (induction "is") (auto simp: nth_hash_def bit_count_def)

lemma bloom_might_contain_spec:
  "bloom_ok f \<Longrightarrow> bloom_might_contain f k = Inr (\<forall>q\<in>key_bits f k. bf_get_bit q f)"
  by (simp add: bloom_might_contain_def bloom_test_hashes_spec key_bits_def split_beta)

lemma key_bits_cong:
  "length (bits f) = length (bits g) \<Longrightarrow> num_hash_funcs f = num_hash_funcs g \<Longrightarrow>
     key_bits f k = key_bits g k"
  by (simp add: key_bits_def bit_count_def)

interpretation bloom_set: approximate_set bloom_add bloom_might_contain bloom_ok
proof unfold_locales
  fix f k k' f'
  assume ok: "bloom_ok f"
  from bloom_add_spec [OF ok, of k] obtain g where g: "bloom_add k f = Inr g"
    "length (bits g) = length (bits f)" "num_hash_funcs g = num_hash_funcs f"
    "\<And>q. bf_get_bit q g \<longleftrightarrow> bf_get_bit q f \<or> q \<in> key_bits f k" by blast
  then have same: "key_bits g x = key_bits f x" for x by (intro key_bits_cong) auto
  with g ok show "\<exists>f'. bloom_add k f = Inr f' \<and> bloom_ok f' \<and> bloom_might_contain f' k = Inr True"
    by (auto simp: bloom_might_contain_spec)
  show "bloom_might_contain f' k' = Inr True"
    if "bloom_add k f = Inr f'" "bloom_might_contain f k' = Inr True"
    using that g same ok by (auto simp: bloom_might_contain_spec)
  show "\<exists>b. bloom_might_contain f k = Inr b"
    using ok by (simp add: bloom_might_contain_spec)
qed

lemma add_all_bits:
  "bloom_ok f \<Longrightarrow> add_all bloom_add ks f = Inr f' \<Longrightarrow>
     length (bits f') = length (bits f) \<and> num_hash_funcs f' = num_hash_funcs f \<and>
     (\<forall>q. bf_get_bit q f' \<longleftrightarrow> bf_get_bit q f \<or> (\<exists>k\<in>set ks. q \<in> key_bits f k))"
proof (induction ks arbitrary: f)
  case (Cons x ks)
  from bloom_add_spec [OF Cons.prems(1), of x] obtain g where g: "bloom_add x f = Inr g"
    "length (bits g) = length (bits f)" "num_hash_funcs g = num_hash_funcs f"
    "\<And>q. bf_get_bit q g \<longleftrightarrow> bf_get_bit q f \<or> q \<in> key_bits f x" by blast
  with Cons.prems have "bloom_ok g" "add_all bloom_add ks g = Inr f'" by auto
  from Cons.IH [OF this] g key_bits_cong [of g f] show ?case by auto
qed simp

subsection \<open>The constructor\<close>

lemma bloom_new_bits:
  "bits (bloom_new n p) = replicate (length (bits (bloom_new n p))) 0"
  by (simp add: bloom_new_def Let_def)

lemma bloom_new_no_bits:
  "q < bit_count (bloom_new n p) \<Longrightarrow> \<not> bf_get_bit q (bloom_new n p)"
  by (subst bf_get_bit_iff, subst bloom_new_bits)
     (simp add: bit_count_def less_mult_imp_div_less)

lemma bloom_new_hash_funcs:
  "1 \<le> num_hash_funcs (bloom_new n p)" "num_hash_funcs (bloom_new n p) \<le> 20"
  by (simp_all add: bloom_new_def Let_def)

lemma bloom_new_granularity: "bit_count (bloom_new n p) mod 64 = 0"
  by (simp add: bloom_new_def bit_count_def Let_def)

lemma LOG_2_squared: "fd_mul LOG_2 LOG_2 = FD 0x1EBFBDFF82C58E (- 54)"
  by code_simp

lemma bloom_new_001_estimate:
  assumes "1 \<le> n"
  shows "1 \<le> fd_trunc (fd_div (fd_mul (fd_of_nat n) NEG_LOG_001) (fd_mul LOG_2 LOG_2))"
proof -
  let ?x = "fd_of_nat n" and ?d = "FD 0x1EBFBDFF82C58E (- 54)"
  let ?y = "fd_mul ?x NEG_LOG_001"
  have x: "0 < fd_mant ?x" using assms by (simp add: fd_of_nat_def fd_round_mant_pos)
  have "9 / 10 * (of_int (int n) * 2 powi 0) \<le> fd_val ?x"
    unfolding fd_of_nat_def by (rule fd_round_lower) simp
  then have x_val: "9 / 10 \<le> fd_val ?x" using assms by simp
  have log_val: "4 \<le> fd_val NEG_LOG_001"
    by (simp add: fd_val_def NEG_LOG_001_def power_int_def field_simps)
  have y: "0 < fd_mant ?y"
    using x by (cases ?x) (simp add: NEG_LOG_001_def fd_round_mant_pos)
  have "9 / 10 * (9 / 10 * 4) \<le> 9 / 10 * (fd_val ?x * fd_val NEG_LOG_001)"
    using x_val log_val by (intro mult_left_mono mult_mono) auto
  also have "\<dots> \<le> fd_val ?y" using x by (intro fd_mul_lower) (simp_all add: NEG_LOG_001_def)
  finally have y_val: "3 \<le> fd_val ?y" by simp
  have d_val: "0 < fd_val ?d" "fd_val ?d \<le> 1"
    by (simp_all add: fd_val_def power_int_def field_simps)
  have "real 1 \<le> 81 / 100 * (fd_val ?y / fd_val ?d)"
    using y_val d_val by (simp add: field_simps)
  also have "\<dots> \<le> fd_val (fd_div ?y ?d)"
    using y by (intro fd_div_lower) simp_all
  finally show ?thesis
    unfolding LOG_2_squared by (rule fd_trunc_lower)
qed

lemma bloom_new_001_ok: "bloom_ok (bloom_new n NEG_LOG_001)"
proof -
  have "0 < (m + 63) div 64 * 64 div 8" if "1 \<le> m" for m :: nat
  proof -
    have "1 \<le> (m + 63) div 64" using that by (simp add: less_eq_div_iff_mult_less_eq)
    then show ?thesis by simp
  qed
  then show ?thesis
    using bloom_new_001_estimate [of n] bloom_new_001_estimate [of 1]
    by (simp add: bloom_new_def Let_def)
qed

text \<open>A filter for fewer than \<open>2 ^ 30\<close> keys stays below a length field of 32 bits.\<close>

lemma bloom_new_001_estimate_upper:
  assumes "1 \<le> n"
  shows "fd_trunc (fd_div (fd_mul (fd_of_nat n) NEG_LOG_001) (fd_mul LOG_2 LOG_2)) \<le> 16 * n"
proof -
  let ?x = "fd_of_nat n" and ?d = "FD 0x1EBFBDFF82C58E (- 54)"
  let ?y = "fd_mul ?x NEG_LOG_001"
  have x: "0 < fd_mant ?x" using assms by (simp add: fd_of_nat_def fd_round_mant_pos)
  have "fd_val ?x \<le> 11 / 10 * (of_int (int n) * 2 powi 0)"
    unfolding fd_of_nat_def by (rule fd_round_upper) simp
  then have x_val: "fd_val ?x \<le> 11 / 10 * real n" by simp
  have log_val: "0 \<le> fd_val NEG_LOG_001" "fd_val NEG_LOG_001 \<le> 5"
    by (simp_all add: fd_val_def NEG_LOG_001_def power_int_def field_simps)
  have y: "0 < fd_mant ?y"
    using x by (cases ?x) (simp add: NEG_LOG_001_def fd_round_mant_pos)
  have "fd_val ?y \<le> 11 / 10 * (fd_val ?x * fd_val NEG_LOG_001)"
    using x by (intro fd_mul_upper) (simp_all add: NEG_LOG_001_def)
  also have "\<dots> \<le> 11 / 10 * (11 / 10 * real n * 5)"
    using x_val log_val by (intro mult_left_mono mult_mono) auto
  finally have y_val: "fd_val ?y \<le> 605 / 100 * real n" by simp
  have d_val: "46 / 100 \<le> fd_val ?d"
    by (simp_all add: fd_val_def power_int_def field_simps)
  have y0: "0 \<le> fd_val ?y" using y by (simp add: fd_val_def)
  have q: "0 < fd_mant (fd_div ?y ?d)"
  proof (cases ?y)
    case (FD m e)
    with y have "1 * 2 ^ 128 \<le> m * 2 ^ 128" by (intro mult_right_mono) simp_all
    then have "0 < m * 2 ^ 128 div 0x1EBFBDFF82C58E" by (simp add: pos_imp_zdiv_pos_iff)
    with FD show ?thesis by (simp add: fd_round_mant_pos)
  qed
  have "fd_val (fd_div ?y ?d) \<le> 11 / 10 * (fd_val ?y / fd_val ?d)"
    using y by (intro fd_div_upper) simp_all
  also have "\<dots> \<le> 11 / 10 * (605 / 100 * real n / (46 / 100))"
    using y_val d_val y0 by (intro mult_left_mono frac_le) auto
  also have "\<dots> \<le> real (16 * n)" by simp
  finally have "fd_val (fd_div ?y ?d) \<le> real (16 * n)" .
  with fd_trunc_upper [of "fd_div ?y ?d"] q show ?thesis
    unfolding LOG_2_squared by linarith
qed

lemma bloom_new_001_length: "length (bits (bloom_new n NEG_LOG_001)) \<le> 2 * n + 16"
proof -
  have "(t + 63) div 64 * 64 div 8 \<le> 2 * m + 8" if "t \<le> 16 * m" for t m :: nat
    using that by linarith
  from this [OF bloom_new_001_estimate_upper [of n]] this [OF bloom_new_001_estimate_upper [of 1]]
  show ?thesis by (cases "n = 0") (auto simp: bloom_new_def Let_def)
qed

subsection \<open>Properties\<close>

text \<open>
  C37. Zero false negatives. A filter built for any expected size at the 1 percent rate accepts every
  sequence of \<^verbatim>\<open>add\<close> calls without running into undefined behaviour, and afterwards
  \<^verbatim>\<open>might_contain\<close> answers true for every key that was added.
\<close>

theorem bloom_no_false_negatives:
  "\<exists>f. add_all bloom_add ks (bloom_new n NEG_LOG_001) = Inr f \<and>
     (\<forall>k\<in>set ks. bloom_might_contain f k = Inr True)"
  using bloom_set.no_false_negatives [OF bloom_new_001_ok] by blast

theorem bloom_no_false_negatives_witness:
  "\<exists>f. add_all bloom_add [[97], [98, 99]] (bloom_new 2 NEG_LOG_001) = Inr f \<and>
     bloom_might_contain f [97] = Inr True \<and> bloom_might_contain f [98, 99] = Inr True"
  using bloom_no_false_negatives [of "[[97], [98, 99]]" 2] by simp

text \<open>
  What a filter answers is determined by bit positions alone: after adding \<open>ks\<close> to a fresh
  filter a key is reported as possibly present exactly when each of its bit positions is one of the
  positions of some added key. In particular an empty filter contains nothing.
\<close>

lemma bloom_answers_exactly:
  "\<exists>f. add_all bloom_add ks (bloom_new n NEG_LOG_001) = Inr f \<and>
     bloom_might_contain f k =
       Inr (key_bits (bloom_new n NEG_LOG_001) k \<subseteq> (\<Union>k'\<in>set ks. key_bits (bloom_new n NEG_LOG_001) k')) \<and>
     (ks = [] \<longrightarrow> bloom_might_contain f k = Inr False)"
proof -
  let ?g = "bloom_new n NEG_LOG_001"
  note ok = bloom_new_001_ok [of n]
  from bloom_set.no_false_negatives [OF ok, of ks] obtain f where
    f: "add_all bloom_add ks ?g = Inr f" "bloom_ok f" by blast
  note b = add_all_bits [OF ok f(1)]
  have in_range: "q < bit_count ?g" if "q \<in> key_bits ?g k" for q
    using that ok by (auto simp: key_bits_def bit_count_def)
  have same: "key_bits f k = key_bits ?g k" using b by (intro key_bits_cong) auto
  have "bloom_might_contain f k =
      Inr (key_bits ?g k \<subseteq> (\<Union>k'\<in>set ks. key_bits ?g k'))"
    using b same in_range bloom_new_no_bits [of _ n NEG_LOG_001] f(2)
    by (auto simp: bloom_might_contain_spec)
  moreover have "key_bits ?g k \<noteq> {}"
    using bloom_new_hash_funcs(1) [of n NEG_LOG_001] by (auto simp: key_bits_def)
  ultimately show ?thesis using f(1) by auto
qed

text \<open>
  Round trip of the serialised form, read back from the start of a larger allocation.
\<close>

lemma bloom_serialize_roundtrip:
  assumes "num_hash_funcs f < 2 ^ 32" and "length (bits f) * 8 < 2 ^ 64"
  shows "bloom_deserialize (bloom_serialize f @ rest) (length (bloom_serialize f)) = Inr f"
proof -
  have "unat (of_nat (length (bits f) * 8) :: u64) = length (bits f) * 8"
    using assms(2) by (simp add: unat_of_nat take_bit_nat_eq_self del: of_nat_mult)
  moreover have "unat (of_nat (num_hash_funcs f) :: u32) = num_hash_funcs f"
    using assms(1) by (rule unat_of_nat_u32)
  ultimately show ?thesis
    by (simp add: bloom_deserialize_def bloom_serialize_def Let_def del: of_nat_mult)
qed

text \<open>
  What the constructor builds at the 1 percent rate, in the double arithmetic of the source: a
  positive number of bits that is a multiple of 64 and at most sixteen per expected key plus slack,
  all clear, and between 1 and 20 hash functions, so that no later operation divides by zero.
\<close>

lemma bloom_new_shape:
  "0 < bit_count (bloom_new n NEG_LOG_001) \<and> bit_count (bloom_new n NEG_LOG_001) mod 64 = 0 \<and>
   bit_count (bloom_new n NEG_LOG_001) \<le> 16 * n + 128 \<and>
   set (bits (bloom_new n NEG_LOG_001)) = {0} \<and>
   1 \<le> num_hash_funcs (bloom_new n NEG_LOG_001) \<and> num_hash_funcs (bloom_new n NEG_LOG_001) \<le> 20"
proof -
  let ?f = "bloom_new n NEG_LOG_001"
  have "set (bits ?f) = {0}"
    by (subst bloom_new_bits) (use bloom_new_001_ok [of n] in \<open>simp add: set_replicate_conv_if\<close>)
  then show ?thesis
    using bloom_new_001_ok [of n] bloom_new_granularity [of n NEG_LOG_001] bloom_new_001_length [of n]
      bloom_new_hash_funcs [of n NEG_LOG_001] by (simp add: bit_count_def)
qed

end
