(* ===== verification/Sst_Node.thy ===== *)
theory Sst_Node
  imports Entry_Types Bloom_Filter
begin

text \<open>
  \<^verbatim>\<open>class SSTNode\<close> of \<^verbatim>\<open>include/gravtree/node.h\<close> and \<^verbatim>\<open>src/node.cpp\<close>: the in-memory node, its
  sorted and deduplicated buffer, the file it is written to and read back from.

  The disk is a map from paths to contents together with the set of paths that can be opened for
  writing; a write to an open stream is complete, \<^verbatim>\<open>create_directories\<close> succeeds and
  \<^verbatim>\<open>rename\<close> replaces its target. Operations that change a node are state transformers on the
  node and the disk, so a node keeps the changes made before an exception.
\<close>

record disk =
  files :: "bytes \<rightharpoonup> bytes"
  openable :: "bytes \<Rightarrow> bool"

record sparse_entry =
  si_key :: bytes
  file_offset :: u64

definition SPARSE_STEP :: nat where "SPARSE_STEP = 128"

record sst_node =
  nid :: node_id
  level :: u32
  num_children :: u32
  child_ids :: "node_id list"
  krange :: key_range
  buffer :: "entry list"
  sparse_index :: "sparse_entry list"
  bloom_of :: "bloom option"
  file_path :: bytes
  entries_loaded :: bool

text \<open>\<^verbatim>\<open>SSTNode() = default\<close>, the two-argument constructor, and the copy constructor.\<close>

definition default_node :: sst_node where
  "default_node = \<lparr>nid = INVALID_NODE_ID, level = 0, num_children = 0,
     child_ids = replicate MAX_FANOUT 0, krange = \<lparr>min_key = [], max_key = []\<rparr>, buffer = [],
     sparse_index = [], bloom_of = None, file_path = [], entries_loaded = False\<rparr>"

definition new_sst_node :: "node_id \<Rightarrow> u32 \<Rightarrow> sst_node" where
  "new_sst_node i lvl = default_node\<lparr>nid := i, level := lvl\<rparr>"

definition copy_node :: "sst_node \<Rightarrow> sst_node res" where
  "copy_node o1 =
     (let node = \<lparr>nid = nid o1, level = level o1, num_children = num_children o1,
            child_ids = child_ids o1, krange = krange o1, buffer = buffer o1,
            sparse_index = sparse_index o1, bloom_of = None, file_path = file_path o1,
            entries_loaded = entries_loaded o1\<rparr>
      in case bloom_of o1 of
           None \<Rightarrow> Inr node
         | Some b \<Rightarrow>
             bind_res (bloom_deserialize (bloom_serialize b) (length (bloom_serialize b)))
               (\<lambda>b'. Inr (node\<lparr>bloom_of := Some b'\<rparr>)))"

subsection \<open>Queries\<close>

definition sst_get :: "sst_node \<Rightarrow> bytes \<Rightarrow> entry option" where
  "sst_get n k =
     (if buffer n = [] then None
      else let it = lower_bound entry_less (buffer n) (probe k)
        in if it < length (buffer n) \<and> key (buffer n ! it) = k then Some (buffer n ! it) else None)"

definition might_contain :: "sst_node \<Rightarrow> bytes \<Rightarrow> bool res" where
  "might_contain n k =
     (if buffer n \<noteq> [] then Inr True
      else case bloom_of n of None \<Rightarrow> Inr True | Some b \<Rightarrow> bloom_might_contain b k)"

definition is_leaf :: "sst_node \<Rightarrow> bool" where
  "is_leaf n \<longleftrightarrow> level n = 0"

definition buffer_size_bytes :: "sst_node \<Rightarrow> nat" where
  "buffer_size_bytes n =
     foldl (\<lambda>total e. total + (length (key e) + length (val e) + 8 + 1)) 0 (buffer n)"

definition buffer_full :: "sst_node \<Rightarrow> bool" where
  "buffer_full n \<longleftrightarrow> buffer_size_bytes n \<ge> BUFFER_THRESHOLD"

subsection \<open>sort_buffer, build_bloom, build_sparse_index\<close>

fun dedupe_loop :: "entry list \<Rightarrow> entry list \<Rightarrow> entry list" where
  "dedupe_loop deduped [] = deduped"
| "dedupe_loop deduped (e # es) =
     (if deduped \<noteq> [] \<and> key (last deduped) = key e then dedupe_loop deduped es
      else dedupe_loop (deduped @ [e]) es)"

definition sort_entries :: "entry list \<Rightarrow> entry list" where
  "sort_entries es =
     (let sorted = stable_sort entry_less es
      in if length sorted \<le> 1 then sorted else dedupe_loop [] sorted)"

definition sort_buffer :: "sst_node \<Rightarrow> sst_node" where
  "sort_buffer n = n\<lparr>buffer := sort_entries (buffer n)\<rparr>"

definition build_bloom :: "sst_node \<Rightarrow> sst_node res" where
  "build_bloom n =
     bind_res (add_all bloom_add (map key (buffer n))
         (bloom_new (max (length (buffer n)) 1) NEG_LOG_001))
       (\<lambda>f. Inr (n\<lparr>bloom_of := Some f\<rparr>))"

definition build_sparse_index :: "sst_node \<Rightarrow> sst_node" where
  "build_sparse_index n = n\<lparr>sparse_index :=
     map (\<lambda>i. \<lparr>si_key = key (buffer n ! i), file_offset = 0\<rparr>)
       (filter (\<lambda>i. i mod SPARSE_STEP = 0) [0..<length (buffer n)])\<rparr>"

subsection \<open>write_file\<close>

definition node_path_in :: "bytes \<Rightarrow> node_id \<Rightarrow> bytes" where
  "node_path_in dir i = dir @ lit ''/node_'' @ to_string i @ lit ''.gst''"

definition write_header :: "sst_node \<Rightarrow> bytes \<Rightarrow> bytes" where
  "write_header n b0 =
     (let b1 = w_u64 NODE_FILE_MAGIC b0;
          b2 = w_u32 NODE_FILE_VERSION b1;
          b3 = w_u64 (nid n) b2;
          b4 = w_u32 (level n) b3;
          b5 = w_u32 (num_children n) b4;
          b6 = foldl (\<lambda>b i. w_u64 (child_ids n ! i) b) b5 [0..<MAX_FANOUT];
          b7 = w_u32 (of_nat (length (buffer n))) b6;
          b8 = w_str (min_key (krange n)) b7
      in w_str (max_key (krange n)) b8)"

definition write_bloom :: "sst_node \<Rightarrow> bytes \<Rightarrow> bytes" where
  "write_bloom n b =
     (case bloom_of n of
        Some f \<Rightarrow> (let bd = bloom_serialize f in w_raw bd (w_u32 (of_nat (length bd)) b))
      | None \<Rightarrow> w_u32 0 b)"

definition write_entry :: "entry \<Rightarrow> bytes \<Rightarrow> bytes" where
  "write_entry e b =
     w_u8 (if deleted e then 1 else 0) (w_u64 (seq_no e) (w_str (val e) (w_str (key e) b)))"

fun write_entries ::
  "nat \<Rightarrow> entry list \<Rightarrow> bytes \<times> (nat \<times> u64) list \<Rightarrow> bytes \<times> (nat \<times> u64) list" where
  "write_entries i [] st = st"
| "write_entries i (e # es) (b, offs) =
     (let offs' = (if i mod SPARSE_STEP = 0 then offs @ [(i, of_nat (length b))] else offs)
      in write_entries (i + 1) es (write_entry e b, offs'))"

definition write_sparse :: "entry list \<Rightarrow> (nat \<times> u64) list \<Rightarrow> bytes \<Rightarrow> bytes" where
  "write_sparse es offs b =
     foldl (\<lambda>b (idx, off). w_u64 off (w_str (key (es ! idx)) b)) (w_u32 (of_nat (length offs)) b) offs"

definition node_payload :: "sst_node \<Rightarrow> bytes" where
  "node_payload n =
     (case write_entries 0 (buffer n) (write_bloom n (write_header n []), []) of
        (b, offs) \<Rightarrow> write_sparse (buffer n) offs b)"

definition node_image :: "sst_node \<Rightarrow> bytes" where
  "node_image n = w_u64 (crc64 (node_payload n)) (node_payload n)"

definition write_file :: "bytes \<Rightarrow> sst_node \<Rightarrow> (disk, bytes) exec" where
  "write_file dir n d =
     (let path = node_path_in dir (nid n); tmp = path @ lit ''.tmp''
      in if \<not> openable d tmp then (Inl (Cannot_open_for_writing tmp), d)
         else (Inr path, d\<lparr>files := (files d)(tmp := None, path \<mapsto> node_image n)\<rparr>))"

subsection \<open>read_file\<close>

fun read_n :: "nat \<Rightarrow> (reader \<Rightarrow> ('a \<times> reader) res) \<Rightarrow> reader \<Rightarrow> ('a list \<times> reader) res" where
  "read_n 0 f r = Inr ([], r)"
| "read_n (Suc n) f r = bind_res (f r) (\<lambda>(x, r1). bind_res (read_n n f r1) (\<lambda>(xs, r2). Inr (x # xs, r2)))"

definition read_entry :: "reader \<Rightarrow> (entry \<times> reader) res" where
  "read_entry r =
     bind_res (r_str r) (\<lambda>(k, r1). bind_res (r_str r1) (\<lambda>(v, r2).
     bind_res (r_u64 r2) (\<lambda>(s, r3). bind_res (r_u8 r3) (\<lambda>(d, r4).
       Inr (\<lparr>key = k, val = v, seq_no = s, deleted = (d \<noteq> 0)\<rparr>, r4)))))"

definition read_sparse_entry :: "reader \<Rightarrow> (sparse_entry \<times> reader) res" where
  "read_sparse_entry r =
     bind_res (r_str r) (\<lambda>(k, r1). bind_res (r_u64 r1) (\<lambda>(off, r2).
       Inr (\<lparr>si_key = k, file_offset = off\<rparr>, r2)))"

text \<open>The header up to and including the key range, with the entry count.\<close>

definition read_header :: "bytes \<Rightarrow> reader \<Rightarrow> (sst_node \<times> nat \<times> reader) res" where
  "read_header path r0 =
     bind_res (r_u64 r0) (\<lambda>(magic, r1).
     if magic \<noteq> NODE_FILE_MAGIC then Inl (Bad_magic path) else
     bind_res (r_u32 r1) (\<lambda>(version, r2).
     if version \<noteq> NODE_FILE_VERSION then Inl (Unsupported_version path) else
     bind_res (r_u64 r2) (\<lambda>(i, r3). bind_res (r_u32 r3) (\<lambda>(lvl, r4).
     bind_res (r_u32 r4) (\<lambda>(nc, r5). bind_res (read_n MAX_FANOUT r_u64 r5) (\<lambda>(cs, r6).
     bind_res (r_u32 r6) (\<lambda>(num_entries, r7). bind_res (r_str r7) (\<lambda>(mn, r8).
     bind_res (r_str r8) (\<lambda>(mx, r9).
       Inr (default_node\<lparr>file_path := path, nid := i, level := lvl, num_children := nc,
              child_ids := cs, krange := \<lparr>min_key = mn, max_key = mx\<rparr>\<rparr>,
            unat num_entries, r9))))))))))"

text \<open>
  The filter is handed to \<^verbatim>\<open>deserialize\<close> with the length found in the file, unchecked against
  the bytes that are left.
\<close>

definition read_bloom :: "sst_node \<Rightarrow> reader \<Rightarrow> (sst_node \<times> reader) res" where
  "read_bloom n r =
     bind_res (r_u32 r) (\<lambda>(bloom_len, r1).
       if bloom_len > 0 then
         bind_res (bloom_deserialize (drop (rpos r1) (rdata r1)) (unat bloom_len)) (\<lambda>f.
           Inr (n\<lparr>bloom_of := Some f\<rparr>, r1\<lparr>rpos := rpos r1 + unat bloom_len\<rparr>))
       else Inr (n, r1))"

definition read_body :: "sst_node \<Rightarrow> nat \<Rightarrow> reader \<Rightarrow> sst_node res" where
  "read_body n num_entries r =
     bind_res (read_n num_entries read_entry r) (\<lambda>(es, r1).
     bind_res (r_u32 r1) (\<lambda>(si_count, r2).
     bind_res (read_n (unat si_count) read_sparse_entry r2) (\<lambda>(si, r3).
       Inr (n\<lparr>buffer := es, entries_loaded := True, sparse_index := si\<rparr>))))"

definition read_file :: "disk \<Rightarrow> bytes \<Rightarrow> bool \<Rightarrow> sst_node res" where
  "read_file d path load =
     (case files d path of
        None \<Rightarrow> Inl (Cannot_open_node path)
      | Some raw \<Rightarrow>
          (let file_size = length raw
           in if file_size < 8 then Inl (Node_file_too_small path)
              else if le_word (drop (file_size - 8) raw) \<noteq> crc64 (take (file_size - 8) raw)
                then Inl (Checksum_mismatch path)
              else
                bind_res (read_header path \<lparr>rdata = raw, rsize = file_size - 8, rpos = 0\<rparr>)
                  (\<lambda>(n, num_entries, r).
                bind_res (read_bloom n r) (\<lambda>(n', r').
                  if \<not> load then Inr n' else read_body n' num_entries r'))))"

subsection \<open>create, load_header, load_entries, flush_to_disk\<close>

definition create_node ::
  "node_id \<Rightarrow> u32 \<Rightarrow> entry list \<Rightarrow> node_id list \<Rightarrow> bytes \<Rightarrow> (disk, sst_node) exec" where
  "create_node i lvl entries children dir =
     (let n0 = (new_sst_node i lvl)\<lparr>buffer := entries\<rparr>;
          n1 = sort_buffer n0;
          nc = min (length children) MAX_FANOUT;
          n2 = n1\<lparr>num_children := of_nat nc,
                  child_ids := take nc children @ drop nc (child_ids n1)\<rparr>;
          n3 = (if buffer n2 \<noteq> []
                then n2\<lparr>krange := \<lparr>min_key = key (hd (buffer n2)), max_key = key (last (buffer n2))\<rparr>\<rparr>
                else n2)
      in bind (lift_res (build_bloom n3)) (\<lambda>n4.
         let n5 = build_sparse_index n4
         in bind (write_file dir n5) (\<lambda>path.
              ret (n5\<lparr>file_path := path, entries_loaded := True\<rparr>))))"

definition load_header :: "disk \<Rightarrow> bytes \<Rightarrow> sst_node res" where
  "load_header d path = read_file d path False"

definition load_entries :: "disk \<Rightarrow> sst_node \<Rightarrow> sst_node res" where
  "load_entries d n =
     (if entries_loaded n then Inr n
      else bind_res (read_file d (file_path n) True) (\<lambda>full.
        Inr (n\<lparr>buffer := buffer full, sparse_index := sparse_index full, entries_loaded := True\<rparr>)))"

definition expand_range :: "sst_node \<Rightarrow> sst_node" where
  "expand_range n =
     (if buffer n = [] then n
      else let f = key (hd (buffer n)); b = key (last (buffer n)); r = krange n in
        n\<lparr>krange := \<lparr>min_key = (if min_key r = [] \<or> f < min_key r then f else min_key r),
                    max_key = (if max_key r = [] \<or> b > max_key r then b else max_key r)\<rparr>\<rparr>)"

definition flush_to_disk :: "bytes \<Rightarrow> (sst_node \<times> disk, bytes) exec" where
  "flush_to_disk dir = (\<lambda>(n, d).
     let n1 = expand_range (sort_buffer n)
     in case build_bloom n1 of
          Inl e \<Rightarrow> (Inl e, (n1, d))
        | Inr n2 \<Rightarrow>
            (let n3 = build_sparse_index n2
             in case write_file dir n3 d of
                  (Inl e, d') \<Rightarrow> (Inl e, (n3, d'))
                | (Inr path, d') \<Rightarrow>
                    (Inr path, (n3\<lparr>file_path := path, entries_loaded := True\<rparr>, d'))))"

subsection \<open>The sorted, deduplicated buffer\<close>

lemma dedupe_loop_strict:
  assumes "keys_strict acc" "sorted (map key (acc @ es))"
  shows "keys_strict (dedupe_loop acc es)"
  using assms
proof (induction es arbitrary: acc)
  case (Cons e es)
  show ?case
  proof (cases "acc \<noteq> [] \<and> key (last acc) = key e")
    case True
    with Cons show ?thesis by (simp add: sorted_append)
  next
    case False
    have "key x < key e" if "x \<in> set acc" for x
    proof (cases acc rule: rev_cases)
      case (snoc ys l)
      then have "key l < key e" using False Cons.prems(2)
        by (simp add: sorted_append) (metis le_neq_trans)
      moreover have "key x \<le> key l" using that snoc Cons.prems(2) by (auto simp: sorted_append)
      ultimately show ?thesis by simp
    qed (use that in simp)
    then have "keys_strict (acc @ [e])" using Cons.prems(1) by (auto simp: sorted_wrt_append)
    with False Cons.IH [of "acc @ [e]"] Cons.prems(2) show ?thesis by auto
  qed
qed simp

lemma find_dedupe_loop: "find_key_in k (dedupe_loop acc es) = find_key_in k (acc @ es)"
proof (induction es arbitrary: acc)
  case (Cons e es)
  have "find_key_in k acc \<noteq> None" if "acc \<noteq> []" "key (last acc) = k"
    using that last_in_set by (auto simp: find_None_set)
  with Cons [of acc] Cons [of "acc @ [e]"] show ?case
    by (auto simp: find_append split: option.splits)
qed simp

lemma set_dedupe_loop: "set (dedupe_loop acc es) \<subseteq> set acc \<union> set es"
proof (induction es arbitrary: acc)
  case (Cons e es)
  from Cons [of acc] Cons [of "acc @ [e]"] show ?case by auto
qed simp

lemma keys_strict_short: "length es \<le> 1 \<Longrightarrow> keys_strict es"
  by (cases es) auto

lemma sort_entries_strict [simp]: "keys_strict (sort_entries es)"
  unfolding sort_entries_def Let_def
  using keys_strict_short [of "stable_sort entry_less es"]
    dedupe_loop_strict [of "[]" "stable_sort entry_less es"]
    entries_sorted_keys [OF entries_sorted_stable_sort]
  by simp

lemma find_sort_entries [simp]: "find_key_in k (sort_entries es) = newest k es"
  by (simp add: sort_entries_def Let_def find_dedupe_loop newest_def)

lemma newest_sort_entries [simp]: "newest k (sort_entries es) = newest k es"
  by (simp add: newest_keys_strict)

lemma set_sort_entries: "set (sort_entries es) \<subseteq> set es"
  using set_dedupe_loop [of "[]" "stable_sort entry_less es"] by (simp add: sort_entries_def Let_def)

lemma keys_sort_entries [simp]: "key ` set (sort_entries es) = key ` set es"
proof -
  have "k \<in> key ` set (sort_entries es) \<longleftrightarrow> k \<in> key ` set es" for k
    using newest_None_iff [of k "sort_entries es"] newest_None_iff [of k es] by simp
  then show ?thesis by blast
qed

lemma sort_entries_Nil [simp]: "sort_entries es = [] \<longleftrightarrow> es = []"
  using keys_sort_entries [of es] by (metis image_is_empty set_empty)

text \<open>A list with one entry per key is determined by its lookups.\<close>

lemma keys_strict_unique:
  assumes "keys_strict xs" "keys_strict ys" "\<And>k. find_key_in k xs = find_key_in k ys"
  shows "xs = ys"
proof -
  have mem: "x \<in> set es \<longleftrightarrow> find_key_in (key x) es = Some x" if "keys_strict es" for x es
  proof
    assume "x \<in> set es"
    with keys_strict_distinct [OF that] show "find_key_in (key x) es = Some x"
      by (induction es) (auto simp: image_iff)
  qed (auto dest: find_Some_set)
  then have "set xs = set ys" using assms by auto
  moreover have "pos_of a = pos_of b \<Longrightarrow> a = b" if "a \<in> set xs" "b \<in> set xs" for a b
    using that keys_strict_distinct [OF assms(1)] by (auto simp: pos_of_def distinct_map inj_on_def)
  ultimately have "map pos_of xs = map pos_of ys \<and> inj_on pos_of (set xs \<union> set ys)"
    using keys_strict_sorted [OF assms(1)] keys_strict_sorted [OF assms(2)]
      keys_strict_distinct [OF assms(1)] keys_strict_distinct [OF assms(2)]
    by (auto intro!: sorted_distinct_set_unique inj_onI simp: distinct_map)
  then show ?thesis by (meson map_inj_on)
qed

lemma sort_entries_id: "keys_strict es \<Longrightarrow> sort_entries es = es"
  by (rule keys_strict_unique) (simp_all add: newest_keys_strict)

lemma sst_get_sorted:
  assumes "entries_sorted (buffer n)"
  shows "sst_get n k = newest k (buffer n)"
proof -
  let ?es = "buffer n" and ?lt = "\<lambda>e. key e < k"
  have drop: "drop (length (takeWhile ?lt ?es)) ?es = dropWhile ?lt ?es"
    by (rule dropWhile_eq_drop [symmetric])
  show ?thesis
  proof (cases "dropWhile ?lt ?es")
    case Nil
    then have "length (takeWhile ?lt ?es) = length ?es" by (metis append_Nil2 takeWhile_dropWhile_id)
    with Nil assms show ?thesis
      by (simp add: sst_get_def lower_bound_probe newest_sorted find_key_dropWhile entries_sorted_keys
          del: dropWhile_eq_Nil_conv)
  next
    case (Cons e es)
    then have "length (takeWhile ?lt ?es) < length ?es" "?es ! length (takeWhile ?lt ?es) = e"
      using drop by (metis drop_all list.distinct(1) not_less)
        (metis Cons drop nth_via_drop)
    with Cons assms show ?thesis
      by (auto simp: sst_get_def lower_bound_probe newest_sorted find_key_dropWhile entries_sorted_keys)
  qed
qed

lemma buffer_size_bytes_sum: "buffer_size_bytes n = sum_list (map entry_bytes (buffer n))"
proof -
  have "foldl (\<lambda>total e. total + (length (key e) + length (val e) + 8 + 1)) t es =
      t + sum_list (map entry_bytes es)" for t es
    by (induction es arbitrary: t) (simp_all add: entry_bytes_def)
  then show ?thesis by (simp add: buffer_size_bytes_def)
qed

subsection \<open>Images of the records of a node file\<close>

text \<open>
  A record format: the bytes of a value and the reader that takes exactly these bytes. A counted
  sequence of records is read back by \<open>read_n\<close>. The interpretations are the three record kinds of
  a node file.
\<close>

locale record_format =
  fixes image :: "'a \<Rightarrow> bytes"
    and reader :: "reader \<Rightarrow> ('a \<times> reader) res"
    and fits :: "'a \<Rightarrow> bool"
  assumes read_image: "fits x \<Longrightarrow>
    reader (rd_at pre (image x @ rest) tail) = Inr (x, rd_at (pre @ image x) rest tail)"
begin

lemma read_n_images:
  "list_all fits xs \<Longrightarrow>
     read_n (length xs) reader (rd_at pre (concat (map image xs) @ rest) tail) =
       Inr (xs, rd_at (pre @ concat (map image xs)) rest tail)"
  by (induction xs arbitrary: pre) (simp_all add: read_image)

end

abbreviation short :: "bytes \<Rightarrow> bool" where
  "short s \<equiv> length s < 2 ^ 32"

definition entry_image :: "entry \<Rightarrow> bytes" where
  "entry_image e = str_image (key e) @ str_image (val e) @ le_bytes 8 (seq_no e) @
     [if deleted e then 1 else 0]"

definition sparse_image :: "sparse_entry \<Rightarrow> bytes" where
  "sparse_image s = str_image (si_key s) @ le_bytes 8 (file_offset s)"

definition entry_fits :: "entry \<Rightarrow> bool" where
  "entry_fits e \<longleftrightarrow> short (key e) \<and> short (val e)"

interpretation u64_format: record_format "le_bytes 8" r_u64 "\<lambda>_. True"
  by unfold_locales (rule r_u64_at)

interpretation entry_format: record_format entry_image read_entry entry_fits
proof unfold_locales
  fix e :: entry and pre rest tail
  assume "entry_fits e"
  then show "read_entry (rd_at pre (entry_image e @ rest) tail) =
      Inr (e, rd_at (pre @ entry_image e) rest tail)"
    by (cases e) (simp add: read_entry_def entry_image_def entry_fits_def codec_simps)
qed

interpretation sparse_format: record_format sparse_image read_sparse_entry "\<lambda>s. short (si_key s)"
proof unfold_locales
  fix s :: sparse_entry and pre rest tail
  assume "short (si_key s)"
  then show "read_sparse_entry (rd_at pre (sparse_image s @ rest) tail) =
      Inr (s, rd_at (pre @ sparse_image s) rest tail)"
    by (cases s) (simp add: read_sparse_entry_def sparse_image_def codec_simps)
qed

lemma write_entry_image: "write_entry e b = b @ entry_image e"
  by (simp add: write_entry_def entry_image_def codec_simps)

text \<open>The offsets \<^verbatim>\<open>write_file\<close> collects: every 128th entry with the position it starts at.\<close>

fun entry_offsets :: "nat \<Rightarrow> nat \<Rightarrow> entry list \<Rightarrow> (nat \<times> u64) list" where
  "entry_offsets i p [] = []"
| "entry_offsets i p (e # es) =
     (if i mod SPARSE_STEP = 0 then [(i, of_nat p)] else []) @
     entry_offsets (i + 1) (p + length (entry_image e)) es"

lemma write_entries_images:
  "write_entries i es (b, offs) =
     (b @ concat (map entry_image es), offs @ entry_offsets i (length b) es)"
  by (induction es arbitrary: i b offs) (simp_all add: write_entry_image Let_def)

definition bloom_image :: "sst_node \<Rightarrow> bytes" where
  "bloom_image n =
     (case bloom_of n of
        Some f \<Rightarrow> le_bytes 4 (of_nat (length (bloom_serialize f)) :: u32) @ bloom_serialize f
      | None \<Rightarrow> le_bytes 4 (0 :: u32))"

definition header_image :: "sst_node \<Rightarrow> bytes" where
  "header_image n =
     le_bytes 8 NODE_FILE_MAGIC @ le_bytes 4 NODE_FILE_VERSION @ le_bytes 8 (nid n) @
     le_bytes 4 (level n) @ le_bytes 4 (num_children n) @ concat (map (le_bytes 8) (child_ids n)) @
     le_bytes 4 (of_nat (length (buffer n)) :: u32) @ str_image (min_key (krange n)) @
     str_image (max_key (krange n))"

text \<open>The index as it ends up in the file.\<close>

definition file_index :: "sst_node \<Rightarrow> sparse_entry list" where
  "file_index n =
     map (\<lambda>(i, off). \<lparr>si_key = key (buffer n ! i), file_offset = off\<rparr>)
       (entry_offsets 0 (length (header_image n @ bloom_image n)) (buffer n))"

lemma write_header_image:
  assumes "length (child_ids n) = MAX_FANOUT"
  shows "write_header n b = b @ header_image n"
proof -
  have "foldl (\<lambda>b i. w_u64 (f i) b) b is = b @ concat (map (\<lambda>i. le_bytes 8 (f i)) is)"
    for b f and "is" :: "nat list"
    by (induction "is" arbitrary: b) (simp_all add: codec_simps)
  moreover have "map (\<lambda>i. le_bytes 8 (child_ids n ! i)) [0..<MAX_FANOUT] = map (le_bytes 8) (child_ids n)"
    using assms by (simp add: list_eq_iff_nth_eq)
  ultimately show ?thesis
    by (simp add: write_header_def header_image_def codec_simps Let_def)
qed

lemma write_bloom_image: "write_bloom n b = b @ bloom_image n"
  by (simp add: write_bloom_def bloom_image_def codec_simps Let_def split: option.splits)

lemma write_sparse_image:
  "write_sparse es offs b = b @ le_bytes 4 (of_nat (length offs) :: u32) @
     concat (map (\<lambda>(i, off). sparse_image \<lparr>si_key = key (es ! i), file_offset = off\<rparr>) offs)"
proof -
  have "foldl (\<lambda>b (idx, off). w_u64 off (w_str (key (es ! idx)) b)) b offs =
      b @ concat (map (\<lambda>(i, off). sparse_image \<lparr>si_key = key (es ! i), file_offset = off\<rparr>) offs)" for b
    by (induction offs arbitrary: b) (auto simp: sparse_image_def codec_simps)
  then show ?thesis by (simp add: write_sparse_def codec_simps)
qed

lemma node_payload_image:
  assumes "length (child_ids n) = MAX_FANOUT"
  shows "node_payload n = header_image n @ bloom_image n @ concat (map entry_image (buffer n)) @
    le_bytes 4 (of_nat (length (file_index n)) :: u32) @ concat (map sparse_image (file_index n))"
  by (simp add: node_payload_def write_entries_images write_header_image [OF assms] write_bloom_image
      write_sparse_image file_index_def case_prod_unfold comp_def)

subsection \<open>Reading back a written node\<close>

definition bloom_fits :: "bloom \<Rightarrow> bool" where
  "bloom_fits f \<longleftrightarrow> num_hash_funcs f < 2 ^ 32 \<and> length (bits f) + 12 < 2 ^ 32"

definition node_fits :: "sst_node \<Rightarrow> bool" where
  "node_fits n \<longleftrightarrow> length (child_ids n) = MAX_FANOUT \<and> length (buffer n) < 2 ^ 32 \<and>
     list_all entry_fits (buffer n) \<and> short (min_key (krange n)) \<and> short (max_key (krange n)) \<and>
     pred_option bloom_fits (bloom_of n)"

lemma entry_offsets_index:
  "(i, off) \<in> set (entry_offsets j p es) \<Longrightarrow> j \<le> i \<and> i < j + length es"
  by (induction es arbitrary: j p) (fastforce split: if_splits)+

lemma length_entry_offsets: "length (entry_offsets j p es) \<le> length es"
proof (induction es arbitrary: j p)
  case (Cons e es)
  from Cons [of "j + 1" "p + length (entry_image e)"] show ?case by simp
qed simp

lemma length_bloom_serialize [simp]: "length (bloom_serialize f) = 12 + length (bits f)"
  by (simp add: bloom_serialize_def)

lemma bloom_roundtrip:
  assumes "bloom_fits f"
  shows "bloom_deserialize (bloom_serialize f @ rest) (12 + length (bits f)) = Inr f"
proof -
  have "unat (of_nat (length (bits f) * 8) :: u64) = length (bits f) * 8"
    using assms unfolding bloom_fits_def
    by (simp add: unat_of_nat take_bit_nat_eq_self del: of_nat_mult)
  moreover have "unat (of_nat (num_hash_funcs f) :: u32) = num_hash_funcs f"
    using assms unfolding bloom_fits_def by (simp add: unat_of_nat_u32)
  ultimately show ?thesis
    by (simp add: bloom_deserialize_def bloom_serialize_def Let_def del: of_nat_mult)
qed

lemma read_header_image:
  assumes "node_fits n"
  shows "read_header path (rd_at pre (header_image n @ rest) tail) =
    Inr (default_node\<lparr>file_path := path, nid := nid n, level := level n,
           num_children := num_children n, child_ids := child_ids n, krange := krange n\<rparr>,
         length (buffer n), rd_at (pre @ header_image n) rest tail)"
proof -
  have cs: "read_n MAX_FANOUT r_u64 (rd_at pre (concat (map (le_bytes 8) (child_ids n)) @ rest) tail) =
      Inr (child_ids n, rd_at (pre @ concat (map (le_bytes 8) (child_ids n))) rest tail)" for pre rest
    using u64_format.read_n_images [of "child_ids n"] assms by (simp add: node_fits_def list.pred_True)
  have "unat (of_nat (length (buffer n)) :: u32) = length (buffer n)"
    using assms by (simp add: node_fits_def unat_of_nat_u32)
  with cs assms show ?thesis
    by (simp add: read_header_def header_image_def codec_simps node_fits_def)
qed

lemma read_bloom_image:
  assumes "node_fits n" "bloom_of m = None"
  shows "read_bloom m (rd_at pre (bloom_image n @ rest) tail) =
    Inr (m\<lparr>bloom_of := bloom_of n\<rparr>, rd_at (pre @ bloom_image n) rest tail)"
proof (cases "bloom_of n")
  case None
  with assms(2) show ?thesis by (simp add: read_bloom_def bloom_image_def codec_simps)
next
  case (Some f)
  with assms have f: "bloom_fits f" by (simp add: node_fits_def)
  then have len: "unat (of_nat (12 + length (bits f)) :: u32) = 12 + length (bits f)"
    unfolding bloom_fits_def by (intro unat_of_nat_u32) simp
  then have "(of_nat (12 + length (bits f)) :: u32) > 0" by (simp add: word_less_nat_alt del: of_nat_add)
  with Some len bloom_roundtrip [OF f] show ?thesis
    by (simp add: read_bloom_def bloom_image_def codec_simps del: of_nat_add)
       (simp add: rd_at_def)
qed

lemma file_index_fits:
  assumes "node_fits n"
  shows "list_all (\<lambda>s. short (si_key s)) (file_index n)" "length (file_index n) < 2 ^ 32"
proof -
  show "list_all (\<lambda>s. short (si_key s)) (file_index n)"
    using assms entry_offsets_index [of _ _ 0 _ "buffer n"]
    by (fastforce simp: file_index_def node_fits_def list_all_iff entry_fits_def)
  show "length (file_index n) < 2 ^ 32"
    using assms length_entry_offsets [of 0 "length (header_image n @ bloom_image n)" "buffer n"]
    unfolding file_index_def node_fits_def length_map by linarith
qed

lemma read_body_image:
  assumes "node_fits n"
  shows "read_body m (length (buffer n)) (rd_at pre (concat (map entry_image (buffer n)) @
      le_bytes 4 (of_nat (length (file_index n)) :: u32) @ concat (map sparse_image (file_index n))) tail) =
    Inr (m\<lparr>buffer := buffer n, entries_loaded := True, sparse_index := file_index n\<rparr>)"
proof -
  have "unat (of_nat (length (file_index n)) :: u32) = length (file_index n)"
    using file_index_fits(2) [OF assms] by (rule unat_of_nat_u32)
  with entry_format.read_n_images [of "buffer n"] sparse_format.read_n_images [of "file_index n" _ "[]"]
    file_index_fits(1) [OF assms] assms
  show ?thesis by (simp add: read_body_def codec_simps node_fits_def)
qed

text \<open>What \<^verbatim>\<open>read_file\<close> makes of the image of a node.\<close>

definition stored_node :: "bytes \<Rightarrow> bool \<Rightarrow> sst_node \<Rightarrow> sst_node" where
  "stored_node path load n = n\<lparr>file_path := path, entries_loaded := load,
     buffer := (if load then buffer n else []), sparse_index := (if load then file_index n else [])\<rparr>"

lemma read_file_image:
  assumes "node_fits n" "files d path = Some (node_image n)"
  shows "read_file d path load = Inr (stored_node path load n)"
proof -
  let ?p = "node_payload n"
  let ?crc = "le_bytes 8 (crc64 ?p)"
  have raw: "node_image n = ?p @ ?crc" by (simp add: node_image_def codec_simps)
  have len: "length (child_ids n) = MAX_FANOUT" using assms(1) by (simp add: node_fits_def)
  have r: "\<lparr>rdata = ?p @ ?crc, rsize = length ?p, rpos = 0\<rparr> = rd_at [] ?p ?crc"
    by (simp add: rd_at_def)
  define m where "m = default_node\<lparr>file_path := path, nid := nid n, level := level n,
    num_children := num_children n, child_ids := child_ids n, krange := krange n\<rparr>"
  let ?rest = "concat (map entry_image (buffer n)) @
    le_bytes 4 (of_nat (length (file_index n)) :: u32) @ concat (map sparse_image (file_index n))"
  have "?p = header_image n @ bloom_image n @ ?rest" by (rule node_payload_image [OF len])
  then have h: "read_header path (rd_at [] ?p ?crc) =
      Inr (m, length (buffer n), rd_at (header_image n) (bloom_image n @ ?rest) ?crc)"
    using read_header_image [OF assms(1), of path "[]"] by (simp add: m_def)
  have b: "read_bloom m (rd_at (header_image n) (bloom_image n @ ?rest) ?crc) =
      Inr (m\<lparr>bloom_of := bloom_of n\<rparr>, rd_at (header_image n @ bloom_image n) ?rest ?crc)"
    by (rule read_bloom_image [OF assms(1)]) (simp add: m_def default_node_def)
  have "m\<lparr>bloom_of := bloom_of n\<rparr> = stored_node path False n"
    "m\<lparr>bloom_of := bloom_of n, buffer := buffer n, entries_loaded := True, sparse_index := file_index n\<rparr> =
      stored_node path True n"
    by (simp_all add: m_def default_node_def stored_node_def)
  then show ?thesis
    unfolding read_file_def assms(2) raw
    using read_body_image [OF assms(1), of "m\<lparr>bloom_of := bloom_of n\<rparr>" "header_image n @ bloom_image n" ?crc]
    by (simp add: r h b del: bind_res_eq_Inr)
qed

subsection \<open>Writing, creating and flushing nodes\<close>

abbreviation tmp_of :: "bytes \<Rightarrow> bytes" where
  "tmp_of path \<equiv> path @ lit ''.tmp''"

lemma tmp_of_neq [simp]: "tmp_of path \<noteq> path" "path \<noteq> tmp_of path"
  by (simp_all add: lit_def)

text \<open>The image does not depend on the path, the load flag or the in-memory index.\<close>

lemma node_image_cong [simp]:
  "node_image (n\<lparr>file_path := p\<rparr>) = node_image n"
  "node_image (n\<lparr>entries_loaded := l\<rparr>) = node_image n"
  "node_image (n\<lparr>sparse_index := si\<rparr>) = node_image n"
  by (simp_all add: node_image_def node_payload_def write_header_def write_bloom_def)

lemma write_file_ok:
  "openable d (tmp_of (node_path_in dir (nid n))) \<Longrightarrow> write_file dir n d =
     (Inr (node_path_in dir (nid n)), d\<lparr>files := (files d)(tmp_of (node_path_in dir (nid n)) := None,
        node_path_in dir (nid n) \<mapsto> node_image n)\<rparr>)"
  by (simp add: write_file_def Let_def)

definition bloom_covers :: "sst_node \<Rightarrow> bool" where
  "bloom_covers n \<longleftrightarrow>
     (\<exists>f. bloom_of n = Some f \<and> bloom_ok f \<and>
        (\<forall>e\<in>set (buffer n). bloom_might_contain f (key e) = Inr True))"

lemma build_bloom_ok:
  "\<exists>f. build_bloom n = Inr (n\<lparr>bloom_of := Some f\<rparr>) \<and> bloom_covers (n\<lparr>bloom_of := Some f\<rparr>) \<and>
     (length (buffer n) < 2 ^ 30 \<longrightarrow> bloom_fits f)"
proof -
  let ?N = "max (length (buffer n)) 1"
  from bloom_set.no_false_negatives [OF bloom_new_001_ok [of ?N], of "map key (buffer n)"]
  obtain f where f: "add_all bloom_add (map key (buffer n)) (bloom_new ?N NEG_LOG_001) = Inr f"
    "\<forall>k\<in>set (map key (buffer n)). bloom_might_contain f k = Inr True" "bloom_ok f" by blast
  then have "build_bloom n = Inr (n\<lparr>bloom_of := Some f\<rparr>)" by (simp add: build_bloom_def)
  moreover have "bloom_covers (n\<lparr>bloom_of := Some f\<rparr>)" using f(2,3) by (simp add: bloom_covers_def)
  moreover have "bloom_fits f" if "length (buffer n) < 2 ^ 30"
    using that add_all_bits [OF bloom_new_001_ok f(1)] bloom_new_hash_funcs(2) [of ?N NEG_LOG_001]
      bloom_new_001_length [of ?N]
    by (simp add: bloom_fits_def)
  ultimately show ?thesis by blast
qed

lemma length_sort_entries: "length (sort_entries es) \<le> length es"
proof -
  have "length (dedupe_loop acc es) \<le> length acc + length es" for acc es
  proof (induction es arbitrary: acc)
    case (Cons e es)
    from Cons [of acc] Cons [of "acc @ [e]"] show ?case by auto
  qed simp
  from this [of "[]" "stable_sort entry_less es"] show ?thesis
    by (simp add: sort_entries_def Let_def)
qed

lemma entries_fit_sort: "list_all entry_fits es \<Longrightarrow> list_all entry_fits (sort_entries es)"
  using set_sort_entries [of es] by (auto simp: list_all_iff)

text \<open>The key range of a sorted buffer.\<close>

definition buffer_range :: "entry list \<Rightarrow> key_range" where
  "buffer_range es = (if es = [] then \<lparr>min_key = [], max_key = []\<rparr>
     else \<lparr>min_key = key (hd es), max_key = key (last es)\<rparr>)"

lemma hd_last_bounds:
  assumes "sorted (map key es)" "e \<in> set es"
  shows "key (hd es) \<le> key e" "key e \<le> key (last es)"
proof -
  show "key (hd es) \<le> key e" using assms by (cases es) auto
  show "key e \<le> key (last es)" using assms by (cases es rule: rev_cases) (auto simp: sorted_append)
qed

lemma create_node_ok:
  assumes "openable d (tmp_of (node_path_in dir i))"
  shows "\<exists>n. create_node i lvl es cs dir d =
      (Inr n, d\<lparr>files := (files d)(tmp_of (node_path_in dir i) := None,
         node_path_in dir i \<mapsto> node_image n)\<rparr>) \<and>
    nid n = i \<and> level n = lvl \<and> buffer n = sort_entries es \<and>
    num_children n = of_nat (min (length cs) MAX_FANOUT) \<and>
    child_ids n = take MAX_FANOUT cs @ replicate (MAX_FANOUT - length cs) 0 \<and>
    krange n = buffer_range (sort_entries es) \<and> file_path n = node_path_in dir i \<and>
    entries_loaded n \<and> bloom_covers n \<and>
    (length es < 2 ^ 30 \<and> list_all entry_fits es \<longrightarrow> node_fits n) \<and>
    (length (sort_entries es) < 2 ^ 30 \<longrightarrow> pred_option bloom_fits (bloom_of n))"
proof -
  let ?nc = "min (length cs) MAX_FANOUT"
  define n3 where "n3 = \<lparr>nid = i, level = lvl, num_children = of_nat ?nc,
     child_ids = take MAX_FANOUT cs @ replicate (MAX_FANOUT - length cs) 0,
     krange = buffer_range (sort_entries es), buffer = sort_entries es,
     sparse_index = [], bloom_of = None, file_path = [], entries_loaded = False\<rparr>"
  have cids: "take ?nc cs @ replicate (MAX_FANOUT - ?nc) 0 =
      take MAX_FANOUT cs @ replicate (MAX_FANOUT - length cs) (0 :: node_id)"
    by (cases "length cs \<le> MAX_FANOUT") simp_all
  from build_bloom_ok [of n3] obtain f where f: "build_bloom n3 = Inr (n3\<lparr>bloom_of := Some f\<rparr>)"
    "bloom_covers (n3\<lparr>bloom_of := Some f\<rparr>)" "length (buffer n3) < 2 ^ 30 \<longrightarrow> bloom_fits f" by blast
  define n5 where "n5 = build_sparse_index (n3\<lparr>bloom_of := Some f\<rparr>)"
  define n where "n = n5\<lparr>file_path := node_path_in dir i, entries_loaded := True\<rparr>"
  have n5_id: "nid n5 = i" by (simp add: n5_def build_sparse_index_def n3_def)
  have "create_node i lvl es cs dir d =
      bind (lift_res (build_bloom n3)) (\<lambda>n4.
        let n5 = build_sparse_index n4
        in bind (write_file dir n5) (\<lambda>path.
             ret (n5\<lparr>file_path := path, entries_loaded := True\<rparr>))) d"
    by (simp add: create_node_def Let_def n3_def new_sst_node_def default_node_def sort_buffer_def
        buffer_range_def cids)
  also have "\<dots> = (Inr n, d\<lparr>files := (files d)(tmp_of (node_path_in dir i) := None,
         node_path_in dir i \<mapsto> node_image n)\<rparr>)"
    using f(1) assms write_file_ok [of d dir n5]
    by (simp add: exec_simps Let_def bind_Inr n_def n5_def [symmetric] n5_id)
  finally have "create_node i lvl es cs dir d = \<dots>" .
  moreover have "bloom_covers n" using f(2) by (simp add: n_def n5_def build_sparse_index_def bloom_covers_def)
  moreover have "node_fits n" if "length es < 2 ^ 30" "list_all entry_fits es"
  proof -
    have len: "length (sort_entries es) < 2 ^ 30" using that length_sort_entries [of es] by simp
    have fit: "list_all entry_fits (sort_entries es)" using that by (simp add: entries_fit_sort)
    have "short (key (hd (sort_entries es)))" "short (key (last (sort_entries es)))"
      if "sort_entries es \<noteq> []"
      using fit that by (simp_all add: list_all_iff entry_fits_def)
    with f(3) len fit show ?thesis
      by (simp add: node_fits_def n_def n5_def n3_def build_sparse_index_def buffer_range_def MAX_FANOUT_def)
  qed
  moreover have "pred_option bloom_fits (bloom_of n)" if "length (sort_entries es) < 2 ^ 30"
    using f(3) that by (simp add: n_def n5_def n3_def build_sparse_index_def)
  ultimately show ?thesis
    by (intro exI [of _ n]) (simp add: n_def n5_def n3_def build_sparse_index_def)
qed

text \<open>The node as \<^verbatim>\<open>flush_to_disk\<close> prepares it before writing.\<close>

lemma expand_range_sel [simp]:
  "buffer (expand_range n) = buffer n" "nid (expand_range n) = nid n" "level (expand_range n) = level n"
  "child_ids (expand_range n) = child_ids n" "num_children (expand_range n) = num_children n"
  "bloom_of (expand_range n) = bloom_of n"
  by (simp_all add: expand_range_def Let_def)

definition flushed_node :: "sst_node \<Rightarrow> bloom \<Rightarrow> sst_node" where
  "flushed_node n f = build_sparse_index ((expand_range (sort_buffer n))\<lparr>bloom_of := Some f\<rparr>)"

lemma flushed_node_sel [simp]:
  "buffer (flushed_node n f) = sort_entries (buffer n)" "nid (flushed_node n f) = nid n"
  "level (flushed_node n f) = level n" "child_ids (flushed_node n f) = child_ids n"
  "num_children (flushed_node n f) = num_children n" "bloom_of (flushed_node n f) = Some f"
  "krange (flushed_node n f) = krange (expand_range (sort_buffer n))"
  by (simp_all add: flushed_node_def build_sparse_index_def sort_buffer_def)

lemma flush_to_disk_cases:
  obtains f where "bloom_covers (flushed_node n f)"
    "length (sort_entries (buffer n)) < 2 ^ 30 \<Longrightarrow> bloom_fits f"
    "flush_to_disk dir (n, d) =
       (case write_file dir (flushed_node n f) d of
          (Inl e, d') \<Rightarrow> (Inl e, (flushed_node n f, d'))
        | (Inr path, d') \<Rightarrow>
            (Inr path, ((flushed_node n f)\<lparr>file_path := path, entries_loaded := True\<rparr>, d')))"
proof -
  let ?n = "expand_range (sort_buffer n)"
  from build_bloom_ok [of ?n] obtain f where f: "build_bloom ?n = Inr (?n\<lparr>bloom_of := Some f\<rparr>)"
    "bloom_covers (?n\<lparr>bloom_of := Some f\<rparr>)" "length (buffer ?n) < 2 ^ 30 \<longrightarrow> bloom_fits f" by blast
  show ?thesis
  proof (rule that [of f])
    show "bloom_covers (flushed_node n f)"
      using f(2) by (simp add: flushed_node_def build_sparse_index_def bloom_covers_def)
    show "bloom_fits f" if "length (sort_entries (buffer n)) < 2 ^ 30"
      using f(3) that by (simp add: sort_buffer_def)
    show "flush_to_disk dir (n, d) =
       (case write_file dir (flushed_node n f) d of
          (Inl e, d') \<Rightarrow> (Inl e, (flushed_node n f, d'))
        | (Inr path, d') \<Rightarrow>
            (Inr path, ((flushed_node n f)\<lparr>file_path := path, entries_loaded := True\<rparr>, d')))"
      using f(1) by (simp add: flush_to_disk_def Let_def flushed_node_def [symmetric])
  qed
qed

lemma expand_range_covers:
  assumes "keys_strict (buffer n)" "e \<in> set (buffer n)"
  shows "range_contains (krange (expand_range n)) (key e)"
proof -
  have "buffer n \<noteq> []" using assms(2) by auto
  moreover have "sorted (map key (buffer n))"
    using assms(1) by (simp add: entries_sorted_keys keys_strict_sorted)
  note hd_last_bounds [OF this assms(2)]
  ultimately show ?thesis
    by (auto simp: expand_range_def Let_def range_contains_def)
qed

lemma expand_range_grows:
  assumes "min_key (krange n) \<noteq> []" "max_key (krange n) \<noteq> []" "range_contains (krange n) k"
  shows "range_contains (krange (expand_range n)) k"
  using assms by (auto simp: expand_range_def Let_def range_contains_def)

text \<open>Copying a node clones its filter through the serialised form and loses nothing.\<close>

lemma copy_node_same: "pred_option bloom_fits (bloom_of n) \<Longrightarrow> copy_node n = Inr n"
  using bloom_roundtrip [of _ "[]"]
  by (cases "bloom_of n") (simp_all add: copy_node_def Let_def)

subsection \<open>The offsets of the sparse index\<close>

lemma entry_offsets_split:
  "(i, off) \<in> set (entry_offsets j p es) \<Longrightarrow>
     \<exists>ys e zs. es = ys @ e # zs \<and> i = j + length ys \<and>
       off = of_nat (p + length (concat (map entry_image ys)))"
proof (induction es arbitrary: j p)
  case (Cons e es)
  show ?case
  proof (cases "(i, off) \<in> set (entry_offsets (j + 1) (p + length (entry_image e)) es)")
    case True
    from Cons.IH [OF this] obtain ys x zs where "es = ys @ x # zs" "i = j + 1 + length ys"
      "off = of_nat (p + length (entry_image e) + length (concat (map entry_image ys)))" by blast
    then show ?thesis
      by (intro exI [of _ "e # ys"] exI [of _ x] exI [of _ zs]) (simp add: add.assoc)
  next
    case False
    with Cons.prems have "i = j" "off = of_nat p" by (auto split: if_splits)
    then show ?thesis by (intro exI [of _ "[]"] exI [of _ e] exI [of _ es]) simp
  qed
qed simp

lemma entry_offsets_indices:
  "map fst (entry_offsets j p es) = filter (\<lambda>i. i mod SPARSE_STEP = 0) [j..<j + length es]"
proof (induction es arbitrary: j p)
  case (Cons e es)
  have "[j..<j + length (e # es)] = j # [Suc j..<Suc j + length es]" by (subst upt_conv_Cons) simp_all
  with Cons [of "j + 1"] show ?case by simp
qed simp

lemma file_index_seek:
  assumes "node_fits n" "length (node_payload n) < 2 ^ 64" "s \<in> set (file_index n)"
  shows "\<exists>e r. e \<in> set (buffer n) \<and> key e = si_key s \<and>
    read_entry \<lparr>rdata = node_image n, rsize = length (node_payload n), rpos = unat (file_offset s)\<rparr> = Inr (e, r)"
proof -
  let ?pre = "header_image n @ bloom_image n"
  from assms(3) obtain i off where s: "s = \<lparr>si_key = key (buffer n ! i), file_offset = off\<rparr>"
    "(i, off) \<in> set (entry_offsets 0 (length ?pre) (buffer n))" by (auto simp: file_index_def)
  from entry_offsets_split [OF s(2)] obtain ys e zs where es: "buffer n = ys @ e # zs" "i = length ys"
    "off = of_nat (length ?pre + length (concat (map entry_image ys)))" by auto
  let ?p = "?pre @ concat (map entry_image ys)"
  let ?rest = "concat (map entry_image zs) @ le_bytes 4 (of_nat (length (file_index n)) :: u32) @
    concat (map sparse_image (file_index n))"
  have len: "length (child_ids n) = MAX_FANOUT" using assms(1) by (simp add: node_fits_def)
  have payload: "node_payload n = ?p @ entry_image e @ ?rest"
    using node_payload_image [OF len] es(1) by simp
  then have "length ?p < 2 ^ 64" using assms(2) by simp
  then have off: "unat off = length ?p"
    unfolding es(3) by (simp add: unat_of_nat take_bit_nat_eq_self del: of_nat_add)
  have e: "entry_fits e" using assms(1) es(1) by (simp add: node_fits_def)
  have "\<lparr>rdata = node_image n, rsize = length (node_payload n), rpos = unat off\<rparr> =
      rd_at ?p (entry_image e @ ?rest) (le_bytes 8 (crc64 (node_payload n)))"
    by (simp add: rd_at_def off node_image_def codec_simps payload)
  with entry_format.read_image [OF e] s es show ?thesis by auto
qed

lemma read_file_bad_crc:
  assumes "files d path = Some raw" "8 \<le> length raw"
    and "le_word (drop (length raw - 8) raw) \<noteq> crc64 (take (length raw - 8) raw)"
  shows "read_file d path load = Inl (Checksum_mismatch path)"
  using assms by (simp add: read_file_def Let_def)

subsection \<open>Properties\<close>

text \<open>
  C22. Round trip of the node file. Writing a node whose lengths fit their 32-bit fields and reading
  the file back, with or without its entries, returns the same node with the path filled in and, if
  entries were asked for, the index with its file offsets; every other file but the temporary one is
  untouched.
\<close>

theorem node_file_roundtrip:
  assumes "node_fits n" and "openable d (tmp_of (node_path_in dir (nid n)))"
  shows "\<exists>d'. write_file dir n d = (Inr (node_path_in dir (nid n)), d') \<and>
    read_file d' (node_path_in dir (nid n)) True =
      Inr (n\<lparr>file_path := node_path_in dir (nid n), entries_loaded := True, sparse_index := file_index n\<rparr>) \<and>
    load_header d' (node_path_in dir (nid n)) =
      Inr (n\<lparr>file_path := node_path_in dir (nid n), entries_loaded := False, buffer := [], sparse_index := []\<rparr>) \<and>
    (\<forall>p. p \<notin> {node_path_in dir (nid n), tmp_of (node_path_in dir (nid n))} \<longrightarrow> files d' p = files d p)"
  using read_file_image [OF assms(1)] write_file_ok [OF assms(2)]
  by (simp add: load_header_def stored_node_def)

theorem node_file_roundtrip_witness:
  "\<exists>d'. write_file (lit ''d'') (default_node\<lparr>nid := 7, buffer := [probe [1], probe [2]]\<rparr>)
      \<lparr>files = Map.empty, openable = (\<lambda>_. True)\<rparr> = (Inr (node_path_in (lit ''d'') 7), d') \<and>
    read_file d' (node_path_in (lit ''d'') 7) True =
      Inr (default_node\<lparr>nid := 7, buffer := [probe [1], probe [2]],
         file_path := node_path_in (lit ''d'') 7, entries_loaded := True,
         sparse_index := file_index (default_node\<lparr>nid := 7, buffer := [probe [1], probe [2]]\<rparr>)\<rparr>)"
proof -
  let ?n = "default_node\<lparr>nid := 7, buffer := [probe [1], probe [2]]\<rparr>"
  have "node_fits ?n" by (simp add: node_fits_def default_node_def entry_fits_def probe_def)
  from node_file_roundtrip [OF this, of "\<lparr>files = Map.empty, openable = (\<lambda>_. True)\<rparr>" "lit ''d''"]
  show ?thesis by auto
qed

text \<open>
  C24. Corruption is detected: if up to eight consecutive bytes of a written node file in front of
  its checksum are altered, or the stored checksum itself is, \<^verbatim>\<open>read_file\<close> throws the checksum error
  and returns no node.
\<close>

theorem node_file_corruption_detected:
  assumes "node_payload n = pre @ xs @ post" and "length ys = length xs" and "length xs \<le> 8"
    and "length c = 8"
    and "xs \<noteq> ys \<and> c = le_bytes 8 (crc64 (node_payload n)) \<or>
         xs = ys \<and> c \<noteq> le_bytes 8 (crc64 (node_payload n))"
    and "files d path = Some (pre @ ys @ post @ c)"
  shows "read_file d path load = Inl (Checksum_mismatch path)"
proof (rule read_file_bad_crc [OF assms(6)])
  let ?raw = "pre @ ys @ post @ c"
  show "8 \<le> length ?raw" using assms(4) by simp
  have parts: "take (length ?raw - 8) ?raw = pre @ ys @ post" "drop (length ?raw - 8) ?raw = c"
    using assms(4) by simp_all
  have inj: "le_word c = (w :: u64) \<Longrightarrow> c = le_bytes 8 w" for w
    using assms(4) by (intro le_bytes_le_word [symmetric]) auto
  show "le_word (drop (length ?raw - 8) ?raw) \<noteq> crc64 (take (length ?raw - 8) ?raw)"
    unfolding parts using assms(5) crc64_burst [of xs ys pre post] assms(1-3) inj by auto
qed

theorem node_file_corruption_detected_witness:
  "\<exists>pre post. node_payload default_node = pre @ [le_bytes 8 NODE_FILE_MAGIC ! 0] @ post \<and>
    read_file \<lparr>files = [lit ''f'' \<mapsto> pre @ [0] @ post @ le_bytes 8 (crc64 (node_payload default_node))],
       openable = (\<lambda>_. False)\<rparr> (lit ''f'') True = Inl (Checksum_mismatch (lit ''f''))"
proof -
  have "length (child_ids default_node) = MAX_FANOUT" by (simp add: default_node_def)
  from node_payload_image [OF this] obtain rest where "node_payload default_node = le_bytes 8 NODE_FILE_MAGIC @ rest"
    by (simp add: header_image_def)
  moreover have "le_bytes 8 NODE_FILE_MAGIC =
      [le_bytes 8 NODE_FILE_MAGIC ! 0] @ tl (le_bytes 8 NODE_FILE_MAGIC)"
    by (simp add: le_bytes_def upt_rec)
  moreover have "le_bytes 8 NODE_FILE_MAGIC ! 0 \<noteq> (0 :: byte)"
    by (simp add: le_bytes_def NODE_FILE_MAGIC_def)
  ultimately obtain post where "node_payload default_node = [] @ [le_bytes 8 NODE_FILE_MAGIC ! 0] @ post"
    and "[le_bytes 8 NODE_FILE_MAGIC ! 0] \<noteq> [0 :: byte]" by (metis append_Nil append_assoc list.inject)
  then show ?thesis
    using node_file_corruption_detected [of default_node "[]" "[le_bytes 8 NODE_FILE_MAGIC ! 0]" post "[0]"
        "le_bytes 8 (crc64 (node_payload default_node))"
        "\<lparr>files = [lit ''f'' \<mapsto> [] @ [0] @ post @ le_bytes 8 (crc64 (node_payload default_node))],
          openable = (\<lambda>_. False)\<rparr>" "lit ''f''" True]
    by (intro exI [of _ "[]"] exI [of _ post]) simp
qed

text \<open>
  The sparse index written to the file holds the key of every 128th entry, the same keys the
  in-memory index is built from, and each offset is where reading an entry yields the entry of that
  key.
\<close>

lemma sparse_index_seeks:
  assumes "node_fits n" and "length (node_payload n) < 2 ^ 64"
  shows "map si_key (file_index n) = map si_key (sparse_index (build_sparse_index n)) \<and>
    (\<forall>s\<in>set (file_index n). \<exists>e r. e \<in> set (buffer n) \<and> key e = si_key s \<and>
      read_entry \<lparr>rdata = node_image n, rsize = length (node_payload n), rpos = unat (file_offset s)\<rparr> =
        Inr (e, r))"
proof
  show "map si_key (file_index n) = map si_key (sparse_index (build_sparse_index n))"
    using arg_cong [OF entry_offsets_indices [of 0 "length (header_image n @ bloom_image n)" "buffer n"],
        of "map (\<lambda>i. key (buffer n ! i))"]
    by (simp add: file_index_def build_sparse_index_def comp_def case_prod_unfold)
qed (use file_index_seek [OF assms] in blast)

text \<open>
  \<^verbatim>\<open>sort_buffer\<close> leaves exactly one entry per key, in key order: the newest version of
  every key of the buffer, tombstones included, and no other entry.
\<close>

lemma sort_buffer_newest:
  "keys_strict (buffer (sort_buffer n)) \<and>
   (\<forall>k. find_key_in k (buffer (sort_buffer n)) = newest k (buffer n)) \<and>
   set (buffer (sort_buffer n)) \<subseteq> set (buffer n)"
  using set_sort_entries by (simp add: sort_buffer_def)

text \<open>
  C21. From \<^verbatim>\<open>create\<close> to a reopened node: after creating a node from any entries, the header
  loaded from its file answers \<^verbatim>\<open>might_contain\<close> with true for every key of the entries, and once
  \<^verbatim>\<open>load_entries\<close> has run \<^verbatim>\<open>get\<close> returns the newest version of each key among them.
\<close>

theorem create_reload_get:
  assumes "openable d (tmp_of (node_path_in dir i))"
    and "length es < 2 ^ 30" and "list_all entry_fits es"
  shows "\<exists>n d' h n'. create_node i lvl es cs dir d = (Inr n, d') \<and>
    load_header d' (node_path_in dir i) = Inr h \<and>
    (\<forall>k\<in>key ` set es. might_contain h k = Inr True) \<and>
    load_entries d' h = Inr n' \<and> (\<forall>k. sst_get n' k = newest k es)"
proof -
  let ?path = "node_path_in dir i"
  from create_node_ok [OF assms(1), of lvl es cs] obtain n d' where n:
    "create_node i lvl es cs dir d = (Inr n, d')" "files d' ?path = Some (node_image n)"
    "buffer n = sort_entries es" "bloom_covers n" "node_fits n" using assms(2,3) by fastforce
  note rd = read_file_image [OF n(5,2)]
  have "might_contain (stored_node ?path False n) k = Inr True" if "k \<in> key ` set es" for k
  proof -
    from that obtain e where "e \<in> set (sort_entries es)" "key e = k"
      using keys_sort_entries [of es] by (metis imageE)
    with n(3,4) show ?thesis by (auto simp: might_contain_def stored_node_def bloom_covers_def)
  qed
  moreover have "sst_get m k = newest k es" if "buffer m = sort_entries es" for m k
    using that by (simp add: sst_get_sorted keys_strict_sorted)
  ultimately show ?thesis using n(1) rd n(3)
    by (simp add: load_header_def load_entries_def stored_node_def)
qed

theorem create_reload_get_witness:
  "\<exists>n d' h n'. create_node 3 0 [probe [1], probe [2], probe [1]] [] (lit ''d'')
      \<lparr>files = Map.empty, openable = (\<lambda>_. True)\<rparr> = (Inr n, d') \<and>
    load_header d' (node_path_in (lit ''d'') 3) = Inr h \<and> might_contain h [2] = Inr True \<and>
    load_entries d' h = Inr n' \<and> sst_get n' [2] = Some (probe [2])"
proof -
  have "newest [2] [probe [1], probe [2], probe [1]] = Some (probe [2])" by (simp add: probe_def)
  with create_reload_get [of "\<lparr>files = Map.empty, openable = (\<lambda>_. True)\<rparr>" "lit ''d''" 3
      "[probe [1], probe [2], probe [1]]" 0 "[]"]
  show ?thesis by (auto simp: entry_fits_def probe_def)
qed

text \<open>
  C23. \<^verbatim>\<open>flush_to_disk\<close>. If the temporary file can be opened, the node's file holds the node, the
  buffer is sorted with \<^verbatim>\<open>get\<close> returning the newest version of each key it held before, and the
  range covers every buffered key; a range that was set on both sides still contains what it contained.
  If the file cannot be opened the error is thrown, the disk is as before and the node has lost no
  version a reader could see.
\<close>

theorem flush_to_disk_correct:
  "\<exists>n'. flush_to_disk dir (n, d) =
      (if openable d (tmp_of (node_path_in dir (nid n)))
       then (Inr (node_path_in dir (nid n)), (n', d\<lparr>files := (files d)
              (tmp_of (node_path_in dir (nid n)) := None, node_path_in dir (nid n) \<mapsto> node_image n')\<rparr>))
       else (Inl (Cannot_open_for_writing (tmp_of (node_path_in dir (nid n)))), (n', d))) \<and>
    (\<forall>k. sst_get n' k = newest k (buffer n)) \<and>
    (\<forall>e\<in>set (buffer n). range_contains (krange n') (key e)) \<and>
    (min_key (krange n) \<noteq> [] \<and> max_key (krange n) \<noteq> [] \<longrightarrow>
       (\<forall>k. range_contains (krange n) k \<longrightarrow> range_contains (krange n') k))"
proof -
  obtain f where f: "flush_to_disk dir (n, d) =
       (case write_file dir (flushed_node n f) d of
          (Inl e, d') \<Rightarrow> (Inl e, (flushed_node n f, d'))
        | (Inr path, d') \<Rightarrow>
            (Inr path, ((flushed_node n f)\<lparr>file_path := path, entries_loaded := True\<rparr>, d')))"
    by (rule flush_to_disk_cases [of n dir d])
  define n' where "n' = (if openable d (tmp_of (node_path_in dir (nid n)))
    then (flushed_node n f)\<lparr>file_path := node_path_in dir (nid n), entries_loaded := True\<rparr>
    else flushed_node n f)"
  have sel: "buffer n' = sort_entries (buffer n)" "krange n' = krange (expand_range (sort_buffer n))"
    by (simp_all add: n'_def)
  have "range_contains (krange n') (key e)" if "e \<in> set (buffer n)" for e
  proof -
    have "key e \<in> key ` set (sort_entries (buffer n))"
      using that unfolding keys_sort_entries by (rule imageI)
    then obtain e' where "key e = key e'" "e' \<in> set (sort_entries (buffer n))" by (rule imageE)
    then show ?thesis using expand_range_covers [of "sort_buffer n" e'] unfolding sel(2)
      by (simp add: sort_buffer_def)
  qed
  moreover have "range_contains (krange n') k"
    if "min_key (krange n) \<noteq> []" "max_key (krange n) \<noteq> []" "range_contains (krange n) k" for k
    using expand_range_grows [of "sort_buffer n"] that unfolding sel(2) by (simp add: sort_buffer_def)
  moreover have "sst_get n' k = newest k (buffer n)" for k
    by (simp add: sst_get_sorted keys_strict_sorted sel)
  moreover have "flush_to_disk dir (n, d) =
      (if openable d (tmp_of (node_path_in dir (nid n)))
       then (Inr (node_path_in dir (nid n)), (n', d\<lparr>files := (files d)
              (tmp_of (node_path_in dir (nid n)) := None, node_path_in dir (nid n) \<mapsto> node_image n')\<rparr>))
       else (Inl (Cannot_open_for_writing (tmp_of (node_path_in dir (nid n)))), (n', d)))"
    unfolding f by (simp add: n'_def write_file_def Let_def)
  ultimately show ?thesis by blast
qed

theorem flush_to_disk_correct_witness:
  "\<exists>n' d'. flush_to_disk (lit ''d'') (default_node\<lparr>buffer := [probe [3]], krange :=
       \<lparr>min_key = [1], max_key = [2]\<rparr>\<rparr>, \<lparr>files = Map.empty, openable = (\<lambda>_. True)\<rparr>) =
       (Inr (node_path_in (lit ''d'') 0), (n', d')) \<and>
     range_contains (krange n') [1] \<and> range_contains (krange n') [3]"
proof -
  let ?n = "default_node\<lparr>buffer := [probe [3]], krange := \<lparr>min_key = [1], max_key = [2]\<rparr>\<rparr>"
  let ?d = "\<lparr>files = Map.empty, openable = (\<lambda>_. True)\<rparr>"
  from flush_to_disk_correct [of "lit ''d''" ?n ?d] obtain n' where n':
    "flush_to_disk (lit ''d'') (?n, ?d) = (if openable ?d (tmp_of (node_path_in (lit ''d'') (nid ?n)))
       then (Inr (node_path_in (lit ''d'') (nid ?n)), (n', ?d\<lparr>files := (files ?d)
              (tmp_of (node_path_in (lit ''d'') (nid ?n)) := None,
               node_path_in (lit ''d'') (nid ?n) \<mapsto> node_image n')\<rparr>))
       else (Inl (Cannot_open_for_writing (tmp_of (node_path_in (lit ''d'') (nid ?n)))), (n', ?d)))"
    "\<forall>e\<in>set (buffer ?n). range_contains (krange n') (key e)"
    "min_key (krange ?n) \<noteq> [] \<and> max_key (krange ?n) \<noteq> [] \<longrightarrow>
       (\<forall>k. range_contains (krange ?n) k \<longrightarrow> range_contains (krange n') k)" by blast
  have "range_contains (krange ?n) [1]" by (simp add: range_contains_def)
  with n'(3) have "range_contains (krange n') [1]" by simp
  moreover have "range_contains (krange n') [3]" using n'(2) by (simp add: probe_def)
  moreover have "nid ?n = 0" by (simp add: default_node_def INVALID_NODE_ID_def)
  then have "\<exists>d'. flush_to_disk (lit ''d'') (?n, ?d) = (Inr (node_path_in (lit ''d'') 0), (n', d'))"
    unfolding n'(1) by simp
  ultimately show ?thesis by blast
qed

text \<open>
  C36. The bloom length of a node file is not checked against the file: there is a file with a
  correct checksum on which \<^verbatim>\<open>load_header\<close> reads past the end of its buffer.
\<close>

theorem read_file_bloom_overread:
  "load_header \<lparr>files = [path \<mapsto> header_image default_node @ le_bytes 4 (100 :: u32) @
      le_bytes 8 (crc64 (header_image default_node @ le_bytes 4 (100 :: u32)))], openable = w\<rparr> path =
   Inl Undefined_behaviour"
proof -
  let ?p = "header_image default_node @ le_bytes 4 (100 :: u32)"
  let ?crc = "le_bytes 8 (crc64 ?p)"
  have fits: "node_fits default_node" by (simp add: node_fits_def default_node_def)
  have r: "\<lparr>rdata = header_image default_node @ le_bytes 4 (100 :: u32) @ ?crc,
      rsize = 4 + length (header_image default_node), rpos = 0\<rparr> =
      rd_at [] (header_image default_node @ le_bytes 4 (100 :: u32)) ?crc"
    by (simp add: rd_at_def)
  have "read_bloom m (rd_at pre (le_bytes 4 (100 :: u32)) ?crc) = Inl Undefined_behaviour" for m pre
  proof -
    have "rd_at pre (le_bytes 4 (100 :: u32)) ?crc = rd_at pre (le_bytes 4 (100 :: u32) @ []) ?crc" by simp
    then show ?thesis
      by (simp only: read_bloom_def r_u32_at bind_res_simps prod.case)
         (simp add: bloom_deserialize_def rd_at_def)
  qed
  then show ?thesis
    by (simp add: load_header_def read_file_def r read_header_image [OF fits] Let_def
        del: bind_res_eq_Inr)
qed

end
