(* ===== verification/Manifest_Store.thy ===== *)
theory Manifest_Store
  imports Sst_Node "HOL-Library.AList"
begin

text \<open>
  \<^verbatim>\<open>class Manifest\<close> of \<^verbatim>\<open>include/gravtree/manifest.h\<close> and \<^verbatim>\<open>src/manifest.cpp\<close>: the registry of node
  files, its text form and the garbage collection of invalidated files. The hash map \<^verbatim>\<open>nodes_\<close> is an
  association list in insertion order (the order in which the standard container iterates is not
  specified and no theorem depends on it). Every operation runs under the manifest's mutex, so each
  is one step of the model.

  The text is read with \<^verbatim>\<open>std::getline\<close> and formatted extraction from a \<^verbatim>\<open>std::istringstream\<close>:
  extraction skips white space, fails at the end of the line without touching its target, and after
  a failure every later extraction fails as well. Reading a local integer that no extraction
  assigned is undefined.
\<close>

record node_meta =
  m_id :: node_id
  m_level :: u32
  m_path :: bytes
  m_valid :: bool

record manifest =
  m_dir :: bytes
  root_id :: node_id
  next_id :: node_id
  m_nodes :: "(node_id \<times> node_meta) list"

definition new_manifest :: "bytes \<Rightarrow> manifest" where
  "new_manifest dir = \<lparr>m_dir = dir, root_id = INVALID_NODE_ID, next_id = 1, m_nodes = []\<rparr>"

definition manifest_path :: "manifest \<Rightarrow> bytes" where
  "manifest_path m = m_dir m @ lit ''/manifest''"

definition manifest_tmp_path :: "manifest \<Rightarrow> bytes" where
  "manifest_tmp_path m = m_dir m @ lit ''/manifest.tmp''"

subsection \<open>Mutations and queries\<close>

definition register_node :: "node_id \<Rightarrow> u32 \<Rightarrow> bytes \<Rightarrow> manifest \<Rightarrow> manifest" where
  "register_node i lvl path m = m\<lparr>m_nodes :=
     AList.update i \<lparr>m_id = i, m_level = lvl, m_path = path, m_valid = True\<rparr> (m_nodes m)\<rparr>"

definition invalidate_node :: "node_id \<Rightarrow> manifest \<Rightarrow> manifest" where
  "invalidate_node i m =
     m\<lparr>m_nodes := AList.map_entry i (\<lambda>meta. meta\<lparr>m_valid := False\<rparr>) (m_nodes m)\<rparr>"

definition set_root :: "node_id \<Rightarrow> manifest \<Rightarrow> manifest" where
  "set_root i m = m\<lparr>root_id := i\<rparr>"

definition next_node_id :: "manifest \<Rightarrow> node_id \<times> manifest" where
  "next_node_id m = (next_id m, m\<lparr>next_id := next_id m + 1\<rparr>)"

definition node_path :: "manifest \<Rightarrow> node_id \<Rightarrow> bytes res" where
  "node_path m i =
     (case map_of (m_nodes m) i of
        None \<Rightarrow> Inl (Unknown_node i)
      | Some meta \<Rightarrow> if \<not> m_valid meta then Inl (Unknown_node i) else Inr (m_path meta))"

definition nodes_at_level :: "manifest \<Rightarrow> u32 \<Rightarrow> node_meta list" where
  "nodes_at_level m lvl =
     map snd (filter (\<lambda>(i, meta). m_valid meta \<and> m_level meta = lvl) (m_nodes m))"

fun gc_loop ::
  "(node_id \<times> node_meta) list \<Rightarrow> (bytes \<rightharpoonup> bytes) \<Rightarrow> (node_id \<times> node_meta) list \<times> (bytes \<rightharpoonup> bytes)" where
  "gc_loop [] fs = ([], fs)"
| "gc_loop ((i, meta) # ns) fs =
     (if \<not> m_valid meta then gc_loop ns (fs(m_path meta := None))
      else case gc_loop ns fs of (ns', fs') \<Rightarrow> ((i, meta) # ns', fs'))"

definition gc :: "manifest \<Rightarrow> disk \<Rightarrow> manifest \<times> disk" where
  "gc m d = (case gc_loop (m_nodes m) (files d) of (ns, fs) \<Rightarrow> (m\<lparr>m_nodes := ns\<rparr>, d\<lparr>files := fs\<rparr>))"

subsection \<open>save\<close>

definition NEWLINE :: byte where "NEWLINE = 10"
definition BLANK :: byte where "BLANK = 32"

definition node_line :: "node_meta \<Rightarrow> bytes" where
  "node_line meta = lit ''NODE '' @ to_string (m_id meta) @ [BLANK] @
     dec_string (unat (m_level meta)) @ [BLANK] @ dec_string (if m_valid meta then 1 else 0) @ [BLANK] @
     m_path meta"

definition manifest_text :: "manifest \<Rightarrow> bytes" where
  "manifest_text m =
     lit ''VERSION 1'' @ [NEWLINE] @
     lit ''ROOT '' @ to_string (root_id m) @ [NEWLINE] @
     lit ''NEXT_ID '' @ to_string (next_id m) @ [NEWLINE] @
     concat (map (\<lambda>(i, meta). node_line meta @ [NEWLINE]) (m_nodes m))"

definition manifest_save :: "manifest \<Rightarrow> (disk, unit) exec" where
  "manifest_save m d =
     (if \<not> openable d (manifest_tmp_path m) then (Inl (Cannot_write_manifest (manifest_tmp_path m)), d)
      else (Inr (), d\<lparr>files := (files d)(manifest_tmp_path m := None,
              manifest_path m \<mapsto> manifest_text m)\<rparr>))"

subsection \<open>Formatted extraction\<close>

record istream =
  unread :: bytes
  failed :: bool

definition is_space :: "byte \<Rightarrow> bool" where
  "is_space b \<longleftrightarrow> b = 32 \<or> 9 \<le> b \<and> b \<le> 13"

text \<open>The sentry: white space is skipped; a failed or exhausted stream fails.\<close>

definition in_sentry :: "istream \<Rightarrow> bytes option" where
  "in_sentry st =
     (let r = dropWhile is_space (unread st)
      in if failed st \<or> r = [] then None else Some r)"

definition in_word :: "istream \<Rightarrow> bytes option \<times> istream" where
  "in_word st =
     (case in_sentry st of
        None \<Rightarrow> (None, st\<lparr>failed := True\<rparr>)
      | Some r \<Rightarrow> (Some (takeWhile (\<lambda>b. \<not> is_space b) r),
                   st\<lparr>unread := dropWhile (\<lambda>b. \<not> is_space b) r\<rparr>))"

text \<open>An optional sign and the digits behind it.\<close>

definition in_digits :: "bytes \<Rightarrow> bool \<times> bytes \<times> bytes" where
  "in_digits r =
     (let neg = (r \<noteq> [] \<and> hd r = 45);
          r' = (if r \<noteq> [] \<and> (hd r = 45 \<or> hd r = 43) then tl r else r)
      in (neg, takeWhile is_digit r', dropWhile is_digit r'))"

text \<open>
  Extraction into an unsigned integer below \<open>bound\<close>: no digits store zero and fail, too large a
  number stores the largest value and fails, a minus sign wraps around.
\<close>

definition in_unsigned :: "nat \<Rightarrow> istream \<Rightarrow> nat option \<times> istream" where
  "in_unsigned bound st =
     (case in_sentry st of
        None \<Rightarrow> (None, st\<lparr>failed := True\<rparr>)
      | Some r \<Rightarrow>
          (case in_digits r of (neg, ds, rest) \<Rightarrow>
             if ds = [] then (Some 0, st\<lparr>unread := rest, failed := True\<rparr>)
             else if dec_value ds \<ge> bound then (Some (bound - 1), st\<lparr>unread := rest, failed := True\<rparr>)
             else (Some (if neg then (bound - dec_value ds) mod bound else dec_value ds), st\<lparr>unread := rest\<rparr>)))"

definition in_int :: "istream \<Rightarrow> int option \<times> istream" where
  "in_int st =
     (case in_sentry st of
        None \<Rightarrow> (None, st\<lparr>failed := True\<rparr>)
      | Some r \<Rightarrow>
          (case in_digits r of (neg, ds, rest) \<Rightarrow>
             let v = (if neg then - int (dec_value ds) else int (dec_value ds)) in
             if ds = [] then (Some 0, st\<lparr>unread := rest, failed := True\<rparr>)
             else if v > 2 ^ 31 - 1 then (Some (2 ^ 31 - 1), st\<lparr>unread := rest, failed := True\<rparr>)
             else if v < - (2 ^ 31) then (Some (- (2 ^ 31)), st\<lparr>unread := rest, failed := True\<rparr>)
             else (Some v, st\<lparr>unread := rest\<rparr>)))"

definition in_u64 :: "istream \<Rightarrow> u64 option \<times> istream" where
  "in_u64 st = (case in_unsigned (2 ^ 64) st of (v, st') \<Rightarrow> (map_option of_nat v, st'))"

definition in_u32 :: "istream \<Rightarrow> u32 option \<times> istream" where
  "in_u32 st = (case in_unsigned (2 ^ 32) st of (v, st') \<Rightarrow> (map_option of_nat v, st'))"

subsection \<open>load\<close>

function split_lines :: "bytes \<Rightarrow> bytes list" where
  "split_lines bs =
     (if bs = [] then []
      else takeWhile (\<lambda>b. b \<noteq> NEWLINE) bs # split_lines (tl (dropWhile (\<lambda>b. b \<noteq> NEWLINE) bs)))"
  by pat_completeness auto
termination
proof (relation "measure length")
  fix bs :: bytes assume "bs \<noteq> []"
  then have "length (tl (dropWhile (\<lambda>b. b \<noteq> NEWLINE) bs)) < length bs"
    using length_dropWhile_le [of "\<lambda>b. b \<noteq> NEWLINE" bs] by (cases bs) auto
  then show "(tl (dropWhile (\<lambda>b. b \<noteq> NEWLINE) bs), bs) \<in> measure length" by simp
qed simp

declare split_lines.simps [simp del]

definition load_node :: "istream \<Rightarrow> manifest \<times> node_id \<Rightarrow> (manifest \<times> node_id) res" where
  "load_node st0 = (\<lambda>(m, max_id).
     case in_u64 st0 of (i, st1) \<Rightarrow>
     case in_u32 st1 of (lvl, st2) \<Rightarrow>
     case in_int st2 of (valid_int, st3) \<Rightarrow>
     case in_word st3 of (path, _) \<Rightarrow>
       (case valid_int of
          None \<Rightarrow> Inl Undefined_behaviour
        | Some v \<Rightarrow>
            let i' = (case i of None \<Rightarrow> INVALID_NODE_ID | Some x \<Rightarrow> x);
                lvl' = (case lvl of None \<Rightarrow> 0 | Some x \<Rightarrow> x);
                path' = (case path of None \<Rightarrow> [] | Some x \<Rightarrow> x);
                meta = \<lparr>m_id = i', m_level = lvl', m_path = path', m_valid = (v \<noteq> 0)\<rparr>
            in Inr (m\<lparr>m_nodes := AList.update i' meta (m_nodes m)\<rparr>,
                    if i' > max_id then i' else max_id)))"

definition load_line :: "bytes \<Rightarrow> manifest \<times> node_id \<Rightarrow> (manifest \<times> node_id) res" where
  "load_line line = (\<lambda>(m, max_id).
     if line = [] \<or> hd line = 35 then Inr (m, max_id)
     else case in_word \<lparr>unread = line, failed = False\<rparr> of (token, st) \<Rightarrow>
       if token = Some (lit ''ROOT'') then
         (case in_u64 st of
            (None, _) \<Rightarrow> Inr (m, max_id)
          | (Some i, _) \<Rightarrow> Inr (m\<lparr>root_id := i\<rparr>, max_id))
       else if token = Some (lit ''NEXT_ID'') then
         (case in_u64 st of
            (None, _) \<Rightarrow> Inl Undefined_behaviour
          | (Some i, _) \<Rightarrow> Inr (m\<lparr>next_id := i\<rparr>, max_id))
       else if token = Some (lit ''NODE'') then load_node st (m, max_id)
       else Inr (m, max_id))"

fun load_lines :: "bytes list \<Rightarrow> manifest \<times> node_id \<Rightarrow> (manifest \<times> node_id) res" where
  "load_lines [] s = Inr s"
| "load_lines (l # ls) s = bind_res (load_line l s) (load_lines ls)"

definition manifest_load :: "manifest \<Rightarrow> disk \<Rightarrow> manifest res" where
  "manifest_load m d =
     (case files d (manifest_path m) of
        None \<Rightarrow> Inr m
      | Some content \<Rightarrow>
          bind_res (load_lines (split_lines content) (m, 0)) (\<lambda>(m', max_id).
            Inr (if max_id + 1 > next_id m' then m'\<lparr>next_id := max_id + 1\<rparr> else m')))"

subsection \<open>The registry contract\<close>

text \<open>
  What the tree relies on: the manifest maps a node to its file from registration to invalidation,
  and operations on one node do not touch another. \<open>replace_all\<close> is the pattern of every structural
  change, new nodes registered and old ones invalidated.
\<close>

fun replace_all :: "('k \<Rightarrow> 'v \<Rightarrow> 'm \<Rightarrow> 'm) \<Rightarrow> ('k \<Rightarrow> 'm \<Rightarrow> 'm) \<Rightarrow> ('k \<times> 'v) list \<Rightarrow> 'k list \<Rightarrow> 'm \<Rightarrow> 'm" where
  "replace_all put del news olds m = fold del olds (fold (\<lambda>(k, v). put k v) news m)"

locale registry =
  fixes look :: "'m \<Rightarrow> 'k \<Rightarrow> 'v option"
    and put :: "'k \<Rightarrow> 'v \<Rightarrow> 'm \<Rightarrow> 'm"
    and del :: "'k \<Rightarrow> 'm \<Rightarrow> 'm"
  assumes look_put: "look (put k v m) k' = (if k' = k then Some v else look m k')"
    and look_drop: "look (del k m) k' = (if k' = k then None else look m k')"
begin

lemma look_puts:
  "distinct (map fst news) \<Longrightarrow>
     look (fold (\<lambda>(k, v). put k v) news m) k = (case map_of news k of None \<Rightarrow> look m k | Some v \<Rightarrow> Some v)"
proof (induction news arbitrary: m)
  case (Cons a news)
  obtain k' v' where a: "a = (k', v')" by (cases a)
  have "map_of news k' = None" using Cons.prems a by (simp add: map_of_eq_None_iff)
  with Cons a show ?case by (auto simp: look_put split: option.splits)
qed simp

lemma look_drops: "look (fold del olds m) k = (if k \<in> set olds then None else look m k)"
  by (induction olds arbitrary: m) (simp_all add: look_drop)

lemma look_replace_all:
  assumes "distinct (map fst news)" "set olds \<inter> fst ` set news = {}"
  shows "look (replace_all put del news olds m) k =
    (if k \<in> set olds then None else case map_of news k of None \<Rightarrow> look m k | Some v \<Rightarrow> Some v)"
  by (simp add: look_drops look_puts [OF assms(1)])

end

text \<open>The live view of a manifest: level and path of the valid nodes.\<close>

definition live :: "manifest \<Rightarrow> node_id \<Rightarrow> (u32 \<times> bytes) option" where
  "live m i = (case map_of (m_nodes m) i of
     None \<Rightarrow> None
   | Some meta \<Rightarrow> if m_valid meta then Some (m_level meta, m_path meta) else None)"

lemma node_path_live: "node_path m i = (case live m i of None \<Rightarrow> Inl (Unknown_node i) | Some p \<Rightarrow> Inr (snd p))"
  by (simp add: node_path_def live_def split: option.splits)

interpretation manifest_registry:
  registry live "\<lambda>i (lvl, path). register_node i lvl path" invalidate_node
proof unfold_locales
  fix i i' v m
  show "live ((case v of (lvl, path) \<Rightarrow> register_node i lvl path) m) i' =
      (if i' = i then Some v else live m i')"
    by (cases v) (simp add: live_def register_node_def update_conv)
  show "live (invalidate_node i m) i' = (if i' = i then None else live m i')"
    by (simp add: live_def invalidate_node_def map_of_map_entry split: option.splits)
qed

lemma register_node_sel [simp]:
  "m_dir (register_node i lvl path m) = m_dir m" "root_id (register_node i lvl path m) = root_id m"
  "next_id (register_node i lvl path m) = next_id m"
  by (simp_all add: register_node_def)

lemma invalidate_node_sel [simp]:
  "m_dir (invalidate_node i m) = m_dir m" "root_id (invalidate_node i m) = root_id m"
  "next_id (invalidate_node i m) = next_id m"
  by (simp_all add: invalidate_node_def)

text \<open>
  A well-formed manifest: one record per id, stored under its own id, and every id below the next
  one to be handed out, which is not the invalid id.
\<close>

definition manifest_wf :: "manifest \<Rightarrow> bool" where
  "manifest_wf m \<longleftrightarrow> 0 < next_id m \<and> distinct (map fst (m_nodes m)) \<and>
     (\<forall>(i, meta)\<in>set (m_nodes m). m_id meta = i \<and> i < next_id m)"

lemma manifest_wf_new: "manifest_wf (new_manifest dir)"
  by (simp add: manifest_wf_def new_manifest_def)

lemma set_update_cases: "x \<in> set (AList.update k v al) \<Longrightarrow> x = (k, v) \<or> x \<in> set al"
  by (induction al) (auto split: if_splits)

lemma manifest_wf_register:
  "manifest_wf m \<Longrightarrow> i < next_id m \<Longrightarrow> manifest_wf (register_node i lvl path m)"
  unfolding manifest_wf_def register_node_def
  by (auto simp: distinct_update dest!: set_update_cases)

lemma map_entry_cases:
  "(i, meta) \<in> set (AList.map_entry k f al) \<Longrightarrow> \<exists>meta'. (i, meta') \<in> set al \<and> (meta = meta' \<or> meta = f meta')"
  by (induction al) (auto split: if_splits)

lemma manifest_wf_invalidate: "manifest_wf m \<Longrightarrow> manifest_wf (invalidate_node i m)"
  unfolding manifest_wf_def invalidate_node_def
  by (fastforce simp: distinct_map_entry dest!: map_entry_cases)

lemma u64_succ_less: "n \<noteq> - 1 \<Longrightarrow> n < n + 1" for n :: u64
  using unatSuc [of n] by (simp add: word_less_nat_alt add.commute add_eq_0_iff)

lemma manifest_wf_next: "manifest_wf m \<Longrightarrow> next_id m \<noteq> - 1 \<Longrightarrow> manifest_wf (snd (next_node_id m))"
  unfolding manifest_wf_def next_node_id_def using u64_succ_less [of "next_id m"] by fastforce

lemma gc_loop_spec:
  "gc_loop ns fs = (filter (\<lambda>(i, meta). m_valid meta) ns,
     \<lambda>p. if \<exists>(i, meta)\<in>set ns. \<not> m_valid meta \<and> m_path meta = p then None else fs p)"
  by (induction ns arbitrary: fs) (auto simp: fun_eq_iff split: if_splits)

lemma live_filter:
  assumes "distinct (map fst (m_nodes m))"
  shows "live (m\<lparr>m_nodes := filter (\<lambda>(i, meta). m_valid meta) (m_nodes m)\<rparr>) = live m"
proof
  fix i
  have "distinct (map fst ns) \<Longrightarrow> map_of (filter (\<lambda>(i, meta). m_valid meta) ns) i =
      (case map_of ns i of None \<Rightarrow> None | Some meta \<Rightarrow> if m_valid meta then Some meta else None)"
    for ns :: "(node_id \<times> node_meta) list"
    by (induction ns) (auto simp: map_of_eq_None_iff split: option.splits)
  from this [OF assms] show "live (m\<lparr>m_nodes := filter (\<lambda>(i, meta). m_valid meta) (m_nodes m)\<rparr>) i = live m i"
    by (simp add: live_def split: option.splits)
qed

subsection \<open>Reading back the text form\<close>

lemma split_lines_Cons:
  "NEWLINE \<notin> set l \<Longrightarrow> split_lines (l @ NEWLINE # rest) = l # split_lines rest"
  by (subst split_lines.simps) (auto simp: takeWhile_append dropWhile_append)

lemma split_lines_concat:
  "\<forall>l\<in>set ls. NEWLINE \<notin> set l \<Longrightarrow> split_lines (concat (map (\<lambda>l. l @ [NEWLINE]) ls)) = ls"
proof (induction ls)
  case Nil
  show ?case by (subst split_lines.simps) simp
next
  case (Cons l ls)
  then show ?case by (simp add: split_lines_Cons)
qed

lemma digit_not_space: "is_digit b \<Longrightarrow> \<not> is_space b"
  by (auto simp: is_digit_def is_space_def word_le_nat_alt)

lemma dec_string_hd: "\<exists>c cs. dec_string n = c # cs \<and> is_digit c"
proof (cases "dec_string n")
  case (Cons c cs)
  then show ?thesis using dec_string_digits [of c n] by simp
qed simp

lemma in_sentry_blank:
  "\<not> is_space c \<Longrightarrow> in_sentry \<lparr>unread = BLANK # c # r, failed = False\<rparr> = Some (c # r)"
proof -
  assume "\<not> is_space c"
  moreover have "is_space BLANK" by (simp add: is_space_def BLANK_def)
  ultimately show ?thesis by (simp add: in_sentry_def)
qed

lemma in_digits_dec:
  assumes "rest = [] \<or> \<not> is_digit (hd rest)"
  shows "in_digits (dec_string n @ rest) = (False, dec_string n, rest)"
proof -
  obtain c cs where c: "dec_string n = c # cs" "is_digit c" using dec_string_hd by blast
  have "c \<noteq> 45" "c \<noteq> 43" using c(2) by (auto simp: is_digit_def)
  moreover have "\<forall>b\<in>set (dec_string n). is_digit b" using dec_string_digits by blast
  then have "takeWhile is_digit (dec_string n @ rest) = dec_string n"
    "dropWhile is_digit (dec_string n @ rest) = rest"
    using assms by (auto simp: takeWhile_append dropWhile_append)
      (cases rest; simp)+
  ultimately show ?thesis using c(1) by (simp add: in_digits_def Let_def)
qed

lemma in_unsigned_dec:
  assumes "n < bound" "rest = [] \<or> \<not> is_digit (hd rest)"
  shows "in_unsigned bound \<lparr>unread = BLANK # dec_string n @ rest, failed = False\<rparr> =
    (Some n, \<lparr>unread = rest, failed = False\<rparr>)"
proof -
  obtain c cs where c: "dec_string n = c # cs" "is_digit c" using dec_string_hd by blast
  then have "in_sentry \<lparr>unread = BLANK # dec_string n @ rest, failed = False\<rparr> = Some (dec_string n @ rest)"
    using in_sentry_blank digit_not_space by simp
  then show ?thesis using assms(1) by (simp add: in_unsigned_def in_digits_dec [OF assms(2)])
qed

lemma in_int_dec:
  assumes "n < 2 ^ 31" "rest = [] \<or> \<not> is_digit (hd rest)"
  shows "in_int \<lparr>unread = BLANK # dec_string n @ rest, failed = False\<rparr> =
    (Some (int n), \<lparr>unread = rest, failed = False\<rparr>)"
proof -
  obtain c cs where c: "dec_string n = c # cs" "is_digit c" using dec_string_hd by blast
  then have "in_sentry \<lparr>unread = BLANK # dec_string n @ rest, failed = False\<rparr> = Some (dec_string n @ rest)"
    using in_sentry_blank digit_not_space by simp
  then show ?thesis using assms(1) by (simp add: in_int_def in_digits_dec [OF assms(2)])
qed

lemma in_u64_dec:
  assumes "rest = [] \<or> \<not> is_digit (hd rest)"
  shows "in_u64 \<lparr>unread = BLANK # to_string w @ rest, failed = False\<rparr> =
    (Some w, \<lparr>unread = rest, failed = False\<rparr>)"
  using unsigned_less [of w, where ?'a = nat] in_unsigned_dec [OF _ assms, of "unat w" "2 ^ 64"]
  by (simp add: in_u64_def to_string_def)

lemma in_u32_dec:
  assumes "rest = [] \<or> \<not> is_digit (hd rest)"
  shows "in_u32 \<lparr>unread = BLANK # dec_string (unat w) @ rest, failed = False\<rparr> =
    (Some w, \<lparr>unread = rest, failed = False\<rparr>)"
  using unsigned_less [of w, where ?'a = nat] in_unsigned_dec [OF _ assms, of "unat w" "2 ^ 32"]
  by (simp add: in_u32_def)

lemma in_word_token:
  assumes "token \<noteq> []" "\<forall>b\<in>set token. \<not> is_space b" "is_space s"
  shows "in_word \<lparr>unread = token @ s # rest, failed = False\<rparr> =
    (Some token, \<lparr>unread = s # rest, failed = False\<rparr>)"
proof -
  obtain c cs where "token = c # cs" "\<not> is_space c" using assms by (cases token) auto
  then have "in_sentry \<lparr>unread = token @ s # rest, failed = False\<rparr> = Some (token @ s # rest)"
    by (simp add: in_sentry_def)
  moreover have "takeWhile (\<lambda>b. \<not> is_space b) (token @ s # rest) = token"
    "dropWhile (\<lambda>b. \<not> is_space b) (token @ s # rest) = s # rest"
    using assms by (auto simp: takeWhile_append dropWhile_append)
  ultimately show ?thesis by (simp add: in_word_def)
qed

lemma in_word_path:
  assumes "\<forall>b\<in>set path. \<not> is_space b"
  shows "case_option [] (\<lambda>x. x) (fst (in_word \<lparr>unread = BLANK # path, failed = False\<rparr>)) = path"
proof (cases path)
  case Nil
  then show ?thesis by (simp add: in_word_def in_sentry_def is_space_def BLANK_def)
next
  case (Cons c cs)
  then have "in_sentry \<lparr>unread = BLANK # path, failed = False\<rparr> = Some path"
    using assms in_sentry_blank by simp
  moreover have "takeWhile (\<lambda>b. \<not> is_space b) path = path" using assms by (simp add: takeWhile_eq_all_conv)
  ultimately show ?thesis by (simp add: in_word_def)
qed

text \<open>The three keywords as bytes.\<close>

lemma lit_keywords:
  "lit ''NODE '' = lit ''NODE'' @ [BLANK]" "lit ''ROOT '' = lit ''ROOT'' @ [BLANK]"
  "lit ''NEXT_ID '' = lit ''NEXT_ID'' @ [BLANK]"
  "lit ''ROOT'' = [82, 79, 79, 84]" "lit ''NODE'' = [78, 79, 68, 69]"
  "lit ''NEXT_ID'' = [78, 69, 88, 84, 95, 73, 68]"
  "lit ''VERSION 1'' = [86, 69, 82, 83, 73, 79, 78, 32, 49]"
  by (simp_all add: lit_def BLANK_def)

lemma is_space_separators [simp]: "is_space BLANK" "is_space NEWLINE" "\<not> is_digit BLANK"
  by (simp_all add: is_space_def is_digit_def BLANK_def NEWLINE_def)

lemma keyword_not_space:
  "\<forall>b\<in>set (lit ''ROOT''). \<not> is_space b" "\<forall>b\<in>set (lit ''NODE''). \<not> is_space b"
  "\<forall>b\<in>set (lit ''NEXT_ID''). \<not> is_space b"
  by (simp_all add: lit_keywords is_space_def)

lemma load_line_version: "load_line (lit ''VERSION 1'') s = Inr s"
  by (cases s) (simp add: load_line_def lit_keywords in_word_def in_sentry_def is_space_def)

lemma load_line_root: "load_line (lit ''ROOT '' @ to_string i) (m, mx) = Inr (m\<lparr>root_id := i\<rparr>, mx)"
  using in_word_token [of "lit ''ROOT''" BLANK "to_string i"] keyword_not_space(1) in_u64_dec [of "[]" i]
  by (simp add: load_line_def lit_keywords)

lemma load_line_next: "load_line (lit ''NEXT_ID '' @ to_string i) (m, mx) = Inr (m\<lparr>next_id := i\<rparr>, mx)"
  using in_word_token [of "lit ''NEXT_ID''" BLANK "to_string i"] keyword_not_space(3) in_u64_dec [of "[]" i]
  by (simp add: load_line_def lit_keywords)

lemma load_line_node_gen:
  "load_line (node_line meta) (m, mx) =
     (let path = case_option [] (\<lambda>x. x) (fst (in_word \<lparr>unread = BLANK # m_path meta, failed = False\<rparr>))
      in Inr (m\<lparr>m_nodes := AList.update (m_id meta) (meta\<lparr>m_path := path\<rparr>) (m_nodes m)\<rparr>,
              if m_id meta > mx then m_id meta else mx))"
proof -
  let ?v = "if m_valid meta then 1 else 0 :: nat"
  let ?r3 = "BLANK # m_path meta"
  let ?r2 = "BLANK # dec_string ?v @ ?r3"
  let ?r1 = "BLANK # dec_string (unat (m_level meta)) @ ?r2"
  let ?r0 = "BLANK # to_string (m_id meta) @ ?r1"
  have line: "node_line meta = lit ''NODE'' @ ?r0" by (simp add: node_line_def lit_keywords(1))
  have word: "in_word \<lparr>unread = lit ''NODE'' @ ?r0, failed = False\<rparr> =
      (Some (lit ''NODE''), \<lparr>unread = ?r0, failed = False\<rparr>)"
    by (rule in_word_token) (use keyword_not_space(2) in \<open>simp_all add: lit_keywords\<close>)
  have meta: "\<lparr>m_id = m_id meta, m_level = m_level meta, m_path = p, m_valid = v\<rparr> = meta\<lparr>m_path := p\<rparr>"
    if "m_valid meta = v" for v p
    using that by (cases meta) simp
  have "load_node \<lparr>unread = ?r0, failed = False\<rparr> (m, mx) =
      (let path = case_option [] (\<lambda>x. x) (fst (in_word \<lparr>unread = ?r3, failed = False\<rparr>))
       in Inr (m\<lparr>m_nodes := AList.update (m_id meta) (meta\<lparr>m_path := path\<rparr>) (m_nodes m)\<rparr>,
              if m_id meta > mx then m_id meta else mx))"
    using in_u64_dec [of ?r1 "m_id meta"] in_u32_dec [of ?r2 "m_level meta"] in_int_dec [of ?v ?r3]
    by (simp add: load_node_def split_beta Let_def meta)
  then show ?thesis unfolding line by (simp add: load_line_def word) (simp add: lit_keywords)
qed

lemma load_line_node:
  assumes "\<forall>b\<in>set (m_path meta). \<not> is_space b"
  shows "load_line (node_line meta) (m, mx) =
    Inr (m\<lparr>m_nodes := AList.update (m_id meta) meta (m_nodes m)\<rparr>,
         if m_id meta > mx then m_id meta else mx)"
  unfolding load_line_node_gen in_word_path [OF assms] by (simp add: Let_def)

lemma update_new: "k \<notin> fst ` set al \<Longrightarrow> AList.update k v al = al @ [(k, v)]"
  by (induction al) auto

lemma load_lines_nodes:
  assumes "distinct (map fst (m_nodes m @ ns))"
    and "\<forall>(i, meta)\<in>set ns. m_id meta = i \<and> (\<forall>b\<in>set (m_path meta). \<not> is_space b)"
  shows "\<exists>mx'. load_lines (map (\<lambda>(i, meta). node_line meta) ns) (m, mx) =
      Inr (m\<lparr>m_nodes := m_nodes m @ ns\<rparr>, mx') \<and> mx' \<in> insert mx (fst ` set ns)"
  using assms
proof (induction ns arbitrary: m mx)
  case (Cons a ns)
  obtain i meta where a: "a = (i, meta)" by (cases a)
  let ?m = "m\<lparr>m_nodes := m_nodes m @ [(i, meta)]\<rparr>"
  let ?mx = "if i > mx then i else mx"
  have "load_line (node_line meta) (m, mx) = Inr (?m, ?mx)"
    using Cons.prems a load_line_node [of meta m mx] update_new [of i "m_nodes m" meta] by auto
  moreover from Cons.IH [of ?m ?mx] Cons.prems a obtain mx' where
    "load_lines (map (\<lambda>(i, meta). node_line meta) ns) (?m, ?mx) = Inr (m\<lparr>m_nodes := m_nodes m @ a # ns\<rparr>, mx')"
    "mx' \<in> insert ?mx (fst ` set ns)" by auto
  ultimately show ?case using a by (auto split: if_splits)
qed simp

lemma load_lines_append:
  "load_lines (xs @ ys) s = bind_res (load_lines xs s) (load_lines ys)"
  by (induction xs arbitrary: s) (auto simp: bind_res_def split: sum.splits)

lemma manifest_text_lines:
  assumes "\<forall>(i, meta)\<in>set (m_nodes m). \<forall>b\<in>set (m_path meta). \<not> is_space b"
  shows "split_lines (manifest_text m) =
    [lit ''VERSION 1'', lit ''ROOT '' @ to_string (root_id m), lit ''NEXT_ID '' @ to_string (next_id m)] @
    map (\<lambda>(i, meta). node_line meta) (m_nodes m)" (is "_ = ?ls")
proof -
  have digits: "NEWLINE \<notin> set (dec_string n)" for n
    using dec_string_digits [of NEWLINE n] by (auto simp: is_digit_def NEWLINE_def)
  have kw: "NEWLINE \<notin> set (lit ''VERSION 1'')" "NEWLINE \<notin> set (lit ''ROOT '')"
    "NEWLINE \<notin> set (lit ''NEXT_ID '')" "NEWLINE \<notin> set (lit ''NODE '')" "NEWLINE \<noteq> BLANK"
    by (simp_all add: lit_keywords NEWLINE_def BLANK_def)
  have "NEWLINE \<notin> set (node_line meta)" if "(i, meta) \<in> set (m_nodes m)" for i meta
  proof -
    have "\<forall>b\<in>set (m_path meta). \<not> is_space b" using that assms by blast
    then have "NEWLINE \<notin> set (m_path meta)" by (metis is_space_separators(2))
    with kw digits show ?thesis by (auto simp: node_line_def to_string_def)
  qed
  then have "\<forall>l\<in>set ?ls. NEWLINE \<notin> set l" using kw digits by (auto simp: to_string_def)
  moreover have "manifest_text m = concat (map (\<lambda>l. l @ [NEWLINE]) ?ls)"
    by (simp add: manifest_text_def comp_def case_prod_unfold)
  ultimately show ?thesis using split_lines_concat by metis
qed

lemma manifest_load_text:
  assumes "manifest_wf m" "\<forall>(i, meta)\<in>set (m_nodes m). \<forall>b\<in>set (m_path meta). \<not> is_space b"
    and "files d (manifest_path m) = Some (manifest_text m)"
  shows "manifest_load (new_manifest (m_dir m)) d = Inr m"
proof -
  let ?m0 = "(new_manifest (m_dir m))\<lparr>root_id := root_id m, next_id := next_id m\<rparr>"
  have nodes: "\<forall>(i, meta)\<in>set (m_nodes m). m_id meta = i \<and> (\<forall>b\<in>set (m_path meta). \<not> is_space b)"
    using assms(1,2) by (auto simp: manifest_wf_def)
  have "distinct (map fst (m_nodes ?m0 @ m_nodes m))"
    using assms(1) by (simp add: manifest_wf_def new_manifest_def)
  then obtain mx where mx: "load_lines (map (\<lambda>(i, meta). node_line meta) (m_nodes m)) (?m0, 0) =
      Inr (?m0\<lparr>m_nodes := m_nodes m\<rparr>, mx)" "mx \<in> insert 0 (fst ` set (m_nodes m))"
    using load_lines_nodes [of ?m0 "m_nodes m" 0, OF _ nodes] by (auto simp: new_manifest_def)
  have "mx < next_id m" using mx(2) assms(1) by (auto simp: manifest_wf_def)
  then have "mx \<noteq> - 1" by (metis word_order.extremum_strict)
  have top: "\<not> next_id m < mx + 1"
  proof -
    have "1 + mx \<noteq> 0" using \<open>mx \<noteq> - 1\<close> by (metis add_eq_0_iff minus_equation_iff)
    then have "unat (mx + 1) = Suc (unat mx)" using unatSuc [of mx] by (simp add: add.commute)
    then show ?thesis using \<open>mx < next_id m\<close> by (simp add: word_less_nat_alt)
  qed
  have same: "?m0\<lparr>m_nodes := m_nodes m\<rparr> = m" by (simp add: new_manifest_def)
  have "load_lines (split_lines (manifest_text m)) (new_manifest (m_dir m), 0) = Inr (m, mx)"
    using mx(1) same
    by (simp add: manifest_text_lines [OF assms(2)] load_lines_append load_line_version load_line_root
        load_line_next)
  moreover have "manifest_path (new_manifest (m_dir m)) = manifest_path m"
    by (simp add: manifest_path_def new_manifest_def)
  ultimately show ?thesis
    using assms(3) top by (simp add: manifest_load_def)
qed

subsection \<open>Properties\<close>

text \<open>
  C14. Saving a well-formed manifest whose paths contain no white space and loading the file into a
  fresh manifest of the same directory gives back the same manifest: root, next id and all records.
\<close>

theorem manifest_save_load:
  assumes "manifest_wf m" and "\<forall>(i, meta)\<in>set (m_nodes m). \<forall>b\<in>set (m_path meta). \<not> is_space b"
    and "openable d (manifest_tmp_path m)"
  shows "\<exists>d'. manifest_save m d = (Inr (), d') \<and> manifest_load (new_manifest (m_dir m)) d' = Inr m"
proof -
  let ?d = "d\<lparr>files := (files d)(manifest_tmp_path m := None, manifest_path m \<mapsto> manifest_text m)\<rparr>"
  have "manifest_save m d = (Inr (), ?d)" using assms(3) by (simp add: manifest_save_def)
  moreover have "manifest_load (new_manifest (m_dir m)) ?d = Inr m"
    by (rule manifest_load_text [OF assms(1,2)]) simp
  ultimately show ?thesis by blast
qed

theorem manifest_save_load_witness:
  "\<exists>d'. manifest_save (register_node 1 0 (lit ''d/node_1.gst'') ((new_manifest (lit ''d''))\<lparr>next_id := 2\<rparr>))
      \<lparr>files = Map.empty, openable = (\<lambda>_. True)\<rparr> = (Inr (), d') \<and>
    manifest_load (new_manifest (lit ''d'')) d' =
      Inr (register_node 1 0 (lit ''d/node_1.gst'') ((new_manifest (lit ''d''))\<lparr>next_id := 2\<rparr>))"
  using manifest_save_load [of "register_node 1 0 (lit ''d/node_1.gst'') ((new_manifest (lit ''d''))\<lparr>next_id := 2\<rparr>)"
      "\<lparr>files = Map.empty, openable = (\<lambda>_. True)\<rparr>"]
  by (simp add: manifest_wf_def register_node_def new_manifest_def lit_def is_space_def)

text \<open>
  C35. A node file in a directory whose name contains a blank does not survive: the path read back
  ends at the first white space, so the store cannot find its files after a reopen.
\<close>

theorem manifest_path_cut_at_blank:
  assumes "p \<noteq> []" and "\<forall>b\<in>set p. \<not> is_space b" and "is_space s" and "m_path meta = p @ s # rest"
  shows "load_line (node_line meta) (m, mx) =
    Inr (m\<lparr>m_nodes := AList.update (m_id meta) (meta\<lparr>m_path := p\<rparr>) (m_nodes m)\<rparr>,
         if m_id meta > mx then m_id meta else mx)"
proof -
  obtain c cs where p: "p = c # cs" "\<not> is_space c" using assms(1,2) by (cases p) auto
  then have "in_sentry \<lparr>unread = BLANK # p @ s # rest, failed = False\<rparr> = Some (p @ s # rest)"
    by (simp add: in_sentry_blank)
  moreover have "takeWhile (\<lambda>b. \<not> is_space b) (p @ s # rest) = p"
    using assms(2,3) by (simp add: takeWhile_append)
  ultimately have "fst (in_word \<lparr>unread = BLANK # m_path meta, failed = False\<rparr>) = Some p"
    by (simp add: in_word_def assms(4))
  then show ?thesis unfolding load_line_node_gen by (simp add: Let_def)
qed

theorem manifest_path_cut_at_blank_witness:
  "load_line (node_line \<lparr>m_id = 1, m_level = 0, m_path = lit ''/my data/node_1.gst'', m_valid = True\<rparr>)
     (new_manifest (lit ''/my data''), 0) =
   Inr ((new_manifest (lit ''/my data''))\<lparr>m_nodes :=
     [(1, \<lparr>m_id = 1, m_level = 0, m_path = lit ''/my'', m_valid = True\<rparr>)]\<rparr>, 1)"
proof -
  let ?meta = "\<lparr>m_id = 1, m_level = 0, m_path = lit ''/my data/node_1.gst'', m_valid = True\<rparr>"
  have "m_path ?meta = lit ''/my'' @ BLANK # lit ''data/node_1.gst''" "lit ''/my'' \<noteq> []"
    "\<forall>b\<in>set (lit ''/my''). \<not> is_space b"
    by (simp_all add: lit_def BLANK_def is_space_def)
  from manifest_path_cut_at_blank [OF this(2,3) is_space_separators(1) this(1)] show ?thesis
    by (simp add: new_manifest_def)
qed

text \<open>
  The registry: after registering new nodes and invalidating old ones, exactly the new nodes and
  the untouched old ones are known; \<^verbatim>\<open>node_path\<close> throws for every invalidated or unknown id.
\<close>

lemma manifest_replace:
  assumes "distinct (map fst news)" and "set olds \<inter> fst ` set news = {}"
  shows "node_path (replace_all (\<lambda>i (lvl, path). register_node i lvl path) invalidate_node news olds m) i =
    (if i \<in> set olds then Inl (Unknown_node i)
     else case map_of news i of Some (lvl, path) \<Rightarrow> Inr path | None \<Rightarrow> node_path m i)"
  using manifest_registry.look_replace_all [OF assms, of m i]
  by (auto simp: node_path_live simp del: replace_all.simps split: option.splits)

text \<open>
  C39. Garbage collection forgets exactly the invalidated nodes and deletes exactly their files;
  a file that no invalidated node owns stays, and no valid node is lost.
\<close>

theorem gc_exact:
  "gc m d = (m', d') \<Longrightarrow>
     live m' = live (m\<lparr>m_nodes := filter (\<lambda>(i, meta). m_valid meta) (m_nodes m)\<rparr>) \<and>
     (\<forall>(i, meta)\<in>set (m_nodes m'). m_valid meta) \<and>
     (manifest_wf m \<longrightarrow> manifest_wf m' \<and> live m' = live m) \<and>
     (\<forall>p. files d' p =
        (if \<exists>(i, meta)\<in>set (m_nodes m). \<not> m_valid meta \<and> m_path meta = p then None else files d p))"
proof -
  assume g: "gc m d = (m', d')"
  let ?ns = "filter (\<lambda>(i, meta). m_valid meta) (m_nodes m)"
  from g have m': "m' = m\<lparr>m_nodes := ?ns\<rparr>" and d': "files d' = (\<lambda>p.
      if \<exists>(i, meta)\<in>set (m_nodes m). \<not> m_valid meta \<and> m_path meta = p then None else files d p)"
    by (auto simp: gc_def gc_loop_spec)
  have "live m' = live m" if "distinct (map fst (m_nodes m))" using live_filter [OF that] by (simp add: m')
  moreover have "distinct (map fst ?ns)" if "distinct (map fst (m_nodes m))"
    using that by (simp add: distinct_map_filter)
  ultimately show ?thesis by (auto simp: m' d' manifest_wf_def)
qed

theorem gc_exact_witness:
  "live (fst (gc (invalidate_node 1 (register_node 1 0 (lit ''a'') (new_manifest [])))
     \<lparr>files = [lit ''a'' \<mapsto> [7]], openable = (\<lambda>_. True)\<rparr>)) 1 = None \<and>
   files (snd (gc (invalidate_node 1 (register_node 1 0 (lit ''a'') (new_manifest [])))
     \<lparr>files = [lit ''a'' \<mapsto> [7]], openable = (\<lambda>_. True)\<rparr>)) (lit ''a'') = None"
proof -
  let ?m = "invalidate_node 1 (register_node 1 0 (lit ''a'') (new_manifest []))"
  let ?d = "\<lparr>files = [lit ''a'' \<mapsto> [7]], openable = (\<lambda>_. True)\<rparr>"
  have "m_nodes ?m = [(1, \<lparr>m_id = 1, m_level = 0, m_path = lit ''a'', m_valid = False\<rparr>)]"
    by (simp add: invalidate_node_def register_node_def new_manifest_def)
  with gc_exact [of ?m ?d "fst (gc ?m ?d)" "snd (gc ?m ?d)"] show ?thesis by (simp add: live_def)
qed

text \<open>
  A truncated manifest line makes \<^verbatim>\<open>load\<close> read an uninitialised integer: a \<^verbatim>\<open>NODE\<close> line
  that ends behind the level, or a \<^verbatim>\<open>NEXT_ID\<close> line without a number.
\<close>

lemma load_truncated_line:
  "load_line (lit ''NODE 7 0'') s = Inl Undefined_behaviour \<and>
   load_line (lit ''NEXT_ID'') s = Inl Undefined_behaviour \<and>
   load_line (lit ''ROOT'') s = Inr s"
proof -
  have lits: "lit ''NODE 7 0'' = [78, 79, 68, 69, 32, 55, 32, 48]" by (simp add: lit_def)
  show ?thesis
    unfolding lits
    by (cases s) (simp add: load_line_def load_node_def lit_keywords in_word_def in_sentry_def in_u64_def
        in_u32_def in_int_def in_unsigned_def in_digits_def is_space_def is_digit_def dec_value_def Let_def)
qed

end
