(* ===== verification/Local_Flush.thy ===== *)
theory Local_Flush
  imports Manifest_Store
begin

text \<open>
  \<^verbatim>\<open>include/gravtree/flush.h\<close> and \<^verbatim>\<open>src/flush.cpp\<close>: distributing a parent's buffered entries over its
  children. \<open>partition_entries\<close> and \<open>merge_sorted_entries\<close> are the two helpers,
  \<open>local_flush\<close> the operation itself on a state of parent, children, manifest and disk. The
  \<^verbatim>\<open>assert\<close> on an empty child list is compiled out in release builds and is not modelled; a bucket
  index out of range is undefined.

  Where an entry goes is a question of separators: the locale \<open>key_routing\<close> says what it means to
  pick the child of a key, shows that the answer is unique, and is interpreted on the backward scan of
  \<open>partition_entries\<close> here and on the forward scan of \<^verbatim>\<open>find_path\<close> in \<open>Tree_Shape\<close>, which is why
  an entry is later searched for where it was put.
\<close>

subsection \<open>partition_entries\<close>

text \<open>The backward scan: indices \<open>i - 1\<close> down to \<open>0\<close>, target \<open>0\<close> if none matches.\<close>

fun scan_back :: "bytes list \<Rightarrow> bytes \<Rightarrow> nat \<Rightarrow> nat" where
  "scan_back mins k 0 = 0"
| "scan_back mins k (Suc i) = (if k \<ge> mins ! i then i else scan_back mins k i)"

abbreviation min_keys :: "sst_node list \<Rightarrow> bytes list" where
  "min_keys cs \<equiv> map (\<lambda>c. min_key (krange c)) cs"

definition target_of :: "sst_node list \<Rightarrow> bytes \<Rightarrow> nat" where
  "target_of cs k = scan_back (min_keys cs) k (length cs)"

fun fill_buckets :: "sst_node list \<Rightarrow> entry list \<Rightarrow> entry list list \<Rightarrow> entry list list res" where
  "fill_buckets cs [] buckets = Inr buckets"
| "fill_buckets cs (e # es) buckets =
     (let target = target_of cs (key e)
      in if target < length buckets
         then fill_buckets cs es (buckets[target := buckets ! target @ [e]])
         else Inl Undefined_behaviour)"

definition partition_entries :: "entry list \<Rightarrow> sst_node list \<Rightarrow> entry list list res" where
  "partition_entries entries cs = fill_buckets cs entries (replicate (length cs) [])"

subsection \<open>merge_sorted_entries\<close>

fun merge_sorted_entries :: "entry list \<Rightarrow> entry list \<Rightarrow> entry list" where
  "merge_sorted_entries [] ys = ys"
| "merge_sorted_entries (x # xs) [] = x # xs"
| "merge_sorted_entries (x # xs) (y # ys) =
     (if key x < key y then x # merge_sorted_entries xs (y # ys)
      else if key x > key y then y # merge_sorted_entries (x # xs) ys
      else if seq_no x \<ge> seq_no y then x # merge_sorted_entries xs ys
      else y # merge_sorted_entries xs ys)"

subsection \<open>local_flush\<close>

record flush_result =
  new_child_ids :: "node_id list"
  old_child_ids :: "node_id list"

record flush_state =
  fl_parent :: sst_node
  fl_children :: "sst_node list"
  fl_manifest :: manifest
  fl_disk :: disk

definition flush_child :: "bytes \<Rightarrow> nat \<Rightarrow> entry list \<Rightarrow> flush_result \<Rightarrow> (flush_state, flush_result) exec" where
  "flush_child dir i part res st =
     (let child = fl_children st ! i in
      if part = [] then (Inr (res\<lparr>new_child_ids := new_child_ids res @ [nid child]\<rparr>), st)
      else case load_entries (fl_disk st) child of
        Inl e \<Rightarrow> (Inl e, st)
      | Inr child1 \<Rightarrow>
          (let merged = merge_sorted_entries part (buffer child1);
               (new_id, m1) = next_node_id (fl_manifest st);
               st1 = st\<lparr>fl_manifest := m1, fl_children := (fl_children st)[i := child1]\<rparr>
           in if unat (num_children child1) > MAX_FANOUT then (Inl Undefined_behaviour, st1)
              else case create_node new_id (level child1) merged
                     (take (unat (num_children child1)) (child_ids child1)) dir (fl_disk st) of
                (Inl e, d') \<Rightarrow> (Inl e, st1\<lparr>fl_disk := d'\<rparr>)
              | (Inr new_child, d') \<Rightarrow>
                  (Inr (res\<lparr>new_child_ids := new_child_ids res @ [new_id],
                            old_child_ids := old_child_ids res @ [nid child1]\<rparr>),
                   st1\<lparr>fl_manifest := invalidate_node (nid child1)
                          (register_node new_id (level child1) (file_path new_child) m1),
                       fl_disk := d', fl_children := (fl_children st1)[i := new_child]\<rparr>)))"

fun flush_children ::
  "bytes \<Rightarrow> nat \<Rightarrow> entry list list \<Rightarrow> flush_result \<Rightarrow> (flush_state, flush_result) exec" where
  "flush_children dir i [] res = ret res"
| "flush_children dir i (p # ps) res =
     bind (flush_child dir i p res) (\<lambda>res'. flush_children dir (i + 1) ps res')"

definition local_flush :: "bytes \<Rightarrow> (flush_state, flush_result) exec" where
  "local_flush dir st =
     (let st1 = st\<lparr>fl_parent := (fl_parent st)\<lparr>buffer := stable_sort entry_less (buffer (fl_parent st))\<rparr>\<rparr>
      in bind (lift_res (partition_entries (buffer (fl_parent st1)) (fl_children st1)))
           (\<lambda>parts. flush_children dir 0 parts \<lparr>new_child_ids = [], old_child_ids = []\<rparr>) st1)"

subsection \<open>Routing by separators\<close>

locale key_routing =
  fixes pick :: "bytes list \<Rightarrow> bytes \<Rightarrow> nat"
  assumes pick_bound: "mins \<noteq> [] \<Longrightarrow> pick mins k < length mins"
    and pick_lower: "sorted mins \<Longrightarrow> pick mins k > 0 \<Longrightarrow> mins ! pick mins k \<le> k"
    and pick_upper: "sorted mins \<Longrightarrow> pick mins k < j \<Longrightarrow> j < length mins \<Longrightarrow> k < mins ! j"
begin

lemma pick_unique:
  assumes "sorted mins" "i < length mins" "i > 0 \<Longrightarrow> mins ! i \<le> k"
    and "\<And>j. i < j \<Longrightarrow> j < length mins \<Longrightarrow> k < mins ! j"
  shows "pick mins k = i"
proof (rule ccontr)
  assume "pick mins k \<noteq> i"
  then consider "pick mins k < i" | "i < pick mins k" by linarith
  then show False
  proof cases
    case 1
    with pick_upper [OF assms(1) 1 assms(2)] assms(3) show False by auto
  next
    case 2
    moreover have "pick mins k < length mins" using assms(2) by (intro pick_bound) auto
    ultimately show False using assms(4) [of "pick mins k"] pick_lower [OF assms(1), of k] by auto
  qed
qed

text \<open>Keys in order go to children in order.\<close>

lemma pick_mono:
  assumes "sorted mins" "mins \<noteq> []" "k \<le> k'"
  shows "pick mins k \<le> pick mins k'"
proof (rule ccontr)
  assume "\<not> pick mins k \<le> pick mins k'"
  then have *: "pick mins k' < pick mins k" by simp
  have "k' < mins ! pick mins k"
    using pick_upper [OF assms(1) *] pick_bound [OF assms(2), of k] by simp
  moreover have "mins ! pick mins k \<le> k" using * by (intro pick_lower [OF assms(1)]) simp
  ultimately show False using assms(3) by simp
qed

end

lemma scan_back_bound: "scan_back mins k n \<le> n - 1"
  by (induction n) auto

lemma scan_back_lower: "scan_back mins k n > 0 \<Longrightarrow> mins ! scan_back mins k n \<le> k"
  by (induction n) auto

lemma scan_back_upper: "scan_back mins k n < j \<Longrightarrow> j < n \<Longrightarrow> k < mins ! j"
  by (induction n) (auto simp: less_Suc_eq split: if_splits)

interpretation back_routing: key_routing "\<lambda>mins k. scan_back mins k (length mins)"
proof unfold_locales
  fix mins :: "bytes list" and k assume "mins \<noteq> []"
  then have "0 < length mins" by simp
  with scan_back_bound [of mins k "length mins"] show "scan_back mins k (length mins) < length mins"
    by linarith
qed (auto intro: scan_back_lower scan_back_upper)

lemma target_of_bound: "cs \<noteq> [] \<Longrightarrow> target_of cs k < length cs"
  using back_routing.pick_bound [of "min_keys cs" k] by (simp add: target_of_def)

lemma fill_buckets_spec:
  assumes "cs \<noteq> []" "length buckets = length cs"
  shows "fill_buckets cs es buckets =
    Inr (map (\<lambda>i. buckets ! i @ filter (\<lambda>e. target_of cs (key e) = i) es) [0..<length cs])"
  using assms(2)
proof (induction es arbitrary: buckets)
  case Nil
  then show ?case using map_nth [of buckets] by simp
next
  case (Cons e es)
  have "target_of cs (key e) < length cs" by (rule target_of_bound [OF assms(1)])
  moreover from this Cons.prems Cons.IH [of "buckets[target_of cs (key e) := buckets ! target_of cs (key e) @ [e]]"]
  have "fill_buckets cs es (buckets[target_of cs (key e) := buckets ! target_of cs (key e) @ [e]]) =
      Inr (map (\<lambda>i. buckets ! i @ filter (\<lambda>e. target_of cs (key e) = i) (e # es)) [0..<length cs])"
    by (simp add: nth_list_update)
  ultimately show ?case using Cons.prems by (simp add: Let_def)
qed

lemma partition_entries_spec:
  "cs \<noteq> [] \<Longrightarrow> partition_entries es cs =
     Inr (map (\<lambda>i. filter (\<lambda>e. target_of cs (key e) = i) es) [0..<length cs])"
  by (simp add: partition_entries_def fill_buckets_spec)

subsection \<open>Merging\<close>

lemma newest_merge: 
  assumes "entries_sorted xs" "entries_sorted ys"
  shows "newest k (merge_sorted_entries xs ys) = newer (newest k xs) (newest k ys)"
  using assms
proof (induction xs ys rule: merge_sorted_entries.induct)
  case (3 x xs y ys)
  have above: "newest k zs = None" if "entries_sorted (z # zs)" "k < key z" for z zs
    using that entries_sorted_keys [OF that(1)] by (auto simp: newest_None_iff)
  show ?case
  proof (cases "key x < key y")
    case True
    with "3.IH"(1) "3.prems" show ?thesis by (simp add: newer_assoc)
  next
    case not_less: False
    show ?thesis
    proof (cases "key y < key x")
      case True
      with "3.IH"(2) "3.prems" above [of x xs] above [of y ys] not_less show ?thesis
        by (cases "key y = k") (auto simp: newer_assoc)
    next
      case False
      then have eq: "key x = key y" using not_less by simp
      have top: "newer (Some z) (newest k zs) = Some z" if "entries_sorted (z # zs)" "key z = k" for z zs
      proof (cases "newest k zs")
        case (Some w)
        with that newest_SomeD(1,2) [OF Some] show ?thesis by (auto simp: pos_of_same_key)
      qed simp
      show ?thesis
      proof (cases "key y = k")
        case True
        then have tops: "newer (Some x) (newest k xs) = Some x" "newer (Some y) (newest k ys) = Some y"
          using top [of x xs] top [of y ys] "3.prems" eq by simp_all
        have "newer (if seq_no x \<ge> seq_no y then Some x else Some y) (newer (newest k xs) (newest k ys)) =
            newer (Some x) (Some y)"
          using tops by (cases "newest k xs"; cases "newest k ys") (auto split: if_splits)
        then show ?thesis
          using "3.IH"(3,4) "3.prems" eq True tops by auto
      next
        case False
        with "3.IH"(3,4) "3.prems" eq show ?thesis by auto
      qed
    qed
  qed
qed simp_all

lemma set_merge: "set (merge_sorted_entries xs ys) \<subseteq> set xs \<union> set ys"
  by (induction xs ys rule: merge_sorted_entries.induct) auto

lemma keys_merge: "key ` set (merge_sorted_entries xs ys) = key ` set xs \<union> key ` set ys"
  by (induction xs ys rule: merge_sorted_entries.induct) auto

lemma merge_strict:
  "keys_strict xs \<Longrightarrow> keys_strict ys \<Longrightarrow> keys_strict (merge_sorted_entries xs ys)"
proof (induction xs ys rule: merge_sorted_entries.induct)
  case (3 x xs y ys)
  have bound: "key z < key w"
    if "w \<in> set (merge_sorted_entries as bs)" "\<forall>a\<in>set as \<union> set bs. key z < key a" for z w as bs
    using that set_merge [of as bs] by blast
  have x: "\<forall>a\<in>set xs. key x < key a" and y: "\<forall>a\<in>set ys. key y < key a" using "3.prems" by simp_all
  have tr: "\<forall>b\<in>set (w # ws). key z < key b" if "key z < key w" "\<forall>b\<in>set ws. key w < key b" for z w ws
    using that less_trans by auto
  consider (l) "key x < key y" | (g) "key y < key x" | (e) "key x = key y" by fastforce
  then show ?case
  proof cases
    case l
    then have "\<forall>a\<in>set (merge_sorted_entries xs (y # ys)). key x < key a"
      using bound [of _ xs "y # ys" x] tr [OF l y] x by blast
    with l 3 show ?thesis by simp
  next
    case g
    then have "\<forall>a\<in>set (merge_sorted_entries (x # xs) ys). key y < key a"
      using bound [of _ "x # xs" ys y] tr [OF g x] y by blast
    with g 3 show ?thesis by simp
  next
    case e
    then have "\<forall>a\<in>set (merge_sorted_entries xs ys). key y < key a"
      using bound [of _ xs ys y] x y by (metis Un_iff)
    with e 3 show ?thesis by simp
  qed
qed simp_all

subsection \<open>Files of different nodes\<close>

lemma node_path_in_inj: "node_path_in dir i = node_path_in dir j \<longleftrightarrow> i = j"
  using inj_to_string by (auto simp: node_path_in_def)

lemma node_path_not_tmp: "node_path_in dir i \<noteq> tmp_of (node_path_in dir j)"
proof
  assume "node_path_in dir i = tmp_of (node_path_in dir j)"
  then have "last (node_path_in dir i) = last (tmp_of (node_path_in dir j))" by simp
  then show False by (simp add: node_path_in_def lit_def)
qed

subsection \<open>Flushing the children\<close>

text \<open>
  What becomes of one child: nothing if its partition is empty, otherwise a new node of the same level
  and with the same children that holds the deduplicated merge.
\<close>

definition flushed :: "entry list \<Rightarrow> sst_node \<Rightarrow> sst_node \<Rightarrow> bool" where
  "flushed part c c' \<longleftrightarrow>
     (if part = [] then c' = c
      else buffer c' = sort_entries (merge_sorted_entries part (buffer c)) \<and> entries_loaded c' \<and>
        level c' = level c \<and> num_children c' = num_children c \<and>
        take (unat (num_children c)) (child_ids c') = take (unat (num_children c)) (child_ids c) \<and>
        krange c' = buffer_range (buffer c') \<and> bloom_covers c')"

definition child_ok :: "sst_node \<Rightarrow> bool" where
  "child_ok c \<longleftrightarrow> entries_loaded c \<and> unat (num_children c) \<le> MAX_FANOUT \<and> length (child_ids c) = MAX_FANOUT"

lemma flush_child_ok:
  assumes "\<forall>p. openable (fl_disk st) p" "fl_children st = pre @ c # post" "length pre = i" "child_ok c"
  shows "\<exists>c' m' d'. flush_child dir i part res st =
      (Inr \<lparr>new_child_ids = new_child_ids res @ [nid c'],
            old_child_ids = old_child_ids res @ (if part = [] then [] else [nid c])\<rparr>,
       st\<lparr>fl_children := pre @ c' # post, fl_manifest := m', fl_disk := d'\<rparr>) \<and>
    flushed part c c' \<and> (\<forall>p. openable d' p) \<and>
    m' = (if part = [] then fl_manifest st
          else invalidate_node (nid c) (register_node (nid c') (level c) (file_path c') (snd (next_node_id (fl_manifest st))))) \<and>
    (if part = [] then d' = fl_disk st
     else nid c' = next_id (fl_manifest st) \<and> file_path c' = node_path_in dir (nid c') \<and>
       length (child_ids c') = MAX_FANOUT \<and>
       (length (buffer c') < 2 ^ 30 \<longrightarrow> pred_option bloom_fits (bloom_of c')) \<and>
       d' = (fl_disk st)\<lparr>files := (files (fl_disk st))(tmp_of (file_path c') := None, file_path c' \<mapsto> node_image c')\<rparr>)"
proof (cases "part = []")
  case True
  with assms show ?thesis
    by (intro exI [of _ c] exI [of _ "fl_manifest st"] exI [of _ "fl_disk st"])
       (simp add: flush_child_def flushed_def Let_def nth_append)
next
  case False
  let ?n = "next_id (fl_manifest st)"
  let ?gc = "take (unat (num_children c)) (child_ids c)"
  have c: "fl_children st ! i = c" using assms(2,3) by (simp add: nth_append)
  have load: "load_entries (fl_disk st) c = Inr c" using assms(4) by (simp add: child_ok_def load_entries_def)
  have nc: "unat (num_children c) \<le> MAX_FANOUT" "length ?gc = unat (num_children c)"
    using assms(4) by (simp_all add: child_ok_def)
  from create_node_ok [of "fl_disk st" dir ?n "level c" "merge_sorted_entries part (buffer c)" ?gc] assms(1)
  obtain c' d' where c': "create_node ?n (level c) (merge_sorted_entries part (buffer c)) ?gc dir (fl_disk st) =
      (Inr c', d')" "d' = (fl_disk st)\<lparr>files := (files (fl_disk st))(tmp_of (node_path_in dir ?n) := None,
         node_path_in dir ?n \<mapsto> node_image c')\<rparr>"
    "nid c' = ?n" "level c' = level c" "buffer c' = sort_entries (merge_sorted_entries part (buffer c))"
    "num_children c' = of_nat (min (length ?gc) MAX_FANOUT)"
    "child_ids c' = take MAX_FANOUT ?gc @ replicate (MAX_FANOUT - length ?gc) 0"
    "krange c' = buffer_range (sort_entries (merge_sorted_entries part (buffer c)))"
    "file_path c' = node_path_in dir ?n" "entries_loaded c'" "bloom_covers c'"
    "length (sort_entries (merge_sorted_entries part (buffer c))) < 2 ^ 30 \<longrightarrow> pred_option bloom_fits (bloom_of c')"
    by blast
  have "flushed part c c'"
    using c' nc False by (simp add: flushed_def min_absorb1)
  moreover have "flush_child dir i part res st =
      (Inr \<lparr>new_child_ids = new_child_ids res @ [nid c'], old_child_ids = old_child_ids res @ [nid c]\<rparr>,
       st\<lparr>fl_children := pre @ c' # post,
          fl_manifest := invalidate_node (nid c) (register_node (nid c') (level c) (file_path c')
            (snd (next_node_id (fl_manifest st)))), fl_disk := d'\<rparr>)"
    unfolding flush_child_def c Let_def load next_node_id_def
    using False nc(1) assms(2,3) c'(1,3) by (simp add: list_update_append)
  moreover have "\<forall>p. openable d' p" using assms(1) c'(2) by simp
  moreover have "file_path c' = node_path_in dir (nid c')" using c'(3,9) by simp
  moreover have "length (child_ids c') = MAX_FANOUT" using c'(7) nc by simp
  ultimately show ?thesis
    using False c'(2,3,5,9,12)
    by (intro exI [of _ c'] exI [of _ "invalidate_node (nid c) (register_node (nid c') (level c) (file_path c')
        (snd (next_node_id (fl_manifest st))))"] exI [of _ d']) simp
qed

text \<open>
  What becomes of manifest and files: every child that received something is replaced in the manifest by
  its new node, whose file is written; nothing changes for any other node.
\<close>

definition registered ::
  "bytes \<Rightarrow> entry list list \<Rightarrow> sst_node list \<Rightarrow> sst_node list \<Rightarrow> manifest \<times> disk \<Rightarrow> manifest \<times> disk \<Rightarrow> bool" where
  "registered dir ps cs cs' s s' \<longleftrightarrow>
     next_id (fst s) \<le> next_id (fst s') \<and> unat (next_id (fst s')) \<le> unat (next_id (fst s)) + length cs \<and>
     (\<forall>j<length cs. ps ! j \<noteq> [] \<longrightarrow> next_id (fst s) \<le> nid (cs' ! j) \<and> nid (cs' ! j) < next_id (fst s') \<and>
        live (fst s') (nid (cs' ! j)) = Some (level (cs ! j), node_path_in dir (nid (cs' ! j))) \<and>
        files (snd s') (node_path_in dir (nid (cs' ! j))) = Some (node_image (cs' ! j))) \<and>
     (\<forall>x<next_id (fst s).
        live (fst s') x = (if \<exists>j<length cs. ps ! j \<noteq> [] \<and> x = nid (cs ! j) then None else live (fst s) x) \<and>
        files (snd s') (node_path_in dir x) = files (snd s) (node_path_in dir x))"

lemma registeredD:
  assumes "registered dir ps cs cs' s s'"
  shows "next_id (fst s) \<le> next_id (fst s')" "unat (next_id (fst s')) \<le> unat (next_id (fst s)) + length cs"
    "\<And>j. j < length cs \<Longrightarrow> ps ! j \<noteq> [] \<Longrightarrow> next_id (fst s) \<le> nid (cs' ! j) \<and> nid (cs' ! j) < next_id (fst s') \<and>
        live (fst s') (nid (cs' ! j)) = Some (level (cs ! j), node_path_in dir (nid (cs' ! j))) \<and>
        files (snd s') (node_path_in dir (nid (cs' ! j))) = Some (node_image (cs' ! j))"
    "\<And>x. x < next_id (fst s) \<Longrightarrow> 
        live (fst s') x = (if \<exists>j<length cs. ps ! j \<noteq> [] \<and> x = nid (cs ! j) then None else live (fst s) x)"
    "\<And>x. x < next_id (fst s) \<Longrightarrow> files (snd s') (node_path_in dir x) = files (snd s) (node_path_in dir x)"
  using assms unfolding registered_def by blast+

lemma registered_Nil: "registered dir [] [] [] s s"
  by (simp add: registered_def)

lemma registered_keep:
  assumes "registered dir ps cs cs' s s'"
  shows "registered dir ([] # ps) (c # cs) (c' # cs') s s'"
  using assms unfolding registered_def by (simp add: All_less_Suc2 Ex_less_Suc2)

lemma registered_step:
  assumes rest: "registered dir ps cs cs' (m1, d1) s'"
    and new: "nid c' = next_id m" "nid c < next_id m" "\<forall>d\<in>set cs. nid d < next_id m" "p \<noteq> []"
    and room: "unat (next_id m) + 1 < 2 ^ 64"
    and m1: "m1 = invalidate_node (nid c) (register_node (nid c') (level c) (node_path_in dir (nid c')) (snd (next_node_id m)))"
    and d1: "d1 = d\<lparr>files := (files d)(tmp_of (node_path_in dir (nid c')) := None, node_path_in dir (nid c') \<mapsto> node_image c')\<rparr>"
  shows "registered dir (p # ps) (c # cs) (c' # cs') (m, d) s'"
proof -
  note R = registeredD [OF rest, unfolded fst_conv snd_conv]
  have nx: "next_id m1 = next_id m + 1" by (simp add: m1 next_node_id_def)
  have suc: "unat (next_id m1) = unat (next_id m) + 1" using room nx by (simp add: unat_word_ariths)
  have lt: "next_id m < next_id m1" using suc by (simp add: word_less_nat_alt)
  have live1: "live m1 x = (if x = nid c then None else if x = nid c' then Some (level c, node_path_in dir (nid c')) else live m x)" for x
    using manifest_registry.look_drop [of "nid c"] manifest_registry.look_put [of "nid c'" "(level c, node_path_in dir (nid c'))"]
    by (simp add: m1 next_node_id_def live_def)
  have files1: "files d1 (node_path_in dir x) = (if x = nid c' then Some (node_image c') else files d (node_path_in dir x))" for x
    using node_path_not_tmp [of dir x "nid c'"] node_path_in_inj [of dir x "nid c'"] by (simp add: d1)
  have ex: "(\<exists>j<length (c # cs). (p # ps) ! j \<noteq> [] \<and> x = nid ((c # cs) ! j)) \<longleftrightarrow>
      x = nid c \<or> (\<exists>j<length cs. ps ! j \<noteq> [] \<and> x = nid (cs ! j))" for x
    using new(4) by (simp add: Ex_less_Suc2)
  have fresh: "\<not> (\<exists>j<length cs. ps ! j \<noteq> [] \<and> nid c' = nid (cs ! j))" using new(1,3) by (metis less_irrefl nth_mem)
  have head: "live (fst s') (nid c') = Some (level c, node_path_in dir (nid c'))" "nid c' < next_id (fst s')"
    "files (snd s') (node_path_in dir (nid c')) = Some (node_image c')"
    using R(4) [of "nid c'"] R(5) [of "nid c'"] R(1) fresh lt new(1,2) live1 [of "nid c'"] files1 [of "nid c'"] by auto
  have "live (fst s') x = (if x = nid c \<or> (\<exists>j<length cs. ps ! j \<noteq> [] \<and> x = nid (cs ! j)) then None else live m x) \<and>
      files (snd s') (node_path_in dir x) = files d (node_path_in dir x)" if "x < next_id m" for x
    using R(4) [of x] R(5) [of x] that lt new(1) live1 [of x] files1 [of x] by auto
  moreover have "next_id m \<le> next_id (fst s')" using R(1) lt by simp
  moreover have "unat (next_id (fst s')) \<le> unat (next_id m) + length (c # cs)" using R(2) suc by simp
  moreover have "next_id m \<le> nid (cs' ! j)" if "j < length cs" "ps ! j \<noteq> []" for j
    using R(3) [OF that] order.trans [OF less_imp_le [OF lt]] by blast
  ultimately show ?thesis using head new(1) R(3) unfolding registered_def ex by (auto simp: All_less_Suc2)
qed

lemma flush_children_ok:
  assumes "\<forall>p. openable (fl_disk st) p" "fl_children st = pre @ cs @ post" "length pre = i"
    "length cs = length ps" "list_all child_ok cs"
  shows "\<exists>cs' m' d'. flush_children dir i ps res st =
      (Inr \<lparr>new_child_ids = new_child_ids res @ map nid cs',
            old_child_ids = old_child_ids res @ map (nid \<circ> snd) (filter (\<lambda>(p, c). p \<noteq> []) (zip ps cs))\<rparr>,
       st\<lparr>fl_children := pre @ cs' @ post, fl_manifest := m', fl_disk := d'\<rparr>) \<and>
    length cs' = length cs \<and> (\<forall>j < length cs. flushed (ps ! j) (cs ! j) (cs' ! j)) \<and>
    ((\<forall>c\<in>set cs. nid c < next_id (fl_manifest st)) \<longrightarrow> unat (next_id (fl_manifest st)) + length cs < 2 ^ 64 \<longrightarrow>
       registered dir ps cs cs' (fl_manifest st, fl_disk st) (m', d'))"
  using assms
proof (induction ps arbitrary: i pre cs res st)
  case Nil
  then show ?case
    by (intro exI [of _ "[]"] exI [of _ "fl_manifest st"] exI [of _ "fl_disk st"])
       (cases st, simp add: exec_simps registered_Nil)
next
  case (Cons p ps)
  then obtain c ds where cs: "cs = c # ds" by (cases cs) auto
  with Cons.prems flush_child_ok [of st pre c "ds @ post" i dir p res] obtain c' m' d' where
    step: "flush_child dir i p res st =
      (Inr \<lparr>new_child_ids = new_child_ids res @ [nid c'],
            old_child_ids = old_child_ids res @ (if p = [] then [] else [nid c])\<rparr>,
       st\<lparr>fl_children := pre @ c' # ds @ post, fl_manifest := m', fl_disk := d'\<rparr>)"
    and fl: "flushed p c c'" and op: "\<forall>p. openable d' p"
    and m': "m' = (if p = [] then fl_manifest st
          else invalidate_node (nid c) (register_node (nid c') (level c) (file_path c') (snd (next_node_id (fl_manifest st)))))"
    and d': "if p = [] then d' = fl_disk st
     else nid c' = next_id (fl_manifest st) \<and> file_path c' = node_path_in dir (nid c') \<and>
       d' = (fl_disk st)\<lparr>files := (files (fl_disk st))(tmp_of (file_path c') := None, file_path c' \<mapsto> node_image c')\<rparr>"
    by (auto split: if_splits)
  let ?st = "st\<lparr>fl_children := pre @ c' # ds @ post, fl_manifest := m', fl_disk := d'\<rparr>"
  let ?res = "\<lparr>new_child_ids = new_child_ids res @ [nid c'],
            old_child_ids = old_child_ids res @ (if p = [] then [] else [nid c])\<rparr>"
  have prems: "\<forall>q. openable (fl_disk ?st) q" "fl_children ?st = (pre @ [c']) @ ds @ post" "length (pre @ [c']) = i + 1"
    "length ds = length ps" "list_all child_ok ds" using op Cons.prems cs by simp_all
  from Cons.IH [OF prems, of ?res] obtain cs' m'' d'' where
    "flush_children dir (i + 1) ps ?res ?st =
      (Inr \<lparr>new_child_ids = new_child_ids ?res @ map nid cs',
            old_child_ids = old_child_ids ?res @ map (nid \<circ> snd) (filter (\<lambda>(p, c). p \<noteq> []) (zip ps ds))\<rparr>,
       ?st\<lparr>fl_children := (pre @ [c']) @ cs' @ post, fl_manifest := m'', fl_disk := d''\<rparr>)"
    "length cs' = length ds" "\<forall>j < length ds. flushed (ps ! j) (ds ! j) (cs' ! j)"
    and "(\<forall>c\<in>set ds. nid c < next_id (fl_manifest ?st)) \<longrightarrow> unat (next_id (fl_manifest ?st)) + length ds < 2 ^ 64 \<longrightarrow>
       registered dir ps ds cs' (fl_manifest ?st, fl_disk ?st) (m'', d'')" by blast
  from this(4) have reg: "(\<forall>c\<in>set ds. nid c < next_id m') \<longrightarrow> unat (next_id m') + length ds < 2 ^ 64 \<longrightarrow>
       registered dir ps ds cs' (m', d') (m'', d'')" by simp
  note rest = \<open>flush_children dir (i + 1) ps ?res ?st = _\<close> \<open>length cs' = length ds\<close>
    \<open>\<forall>j < length ds. flushed (ps ! j) (ds ! j) (cs' ! j)\<close>
  have "flush_children dir i (p # ps) res st = flush_children dir (i + 1) ps ?res ?st"
    using step by (simp add: bind_Inr)
  with rest have "flush_children dir i (p # ps) res st =
      (Inr \<lparr>new_child_ids = new_child_ids res @ map nid (c' # cs'),
            old_child_ids = old_child_ids res @ map (nid \<circ> snd) (filter (\<lambda>(p, c). p \<noteq> []) (zip (p # ps) cs))\<rparr>,
       st\<lparr>fl_children := pre @ (c' # cs') @ post, fl_manifest := m'', fl_disk := d''\<rparr>)"
    by (simp add: cs)
  moreover have "\<forall>j < length cs. flushed ((p # ps) ! j) (cs ! j) ((c' # cs') ! j)"
    using fl rest(3) cs by (auto simp: nth_Cons split: nat.splits)
  moreover have "registered dir (p # ps) cs (c' # cs') (fl_manifest st, fl_disk st) (m'', d'')"
    if below: "\<forall>c\<in>set cs. nid c < next_id (fl_manifest st)" and room: "unat (next_id (fl_manifest st)) + length cs < 2 ^ 64"
  proof (cases "p = []")
    case True
    then show ?thesis using reg below room m' d' cs registered_keep by auto
  next
    case False
    then have d: "nid c' = next_id (fl_manifest st)" "file_path c' = node_path_in dir (nid c')" using d' by simp_all
    have nx: "next_id m' = next_id (fl_manifest st) + 1" using m' False by (simp add: next_node_id_def)
    then have nx': "unat (next_id m') = unat (next_id (fl_manifest st)) + 1" using room cs by (simp add: unat_word_ariths)
    have "registered dir ps ds cs' (m', d') (m'', d'')"
      using reg below room cs nx' by (auto simp: word_less_nat_alt)
    from registered_step [OF this d(1), of c p] show ?thesis
      using False d m' d' below room cs by simp
  qed
  ultimately show ?case using rest(2) cs
    by (intro exI [of _ "c' # cs'"] exI [of _ m''] exI [of _ d'']) simp
qed

lemma flushed_newest:
  assumes "flushed part c c'" "entries_sorted part" "entries_sorted (buffer c)"
  shows "newest k (buffer c') = newer (newest k part) (newest k (buffer c))"
  using assms by (cases "part = []") (auto simp: flushed_def newest_merge)

lemma filter_sorted: "entries_sorted es \<Longrightarrow> entries_sorted (filter P es)"
  by (simp add: sorted_map sorted_wrt_filter)

text \<open>The children that receive something.\<close>

lemma receivers:
  fixes cs :: "sst_node list" and es :: "entry list"
  assumes "cs \<noteq> []"
  defines "ps \<equiv> map (\<lambda>i. filter (\<lambda>e. target_of cs (key e) = i) es) [0..<length cs]"
  shows "\<And>e. e \<in> set es \<Longrightarrow> target_of cs (key e) < length cs"
    "\<And>e. e \<in> set es \<Longrightarrow> ps ! target_of cs (key e) \<noteq> []"
    "\<And>x. x \<in> set (map (nid \<circ> snd) (filter (\<lambda>(p, c). p \<noteq> []) (zip ps cs))) \<longleftrightarrow> (\<exists>j<length cs. ps ! j \<noteq> [] \<and> x = nid (cs ! j))"
    "set (map (nid \<circ> snd) (filter (\<lambda>(p, c). p \<noteq> []) (zip ps cs))) = {nid (cs ! target_of cs (key e)) |e. e \<in> set es}"
proof -
  show b: "target_of cs (key e) < length cs" for e :: entry by (rule target_of_bound [OF assms(1)])
  have psj: "ps ! j = filter (\<lambda>e. target_of cs (key e) = j) es" if "j < length cs" for j using that by (simp add: ps_def)
  show g: "ps ! target_of cs (key e) \<noteq> []" if "e \<in> set es" for e using that b by (auto simp: psj filter_empty_conv)
  let ?R = "set (map (nid \<circ> snd) (filter (\<lambda>(p, c). p \<noteq> []) (zip ps cs)))"
  have "x \<in> ?R \<longleftrightarrow> (\<exists>(p, c)\<in>set (zip ps cs). p \<noteq> [] \<and> x = nid c)" for x by force
  also have "\<dots> x \<longleftrightarrow> (\<exists>j<length cs. ps ! j \<noteq> [] \<and> x = nid (cs ! j))" for x by (auto simp: set_zip ps_def)
  finally show r: "x \<in> ?R \<longleftrightarrow> (\<exists>j<length cs. ps ! j \<noteq> [] \<and> x = nid (cs ! j))" for x .
  have "\<exists>e\<in>set es. target_of cs (key e) = j" if "j < length cs" "ps ! j \<noteq> []" for j
    using that(2) unfolding psj [OF that(1)] by (auto simp: filter_empty_conv)
  then have "x \<in> ?R \<longleftrightarrow> (\<exists>e. x = nid (cs ! target_of cs (key e)) \<and> e \<in> set es)" for x unfolding r using g b by metis
  then show "?R = {nid (cs ! target_of cs (key e)) |e. e \<in> set es}" by blast
qed

subsection \<open>Properties\<close>

text \<open>
  C6. The core operation. On children that are loaded and sorted, whose ids have been handed out before,
  with a writable directory, \<^verbatim>\<open>local_flush\<close> succeeds; the child a key is routed to then holds the newest of the
  parent's and its own versions of that key; every other child answers for the key as before; a child that
  receives nothing is the same node as before (locality); and the parent keeps its entries, sorted.
  The result names the new children in order, and as old ones exactly those that received something. For
  each of these the manifest has the new node, of the same level, under a fresh id and the path of the file
  that now holds it, and no longer the old one; every other node stays registered as it was, with its file.
\<close>

theorem local_flush_correct:
  assumes "fl_children st \<noteq> []" and "list_all child_ok (fl_children st)"
    and "list_all (\<lambda>c. entries_sorted (buffer c)) (fl_children st)" and "\<forall>p. openable (fl_disk st) p"
    and "\<forall>c\<in>set (fl_children st). nid c < next_id (fl_manifest st)"
    and "unat (next_id (fl_manifest st)) + length (fl_children st) < 2 ^ 64"
  shows "\<exists>res st'. local_flush dir st = (Inr res, st') \<and>
    length (fl_children st') = length (fl_children st) \<and>
    new_child_ids res = map nid (fl_children st') \<and>
    buffer (fl_parent st') = stable_sort entry_less (buffer (fl_parent st)) \<and>
    (\<forall>k i. i < length (fl_children st) \<longrightarrow> newest k (buffer (fl_children st' ! i)) =
       (if i = target_of (fl_children st) k
        then newest k (buffer (fl_parent st) @ buffer (fl_children st ! i))
        else newest k (buffer (fl_children st ! i)))) \<and>
    (\<forall>i < length (fl_children st).
       (\<forall>e\<in>set (buffer (fl_parent st)). target_of (fl_children st) (key e) \<noteq> i) \<longrightarrow>
       fl_children st' ! i = fl_children st ! i) \<and>
    set (old_child_ids res) = {nid (fl_children st ! target_of (fl_children st) (key e)) |e. e \<in> set (buffer (fl_parent st))} \<and>
    (\<forall>e\<in>set (buffer (fl_parent st)). let i = target_of (fl_children st) (key e); new = fl_children st' ! i in
       next_id (fl_manifest st) \<le> nid new \<and>
       live (fl_manifest st') (nid new) = Some (level (fl_children st ! i), node_path_in dir (nid new)) \<and>
       files (fl_disk st') (node_path_in dir (nid new)) = Some (node_image new)) \<and>
    (\<forall>x < next_id (fl_manifest st).
       live (fl_manifest st') x = (if x \<in> set (old_child_ids res) then None else live (fl_manifest st) x) \<and>
       files (fl_disk st') (node_path_in dir x) = files (fl_disk st) (node_path_in dir x))"
proof -
  let ?cs = "fl_children st" and ?es = "stable_sort entry_less (buffer (fl_parent st))"
  let ?st = "st\<lparr>fl_parent := (fl_parent st)\<lparr>buffer := ?es\<rparr>\<rparr>"
  define ps where "ps = map (\<lambda>i. filter (\<lambda>e. target_of ?cs (key e) = i) ?es) [0..<length ?cs]"
  have part: "partition_entries ?es ?cs = Inr ps"
    unfolding ps_def by (rule partition_entries_spec [OF assms(1)])
  from flush_children_ok [of ?st "[]" ?cs "[]" 0 ps dir "\<lparr>new_child_ids = [], old_child_ids = []\<rparr>"]
  obtain cs' res m' d' where fl: "flush_children dir 0 ps \<lparr>new_child_ids = [], old_child_ids = []\<rparr> ?st =
      (Inr res, ?st\<lparr>fl_children := cs', fl_manifest := m', fl_disk := d'\<rparr>)"
    "new_child_ids res = map nid cs'" "length cs' = length ?cs"
    "\<forall>j < length ?cs. flushed (ps ! j) (?cs ! j) (cs' ! j)"
    and olds: "old_child_ids res = map (nid \<circ> snd) (filter (\<lambda>(p, c). p \<noteq> []) (zip ps ?cs))"
    and reg: "registered dir ps ?cs cs' (fl_manifest st, fl_disk st) (m', d')"
    using assms(2,4-6) by (auto simp: ps_def)
  have run: "local_flush dir st = (Inr res, ?st\<lparr>fl_children := cs', fl_manifest := m', fl_disk := d'\<rparr>)"
    using fl(1) part by (simp add: local_flush_def exec_simps Let_def)
  have psi: "ps ! i = filter (\<lambda>e. target_of ?cs (key e) = i) ?es" if "i < length ?cs" for i
    using that by (simp add: ps_def)
  have "newest k (buffer (cs' ! i)) =
       (if i = target_of ?cs k then newest k (buffer (fl_parent st) @ buffer (?cs ! i))
        else newest k (buffer (?cs ! i)))" if i: "i < length ?cs" for k i
  proof -
    have "newest k (buffer (cs' ! i)) = newer (newest k (ps ! i)) (newest k (buffer (?cs ! i)))"
      using fl(4) i assms(3) psi [OF i] filter_sorted
      by (intro flushed_newest) (auto simp: list_all_length)
    moreover have "newest k (ps ! i) = (if i = target_of ?cs k then newest k (buffer (fl_parent st)) else None)"
      using psi [OF i] newest_filter_key [of "\<lambda>k. target_of ?cs k = i" k ?es]
      by (auto simp: newest_None_iff)
    ultimately show ?thesis by (simp add: newest_append)
  qed
  moreover have "cs' ! i = ?cs ! i"
    if "i < length ?cs" "\<forall>e\<in>set (buffer (fl_parent st)). target_of ?cs (key e) \<noteq> i" for i
    using fl(4) that psi [OF that(1)] by (auto simp: flushed_def filter_empty_conv)
  moreover have "\<forall>x < next_id (fl_manifest st).
       live m' x = (if x \<in> set (old_child_ids res) then None else live (fl_manifest st) x) \<and>
       files d' (node_path_in dir x) = files (fl_disk st) (node_path_in dir x)"
    using registeredD(4,5) [OF reg] 
    unfolding olds receivers(3) [OF assms(1), of _ ?es, folded ps_def] fst_conv snd_conv by simp
  moreover have "set (old_child_ids res) = {nid (?cs ! target_of ?cs (key e)) |e. e \<in> set (buffer (fl_parent st))}"
    using receivers(4) [OF assms(1), of ?es, folded ps_def] unfolding olds by simp
  ultimately show ?thesis
    using run fl(2,3) registeredD(3) [OF reg] receivers(1,2) [OF assms(1), of _ ?es, folded ps_def] by (simp add: Let_def)
qed

theorem local_flush_correct_witness:
  "\<exists>res st'. local_flush (lit ''d'') \<lparr>fl_parent = default_node\<lparr>buffer := [probe [5]]\<rparr>,
      fl_children = [default_node\<lparr>entries_loaded := True\<rparr>], fl_manifest = new_manifest (lit ''d''),
      fl_disk = \<lparr>files = Map.empty, openable = (\<lambda>_. True)\<rparr>\<rparr> = (Inr res, st') \<and>
    length (fl_children st') = 1 \<and> newest [5] (buffer (fl_children st' ! 0)) = Some (probe [5]) \<and>
    live (fl_manifest st') (nid (fl_children st' ! 0)) = Some (0, node_path_in (lit ''d'') (nid (fl_children st' ! 0)))"
proof -
  let ?st = "\<lparr>fl_parent = default_node\<lparr>buffer := [probe [5]]\<rparr>,
      fl_children = [default_node\<lparr>entries_loaded := True\<rparr>], fl_manifest = new_manifest (lit ''d''),
      fl_disk = \<lparr>files = Map.empty, openable = (\<lambda>_. True)\<rparr>\<rparr>"
  have "fl_children ?st \<noteq> []" "list_all child_ok (fl_children ?st)" "list_all (\<lambda>c. entries_sorted (buffer c)) (fl_children ?st)"
    "\<forall>p. openable (fl_disk ?st) p" "\<forall>c\<in>set (fl_children ?st). nid c < next_id (fl_manifest ?st)"
    "unat (next_id (fl_manifest ?st)) + length (fl_children ?st) < 2 ^ 64"
    by (simp_all add: child_ok_def default_node_def new_manifest_def INVALID_NODE_ID_def)
  from local_flush_correct [OF this, of "lit ''d''"] obtain res st' where
    st': "local_flush (lit ''d'') ?st = (Inr res, st')" "length (fl_children st') = length (fl_children ?st)"
      "\<forall>k i. i < length (fl_children ?st) \<longrightarrow> newest k (buffer (fl_children st' ! i)) =
       (if i = target_of (fl_children ?st) k then newest k (buffer (fl_parent ?st) @ buffer (fl_children ?st ! i))
        else newest k (buffer (fl_children ?st ! i)))"
    and reg: "\<forall>e\<in>set (buffer (fl_parent ?st)). let i = target_of (fl_children ?st) (key e); new = fl_children st' ! i in
       next_id (fl_manifest ?st) \<le> nid new \<and>
       live (fl_manifest st') (nid new) = Some (level (fl_children ?st ! i), node_path_in (lit ''d'') (nid new)) \<and>
       files (fl_disk st') (node_path_in (lit ''d'') (nid new)) = Some (node_image new)" by blast
  have "target_of (fl_children ?st) k = 0" for k by (simp add: target_of_def)
  moreover have "newest [5] (buffer (fl_parent ?st) @ buffer (fl_children ?st ! 0)) = Some (probe [5])"
    by (simp add: default_node_def probe_def)
  moreover have "buffer (fl_parent ?st) = [probe [5]]" "level (fl_children ?st ! 0) = 0"
    by (simp_all add: default_node_def)
  ultimately show ?thesis using st' reg by (intro exI [of _ res] exI [of _ st']) (simp add: Let_def)
qed

end
