(* ===== verification/Mersenne_Twister.thy ===== *)
theory Mersenne_Twister
  imports Gt_Prelude
begin

text \<open>
  \<^verbatim>\<open>std::mt19937\<close>, the generator behind \<^verbatim>\<open>SkipList::random_height\<close>, as the C++ standard defines it
  ([rand.eng.mers]): the state is the last 624 values of the recurrence, oldest first; a call appends
  the next value and returns it tempered. \<^verbatim>\<open>std::mt19937_64\<close>, which the benchmarks draw keys from, is the
  same engine on 312 values of 64 bits.
\<close>

unbundle bit_operations_syntax

type_synonym mt_state = "u32 list"

fun mt_fill :: "nat \<Rightarrow> nat \<Rightarrow> u32 \<Rightarrow> u32 list" where
  "mt_fill 0 i x = []"
| "mt_fill (Suc n) i x =
     (let y = 1812433253 * (x XOR drop_bit 30 x) + of_nat i in y # mt_fill n (Suc i) y)"

definition mt_seed :: "u32 \<Rightarrow> mt_state" where
  "mt_seed s = s # mt_fill 623 1 s"

definition mt_temper :: "u32 \<Rightarrow> u32" where
  "mt_temper z0 =
     (let z1 = z0 XOR drop_bit 11 z0;
          z2 = z1 XOR (push_bit 7 z1 AND 0x9d2c5680);
          z3 = z2 XOR (push_bit 15 z2 AND 0xefc60000)
      in z3 XOR drop_bit 18 z3)"

definition mt_next :: "mt_state \<Rightarrow> u32 \<times> mt_state" where
  "mt_next xs =
     (let y = (xs ! 0 AND 0x80000000) OR (xs ! 1 AND 0x7fffffff);
          x = xs ! 397 XOR drop_bit 1 y XOR (if bit y 0 then 0x9908b0df else 0)
      in (mt_temper x, tl xs @ [x]))"

subsection \<open>std::mt19937\_64\<close>

type_synonym mt64_state = "u64 list"

fun mt64_fill :: "nat \<Rightarrow> nat \<Rightarrow> u64 \<Rightarrow> u64 list" where
  "mt64_fill 0 i x = []"
| "mt64_fill (Suc n) i x =
     (let y = 6364136223846793005 * (x XOR drop_bit 62 x) + of_nat i in y # mt64_fill n (Suc i) y)"

definition mt64_seed :: "u64 \<Rightarrow> mt64_state" where
  "mt64_seed s = s # mt64_fill 311 1 s"

definition mt64_temper :: "u64 \<Rightarrow> u64" where
  "mt64_temper z0 =
     (let z1 = z0 XOR (drop_bit 29 z0 AND 0x5555555555555555);
          z2 = z1 XOR (push_bit 17 z1 AND 0x71d67fffeda60000);
          z3 = z2 XOR (push_bit 37 z2 AND 0xfff7eee000000000)
      in z3 XOR drop_bit 43 z3)"

definition mt64_next :: "mt64_state \<Rightarrow> u64 \<times> mt64_state" where
  "mt64_next xs =
     (let y = (xs ! 0 AND 0xffffffff80000000) OR (xs ! 1 AND 0x7fffffff);
          x = xs ! 156 XOR drop_bit 1 y XOR (if bit y 0 then 0xb5026f5aa96619e9 else 0)
      in (mt64_temper x, tl xs @ [x]))"

end
