(* ===== verification/Skip_List.thy ===== *)
theory Skip_List
  imports Entry_Types Mersenne_Twister
begin

text \<open>
  \<^verbatim>\<open>class SkipList\<close> of \<^verbatim>\<open>include/gravtree/skiplist.h\<close> and \<^verbatim>\<open>src/skiplist.cpp\<close>, the write buffer of
  the tree, with its pointers: a heap maps addresses to nodes, a null pointer is \<open>None\<close>, and
  \<^verbatim>\<open>new\<close> takes the next unused address. Loops that follow pointers are
  \<^theory_text>\<open>partial_function (option)\<close>: the value \<open>None\<close> is a null or dangling dereference, the use of
  an uninitialised \<^verbatim>\<open>prev\<close> slot, or a walk that never ends, and the theorems prove that none of these
  happens on a well-formed list.

  \<open>sl_repr sl ns\<close> says that the nodes at addresses \<open>ns\<close> form the list: every level is the
  null-terminated chain of exactly the nodes that are tall enough, and the values are in entry order.
  The contract is the locale \<open>sorted_buffer\<close>, an ordered buffer seen as the list of its entries; the
  skip list is its interpretation.
\<close>

type_synonym addr = nat

record sl_node =
  nval :: entry
  nheight :: nat
  nnext :: "addr option list"

type_synonym sl_heap = "addr \<rightharpoonup> sl_node"

record skiplist =
  sl_heap :: sl_heap
  sl_head :: addr
  cur_height :: nat
  sl_size :: nat
  sl_bytes :: nat
  sl_rng :: mt_state
  sl_free :: addr

definition kMaxHeight :: nat where "kMaxHeight = 12"
definition kBranching :: u32 where "kBranching = 4"

text \<open>The node constructors and \<^verbatim>\<open>SkipList::SkipList()\<close>; the value of the head is never read.\<close>

definition new_node :: "entry \<Rightarrow> nat \<Rightarrow> sl_node" where
  "new_node v h = \<lparr>nval = v, nheight = h, nnext = replicate kMaxHeight None\<rparr>"

definition empty_entry :: entry where
  "empty_entry = \<lparr>key = [], val = [], seq_no = 0, deleted = False\<rparr>"

definition sl_new :: skiplist where
  "sl_new = \<lparr>sl_heap = [0 \<mapsto> new_node empty_entry kMaxHeight], sl_head = 0, cur_height = 1,
     sl_size = 0, sl_bytes = 0, sl_rng = mt_seed 0xdeadbeef, sl_free = 1\<rparr>"

text \<open>\<^verbatim>\<open>random_height\<close>: the loop runs at most \<open>kMaxHeight - h\<close> times.\<close>

function random_height_loop :: "nat \<Rightarrow> mt_state \<Rightarrow> nat \<times> mt_state" where
  "random_height_loop h g =
     (if h < kMaxHeight
      then case mt_next g of (x, g') \<Rightarrow>
        if x mod kBranching = 0 then random_height_loop (h + 1) g' else (h, g')
      else (h, g))"
  by pat_completeness auto
termination
  by (relation "measure (\<lambda>(h, g). kMaxHeight - h)") auto

declare random_height_loop.simps [simp del]

definition random_height :: "mt_state \<Rightarrow> nat \<times> mt_state" where
  "random_height g = random_height_loop 1 g"

subsection \<open>Walking the levels\<close>

partial_function (option) advance :: "sl_heap \<Rightarrow> entry \<Rightarrow> nat \<Rightarrow> addr \<Rightarrow> addr option" where
  "advance h v lv cur =
     (case h cur of
        None \<Rightarrow> None
      | Some nd \<Rightarrow>
          (case nnext nd ! lv of
             None \<Rightarrow> Some cur
           | Some q \<Rightarrow>
               (case h q of
                  None \<Rightarrow> None
                | Some qn \<Rightarrow> if entry_less (nval qn) v then advance h v lv q else Some cur)))"

text \<open>\<^verbatim>\<open>find_prev\<close>: from level \<open>lv - 1\<close> down to \<open>0\<close>, recording the predecessor of every level.\<close>

fun find_prev_loop ::
  "sl_heap \<Rightarrow> entry \<Rightarrow> nat \<Rightarrow> addr \<Rightarrow> addr option list \<Rightarrow> (addr \<times> addr option list) option" where
  "find_prev_loop h v 0 cur prev = Some (cur, prev)"
| "find_prev_loop h v (Suc lv) cur prev =
     (case advance h v lv cur of
        None \<Rightarrow> None
      | Some c \<Rightarrow> find_prev_loop h v lv c (prev[lv := Some c]))"

definition find_prev :: "skiplist \<Rightarrow> entry \<Rightarrow> (addr \<times> addr option list) option" where
  "find_prev sl v =
     find_prev_loop (sl_heap sl) v (cur_height sl) (sl_head sl) (replicate kMaxHeight None)"

subsection \<open>insert\<close>

definition set_next :: "addr \<Rightarrow> nat \<Rightarrow> addr option \<Rightarrow> sl_heap \<Rightarrow> sl_heap option" where
  "set_next p lv q h =
     (case h p of None \<Rightarrow> None | Some nd \<Rightarrow> Some (h(p \<mapsto> nd\<lparr>nnext := (nnext nd)[lv := q]\<rparr>)))"

definition get_next :: "addr \<Rightarrow> nat \<Rightarrow> sl_heap \<Rightarrow> addr option option" where
  "get_next p lv h = (case h p of None \<Rightarrow> None | Some nd \<Rightarrow> Some (nnext nd ! lv))"

fun link_levels :: "nat list \<Rightarrow> addr option list \<Rightarrow> addr \<Rightarrow> sl_heap \<Rightarrow> sl_heap option" where
  "link_levels [] prev a h = Some h"
| "link_levels (i # is) prev a h =
     (case prev ! i of
        None \<Rightarrow> None
      | Some p \<Rightarrow>
          (case get_next p i h of
             None \<Rightarrow> None
           | Some q \<Rightarrow>
               (case set_next a i q h of
                  None \<Rightarrow> None
                | Some h1 \<Rightarrow>
                    (case set_next p i (Some a) h1 of
                       None \<Rightarrow> None
                     | Some h2 \<Rightarrow> link_levels is prev a h2))))"

definition sl_insert :: "entry \<Rightarrow> skiplist \<Rightarrow> skiplist option" where
  "sl_insert v sl =
     (case find_prev sl v of
        None \<Rightarrow> None
      | Some (_, prev) \<Rightarrow>
          (case random_height (sl_rng sl) of (hh, g) \<Rightarrow>
            let prev' = foldl (\<lambda>ps i. ps[i := Some (sl_head sl)]) prev [cur_height sl..<hh];
                a = sl_free sl;
                h0 = (sl_heap sl)(a \<mapsto> new_node v hh)
            in case link_levels [0..<hh] prev' a h0 of
                 None \<Rightarrow> None
               | Some h1 \<Rightarrow> Some (sl\<lparr>sl_heap := h1, cur_height := max (cur_height sl) hh,
                   sl_size := sl_size sl + 1,
                   sl_bytes := sl_bytes sl + (length (key v) + length (val v) + 8 + 1),
                   sl_rng := g, sl_free := a + 1\<rparr>)))"

subsection \<open>find_key, clear, to_sorted_vector\<close>

fun descend :: "sl_heap \<Rightarrow> entry \<Rightarrow> nat \<Rightarrow> addr \<Rightarrow> addr option" where
  "descend h v 0 cur = Some cur"
| "descend h v (Suc lv) cur =
     (case advance h v lv cur of None \<Rightarrow> None | Some c \<Rightarrow> descend h v lv c)"

definition sl_find_key :: "skiplist \<Rightarrow> bytes \<Rightarrow> entry option option" where
  "sl_find_key sl k =
     (case descend (sl_heap sl) (probe k) (cur_height sl) (sl_head sl) of
        None \<Rightarrow> None
      | Some cur \<Rightarrow>
          (case get_next cur 0 (sl_heap sl) of
             None \<Rightarrow> None
           | Some None \<Rightarrow> Some None
           | Some (Some c) \<Rightarrow>
               (case sl_heap sl c of
                  None \<Rightarrow> None
                | Some nd \<Rightarrow> Some (if key (nval nd) = k then Some (nval nd) else None))))"

partial_function (option) delete_chain :: "addr option \<Rightarrow> sl_heap \<Rightarrow> sl_heap option" where
  "delete_chain cur h =
     (case cur of
        None \<Rightarrow> Some h
      | Some a \<Rightarrow>
          (case get_next a 0 h of None \<Rightarrow> None | Some nxt \<Rightarrow> delete_chain nxt (h(a := None))))"

definition sl_clear :: "skiplist \<Rightarrow> skiplist option" where
  "sl_clear sl =
     (case get_next (sl_head sl) 0 (sl_heap sl) of
        None \<Rightarrow> None
      | Some first \<Rightarrow>
          (case delete_chain first (sl_heap sl) of
             None \<Rightarrow> None
           | Some h \<Rightarrow>
               (case h (sl_head sl) of
                  None \<Rightarrow> None
                | Some nd \<Rightarrow> Some (sl\<lparr>
                    sl_heap := h(sl_head sl \<mapsto> nd\<lparr>nnext := replicate kMaxHeight None\<rparr>),
                    cur_height := 1, sl_size := 0, sl_bytes := 0\<rparr>))))"

text \<open>\<^verbatim>\<open>~SkipList()\<close> walks level 0 from the head and frees every node.\<close>

definition sl_destroy :: "skiplist \<Rightarrow> sl_heap option" where
  "sl_destroy sl = delete_chain (Some (sl_head sl)) (sl_heap sl)"

partial_function (option) collect :: "sl_heap \<Rightarrow> addr option \<Rightarrow> entry list \<Rightarrow> entry list option" where
  "collect h cur out =
     (case cur of
        None \<Rightarrow> Some out
      | Some a \<Rightarrow>
          (case h a of
             None \<Rightarrow> None
           | Some nd \<Rightarrow> collect h (nnext nd ! 0) (out @ [nval nd])))"

definition to_sorted_vector :: "skiplist \<Rightarrow> entry list option" where
  "to_sorted_vector sl =
     (case get_next (sl_head sl) 0 (sl_heap sl) of
        None \<Rightarrow> None
      | Some first \<Rightarrow> collect (sl_heap sl) first [])"

subsection \<open>The iterator\<close>

text \<open>
  \<^verbatim>\<open>const_iterator\<close>: a node pointer, null at the end; dereferencing or advancing the end is undefined.
  \<open>iterate\<close> is the range-based loop of a client that copies the entries it wants.
\<close>

type_synonym sl_iterator = "addr option"

definition it_begin :: "skiplist \<Rightarrow> sl_iterator option" where
  "it_begin sl = get_next (sl_head sl) 0 (sl_heap sl)"

definition it_end :: sl_iterator where
  "it_end = None"

definition it_deref :: "skiplist \<Rightarrow> sl_iterator \<Rightarrow> entry option" where
  "it_deref sl it = (case it of None \<Rightarrow> None | Some a \<Rightarrow> map_option nval (sl_heap sl a))"

definition it_inc :: "skiplist \<Rightarrow> sl_iterator \<Rightarrow> sl_iterator option" where
  "it_inc sl it = (case it of None \<Rightarrow> None | Some a \<Rightarrow> get_next a 0 (sl_heap sl))"

partial_function (option) iterate ::
  "(entry \<Rightarrow> bool) \<Rightarrow> skiplist \<Rightarrow> sl_iterator \<Rightarrow> entry list \<Rightarrow> entry list option" where
  "iterate wanted sl it out =
     (if it = it_end then Some out
      else case it_deref sl it of
        None \<Rightarrow> None
      | Some e \<Rightarrow>
          (case it_inc sl it of
             None \<Rightarrow> None
           | Some it' \<Rightarrow> iterate wanted sl it' (if wanted e then out @ [e] else out)))"

subsection \<open>Well-formed lists\<close>

definition nxt :: "sl_heap \<Rightarrow> nat \<Rightarrow> addr \<Rightarrow> addr option" where
  "nxt h lv a = (case h a of None \<Rightarrow> None | Some nd \<Rightarrow> nnext nd ! lv)"

fun seg :: "sl_heap \<Rightarrow> nat \<Rightarrow> addr \<Rightarrow> addr list \<Rightarrow> bool" where
  "seg h lv p [] \<longleftrightarrow> True"
| "seg h lv p (a # as) \<longleftrightarrow> nxt h lv p = Some a \<and> seg h lv a as"

definition chain :: "sl_heap \<Rightarrow> nat \<Rightarrow> addr \<Rightarrow> addr list \<Rightarrow> bool" where
  "chain h lv p as \<longleftrightarrow> seg h lv p as \<and> nxt h lv (last (p # as)) = None"

abbreviation tall :: "sl_heap \<Rightarrow> nat \<Rightarrow> addr list \<Rightarrow> addr list" where
  "tall h lv as \<equiv> filter (\<lambda>a. lv < nheight (the (h a))) as"

abbreviation vals :: "sl_heap \<Rightarrow> addr list \<Rightarrow> entry list" where
  "vals h as \<equiv> map (\<lambda>a. nval (the (h a))) as"

definition node_ok :: "sl_heap \<Rightarrow> addr \<Rightarrow> bool" where
  "node_ok h a \<longleftrightarrow> (\<exists>nd. h a = Some nd \<and> length (nnext nd) = kMaxHeight)"

definition sl_repr :: "skiplist \<Rightarrow> addr list \<Rightarrow> bool" where
  "sl_repr sl ns \<longleftrightarrow>
     distinct (sl_head sl # ns) \<and>
     dom (sl_heap sl) = set (sl_head sl # ns) \<and>
     (\<forall>a\<in>set (sl_head sl # ns). node_ok (sl_heap sl) a \<and> a < sl_free sl) \<and>
     (\<forall>a\<in>set ns. 1 \<le> nheight (the (sl_heap sl a)) \<and> nheight (the (sl_heap sl a)) \<le> cur_height sl) \<and>
     1 \<le> cur_height sl \<and> cur_height sl \<le> kMaxHeight \<and>
     (\<forall>lv < kMaxHeight. chain (sl_heap sl) lv (sl_head sl) (tall (sl_heap sl) lv ns)) \<and>
     entries_sorted (vals (sl_heap sl) ns) \<and>
     sl_size sl = length ns \<and>
     sl_bytes sl = sum_list (map entry_bytes (vals (sl_heap sl) ns))"

definition sl_wf :: "skiplist \<Rightarrow> bool" where
  "sl_wf sl \<longleftrightarrow> (\<exists>ns. sl_repr sl ns)"

definition sl_entries :: "skiplist \<Rightarrow> entry list" where
  "sl_entries sl = the (to_sorted_vector sl)"

subsection \<open>Segments and chains\<close>

lemma seg_append: "seg h lv p (as @ bs) \<longleftrightarrow> seg h lv p as \<and> seg h lv (last (p # as)) bs"
  by (induction as arbitrary: p) auto

lemma chain_append: "chain h lv p (as @ bs) \<longleftrightarrow> seg h lv p as \<and> chain h lv (last (p # as)) bs"
  by (auto simp: chain_def seg_append)

lemma chain_Cons: "chain h lv p (a # as) \<longleftrightarrow> nxt h lv p = Some a \<and> chain h lv a as"
  by (auto simp: chain_def)

lemma chain_Nil: "chain h lv p [] \<longleftrightarrow> nxt h lv p = None"
  by (simp add: chain_def)

lemma chain_first: "chain h lv p as \<Longrightarrow> nxt h lv p = (case as of [] \<Rightarrow> None | a # _ \<Rightarrow> Some a)"
  by (cases as) (simp_all add: chain_Cons chain_Nil)

lemma seg_cong:
  "(\<And>a. a \<in> set (butlast (p # as)) \<Longrightarrow> nxt h lv a = nxt h' lv a) \<Longrightarrow> seg h lv p as = seg h' lv p as"
  by (induction as arbitrary: p) (auto split: if_splits)

lemma chain_cong:
  "(\<And>a. a \<in> set (p # as) \<Longrightarrow> nxt h lv a = nxt h' lv a) \<Longrightarrow> chain h lv p as = chain h' lv p as"
  unfolding chain_def using seg_cong [of p as h lv h'] in_set_butlastD [of _ "p # as"]
  by (metis last_in_set list.discI)

lemma node_okD: "node_ok h a \<Longrightarrow> \<exists>nd. h a = Some nd \<and> nnext nd ! lv = nxt h lv a"
  by (auto simp: node_ok_def nxt_def)

lemma get_next_nxt [sl_simps]: "node_ok h a \<Longrightarrow> get_next a lv h = Some (nxt h lv a)"
  by (auto simp: node_ok_def get_next_def nxt_def)

text \<open>Advancing on a level stops at the last node of the chain that is below the value.\<close>

lemma advance_chain:
  assumes "chain h lv p as" "\<And>a. a \<in> set (p # as) \<Longrightarrow> node_ok h a"
  shows "advance h v lv p =
    Some (last (p # takeWhile (\<lambda>a. entry_less (nval (the (h a))) v) as))"
  using assms
proof (induction as arbitrary: p)
  case Nil
  then show ?case
    using node_okD [of h p lv] by (subst advance.simps) (auto simp: chain_Nil)
next
  case (Cons a as)
  from Cons.prems obtain pn an where "h p = Some pn" "nnext pn ! lv = Some a" "h a = Some an"
    using node_okD [of h p lv] node_okD [of h a lv] by (auto simp: chain_Cons)
  with Cons show ?case by (subst advance.simps) (simp add: chain_Cons)
qed

lemma collect_chain:
  assumes "chain h 0 p as" "\<And>a. a \<in> set (p # as) \<Longrightarrow> node_ok h a"
  shows "collect h (nxt h 0 p) out = Some (out @ vals h as)"
  using assms
proof (induction as arbitrary: p out)
  case Nil
  then show ?case by (subst collect.simps) (simp add: chain_Nil)
next
  case (Cons a as)
  from Cons.prems obtain an where "nxt h 0 p = Some a" "h a = Some an" "nnext an ! 0 = nxt h 0 a"
    using node_okD [of h a 0] by (auto simp: chain_Cons)
  with Cons show ?case by (subst collect.simps) (simp add: chain_Cons)
qed

text \<open>A pointer that starts the level-0 chain of \<open>as\<close>.\<close>

fun starts :: "sl_heap \<Rightarrow> addr option \<Rightarrow> addr list \<Rightarrow> bool" where
  "starts h c [] \<longleftrightarrow> c = None"
| "starts h c (a # as) \<longleftrightarrow> c = Some a \<and> chain h 0 a as"

lemma starts_nxt: "chain h 0 p as \<Longrightarrow> starts h (nxt h 0 p) as"
  by (cases as) (simp_all add: chain_Cons chain_Nil)

lemma delete_chain_starts:
  assumes "starts h c as" "\<And>a. a \<in> set as \<Longrightarrow> node_ok h a" "distinct as"
  shows "delete_chain c h = Some (\<lambda>x. if x \<in> set as then None else h x)"
  using assms
proof (induction as arbitrary: c h)
  case Nil
  then show ?case by (subst delete_chain.simps) simp
next
  case (Cons a as)
  let ?h = "h(a := None)"
  have same: "nxt ?h 0 x = nxt h 0 x" if "x \<noteq> a" for x using that by (simp add: nxt_def)
  have c: "c = Some a" and rest: "starts h (nxt h 0 a) as"
    using Cons.prems(1) starts_nxt by simp_all
  have "starts ?h (nxt h 0 a) as"
  proof (cases as)
    case (Cons b bs)
    have "chain ?h 0 b bs = chain h 0 b bs"
    proof (rule chain_cong)
      fix x assume "x \<in> set (b # bs)"
      with Cons \<open>distinct (a # as)\<close> have "x \<noteq> a" by auto
      then show "nxt ?h 0 x = nxt h 0 x" by (rule same)
    qed
    with Cons rest show ?thesis by simp
  qed (use rest in simp)
  moreover have "node_ok ?h x" if "x \<in> set as" for x
    using that Cons.prems(2) [of x] Cons.prems(3) by (auto simp: node_ok_def)
  moreover have "distinct as" using Cons.prems(3) by simp
  ultimately have "delete_chain (nxt h 0 a) ?h = Some (\<lambda>x. if x \<in> set as then None else ?h x)"
    by (rule Cons.IH)
  moreover have "delete_chain c h = delete_chain (nxt h 0 a) ?h"
    using c Cons.prems(2) [of a] by (subst delete_chain.simps) (simp add: get_next_nxt)
  ultimately show ?case by (simp add: fun_eq_iff)
qed

subsection \<open>Consequences of well-formedness\<close>

lemma repr_node_ok: "sl_repr sl ns \<Longrightarrow> a = sl_head sl \<or> a \<in> set ns \<Longrightarrow> node_ok (sl_heap sl) a"
  by (auto simp: sl_repr_def)

lemma repr_chain:
  "sl_repr sl ns \<Longrightarrow> lv < kMaxHeight \<Longrightarrow>
     chain (sl_heap sl) lv (sl_head sl) (tall (sl_heap sl) lv ns)"
  by (simp add: sl_repr_def)

lemma repr_tall_0: "sl_repr sl ns \<Longrightarrow> tall (sl_heap sl) 0 ns = ns"
  by (auto simp: sl_repr_def filter_id_conv)

lemma repr_chain_0: "sl_repr sl ns \<Longrightarrow> chain (sl_heap sl) 0 (sl_head sl) ns"
  using repr_chain [of sl ns 0] repr_tall_0 [of sl ns] by (simp add: kMaxHeight_def)

lemma repr_sorted: "sl_repr sl ns \<Longrightarrow> entries_sorted (vals (sl_heap sl) ns)"
  by (simp add: sl_repr_def)

lemma repr_counters:
  "sl_repr sl ns \<Longrightarrow> sl_size sl = length (vals (sl_heap sl) ns) \<and>
     sl_bytes sl = sum_list (map entry_bytes (vals (sl_heap sl) ns))"
  by (simp add: sl_repr_def)

lemma to_sorted_vector_repr:
  assumes "sl_repr sl ns"
  shows "to_sorted_vector sl = Some (vals (sl_heap sl) ns)"
  using collect_chain [OF repr_chain_0 [OF assms], of "[]"] repr_node_ok [OF assms]
  by (simp add: to_sorted_vector_def get_next_nxt)

lemma iterate_chain:
  assumes "chain (sl_heap sl) 0 p as" "\<And>a. a \<in> set as \<Longrightarrow> node_ok (sl_heap sl) a"
  shows "iterate wanted sl (nxt (sl_heap sl) 0 p) out = Some (out @ filter wanted (vals (sl_heap sl) as))"
  using assms
proof (induction as arbitrary: p out)
  case Nil
  then show ?case by (subst iterate.simps) (simp add: chain_Nil it_end_def)
next
  case (Cons a as)
  then have ok: "node_ok (sl_heap sl) a" by simp
  then obtain nd where "sl_heap sl a = Some nd" by (auto simp: node_ok_def)
  with Cons ok show ?case
    by (subst iterate.simps) (simp add: chain_Cons it_end_def it_deref_def it_inc_def get_next_nxt)
qed

lemma iterate_repr:
  assumes "sl_repr sl ns"
  shows "Option.bind (it_begin sl) (\<lambda>it. iterate wanted sl it []) = Some (filter wanted (vals (sl_heap sl) ns))"
  using iterate_chain [OF repr_chain_0 [OF assms], of wanted "[]"] repr_node_ok [OF assms]
  by (simp add: it_begin_def get_next_nxt)

lemma sl_entries_repr: "sl_repr sl ns \<Longrightarrow> sl_entries sl = vals (sl_heap sl) ns"
  by (simp add: sl_entries_def to_sorted_vector_repr)

text \<open>The nodes below and not below a value.\<close>

abbreviation below :: "skiplist \<Rightarrow> entry \<Rightarrow> addr list \<Rightarrow> addr list" where
  "below sl v ns \<equiv> takeWhile (\<lambda>a. entry_less (nval (the (sl_heap sl a))) v) ns"

abbreviation above :: "skiplist \<Rightarrow> entry \<Rightarrow> addr list \<Rightarrow> addr list" where
  "above sl v ns \<equiv> dropWhile (\<lambda>a. entry_less (nval (the (sl_heap sl a))) v) ns"

lemma above_not_less:
  assumes "sl_repr sl ns" "a \<in> set (above sl v ns)"
  shows "\<not> entry_less (nval (the (sl_heap sl a))) v"
proof -
  have "sorted_wrt (\<lambda>a b. entry_less (nval (the (sl_heap sl b))) v \<longrightarrow>
      entry_less (nval (the (sl_heap sl a))) v) ns"
    using assms(1) unfolding sl_repr_def
    by (auto simp: sorted_map entry_less_pos elim!: sorted_wrt_mono_rel [rotated])
  then have "filter (\<lambda>a. \<not> entry_less (nval (the (sl_heap sl a))) v) ns = above sl v ns"
    by (rule dropWhile_sorted_iff)
  with assms(2) have "a \<in> set (filter (\<lambda>a. \<not> entry_less (nval (the (sl_heap sl a))) v) ns)" by simp
  then show ?thesis by simp
qed

lemma last_path: "last (p # as @ q # bs) = last (q # bs)"
  by simp

lemma advance_repr:
  assumes "sl_repr sl ns" "lv < kMaxHeight"
    and "p = sl_head sl \<or> p \<in> set (tall (sl_heap sl) lv (below sl v ns))"
  shows "advance (sl_heap sl) v lv p =
    Some (last (sl_head sl # tall (sl_heap sl) lv (below sl v ns)))"
proof -
  let ?h = "sl_heap sl"
  let ?lt = "\<lambda>a. entry_less (nval (the (?h a))) v"
  define L where "L = tall ?h lv (below sl v ns)"
  define R where "R = tall ?h lv (above sl v ns)"
  have split: "tall ?h lv ns = L @ R"
    unfolding L_def R_def filter_append [symmetric] takeWhile_dropWhile_id ..
  have low: "?lt a" if "a \<in> set L" for a
    using that unfolding L_def by (auto dest: set_takeWhileD)
  have high: "\<not> ?lt a" if "a \<in> set R" for a
    by (rule above_not_less [OF assms(1)]) (use that in \<open>simp add: R_def\<close>)
  have in_ns: "set L \<subseteq> set ns" "set R \<subseteq> set ns"
    using split filter_is_subset [of "\<lambda>a. lv < nheight (the (?h a))" ns] by auto
  obtain as bs where at: "chain ?h lv p (bs @ R)" "L = as @ bs"
    "last (p # bs) = last (sl_head sl # L)" "p = sl_head sl \<or> p \<in> set ns"
  proof (cases "p = sl_head sl")
    case True
    with repr_chain [OF assms(1,2)] split that [of L "[]"] show ?thesis by simp
  next
    case False
    with assms(3) obtain as bs where L: "L = as @ p # bs" unfolding L_def by (meson split_list)
    then have "tall ?h lv ns = (as @ [p]) @ bs @ R" using split by simp
    then have "chain ?h lv p (bs @ R)"
      using repr_chain [OF assms(1,2)] by (simp only: chain_append) simp
    moreover have "p \<in> set ns" using L in_ns by auto
    ultimately show ?thesis using that [of bs "as @ [p]"] L by simp
  qed
  have "node_ok ?h a" if "a \<in> set (p # bs @ R)" for a
    using that at(2,4) in_ns by (intro repr_node_ok [OF assms(1)]) auto
  then have "advance ?h v lv p = Some (last (p # takeWhile ?lt (bs @ R)))"
    using advance_chain [OF at(1)] by blast
  moreover have "takeWhile ?lt (bs @ R) = bs"
    using low high at(2) by (subst takeWhile_append2) (auto simp: takeWhile_eq_Nil_iff)
  ultimately show ?thesis using at(3) by (simp add: L_def)
qed

text \<open>Walking down from the top level: the position reached, and the recorded predecessors.\<close>

abbreviation pred_at :: "skiplist \<Rightarrow> entry \<Rightarrow> addr list \<Rightarrow> nat \<Rightarrow> addr" where
  "pred_at sl v ns lv \<equiv> last (sl_head sl # tall (sl_heap sl) lv (below sl v ns))"

lemma pred_at_lower:
  "i \<le> j \<Longrightarrow> pred_at sl v ns j = sl_head sl \<or>
     pred_at sl v ns j \<in> set (tall (sl_heap sl) i (below sl v ns))"
  using last_in_set [of "tall (sl_heap sl) j (below sl v ns)"] by (auto simp del: last_in_set)

lemma descend_repr:
  assumes "sl_repr sl ns" "Suc lv \<le> kMaxHeight"
    and "p = sl_head sl \<or> p \<in> set (tall (sl_heap sl) lv (below sl v ns))"
  shows "descend (sl_heap sl) v (Suc lv) p = Some (pred_at sl v ns 0)"
  using assms(2,3)
proof (induction lv arbitrary: p)
  case 0
  then show ?case using advance_repr [OF assms(1), of 0 p v] by (simp add: kMaxHeight_def)
next
  case (Suc lv)
  have step: "advance (sl_heap sl) v (Suc lv) p = Some (pred_at sl v ns (Suc lv))"
    using Suc.prems by (intro advance_repr [OF assms(1)]) auto
  have "descend (sl_heap sl) v (Suc lv) (pred_at sl v ns (Suc lv)) = Some (pred_at sl v ns 0)"
    using Suc.prems(1) pred_at_lower [of lv "Suc lv" sl v ns] by (intro Suc.IH) simp_all
  with step show ?case by (simp del: last.simps)
qed

lemma find_prev_loop_repr:
  assumes "sl_repr sl ns" "lv \<le> kMaxHeight" "length prev = kMaxHeight"
    and "p = sl_head sl \<or> p \<in> set (tall (sl_heap sl) (lv - 1) (below sl v ns))"
  shows "\<exists>c prev'. find_prev_loop (sl_heap sl) v lv p prev = Some (c, prev') \<and>
    length prev' = kMaxHeight \<and> (0 < lv \<longrightarrow> c = pred_at sl v ns 0) \<and>
    (\<forall>i < kMaxHeight. prev' ! i = (if i < lv then Some (pred_at sl v ns i) else prev ! i))"
  using assms(2-)
proof (induction lv arbitrary: p prev)
  case (Suc lv)
  let ?c = "pred_at sl v ns lv"
  have step: "advance (sl_heap sl) v lv p = Some ?c"
    using Suc.prems by (intro advance_repr [OF assms(1)]) auto
  obtain c prev' where "find_prev_loop (sl_heap sl) v lv ?c (prev[lv := Some ?c]) = Some (c, prev')"
    "length prev' = kMaxHeight" "0 < lv \<longrightarrow> c = pred_at sl v ns 0"
    "\<forall>i < kMaxHeight. prev' ! i = (if i < lv then Some (pred_at sl v ns i) else prev[lv := Some ?c] ! i)"
    "lv = 0 \<Longrightarrow> c = ?c"
    using Suc.IH [of "prev[lv := Some ?c]" ?c] Suc.prems pred_at_lower [of "lv - 1" lv sl v ns]
    by (cases "lv = 0") (auto simp del: last.simps)
  with step Suc.prems show ?case by (auto simp: nth_list_update less_Suc_eq simp del: last.simps)
qed simp

lemma below_above: "below sl v ns @ above sl v ns = ns"
  by (rule takeWhile_dropWhile_id)

lemma tall_0_below: "sl_repr sl ns \<Longrightarrow> tall (sl_heap sl) 0 (below sl v ns) = below sl v ns"
  using repr_tall_0 [of sl ns] by (auto simp: filter_id_conv dest: set_takeWhileD)

lemma vals_above:
  "vals (sl_heap sl) (above sl v ns) = dropWhile (\<lambda>e. entry_less e v) (vals (sl_heap sl) ns)"
  by (simp add: dropWhile_map o_def)

lemma vals_below:
  "vals (sl_heap sl) (below sl v ns) = takeWhile (\<lambda>e. entry_less e v) (vals (sl_heap sl) ns)"
  by (simp add: takeWhile_map o_def)

lemma sl_find_key_repr:
  assumes "sl_repr sl ns"
  shows "sl_find_key sl k = Some (find_key_in k (vals (sl_heap sl) ns))"
proof -
  let ?h = "sl_heap sl" and ?v = "probe k"
  let ?c = "pred_at sl ?v ns 0"
  have ch: "1 \<le> cur_height sl" "cur_height sl \<le> kMaxHeight" using assms by (simp_all add: sl_repr_def)
  then have found: "descend ?h ?v (cur_height sl) (sl_head sl) = Some ?c"
    using descend_repr [OF assms, of "cur_height sl - 1"] by simp
  have "?c = sl_head sl \<or> ?c \<in> set ns"
    using pred_at_lower [of 0 0 sl ?v ns] by (auto simp del: last.simps dest: set_takeWhileD)
  then have c_ok: "node_ok ?h ?c" by (rule repr_node_ok [OF assms])
  have "chain ?h 0 (sl_head sl) (below sl ?v ns @ above sl ?v ns)"
    using repr_chain_0 [OF assms] unfolding below_above .
  then have "chain ?h 0 ?c (above sl ?v ns)"
    unfolding chain_append tall_0_below [OF assms] by simp
  note next_c = chain_first [OF this]
  have "sorted (map key (vals ?h ns))"
    using assms entries_sorted_keys unfolding sl_repr_def by blast
  note look = find_key_dropWhile [OF this, of k]
  have drop: "dropWhile (\<lambda>e. key e < k) (vals ?h ns) = vals ?h (above sl ?v ns)"
    using vals_above [of sl ?v ns] by simp
  obtain R where R: "above sl ?v ns = R" by blast
  then have "set R \<subseteq> set ns" using set_dropWhileD by fastforce
  then have "\<forall>a\<in>set R. \<exists>nd. ?h a = Some nd"
    using repr_node_ok [OF assms] by (meson node_okD subsetD)
  then show ?thesis
    unfolding sl_find_key_def found look drop option.case get_next_nxt [OF c_ok] next_c R
    by (cases R) auto
qed

subsection \<open>Linking a new node\<close>

definition shape :: "sl_heap \<Rightarrow> addr \<Rightarrow> (entry \<times> nat \<times> nat) option" where
  "shape h a = map_option (\<lambda>n. (nval n, nheight n, length (nnext n))) (h a)"

lemma shape_node_ok: "shape h a = shape h' a \<Longrightarrow> node_ok h a = node_ok h' a"
  by (auto simp: shape_def node_ok_def map_option_case split: option.splits)

lemma shape_dom:
  assumes "\<forall>x. shape h x = shape h' x" shows "dom h = dom h'"
proof -
  have "h x = None \<longleftrightarrow> shape h x = None" for h x by (simp add: shape_def)
  with assms show ?thesis by (auto simp: dom_def)
qed

lemma shape_nval: "shape h a = shape h' a \<Longrightarrow> node_ok h a \<Longrightarrow> nval (the (h a)) = nval (the (h' a))"
  by (auto simp: shape_def node_ok_def map_option_case split: option.splits)

lemma shape_nheight:
  "shape h a = shape h' a \<Longrightarrow> node_ok h a \<Longrightarrow> nheight (the (h a)) = nheight (the (h' a))"
  by (auto simp: shape_def node_ok_def map_option_case split: option.splits)

lemma set_next_spec:
  assumes "node_ok h p" "lv < kMaxHeight"
  shows "\<exists>h'. set_next p lv q h = Some h' \<and> (\<forall>x. shape h' x = shape h x) \<and>
    (\<forall>i x. nxt h' i x = (if x = p \<and> i = lv then q else nxt h i x))"
  using assms by (auto simp: set_next_def node_ok_def shape_def nxt_def nth_list_update)

lemma link_levels_spec:
  assumes "distinct is" "node_ok h a"
    and "\<And>i. i \<in> set is \<Longrightarrow> i < kMaxHeight \<and> prev ! i = Some (P i) \<and> node_ok h (P i) \<and> P i \<noteq> a"
  shows "\<exists>h'. link_levels is prev a h = Some h' \<and> (\<forall>x. shape h' x = shape h x) \<and>
    (\<forall>i x. nxt h' i x =
       (if i \<in> set is then if x = a then nxt h i (P i) else if x = P i then Some a else nxt h i x
        else nxt h i x))"
  using assms
proof (induction "is" arbitrary: h)
  case (Cons i "is")
  have i: "i < kMaxHeight" "prev ! i = Some (P i)" "node_ok h (P i)" "P i \<noteq> a"
    using Cons.prems(3) [of i] by auto
  obtain h1 where h1: "set_next a i (nxt h i (P i)) h = Some h1" "\<forall>x. shape h1 x = shape h x"
    "\<forall>j x. nxt h1 j x = (if x = a \<and> j = i then nxt h i (P i) else nxt h j x)"
    using set_next_spec [OF Cons.prems(2) i(1)] by blast
  have "node_ok h1 (P i)" using i(3) h1(2) shape_node_ok by blast
  from set_next_spec [OF this i(1)] obtain h2 where h2: "set_next (P i) i (Some a) h1 = Some h2"
    "\<forall>x. shape h2 x = shape h1 x"
    "\<forall>j x. nxt h2 j x = (if x = P i \<and> j = i then Some a else nxt h1 j x)" by blast
  have ok2: "node_ok h2 x = node_ok h x" for x using h1(2) h2(2) shape_node_ok by metis
  obtain h' where h': "link_levels is prev a h2 = Some h'" "\<forall>x. shape h' x = shape h2 x"
    "\<forall>j x. nxt h' j x = (if j \<in> set is then if x = a then nxt h2 j (P j)
        else if x = P j then Some a else nxt h2 j x else nxt h2 j x)"
    using Cons.IH [of h2] Cons.prems ok2 by auto
  have "link_levels (i # is) prev a h = Some h'"
    using i h1(1) h2(1) h'(1) by (simp add: get_next_nxt)
  moreover have "\<forall>x. shape h' x = shape h x" using h1(2) h2(2) h'(2) by simp
  moreover have "i \<notin> set is" using Cons.prems(1) by simp
  ultimately show ?case
    using h1(3) h2(3) h'(3) i(4) Cons.prems(3) by (intro exI [of _ h']) auto
qed simp

subsection \<open>insert\<close>

lemma random_height_loop_step:
  "random_height_loop h g =
     (if h < kMaxHeight
      then if fst (mt_next g) mod kBranching = 0 then random_height_loop (h + 1) (snd (mt_next g))
        else (h, snd (mt_next g))
      else (h, g))"
  by (subst random_height_loop.simps) (simp only: case_prod_beta)

lemma random_height_loop_bounds:
  "h \<le> kMaxHeight \<Longrightarrow> h \<le> fst (random_height_loop h g) \<and> fst (random_height_loop h g) \<le> kMaxHeight"
proof (induction "kMaxHeight - h" arbitrary: h g)
  case 0
  then show ?case by (subst (1 2) random_height_loop_step) simp
next
  case (Suc n)
  then have "h + 1 \<le> fst (random_height_loop (h + 1) (snd (mt_next g))) \<and>
      fst (random_height_loop (h + 1) (snd (mt_next g))) \<le> kMaxHeight"
    by (intro Suc.hyps(1)) auto
  with Suc.prems show ?case
    unfolding random_height_loop_step [of h g] by (auto split: if_split)
qed

lemma random_height_bounds:
  "1 \<le> fst (random_height g)" "fst (random_height g) \<le> kMaxHeight"
  using random_height_loop_bounds [of 1 g] by (simp_all add: random_height_def kMaxHeight_def)

lemma foldl_fill:
  "length (foldl (\<lambda>ps i. ps[i := x]) ps is) = length ps"
  "i < length ps \<Longrightarrow> foldl (\<lambda>ps i. ps[i := x]) ps is ! i = (if i \<in> set is then x else ps ! i)"
  by (induction "is" arbitrary: ps) (auto simp: nth_list_update)

lemma tall_above_height:
  "sl_repr sl ns \<Longrightarrow> cur_height sl \<le> lv \<Longrightarrow> set as \<subseteq> set ns \<Longrightarrow> tall (sl_heap sl) lv as = []"
  unfolding sl_repr_def filter_empty_conv by (meson leD le_trans subsetD)

lemma find_prev_repr:
  assumes "sl_repr sl ns"
  shows "\<exists>c prev. find_prev sl v = Some (c, prev) \<and> length prev = kMaxHeight \<and>
    c = pred_at sl v ns 0 \<and> (\<forall>i < cur_height sl. prev ! i = Some (pred_at sl v ns i))"
proof -
  have "1 \<le> cur_height sl" "cur_height sl \<le> kMaxHeight" using assms by (simp_all add: sl_repr_def)
  with find_prev_loop_repr [OF assms, of "cur_height sl" "replicate kMaxHeight None" "sl_head sl" v]
  show ?thesis by (auto simp: find_prev_def simp del: last.simps)
qed

text \<open>The heap after an insertion: the new node is spliced in behind its predecessors.\<close>

lemma sl_insert_heap:
  assumes r: "sl_repr sl ns" and hg: "random_height (sl_rng sl) = (hh, g)"
  shows "\<exists>h1. sl_insert v sl = Some (sl\<lparr>sl_heap := h1, cur_height := max (cur_height sl) hh,
      sl_size := sl_size sl + 1, sl_bytes := sl_bytes sl + entry_bytes v, sl_rng := g,
      sl_free := sl_free sl + 1\<rparr>) \<and>
    (\<forall>x. shape h1 x = shape ((sl_heap sl)(sl_free sl \<mapsto> new_node v hh)) x) \<and>
    (\<forall>i < kMaxHeight. \<forall>x. x \<noteq> sl_free sl \<longrightarrow>
       nxt h1 i x = (if i < hh \<and> x = pred_at sl v ns i then Some (sl_free sl) else nxt (sl_heap sl) i x)) \<and>
    (\<forall>i < hh. nxt h1 i (sl_free sl) = nxt (sl_heap sl) i (pred_at sl v ns i))"
proof -
  let ?a = "sl_free sl" and ?P = "\<lambda>i. pred_at sl v ns i"
  let ?h0 = "(sl_heap sl)(?a \<mapsto> new_node v hh)"
  from find_prev_repr [OF r, of v] obtain c prev where fp: "find_prev sl v = Some (c, prev)"
    "length prev = kMaxHeight" "\<forall>i < cur_height sl. prev ! i = Some (?P i)" by blast
  define prev' where "prev' = foldl (\<lambda>ps i. ps[i := Some (sl_head sl)]) prev [cur_height sl..<hh]"
  have hh: "hh \<le> kMaxHeight" using random_height_bounds(2) [of "sl_rng sl"] hg by simp
  have P: "?P i = sl_head sl \<or> ?P i \<in> set ns" for i
    using pred_at_lower [of i i sl v ns] by (auto simp del: last.simps dest: set_takeWhileD)
  have P_ok: "node_ok (sl_heap sl) (?P i)" "?P i < ?a" for i
    using P [of i] r unfolding sl_repr_def by (auto simp del: last.simps)
  have top: "?P i = sl_head sl" if "cur_height sl \<le> i" for i
    using tall_above_height [OF r that, of "below sl v ns"] set_takeWhileD by fastforce
  have prev': "prev' ! i = Some (?P i)" if "i < hh" for i
  proof (cases "i < cur_height sl")
    case True
    then show ?thesis using fp hh that by (simp add: prev'_def foldl_fill(2) del: last.simps)
  next
    case False
    then show ?thesis
      using fp hh that top [of i] by (simp add: prev'_def foldl_fill(2) del: last.simps)
  qed
  have ok0: "node_ok ?h0 (?P i)" for i
    using P_ok [of i] by (auto simp: node_ok_def simp del: last.simps)
  have "node_ok ?h0 ?a" by (simp add: node_ok_def new_node_def)
  moreover have "i < kMaxHeight \<and> prev' ! i = Some (?P i) \<and> node_ok ?h0 (?P i) \<and> ?P i \<noteq> ?a"
    if "i \<in> set [0..<hh]" for i
    using that hh prev' [of i] ok0 [of i] P_ok(2) [of i] by (simp del: last.simps)
  ultimately obtain h1 where h1: "link_levels [0..<hh] prev' ?a ?h0 = Some h1"
    "\<forall>x. shape h1 x = shape ?h0 x"
    "\<forall>i x. nxt h1 i x = (if i \<in> set [0..<hh] then if x = ?a then nxt ?h0 i (?P i)
       else if x = ?P i then Some ?a else nxt ?h0 i x else nxt ?h0 i x)"
    using link_levels_spec [of "[0..<hh]" ?h0 ?a prev' ?P] by (auto simp del: last.simps)
  have n0: "nxt ?h0 i x = nxt (sl_heap sl) i x" if "x \<noteq> ?a" for i x
    using that by (simp add: nxt_def)
  have "sl_insert v sl = Some (sl\<lparr>sl_heap := h1, cur_height := max (cur_height sl) hh,
      sl_size := sl_size sl + 1, sl_bytes := sl_bytes sl + entry_bytes v, sl_rng := g,
      sl_free := ?a + 1\<rparr>)"
    using fp(1) hg h1(1) by (simp add: sl_insert_def Let_def prev'_def entry_bytes_def)
  moreover have "?P i \<noteq> ?a" for i using P_ok(2) [of i] by simp
  ultimately show ?thesis
    using h1(2,3) n0 by (intro exI [of _ h1]) (simp del: last.simps)
qed

lemma splice_chain:
  assumes c: "chain h lv p (L @ R)" and d: "distinct (p # L @ R)" and a: "a \<notin> set (p # L @ R)"
    and nx: "\<And>x. x \<noteq> a \<Longrightarrow> nxt h' lv x = (if x = last (p # L) then Some a else nxt h lv x)"
    and na: "nxt h' lv a = nxt h lv (last (p # L))"
  shows "chain h' lv p (L @ a # R)"
proof -
  have "seg h' lv p L = seg h lv p L"
  proof (rule seg_cong)
    fix x assume x: "x \<in> set (butlast (p # L))"
    have "distinct (butlast (p # L) @ [last (p # L)])" using d by (simp del: butlast.simps last.simps)
    then have "last (p # L) \<notin> set (butlast (p # L))" unfolding distinct_append by auto
    with x have "x \<noteq> last (p # L)" by metis
    moreover have "x \<noteq> a" using in_set_butlastD [OF x] a by auto
    ultimately show "nxt h' lv x = nxt h lv x" using nx by simp
  qed
  moreover have "last (p # L) \<noteq> a"
    using a last_in_set [of "p # L"] by (auto simp del: last_in_set last.simps)
  moreover have "chain h' lv a R"
  proof (cases R)
    case Nil
    then have "nxt h lv (last (p # L)) = None" using c by (simp add: chain_def del: last.simps)
    then show ?thesis using na Nil by (simp add: chain_Nil del: last.simps)
  next
    case (Cons r rs)
    have "chain h' lv r rs = chain h lv r rs"
    proof (rule chain_cong)
      fix x assume "x \<in> set (r # rs)"
      then have "x \<noteq> a" "x \<noteq> last (p # L)"
        using Cons a d last_in_set [of "p # L"] by (auto simp del: last_in_set last.simps)
      then show "nxt h' lv x = nxt h lv x" using nx by simp
    qed
    then show ?thesis
      using c Cons na by (simp add: chain_append chain_Cons del: last.simps)
  qed
  ultimately show ?thesis
    using c nx by (simp add: chain_append chain_Cons del: last.simps)
qed

lemma sl_insert_repr:
  assumes r: "sl_repr sl ns"
  shows "\<exists>sl'. sl_insert v sl = Some sl' \<and>
    sl_repr sl' (below sl v ns @ sl_free sl # above sl v ns) \<and>
    vals (sl_heap sl') (below sl v ns @ sl_free sl # above sl v ns) =
      insert_stable entry_less v (vals (sl_heap sl) ns)"
proof -
  let ?a = "sl_free sl" and ?h = "sl_heap sl"
  obtain hh g where hg: "random_height (sl_rng sl) = (hh, g)" by (cases "random_height (sl_rng sl)")
  then have hh: "1 \<le> hh" "hh \<le> kMaxHeight" using random_height_bounds [of "sl_rng sl"] by simp_all
  from sl_insert_heap [OF r hg, of v] obtain h1 sl' where ins: "sl_insert v sl = Some sl'"
    and sl': "sl' = sl\<lparr>sl_heap := h1, cur_height := max (cur_height sl) hh,
      sl_size := sl_size sl + 1, sl_bytes := sl_bytes sl + entry_bytes v, sl_rng := g, sl_free := ?a + 1\<rparr>"
    and shp: "\<forall>x. shape h1 x = shape (?h(?a \<mapsto> new_node v hh)) x"
    and nx: "\<forall>i < kMaxHeight. \<forall>x. x \<noteq> ?a \<longrightarrow>
       nxt h1 i x = (if i < hh \<and> x = pred_at sl v ns i then Some ?a else nxt ?h i x)"
    and na: "\<forall>i < hh. nxt h1 i ?a = nxt ?h i (pred_at sl v ns i)" by blast
  define L where "L = below sl v ns"
  define R where "R = above sl v ns"
  have ns: "ns = L @ R" unfolding L_def R_def by simp
  have old: "node_ok ?h x \<and> x < ?a" if "x \<in> set (sl_head sl # ns)" for x
    using that r unfolding sl_repr_def by auto
  have same: "nval (the (h1 x)) = nval (the (?h x))" "nheight (the (h1 x)) = nheight (the (?h x))"
      "node_ok h1 x" if "x \<in> set (sl_head sl # ns)" for x
    using old [OF that] shp [rule_format, of x]
    by (auto simp: shape_def node_ok_def map_option_case split: option.splits)
  have new: "nval (the (h1 ?a)) = v" "nheight (the (h1 ?a)) = hh" "node_ok h1 ?a"
    using shp [rule_format, of ?a]
    by (auto simp: shape_def node_ok_def new_node_def map_option_case split: option.splits)
  have vals: "vals h1 (L @ ?a # R) = insert_stable entry_less v (vals ?h ns)"
  proof -
    have "vals h1 L = vals ?h L" "vals h1 R = vals ?h R" using same(1) ns by auto
    then show ?thesis
      using new(1) vals_below [of sl v ns] vals_above [of sl v ns]
      unfolding L_def R_def insert_stable_split by simp
  qed
  have tall_new: "tall h1 lv (L @ ?a # R) =
      tall ?h lv L @ (if lv < hh then [?a] else []) @ tall ?h lv R" for lv
  proof -
    have "tall h1 lv L = tall ?h lv L" "tall h1 lv R = tall ?h lv R"
      using same(2) ns by (auto intro: filter_cong)
    then show ?thesis using new(2) by simp
  qed
  have chains: "chain h1 lv (sl_head sl) (tall h1 lv (L @ ?a # R))" if lv: "lv < kMaxHeight" for lv
  proof -
    let ?L = "tall ?h lv L" and ?R = "tall ?h lv R"
    have c: "chain ?h lv (sl_head sl) (?L @ ?R)" using repr_chain [OF r lv] ns by simp
    have a: "?a \<notin> set (sl_head sl # ?L @ ?R)" using old ns by fastforce
    show ?thesis
    proof (cases "lv < hh")
      case True
      have "distinct (sl_head sl # ?L @ ?R)" using r unfolding sl_repr_def ns by auto
      with c a have "chain h1 lv (sl_head sl) (?L @ ?a # ?R)"
        using nx na lv True by (intro splice_chain [of ?h]) (auto simp: L_def)
      with True tall_new show ?thesis by simp
    next
      case False
      have "chain h1 lv (sl_head sl) (?L @ ?R) = chain ?h lv (sl_head sl) (?L @ ?R)"
      proof (rule chain_cong)
        fix x assume "x \<in> set (sl_head sl # ?L @ ?R)"
        with a have "x \<noteq> ?a" by metis
        with nx lv False show "nxt h1 lv x = nxt ?h lv x" by simp
      qed
      with c False tall_new show ?thesis by simp
    qed
  qed
  have sel: "sl_heap sl' = h1" "cur_height sl' = max (cur_height sl) hh" "sl_size sl' = sl_size sl + 1"
    "sl_bytes sl' = sl_bytes sl + entry_bytes v" "sl_free sl' = ?a + 1" "sl_head sl' = sl_head sl"
    using sl' by simp_all
  have "sl_repr sl' (L @ ?a # R)"
    unfolding sl_repr_def sel
  proof (intro conjI)
    show "distinct (sl_head sl # L @ ?a # R)"
      using r old unfolding sl_repr_def ns by fastforce
    have "dom h1 = insert ?a (dom ?h)" using shape_dom [OF shp] by simp
    then show "dom h1 = set (sl_head sl # L @ ?a # R)" using r unfolding sl_repr_def ns by auto
    show "\<forall>x\<in>set (sl_head sl # L @ ?a # R). node_ok h1 x \<and> x < ?a + 1"
      using old same(3) new(3) unfolding ns by fastforce
    show "\<forall>x\<in>set (L @ ?a # R). 1 \<le> nheight (the (h1 x)) \<and>
        nheight (the (h1 x)) \<le> max (cur_height sl) hh"
      using r same(2) new(2) hh unfolding sl_repr_def ns by (auto simp: le_max_iff_disj)
    show "1 \<le> max (cur_height sl) hh" "max (cur_height sl) hh \<le> kMaxHeight"
      using r hh unfolding sl_repr_def by auto
    show "\<forall>lv<kMaxHeight. chain h1 lv (sl_head sl) (tall h1 lv (L @ ?a # R))"
      using chains by blast
    show "entries_sorted (vals h1 (L @ ?a # R))"
      unfolding vals using r entry_order.ordered_insert_stable
      unfolding sl_repr_def ordered_iff_sorted_pos by blast
    show "sl_size sl + 1 = length (L @ ?a # R)" using r unfolding sl_repr_def ns by simp
    have "sum_list (map entry_bytes (insert_stable entry_less v (vals ?h ns))) =
        entry_bytes v + sum_list (map entry_bytes (vals ?h ns))"
      by (rule sum_list_insert_stable)
    then show "sl_bytes sl + entry_bytes v = sum_list (map entry_bytes (vals h1 (L @ ?a # R)))"
      unfolding vals using r unfolding sl_repr_def by simp
  qed
  with ins vals sl' show ?thesis unfolding L_def R_def by auto
qed

subsection \<open>The empty list and clear\<close>

lemma sl_new_repr: "sl_repr sl_new []"
  by (simp add: sl_repr_def sl_new_def node_ok_def new_node_def chain_Nil nxt_def kMaxHeight_def)

lemma sl_clear_repr:
  assumes r: "sl_repr sl ns"
  shows "\<exists>sl'. sl_clear sl = Some sl' \<and> sl_repr sl' []"
proof -
  let ?h = "sl_heap sl" and ?p = "sl_head sl"
  let ?h' = "\<lambda>x. if x \<in> set ns then None else ?h x"
  have p: "?p \<notin> set ns" "distinct ns" using r by (simp_all add: sl_repr_def)
  obtain nd where nd: "?h ?p = Some nd" "length (nnext nd) = kMaxHeight" "?p < sl_free sl"
    using r by (auto simp: sl_repr_def node_ok_def)
  have "delete_chain (nxt ?h 0 ?p) ?h = Some ?h'"
    using starts_nxt [OF repr_chain_0 [OF r]] repr_node_ok [OF r] p by (intro delete_chain_starts) auto
  then have "sl_clear sl = Some (sl\<lparr>sl_heap := ?h'(?p \<mapsto> nd\<lparr>nnext := replicate kMaxHeight None\<rparr>),
      cur_height := 1, sl_size := 0, sl_bytes := 0\<rparr>)"
    using p nd repr_node_ok [OF r] by (simp add: sl_clear_def get_next_nxt)
  moreover have "dom (?h'(?p \<mapsto> nd\<lparr>nnext := replicate kMaxHeight None\<rparr>)) = {?p}"
    using p nd r by (auto simp: sl_repr_def split: if_splits)
  ultimately show ?thesis using nd(3)
    by (simp add: sl_repr_def node_ok_def chain_Nil nxt_def kMaxHeight_def)
qed

lemma sl_destroy_repr:
  assumes r: "sl_repr sl ns"
  shows "sl_destroy sl = Some Map.empty"
proof -
  have "starts (sl_heap sl) (Some (sl_head sl)) (sl_head sl # ns)" using repr_chain_0 [OF r] by simp
  then have "sl_destroy sl = Some (\<lambda>x. if x \<in> set (sl_head sl # ns) then None else sl_heap sl x)"
    unfolding sl_destroy_def using repr_node_ok [OF r] r
    by (intro delete_chain_starts) (auto simp: sl_repr_def)
  moreover have "(if x \<in> set (sl_head sl # ns) then None else sl_heap sl x) = None" for x
    using r by (auto simp: sl_repr_def dom_def)
  ultimately show ?thesis by simp
qed

subsection \<open>The contract of a sorted buffer\<close>

text \<open>
  What the tree relies on when it buffers writes: the operations return, keep the invariant, and act
  on the sequence of entries as a sorted insertion, a search and a reset do. \<open>fill ins\<close> is a run of
  insertions; the client lemmas say that such a run leaves the entries stably sorted and that a
  lookup afterwards finds the newest version of a key.
\<close>

fun fill :: "(entry \<Rightarrow> 'b \<Rightarrow> 'b option) \<Rightarrow> entry list \<Rightarrow> 'b \<Rightarrow> 'b option" where
  "fill ins [] b = Some b"
| "fill ins (v # vs) b = (case ins v b of None \<Rightarrow> None | Some b' \<Rightarrow> fill ins vs b')"

locale sorted_buffer =
  fixes inv :: "'b \<Rightarrow> bool"
    and entries :: "'b \<Rightarrow> entry list"
    and fresh :: 'b
    and ins :: "entry \<Rightarrow> 'b \<Rightarrow> 'b option"
    and look :: "'b \<Rightarrow> bytes \<Rightarrow> entry option option"
    and reset :: "'b \<Rightarrow> 'b option"
  assumes inv_fresh: "inv fresh" "entries fresh = []"
    and inv_sorted: "inv b \<Longrightarrow> entries_sorted (entries b)"
    and ins_ok: "inv b \<Longrightarrow>
      \<exists>b'. ins v b = Some b' \<and> inv b' \<and> entries b' = insert_stable entry_less v (entries b)"
    and look_ok: "inv b \<Longrightarrow> look b k = Some (find_key_in k (entries b))"
    and reset_ok: "inv b \<Longrightarrow> \<exists>b'. reset b = Some b' \<and> inv b' \<and> entries b' = []"
begin

lemma look_newest: "inv b \<Longrightarrow> look b k = Some (newest k (entries b))"
  by (simp add: look_ok newest_sorted inv_sorted)

lemma fill_ok:
  assumes "inv b"
  shows "\<exists>b'. fill ins vs b = Some b' \<and> inv b' \<and> entries b' = fold (insert_stable entry_less) vs (entries b)"
  using assms
proof (induction vs arbitrary: b)
  case (Cons v vs)
  from ins_ok [OF Cons.prems, of v] obtain b1 where
    "ins v b = Some b1" "inv b1" "entries b1 = insert_stable entry_less v (entries b)" by blast
  with Cons.IH [of b1] show ?case by simp
qed simp

lemma fill_fresh:
  "\<exists>b. fill ins vs fresh = Some b \<and> inv b \<and> entries b = stable_sort entry_less (rev vs)"
  using fill_ok [OF inv_fresh(1), of vs] inv_fresh(2)
  by (simp add: stable_sort_def foldr_conv_fold)

lemma look_fill:
  "\<exists>b. fill ins vs fresh = Some b \<and> inv b \<and> entries b = stable_sort entry_less (rev vs) \<and>
     (\<forall>k. look b k = Some (newest k (rev vs)))"
  using fill_fresh [of vs] look_newest by fastforce

end

lemma sl_wf_entries: "sl_repr sl ns \<Longrightarrow> sl_wf sl \<and> sl_entries sl = vals (sl_heap sl) ns"
  by (auto simp: sl_wf_def sl_entries_repr)

interpretation skip_buffer: sorted_buffer sl_wf sl_entries sl_new sl_insert sl_find_key sl_clear
proof unfold_locales
  show "sl_wf sl_new" "sl_entries sl_new = []" using sl_wf_entries [OF sl_new_repr] by simp_all
  show "entries_sorted (sl_entries b)" if "sl_wf b" for b
    using that repr_sorted [of b] sl_entries_repr [of b] unfolding sl_wf_def by metis
  show "\<exists>b'. sl_insert v b = Some b' \<and> sl_wf b' \<and> sl_entries b' = insert_stable entry_less v (sl_entries b)"
    if "sl_wf b" for v b
  proof -
    from that obtain ns where r: "sl_repr b ns" unfolding sl_wf_def by blast
    from sl_insert_repr [OF r, of v] obtain b' where b': "sl_insert v b = Some b'"
      "sl_repr b' (below b v ns @ sl_free b # above b v ns)"
      "vals (sl_heap b') (below b v ns @ sl_free b # above b v ns) =
        insert_stable entry_less v (vals (sl_heap b) ns)" by blast
    with sl_wf_entries [OF b'(2)] sl_wf_entries [OF r] show ?thesis by metis
  qed
  show "sl_find_key b k = Some (find_key_in k (sl_entries b))" if "sl_wf b" for b k
    using that sl_find_key_repr [of b _ k] sl_entries_repr [of b] unfolding sl_wf_def by metis
  show "\<exists>b'. sl_clear b = Some b' \<and> sl_wf b' \<and> sl_entries b' = []" if "sl_wf b" for b
  proof -
    from that obtain ns where "sl_repr b ns" unfolding sl_wf_def by blast
    from sl_clear_repr [OF this] obtain b' where "sl_clear b = Some b'" "sl_repr b' []" by blast
    with sl_wf_entries [of b' "[]"] show ?thesis by simp
  qed
qed

lemma iterate_wf:
  "sl_wf sl \<Longrightarrow> Option.bind (it_begin sl) (\<lambda>it. iterate wanted sl it []) = Some (filter wanted (sl_entries sl))"
  using iterate_repr [of sl _ wanted] sl_entries_repr [of sl] unfolding sl_wf_def by metis

lemma to_sorted_vector_wf: "sl_wf sl \<Longrightarrow> to_sorted_vector sl = Some (sl_entries sl)"
  using to_sorted_vector_repr [of sl] sl_entries_repr [of sl] unfolding sl_wf_def by metis

lemma sl_counters_wf:
  "sl_wf sl \<Longrightarrow> sl_size sl = length (sl_entries sl) \<and>
     sl_bytes sl = sum_list (map entry_bytes (sl_entries sl))"
  using repr_counters [of sl] sl_entries_repr [of sl] unfolding sl_wf_def by metis

subsection \<open>Properties\<close>

text \<open>
  C20. Insertion into a well-formed skip list returns (no null or dangling pointer is followed and
  every walk ends), keeps the list well-formed on all twelve levels, and adds the entry to the sorted
  sequence at its place, in front of entries that compare equal; \<^verbatim>\<open>size()\<close> and
  \<^verbatim>\<open>size_bytes()\<close> follow.
\<close>

theorem sl_insert_refines:
  assumes "sl_wf sl"
  shows "\<exists>sl'. sl_insert v sl = Some sl' \<and> sl_wf sl' \<and>
    to_sorted_vector sl' = Some (insert_stable entry_less v (sl_entries sl)) \<and>
    sl_size sl' = sl_size sl + 1 \<and> sl_bytes sl' = sl_bytes sl + entry_bytes v"
proof -
  from skip_buffer.ins_ok [OF assms, of v] obtain sl' where s: "sl_insert v sl = Some sl'" "sl_wf sl'"
    "sl_entries sl' = insert_stable entry_less v (sl_entries sl)" by blast
  have "length (insert_stable entry_less v xs) = length xs + 1" for xs
    by (induction xs) auto
  with s show ?thesis
    using to_sorted_vector_wf [OF s(2)] sl_counters_wf [OF s(2)] sl_counters_wf [OF assms]
    by (simp add: sum_list_insert_stable)
qed

theorem sl_insert_refines_witness:
  "\<exists>sl'. sl_insert (probe [97]) sl_new = Some sl' \<and> sl_wf sl' \<and>
    to_sorted_vector sl' = Some [probe [97]] \<and> sl_size sl' = 1 \<and> sl_bytes sl' = 10"
  using sl_insert_refines [of sl_new "probe [97]"] skip_buffer.inv_fresh
  by (simp add: sl_new_def entry_bytes_def probe_def)

text \<open>
  C19. Whatever the pseudo-random heights, after any sequence of insertions into a new skip list
  \<^verbatim>\<open>find_key\<close> returns the version of the key with the highest sequence number, of equal ones the
  last inserted, and nothing for a key never inserted; the materialised vector is the stable sort of
  the entries, last inserted first.
\<close>

theorem sl_find_key_newest:
  "\<exists>sl. fill sl_insert vs sl_new = Some sl \<and> sl_find_key sl k = Some (newest k (rev vs)) \<and>
     to_sorted_vector sl = Some (stable_sort entry_less (rev vs))"
  using skip_buffer.look_fill [of vs] to_sorted_vector_wf by fastforce

text \<open>
  \<^verbatim>\<open>clear\<close> frees exactly the data nodes and gives back an empty well-formed list;
  \<^verbatim>\<open>~SkipList\<close> frees every node that was allocated, each once.
\<close>

lemma sl_clear_destroy:
  assumes "sl_wf sl"
  shows "(\<exists>sl'. sl_clear sl = Some sl' \<and> sl_wf sl' \<and> dom (sl_heap sl') = {sl_head sl} \<and>
      to_sorted_vector sl' = Some [] \<and> sl_size sl' = 0 \<and> sl_bytes sl' = 0) \<and>
    sl_destroy sl = Some Map.empty"
proof -
  from assms obtain ns where r: "sl_repr sl ns" unfolding sl_wf_def by blast
  from sl_clear_repr [OF r] obtain sl' where s: "sl_clear sl = Some sl'" "sl_repr sl' []" by blast
  moreover have "sl_head sl' = sl_head sl" using s(1) by (auto simp: sl_clear_def split: option.splits)
  ultimately have "sl_wf sl' \<and> dom (sl_heap sl') = {sl_head sl} \<and> to_sorted_vector sl' = Some [] \<and>
      sl_size sl' = 0 \<and> sl_bytes sl' = 0"
    using to_sorted_vector_repr [OF s(2)] sl_wf_entries [OF s(2)] by (auto simp: sl_repr_def)
  with s(1) sl_destroy_repr [OF r] show ?thesis by blast
qed

end
