(* ===== verification/Grav_Tree.thy ===== *)
theory Grav_Tree
  imports Local_Flush Skip_List
begin

text \<open>
  \<^verbatim>\<open>class GravTree\<close> of \<^verbatim>\<open>include/gravtree/tree.h\<close> and \<^verbatim>\<open>src/tree.cpp\<close>: the tree itself. Its state
  holds the options, the manifest, the node cache (an association list, for the hash map
  \<^verbatim>\<open>cache_\<close>), the skip list that buffers writes, the flags and counters, and the disk. Operations are
  state transformers that return a value or an exception and keep the state of the point where the
  exception was thrown. A \<^verbatim>\<open>SSTNode&\<close> returned by \<^verbatim>\<open>get_node\<close> is the cache entry of the id: reads
  use the value, writes go to the entry.

  Recursions that follow child pointers (\<^verbatim>\<open>find_path\<close>, \<^verbatim>\<open>path_to\<close>, \<^verbatim>\<open>insert_child\<close>,
  \<^verbatim>\<open>do_flush\<close>) take fuel, because a node file can name any child; running out is the error
  \<open>Out_of_fuel\<close>. On trees whose levels decrease from parent to child the fuel needed is bounded by
  the level of the root, which is proved for \<^verbatim>\<open>find_path\<close>.

  The operations here are what one thread does while it holds the locks the source takes around them;
  their interleaving is the subject of \<open>Flush_Thread\<close>.
\<close>

record options =
  data_dir :: bytes
  buffer_threshold :: nat
  hard_limit_factor :: fdouble
  fanout :: u32
  max_height :: u32
  bloom_fpr :: fdouble

record tree =
  opts :: options
  t_manifest :: manifest
  cache :: "(node_id \<times> sst_node) list"
  write_buf :: skiplist
  flush_requested :: bool
  flush_in_progress :: bool
  stopped :: bool
  seq :: seq_number
  flush_ops :: nat
  split_ops :: nat
  root_buf_bytes :: nat
  tdisk :: disk

type_synonym 'a action = "(tree, 'a) exec"

definition new_tree :: "options \<Rightarrow> disk \<Rightarrow> tree" where
  "new_tree os d = \<lparr>opts = os, t_manifest = new_manifest (data_dir os), cache = [],
     write_buf = sl_new, flush_requested = False, flush_in_progress = False, stopped = False, seq = 1,
     flush_ops = 0, split_ops = 0, root_buf_bytes = 0, tdisk = d\<rparr>"

definition hard_limit :: "tree \<Rightarrow> nat" where
  "hard_limit t = fd_trunc (fd_mul (fd_of_nat (buffer_threshold (opts t))) (hard_limit_factor (opts t)))"

definition next_seq :: "seq_number action" where
  "next_seq t = (Inr (seq t), t\<lparr>seq := seq t + 1\<rparr>)"

subsection \<open>Access to the parts of the state\<close>

definition on_manifest :: "(manifest \<Rightarrow> manifest) \<Rightarrow> unit action" where
  "on_manifest f = modify (\<lambda>t. t\<lparr>t_manifest := f (t_manifest t)\<rparr>)"

definition alloc_id :: "node_id action" where
  "alloc_id t = (case next_node_id (t_manifest t) of (i, m) \<Rightarrow> (Inr i, t\<lparr>t_manifest := m\<rparr>))"

definition on_disk :: "(disk, 'a) exec \<Rightarrow> 'a action" where
  "on_disk f t = (case f (tdisk t) of (r, d) \<Rightarrow> (r, t\<lparr>tdisk := d\<rparr>))"

definition save_manifest :: "unit action" where
  "save_manifest t = on_disk (manifest_save (t_manifest t)) t"

definition gc_manifest :: "unit action" where
  "gc_manifest t = (case gc (t_manifest t) (tdisk t) of (m, d) \<Rightarrow> (Inr (), t\<lparr>t_manifest := m, tdisk := d\<rparr>))"

definition put_node :: "node_id \<Rightarrow> sst_node \<Rightarrow> unit action" where
  "put_node i n = modify (\<lambda>t. t\<lparr>cache := AList.update i n (cache t)\<rparr>)"

definition erase_node :: "node_id \<Rightarrow> unit action" where
  "erase_node i = modify (\<lambda>t. t\<lparr>cache := AList.delete i (cache t)\<rparr>)"

text \<open>An operation of a cached node that may also write to the disk.\<close>

definition run_on :: "node_id \<Rightarrow> (sst_node \<times> disk, 'a) exec \<Rightarrow> 'a action" where
  "run_on i f t =
     (case map_of (cache t) i of
        None \<Rightarrow> (Inl Undefined_behaviour, t)
      | Some n \<Rightarrow> (case f (n, tdisk t) of (r, (n', d)) \<Rightarrow>
          (r, t\<lparr>cache := AList.update i n' (cache t), tdisk := d\<rparr>)))"

definition upd_node :: "node_id \<Rightarrow> (sst_node \<Rightarrow> sst_node) \<Rightarrow> unit action" where
  "upd_node i f = run_on i (\<lambda>(n, d). (Inr (), (f n, d)))"

definition children_of :: "sst_node \<Rightarrow> node_id list res" where
  "children_of n = (if unat (num_children n) > MAX_FANOUT then Inl Undefined_behaviour
     else Inr (take (unat (num_children n)) (child_ids n)))"

definition set_range :: "bytes \<Rightarrow> bytes \<Rightarrow> sst_node \<Rightarrow> sst_node" where
  "set_range mn mx n = n\<lparr>krange := \<lparr>min_key = mn, max_key = mx\<rparr>\<rparr>"

text \<open>A local node that is flushed before it is moved into the cache.\<close>

definition flush_local :: "sst_node \<Rightarrow> sst_node action" where
  "flush_local n t =
     (case flush_to_disk (data_dir (opts t)) (n, tdisk t) of
        (Inl e, (n', d)) \<Rightarrow> (Inl e, t\<lparr>tdisk := d\<rparr>)
      | (Inr _, (n', d)) \<Rightarrow> (Inr n', t\<lparr>tdisk := d\<rparr>))"

definition create_in :: "node_id \<Rightarrow> u32 \<Rightarrow> entry list \<Rightarrow> node_id list \<Rightarrow> sst_node action" where
  "create_in i lvl es cs t = on_disk (create_node i lvl es cs (data_dir (opts t))) t"

text \<open>\<^verbatim>\<open>n.flush_to_disk(data_dir)\<close> and \<^verbatim>\<open>register_node(n.id, n.level, n.file_path)\<close> of a cached node.\<close>

definition flush_and_register :: "node_id \<Rightarrow> unit action" where
  "flush_and_register i t =
     bind (run_on i (flush_to_disk (data_dir (opts t)))) (\<lambda>_ t1.
       (case map_of (cache t1) i of
          None \<Rightarrow> (Inl Undefined_behaviour, t1)
        | Some n \<Rightarrow> on_manifest (register_node (nid n) (level n) (file_path n)) t1)) t"

subsection \<open>get_node, find_path\<close>

definition get_node :: "node_id \<Rightarrow> sst_node action" where
  "get_node i t =
     (case map_of (cache t) i of
        Some n \<Rightarrow> (Inr n, t)
      | None \<Rightarrow>
          (case bind_res (node_path (t_manifest t) i) (\<lambda>path.
                bind_res (load_header (tdisk t) path) (load_entries (tdisk t))) of
             Inl e \<Rightarrow> (Inl e, t)
           | Inr n \<Rightarrow> (Inr n, t\<lparr>cache := AList.update i n (cache t)\<rparr>)))"

fun scan_children :: "bytes \<Rightarrow> node_id list \<Rightarrow> node_id \<Rightarrow> node_id action" where
  "scan_children k [] nxt_id = ret nxt_id"
| "scan_children k (c # cs) nxt_id =
     bind (get_node c) (\<lambda>child.
       if k \<ge> min_key (krange child) then scan_children k cs c else ret nxt_id)"

fun find_path_loop :: "nat \<Rightarrow> bytes \<Rightarrow> node_id \<Rightarrow> node_id list \<Rightarrow> node_id list action" where
  "find_path_loop 0 k cur path = throw Out_of_fuel"
| "find_path_loop (Suc fuel) k cur path =
     bind (get_node cur) (\<lambda>node.
       if is_leaf node then ret (path @ [cur])
       else bind (lift_res (children_of node)) (\<lambda>cs.
         bind (scan_children k cs (child_ids node ! 0)) (\<lambda>nxt_id.
           find_path_loop fuel k nxt_id (path @ [cur]))))"

definition find_path :: "nat \<Rightarrow> bytes \<Rightarrow> node_id list action" where
  "find_path fuel k t = find_path_loop fuel k (root_id (t_manifest t)) [] t"

subsection \<open>insert, remove, get\<close>

definition signal_flush :: "tree \<Rightarrow> tree" where
  "signal_flush t = t\<lparr>flush_requested := True\<rparr>"

text \<open>The condition \<^verbatim>\<open>wait_for_flush_complete\<close> waits for.\<close>

definition flush_complete :: "tree \<Rightarrow> bool" where
  "flush_complete t \<longleftrightarrow> \<not> flush_in_progress t \<or> stopped t"

definition must_wait :: "tree \<Rightarrow> bool" where
  "must_wait t \<longleftrightarrow> sl_bytes (write_buf t) \<ge> hard_limit t \<and> \<not> flush_complete t"

definition buffer_write :: "bytes \<Rightarrow> bytes \<Rightarrow> bool \<Rightarrow> unit action" where
  "buffer_write k v del =
     bind next_seq (\<lambda>s t.
       case sl_insert \<lparr>key = k, val = v, seq_no = s, deleted = del\<rparr> (write_buf t) of
         None \<Rightarrow> (Inl Undefined_behaviour, t)
       | Some sl \<Rightarrow>
           (let t1 = t\<lparr>write_buf := sl\<rparr>
            in (Inr (), if sl_bytes sl \<ge> buffer_threshold (opts t) then signal_flush t1 else t1)))"

text \<open>
  The body of \<^verbatim>\<open>insert\<close> and \<^verbatim>\<open>remove\<close> once the back-pressure wait, if \<open>must_wait\<close> asks for it,
  is over.
\<close>

definition tree_insert :: "bytes \<Rightarrow> bytes \<Rightarrow> unit action" where
  "tree_insert k v = buffer_write k v False"

definition tree_remove :: "bytes \<Rightarrow> unit action" where
  "tree_remove k = buffer_write k [] True"

definition visible :: "entry \<Rightarrow> bytes option" where
  "visible e = (if deleted e then None else Some (val e))"

fun search_path :: "bytes \<Rightarrow> node_id list \<Rightarrow> bytes option action" where
  "search_path k [] = ret None"
| "search_path k (i # is) =
     bind (get_node i) (\<lambda>node.
       bind (lift_res (might_contain node k)) (\<lambda>may.
         if \<not> may then search_path k is
         else case sst_get node k of
           Some e \<Rightarrow> ret (visible e)
         | None \<Rightarrow> search_path k is))"

text \<open>The two halves of \<^verbatim>\<open>get\<close>, under the buffer lock and under the cache lock.\<close>

definition get_buffered :: "bytes \<Rightarrow> entry option action" where
  "get_buffered k t =
     (case sl_find_key (write_buf t) k of None \<Rightarrow> (Inl Undefined_behaviour, t) | Some r \<Rightarrow> (Inr r, t))"

definition get_on_disk :: "nat \<Rightarrow> bytes \<Rightarrow> bytes option action" where
  "get_on_disk fuel k = bind (find_path fuel k) (search_path k)"

definition tree_get :: "nat \<Rightarrow> bytes \<Rightarrow> bytes option action" where
  "tree_get fuel k = bind (get_buffered k) (\<lambda>r.
     case r of Some e \<Rightarrow> ret (visible e) | None \<Rightarrow> get_on_disk fuel k)"

subsection \<open>range_scan\<close>

definition in_scan :: "bytes \<Rightarrow> bytes \<Rightarrow> entry \<Rightarrow> bool" where
  "in_scan lo hi e \<longleftrightarrow> key e \<ge> lo \<and> key e \<le> hi"

fun scan_cache :: "bytes \<Rightarrow> bytes \<Rightarrow> node_id list \<Rightarrow> entry list \<Rightarrow> entry list action" where
  "scan_cache lo hi [] collected = ret collected"
| "scan_cache lo hi (i # is) collected =
     bind (run_on i (\<lambda>(n, d). case load_entries d n of Inl e \<Rightarrow> (Inl e, (n, d)) | Inr n' \<Rightarrow> (Inr (buffer n'), (n', d))))
       (\<lambda>es. scan_cache lo hi is (collected @ filter (in_scan lo hi) es))"

fun scan_result :: "entry list \<Rightarrow> entry list \<Rightarrow> entry list" where
  "scan_result result [] = result"
| "scan_result result (e # es) =
     (if result \<noteq> [] \<and> key (last result) = key e then scan_result result es
      else if \<not> deleted e then scan_result (result @ [e]) es
      else scan_result result es)"

definition range_scan :: "bytes \<Rightarrow> bytes \<Rightarrow> entry list action" where
  "range_scan lo hi t =
     (case Option.bind (it_begin (write_buf t)) (\<lambda>it. iterate (in_scan lo hi) (write_buf t) it []) of
        None \<Rightarrow> (Inl Undefined_behaviour, t)
      | Some collected \<Rightarrow>
          bind (scan_cache lo hi (map fst (cache t)) collected)
            (\<lambda>collected. ret (scan_result [] (stable_sort entry_less collected))) t)"

subsection \<open>Draining the write buffer\<close>

definition drain_write_buf :: "entry list action" where
  "drain_write_buf t =
     (case to_sorted_vector (write_buf t) of
        None \<Rightarrow> (Inl Undefined_behaviour, t)
      | Some pending \<Rightarrow>
          (case sl_clear (write_buf t) of
             None \<Rightarrow> (Inl Undefined_behaviour, t)
           | Some sl \<Rightarrow> (Inr pending, t\<lparr>write_buf := sl\<rparr>)))"

definition push_pending :: "entry list \<Rightarrow> sst_node \<Rightarrow> sst_node" where
  "push_pending pending n = n\<lparr>buffer := stable_sort entry_less (buffer n @ pending)\<rparr>"

text \<open>The merge into the root, common to \<^verbatim>\<open>flush\<close>, the flush thread and the destructor.\<close>

definition merge_into_root :: "entry list \<Rightarrow> sst_node action" where
  "merge_into_root pending t =
     bind (get_node (root_id (t_manifest t))) (\<lambda>_.
       bind (upd_node (root_id (t_manifest t)) (push_pending pending)) (\<lambda>_.
         get_node (root_id (t_manifest t)))) t"

text \<open>
  \<^verbatim>\<open>flush\<close> behind its calls of \<^verbatim>\<open>signal_flush\<close> and \<^verbatim>\<open>wait_for_flush_complete\<close>, which concern other threads
  only and are steps of \<open>Flush_Thread\<close>, and the same steps in the destructor.
\<close>

definition persist_root :: "entry list \<Rightarrow> unit action" where
  "persist_root pending =
     bind (merge_into_root pending) (\<lambda>root t.
       if buffer root \<noteq> [] then
         bind (run_on (root_id (t_manifest t)) (flush_to_disk (data_dir (opts t)))) (\<lambda>path.
           bind (on_manifest (register_node (root_id (t_manifest t)) (level root) path)) (\<lambda>_. save_manifest)) t
       else (Inr (), t))"

definition tree_flush :: "unit action" where
  "tree_flush = bind drain_write_buf persist_root"

definition tree_close :: "tree \<Rightarrow> tree" where
  "tree_close t = snd (bind drain_write_buf (\<lambda>pending t1.
     if root_id (t_manifest t1) \<noteq> INVALID_NODE_ID then persist_root pending t1 else (Inr (), t1))
     (t\<lparr>stopped := True\<rparr>))"

subsection \<open>ensure_root, open, stats\<close>

definition ensure_root :: "unit action" where
  "ensure_root t =
     (if root_id (t_manifest t) \<noteq> INVALID_NODE_ID then
        (case bind_res (node_path (t_manifest t) (root_id (t_manifest t))) (\<lambda>path.
                bind_res (load_header (tdisk t) path) (load_entries (tdisk t))) of
           Inl e \<Rightarrow> (Inl e, t)
         | Inr rt \<Rightarrow> (Inr (), t\<lparr>root_buf_bytes := buffer_size_bytes rt,
                              cache := AList.update (nid rt) rt (cache t)\<rparr>))
      else
        bind alloc_id (\<lambda>rid.
        bind (create_in rid 0 [] []) (\<lambda>root.
        bind (on_manifest (\<lambda>m. set_root rid (register_node rid 0 (file_path root) m))) (\<lambda>_.
        bind save_manifest (\<lambda>_.
        bind (modify (\<lambda>t. t\<lparr>root_buf_bytes := 0\<rparr>)) (\<lambda>_. put_node rid root))))) t)"

definition tree_open :: "options \<Rightarrow> disk \<Rightarrow> (error + unit) \<times> tree" where
  "tree_open os d =
     (let t = new_tree os d in
      case manifest_load (t_manifest t) d of
        Inl e \<Rightarrow> (Inl e, t)
      | Inr m \<Rightarrow> ensure_root (t\<lparr>t_manifest := m\<rparr>))"

record tree_stats =
  node_count :: nat
  tree_height :: nat
  total_flush_ops :: nat
  total_split_ops :: nat
  st_root_buf_bytes :: nat

definition stats :: "tree \<Rightarrow> tree_stats" where
  "stats t = \<lparr>node_count = length (cache t), tree_height = 1, total_flush_ops = flush_ops t,
     total_split_ops = split_ops t, st_root_buf_bytes = root_buf_bytes t\<rparr>"

subsection \<open>Nodes as the cache or the disk gives them\<close>

text \<open>
  \<open>node_view t i\<close> is the node \<^verbatim>\<open>get_node(i)\<close> gives, cached or loaded. Loading does not change the
  view, so an operation that only reads nodes is determined by it.
\<close>

definition node_view :: "tree \<Rightarrow> node_id \<Rightarrow> sst_node res" where
  "node_view t i =
     (case map_of (cache t) i of
        Some n \<Rightarrow> Inr n
      | None \<Rightarrow> bind_res (node_path (t_manifest t) i) (\<lambda>path.
                bind_res (load_header (tdisk t) path) (load_entries (tdisk t))))"

text \<open>\<open>same_but_cache t t'\<close>: the two states differ in loaded nodes only.\<close>

definition same_but_cache :: "tree \<Rightarrow> tree \<Rightarrow> bool" where
  "same_but_cache t t' \<longleftrightarrow> (\<exists>c. t' = t\<lparr>cache := c\<rparr>) \<and> node_view t' = node_view t"

lemma same_but_cache_refl [simp, intro]: "same_but_cache t t"
  unfolding same_but_cache_def by (auto intro: exI [of _ "cache t"])

lemma same_but_cache_trans [trans]:
  "same_but_cache t t' \<Longrightarrow> same_but_cache t' t'' \<Longrightarrow> same_but_cache t t''"
  unfolding same_but_cache_def by fastforce

lemma same_but_cache_sel:
  assumes "same_but_cache t t'"
  shows "t_manifest t' = t_manifest t" "write_buf t' = write_buf t" "tdisk t' = tdisk t"
    "node_view t' = node_view t" "opts t' = opts t" "seq t' = seq t"
  using assms unfolding same_but_cache_def by auto

lemma node_view_update:
  "node_view (t\<lparr>cache := AList.update i n (cache t)\<rparr>) = (node_view t)(i := Inr n)"
  by (rule ext) (simp add: node_view_def update_conv split: option.split)

lemma get_node_view: "\<exists>t'. get_node i t = (node_view t i, t') \<and> same_but_cache t t'"
proof (cases "map_of (cache t) i")
  case (Some n)
  then show ?thesis by (auto simp: get_node_def node_view_def)
next
  case None
  show ?thesis
  proof (cases "node_view t i")
    case (Inl e)
    with None show ?thesis by (auto simp: get_node_def node_view_def)
  next
    case (Inr n)
    let ?t = "t\<lparr>cache := AList.update i n (cache t)\<rparr>"
    have "same_but_cache t ?t"
      unfolding same_but_cache_def node_view_update using Inr by auto
    moreover have "get_node i t = (Inr n, ?t)"
      using None Inr unfolding get_node_def node_view_def by (simp del: bind_res_eq_Inr)
    ultimately show ?thesis using Inr by auto
  qed
qed

text \<open>
  A reader: an action whose result is a function of the node view and that changes no more than the
  set of loaded nodes. Readers compose.
\<close>

definition reads_as :: "'a action \<Rightarrow> ((node_id \<Rightarrow> sst_node res) \<Rightarrow> 'a res) \<Rightarrow> bool" where
  "reads_as m f \<longleftrightarrow> (\<forall>t. \<exists>t'. m t = (f (node_view t), t') \<and> same_but_cache t t')"

lemma reads_as_get_node: "reads_as (get_node i) (\<lambda>v. v i)"
  unfolding reads_as_def using get_node_view by blast

lemma reads_as_ret: "reads_as (ret x) (\<lambda>v. Inr x)"
  by (auto simp: reads_as_def ret_def)

lemma reads_as_throw: "reads_as (throw e) (\<lambda>v. Inl e)"
  by (auto simp: reads_as_def throw_def)

lemma reads_as_lift: "reads_as (lift_res r) (\<lambda>v. r)"
  by (auto simp: reads_as_def lift_res_def)

lemma reads_as_bind:
  assumes "reads_as m f" "\<And>x. reads_as (g x) (h x)"
  shows "reads_as (bind m g) (\<lambda>v. bind_res (f v) (\<lambda>x. h x v))"
  unfolding reads_as_def
proof
  fix t
  from assms(1) obtain t1 where t1: "m t = (f (node_view t), t1)" "same_but_cache t t1"
    unfolding reads_as_def by blast
  show "\<exists>t'. bind m g t = (bind_res (f (node_view t)) (\<lambda>x. h x (node_view t)), t') \<and> same_but_cache t t'"
  proof (cases "f (node_view t)")
    case (Inl e)
    with t1 show ?thesis by (auto simp: bind_def)
  next
    case (Inr x)
    from assms(2) [of x] obtain t2 where "g x t1 = (h x (node_view t1), t2)" "same_but_cache t1 t2"
      unfolding reads_as_def by blast
    with t1 Inr show ?thesis
      by (auto simp: bind_def same_but_cache_sel intro: same_but_cache_trans)
  qed
qed

lemma reads_as_if: "reads_as m f \<Longrightarrow> reads_as m' f' \<Longrightarrow> reads_as (if b then m else m') (if b then f else f')"
  by simp

text \<open>The pure counterparts of the readers of \<^verbatim>\<open>get\<close>.\<close>

fun scan_view :: "(node_id \<Rightarrow> sst_node res) \<Rightarrow> bytes \<Rightarrow> node_id list \<Rightarrow> node_id \<Rightarrow> node_id res" where
  "scan_view v k [] nxt_id = Inr nxt_id"
| "scan_view v k (c # cs) nxt_id =
     bind_res (v c) (\<lambda>child. if k \<ge> min_key (krange child) then scan_view v k cs c else Inr nxt_id)"

fun path_view :: "nat \<Rightarrow> (node_id \<Rightarrow> sst_node res) \<Rightarrow> bytes \<Rightarrow> node_id \<Rightarrow> node_id list \<Rightarrow> node_id list res" where
  "path_view 0 v k cur path = Inl Out_of_fuel"
| "path_view (Suc fuel) v k cur path =
     bind_res (v cur) (\<lambda>node.
       if is_leaf node then Inr (path @ [cur])
       else bind_res (children_of node) (\<lambda>cs.
         bind_res (scan_view v k cs (child_ids node ! 0)) (\<lambda>nxt_id.
           path_view fuel v k nxt_id (path @ [cur]))))"

fun search_view :: "(node_id \<Rightarrow> sst_node res) \<Rightarrow> bytes \<Rightarrow> node_id list \<Rightarrow> bytes option res" where
  "search_view v k [] = Inr None"
| "search_view v k (i # is) =
     bind_res (v i) (\<lambda>node. bind_res (might_contain node k) (\<lambda>may.
       if \<not> may then search_view v k is
       else case sst_get node k of Some e \<Rightarrow> Inr (visible e) | None \<Rightarrow> search_view v k is))"

lemma reads_as_scan: "reads_as (scan_children k cs i) (\<lambda>v. scan_view v k cs i)"
proof (induction cs arbitrary: i)
  case Nil
  show ?case using reads_as_ret by simp
next
  case (Cons c cs)
  have "reads_as (if k \<ge> min_key (krange child) then scan_children k cs c else ret i)
      (\<lambda>v. if k \<ge> min_key (krange child) then scan_view v k cs c else Inr i)" for child
    by (simp add: Cons.IH reads_as_ret)
  from reads_as_bind [OF reads_as_get_node this] show ?case by simp
qed

lemma reads_as_path: "reads_as (find_path_loop fuel k cur path) (\<lambda>v. path_view fuel v k cur path)"
proof (induction fuel arbitrary: cur path)
  case 0
  show ?case using reads_as_throw by simp
next
  case (Suc fuel)
  have "reads_as (if is_leaf node then ret (path @ [cur])
       else bind (lift_res (children_of node)) (\<lambda>cs.
         bind (scan_children k cs (child_ids node ! 0)) (\<lambda>nxt_id.
           find_path_loop fuel k nxt_id (path @ [cur]))))
     (\<lambda>v. if is_leaf node then Inr (path @ [cur])
       else bind_res (children_of node) (\<lambda>cs.
         bind_res (scan_view v k cs (child_ids node ! 0)) (\<lambda>nxt_id.
           path_view fuel v k nxt_id (path @ [cur]))))" for node
    by (simp add: reads_as_ret)
       (intro impI reads_as_bind [OF reads_as_lift] reads_as_bind [OF reads_as_scan] Suc.IH)
  from reads_as_bind [OF reads_as_get_node this] show ?case by simp
qed

lemma reads_as_search: "reads_as (search_path k is) (\<lambda>v. search_view v k is)"
proof (induction "is")
  case Nil
  show ?case using reads_as_ret by simp
next
  case (Cons i "is")
  have "reads_as (if \<not> may then search_path k is
        else case sst_get node k of Some e \<Rightarrow> ret (visible e) | None \<Rightarrow> search_path k is)
     (\<lambda>v. if \<not> may then search_view v k is
        else case sst_get node k of Some e \<Rightarrow> Inr (visible e) | None \<Rightarrow> search_view v k is)" for node may
    by (simp add: Cons.IH reads_as_ret split: option.splits)
  from reads_as_bind [OF reads_as_get_node reads_as_bind [OF reads_as_lift this]] show ?case by simp
qed

text \<open>What \<^verbatim>\<open>get\<close> finds below the write buffer.\<close>

definition disk_get :: "nat \<Rightarrow> (node_id \<Rightarrow> sst_node res) \<Rightarrow> node_id \<Rightarrow> bytes \<Rightarrow> bytes option res" where
  "disk_get fuel v rid k = bind_res (path_view fuel v k rid []) (search_view v k)"

lemma get_on_disk_view:
  "\<exists>t'. get_on_disk fuel k t = (disk_get fuel (node_view t) (root_id (t_manifest t)) k, t') \<and>
     same_but_cache t t'"
proof -
  have "get_on_disk fuel k t =
      bind (find_path_loop fuel k (root_id (t_manifest t)) []) (search_path k) t"
    by (simp add: get_on_disk_def find_path_def bind_def)
  moreover have "reads_as (bind (find_path_loop fuel k (root_id (t_manifest t)) []) (search_path k))
      (\<lambda>v. disk_get fuel v (root_id (t_manifest t)) k)"
    unfolding disk_get_def by (intro reads_as_bind reads_as_path reads_as_search)
  ultimately show ?thesis by (auto simp: reads_as_def)
qed

text \<open>The whole of \<^verbatim>\<open>get\<close> as a function of the buffered entries and the view.\<close>

definition view_get :: "nat \<Rightarrow> entry list \<Rightarrow> (node_id \<Rightarrow> sst_node res) \<Rightarrow> node_id \<Rightarrow> bytes \<Rightarrow> bytes option res" where
  "view_get fuel buf v rid k =
     (case newest k buf of Some e \<Rightarrow> Inr (visible e) | None \<Rightarrow> disk_get fuel v rid k)"

lemma tree_get_view:
  assumes "sl_wf (write_buf t)"
  shows "\<exists>t'. tree_get fuel k t =
      (view_get fuel (sl_entries (write_buf t)) (node_view t) (root_id (t_manifest t)) k, t') \<and>
    same_but_cache t t'"
proof -
  have "get_buffered k t = (Inr (newest k (sl_entries (write_buf t))), t)"
    by (simp add: get_buffered_def skip_buffer.look_newest [OF assms])
  then show ?thesis
    using get_on_disk_view [of fuel k t]
    by (auto simp: tree_get_def bind_def view_get_def ret_def split: option.splits)
qed

subsection \<open>Well-founded trees\<close>

text \<open>
  \<open>subtree v i\<close>: from node \<open>i\<close> every child pointer leads to a node of a lower level, inner nodes
  have at least one child, and the leaves are at level 0. This is what makes \<^verbatim>\<open>find_path\<close> end.
\<close>

inductive subtree :: "(node_id \<Rightarrow> sst_node res) \<Rightarrow> node_id \<Rightarrow> bool" for v where
  leaf: "v i = Inr n \<Longrightarrow> is_leaf n \<Longrightarrow> subtree v i"
| inner: "v i = Inr n \<Longrightarrow> \<not> is_leaf n \<Longrightarrow> children_of n = Inr cs \<Longrightarrow> cs \<noteq> [] \<Longrightarrow>
    (\<And>c. c \<in> set cs \<Longrightarrow> subtree v c) \<Longrightarrow>
    (\<And>c. c \<in> set cs \<Longrightarrow> \<exists>m. v c = Inr m \<and> level m < level n) \<Longrightarrow> subtree v i"

inductive_cases subtreeE: "subtree v i"

lemma subtree_view: "subtree v i \<Longrightarrow> \<exists>n. v i = Inr n"
  by (auto elim: subtreeE)

lemma subtree_children:
  assumes "subtree v i" "v i = Inr n" "\<not> is_leaf n"
  obtains cs where "children_of n = Inr cs" "cs \<noteq> []" "child_ids n ! 0 \<in> set cs"
    "\<And>c. c \<in> set cs \<Longrightarrow> subtree v c \<and> (\<exists>m. v c = Inr m \<and> level m < level n)"
  using assms(1)
proof (cases rule: subtree.cases)
  case (inner n' cs)
  then have n: "n' = n" using assms(2) by simp
  have "cs = take (unat (num_children n)) (child_ids n)"
    using inner(3) n by (auto simp: children_of_def split: if_splits)
  then have "child_ids n ! 0 \<in> set cs"
    using inner(4) by (metis in_set_conv_nth length_greater_0_conv nth_take length_take min_less_iff_conj)
  with inner n that show ?thesis by auto
qed (use assms in auto)

lemma scan_view_in: "scan_view v k cs d = Inr i \<Longrightarrow> i \<in> insert d (set cs)"
  by (induction cs arbitrary: d) (auto split: if_splits)

lemma scan_view_cong:
  "(\<And>c. c \<in> set cs \<Longrightarrow> v' c = v c) \<Longrightarrow> scan_view v' k cs d = scan_view v k cs d"
proof (induction cs arbitrary: d)
  case (Cons c cs)
  then have "v' c = v c" "scan_view v' k cs c = scan_view v k cs c" by simp_all
  then show ?case by (simp only: scan_view.simps)
qed simp

lemma scan_view_total:
  "(\<And>c. c \<in> set cs \<Longrightarrow> \<exists>m. v c = Inr m) \<Longrightarrow> \<exists>i. scan_view v k cs d = Inr i"
proof (induction cs arbitrary: d)
  case (Cons c cs)
  obtain m where "v c = Inr m" using Cons.prems by auto
  moreover have "\<exists>i. scan_view v k cs c = Inr i" using Cons by simp
  ultimately show ?case by simp
qed simp

lemma path_view_total:
  "subtree v i \<Longrightarrow> v i = Inr n \<Longrightarrow> unat (level n) < fuel \<Longrightarrow>
     \<exists>rest m. path_view fuel v k i acc = Inr (acc @ i # rest) \<and>
       v (last (i # rest)) = Inr m \<and> is_leaf m \<and>
       (\<forall>j\<in>set rest. \<exists>m. v j = Inr m \<and> level m < level n)"
proof (induction fuel arbitrary: i n acc)
  case (Suc fuel)
  show ?case
  proof (cases "is_leaf n")
    case True
    with Suc.prems show ?thesis by auto
  next
    case False
    obtain cs where cs: "children_of n = Inr cs" "cs \<noteq> []" "child_ids n ! 0 \<in> set cs"
      "\<And>c. c \<in> set cs \<Longrightarrow> subtree v c \<and> (\<exists>m. v c = Inr m \<and> level m < level n)"
      using subtree_children [OF Suc.prems(1,2) False] by metis
    obtain j where j: "scan_view v k cs (child_ids n ! 0) = Inr j"
      using scan_view_total [of cs v k] cs(4) by blast
    then have "j \<in> set cs" using scan_view_in cs(3) by fastforce
    then obtain m where m: "subtree v j" "v j = Inr m" "level m < level n" using cs(4) by blast
    then have "unat (level m) < fuel" using Suc.prems(3) by (simp add: word_less_nat_alt)
    from Suc.IH [OF m(1,2) this, of "acc @ [i]"] obtain rest l where
      "path_view fuel v k j (acc @ [i]) = Inr (acc @ [i] @ j # rest)" "v (last (j # rest)) = Inr l" "is_leaf l"
      "\<forall>j\<in>set rest. \<exists>m'. v j = Inr m' \<and> level m' < level m" by auto
    moreover have "\<forall>x\<in>set (j # rest). \<exists>m'. v x = Inr m' \<and> level m' < level n"
      using calculation(4) m(2,3) by (auto intro: less_trans)
    ultimately show ?thesis
      using Suc.prems False cs(1) j by (intro exI [of _ "j # rest"]) auto
  qed
qed simp

text \<open>Replacing a node by one on no lower level does not move the paths below.\<close>

lemma path_view_cong:
  assumes "v rid = Inr r" "\<And>j. j \<noteq> rid \<Longrightarrow> v' j = v j"
  shows "subtree v i \<Longrightarrow> v i = Inr n \<Longrightarrow> level n < level r \<Longrightarrow>
    path_view fuel v' k i acc = path_view fuel v k i acc"
proof (induction fuel arbitrary: i n acc)
  case (Suc fuel)
  have i: "i \<noteq> rid" using Suc.prems(2,3) assms(1) by auto
  show ?case
  proof (cases "is_leaf n")
    case True
    with Suc.prems i assms(2) show ?thesis by simp
  next
    case False
    obtain cs where cs: "children_of n = Inr cs" "child_ids n ! 0 \<in> set cs"
      "\<And>c. c \<in> set cs \<Longrightarrow> subtree v c \<and> (\<exists>m. v c = Inr m \<and> level m < level n)"
      using subtree_children [OF Suc.prems(1,2) False] by metis
    have low: "c \<noteq> rid" if "c \<in> set cs" for c
      using cs(3) [OF that] Suc.prems(3) assms(1) by auto
    have scan: "scan_view v' k cs d = scan_view v k cs d" for d
      using low assms(2) by (intro scan_view_cong) simp
    have "path_view fuel v' k j (acc @ [i]) = path_view fuel v k j (acc @ [i])"
      if "scan_view v k cs (child_ids n ! 0) = Inr j" for j
    proof -
      have "j \<in> set cs" using scan_view_in [OF that] cs(2) by auto
      then obtain m where "subtree v j" "v j = Inr m" "level m < level n" using cs(3) by blast
      with Suc.IH Suc.prems(3) show ?thesis by (meson less_trans)
    qed
    then show ?thesis
      using Suc.prems False i assms(2) cs(1) scan
      by (cases "scan_view v k cs (child_ids n ! 0)") auto
  qed
qed simp

lemma search_view_cong: "(\<And>i. i \<in> set is \<Longrightarrow> v' i = v i) \<Longrightarrow> search_view v' k is = search_view v k is"
proof (induction "is")
  case (Cons i "is")
  then have "v' i = v i" "search_view v' k is = search_view v k is" by simp_all
  then show ?case by (simp only: search_view.simps)
qed simp

text \<open>
  Exchanging the root for a node with the same level and pointers: the path of a key stays, and the
  search differs only in what the root itself holds.
\<close>

lemma disk_get_root:
  assumes "subtree v rid" "v rid = Inr n" "unat (level n) < fuel"
    and "v' rid = Inr n'" "\<And>j. j \<noteq> rid \<Longrightarrow> v' j = v j"
    and "level n' = level n" "child_ids n' = child_ids n" "num_children n' = num_children n"
  shows "\<exists>rest. disk_get fuel v rid k = search_view v k (rid # rest) \<and>
    disk_get fuel v' rid k = search_view v' k (rid # rest) \<and>
    search_view v' k rest = search_view v k rest \<and> (\<forall>j\<in>set rest. \<exists>m. v j = Inr m)"
proof -
  from path_view_total [OF assms(1-3), of k "[]"] obtain rest where
    rest: "path_view fuel v k rid [] = Inr (rid # rest)" "\<forall>j\<in>set rest. \<exists>m. v j = Inr m \<and> level m < level n"
    by auto
  have same: "is_leaf n' = is_leaf n" "children_of n' = children_of n"
    using assms(6-8) by (simp_all add: is_leaf_def children_of_def)
  obtain f where f: "fuel = Suc f" using assms(3) by (cases fuel) auto
  have "path_view fuel v' k rid [] = path_view fuel v k rid []"
  proof (cases "is_leaf n")
    case True
    with assms(2,4) same f show ?thesis by simp
  next
    case False
    obtain cs where cs: "children_of n = Inr cs" "child_ids n ! 0 \<in> set cs"
      "\<And>c. c \<in> set cs \<Longrightarrow> subtree v c \<and> (\<exists>m. v c = Inr m \<and> level m < level n)"
      using subtree_children [OF assms(1,2) False] by metis
    have low: "c \<noteq> rid" if "c \<in> set cs" for c using cs(3) [OF that] assms(2) by auto
    have scan: "scan_view v' k cs d = scan_view v k cs d" for d
      using low assms(5) by (intro scan_view_cong) simp
    have "path_view f v' k j [rid] = path_view f v k j [rid]"
      if "scan_view v k cs (child_ids n ! 0) = Inr j" for j
    proof -
      have "j \<in> set cs" using scan_view_in [OF that] cs(2) by auto
      then obtain m where "subtree v j" "v j = Inr m" "level m < level n" using cs(3) by blast
      from path_view_cong [of v rid n v', OF assms(2,5) this] show ?thesis by simp
    qed
    then show ?thesis
      using False same f assms(2,4,7) cs(1) scan
      by (cases "scan_view v k cs (child_ids n ! 0)") auto
  qed
  moreover have "search_view v' k rest = search_view v k rest"
    using rest(2) assms(2,5) by (intro search_view_cong) force
  moreover have "\<forall>j\<in>set rest. \<exists>m. v j = Inr m" using rest(2) by blast
  ultimately show ?thesis using rest(1) by (auto simp: disk_get_def)
qed

end
