(* ===== verification/Tree_Operations.thy ===== *)
theory Tree_Operations
  imports Grav_Tree
begin

text \<open>
  The public operations of the tree: what \<^verbatim>\<open>insert\<close>, \<^verbatim>\<open>remove\<close>, \<^verbatim>\<open>get\<close>, \<^verbatim>\<open>flush\<close> and
  \<^verbatim>\<open>range_scan\<close> do to the contents a reader sees. The lemmas first follow a write into the skip
  list and a drain into the root node; the theorems state the behaviour of the operations.
\<close>

subsection \<open>Writing to the buffer\<close>

lemma newest_insert_stable:
  "entries_sorted es \<Longrightarrow> newest k (insert_stable entry_less e es) = newest k (e # es)"
  using find_insert_stable [of es k e] entry_order.ordered_insert_stable [of es e]
  by (simp add: newest_sorted ordered_iff_sorted_pos)

lemma node_view_cong:
  "cache t' = cache t \<Longrightarrow> t_manifest t' = t_manifest t \<Longrightarrow> tdisk t' = tdisk t \<Longrightarrow> node_view t' = node_view t"
  by (rule ext) (simp add: node_view_def split: option.split)

lemma buffer_write_ok:
  assumes "sl_wf (write_buf t)"
  shows "\<exists>t'. buffer_write k v del t = (Inr (), t') \<and> sl_wf (write_buf t') \<and>
    sl_entries (write_buf t') =
      insert_stable entry_less \<lparr>key = k, val = v, seq_no = seq t, deleted = del\<rparr> (sl_entries (write_buf t)) \<and>
    seq t' = seq t + 1 \<and> opts t' = opts t \<and> t_manifest t' = t_manifest t \<and> tdisk t' = tdisk t \<and>
    cache t' = cache t \<and>
    (flush_requested t' \<longleftrightarrow> flush_requested t \<or> sl_bytes (write_buf t') \<ge> buffer_threshold (opts t))"
proof -
  from skip_buffer.ins_ok [OF assms, of "\<lparr>key = k, val = v, seq_no = seq t, deleted = del\<rparr>"]
  obtain sl where "sl_insert \<lparr>key = k, val = v, seq_no = seq t, deleted = del\<rparr> (write_buf t) = Some sl"
    "sl_wf sl" "sl_entries sl =
      insert_stable entry_less \<lparr>key = k, val = v, seq_no = seq t, deleted = del\<rparr> (sl_entries (write_buf t))"
    by blast
  then show ?thesis
    by (simp add: buffer_write_def bind_def next_seq_def signal_flush_def Let_def)
qed

text \<open>Sequence numbers in the buffer are below the next one to be given out.\<close>

definition fresh_seq :: "tree \<Rightarrow> bool" where
  "fresh_seq t \<longleftrightarrow> (\<forall>e\<in>set (sl_entries (write_buf t)). seq_no e < seq t)"

lemma newest_fresh:
  assumes "\<forall>e\<in>set es. seq_no e < seq_no x"
  shows "newest (key x) (x # es) = Some x"
proof (cases "newest (key x) es")
  case (Some e)
  then have "seq_no e < seq_no x" using assms newest_SomeD(1) by blast
  with Some show ?thesis by simp
qed simp

lemma buffer_write_get:
  assumes "sl_wf (write_buf t)" "fresh_seq t"
  shows "\<exists>t'. buffer_write k v del t = (Inr (), t') \<and> sl_wf (write_buf t') \<and>
    (seq t \<noteq> - 1 \<longrightarrow> fresh_seq t') \<and>
    fst (tree_get fuel k t') = Inr (if del then None else Some v) \<and>
    (\<forall>k'. k' \<noteq> k \<longrightarrow> fst (tree_get fuel k' t') = fst (tree_get fuel k' t))"
proof -
  let ?e = "\<lparr>key = k, val = v, seq_no = seq t, deleted = del\<rparr>"
  from buffer_write_ok [OF assms(1), of k v del] obtain t' where t': "buffer_write k v del t = (Inr (), t')"
    "sl_wf (write_buf t')" "sl_entries (write_buf t') = insert_stable entry_less ?e (sl_entries (write_buf t))"
    "seq t' = seq t + 1" "t_manifest t' = t_manifest t" "tdisk t' = tdisk t" "cache t' = cache t" by blast
  have new: "newest x (sl_entries (write_buf t')) = newest x (?e # sl_entries (write_buf t))" for x
    unfolding t'(3) by (rule newest_insert_stable) (rule skip_buffer.inv_sorted [OF assms(1)])
  have view: "node_view t' = node_view t" using t' by (intro node_view_cong) simp_all
  have get: "fst (tree_get fuel x s) =
      view_get fuel (sl_entries (write_buf s)) (node_view s) (root_id (t_manifest s)) x"
    if "sl_wf (write_buf s)" for s x
    using tree_get_view [OF that, of fuel x] by auto
  have "fst (tree_get fuel k t') = Inr (if del then None else Some v)"
    using newest_fresh [of "sl_entries (write_buf t)" ?e] assms(2)
    by (simp add: get [OF t'(2)] view_get_def new visible_def fresh_seq_def)
  moreover have "fst (tree_get fuel k' t') = fst (tree_get fuel k' t)" if "k' \<noteq> k" for k'
    using that by (simp add: get [OF t'(2)] get [OF assms(1)] view_get_def new view t'(5))
  moreover have "fresh_seq t'" if "seq t \<noteq> - 1"
    using u64_succ_less [OF that] assms(2) by (auto simp: fresh_seq_def t'(3,4) intro: less_trans)
  ultimately show ?thesis using t'(1,2) by blast
qed

subsection \<open>Paths of the data directory\<close>

lemma node_path_not_manifest:
  "m_dir m = dir \<Longrightarrow> node_path_in dir i \<noteq> manifest_path m"
  "m_dir m = dir \<Longrightarrow> node_path_in dir i \<noteq> manifest_tmp_path m"
  by (auto simp: node_path_in_def manifest_path_def manifest_tmp_path_def lit_def)

text \<open>The manifest names every node's file by the convention of \<^verbatim>\<open>write_file\<close>.\<close>

definition std_paths :: "tree \<Rightarrow> bool" where
  "std_paths t \<longleftrightarrow> m_dir (t_manifest t) = data_dir (opts t) \<and>
     (\<forall>i p. node_path (t_manifest t) i = Inr p \<longrightarrow> p = node_path_in (data_dir (opts t)) i)"

lemma read_header_path: "read_header path r = Inr (n, num, r') \<Longrightarrow> file_path n = path"
  unfolding read_header_def
  by (auto simp: default_node_def split: if_splits prod.splits)

lemma read_file_header_path: "load_header d path = Inr n \<Longrightarrow> file_path n = path"
  unfolding load_header_def read_file_def
  by (auto simp: read_bloom_def Let_def split: option.splits if_splits prod.splits dest!: read_header_path)

lemma loaded_cong:
  assumes "files d' p = files d p"
  shows "bind_res (load_header d' p) (load_entries d') = bind_res (load_header d p) (load_entries d)"
proof -
  have "read_file d' p l = read_file d p l" for l using assms by (simp add: read_file_def)
  then show ?thesis
    using read_file_header_path [of d p]
    by (cases "load_header d p") (auto simp: load_header_def load_entries_def)
qed

lemma node_view_keep:
  assumes "map_of (cache t') j = map_of (cache t) j"
    and "map_of (cache t) j = None \<Longrightarrow> node_path (t_manifest t') j = node_path (t_manifest t) j"
    and "\<And>p. map_of (cache t) j = None \<Longrightarrow> node_path (t_manifest t) j = Inr p \<Longrightarrow>
      files (tdisk t') p = files (tdisk t) p"
  shows "node_view t' j = node_view t j"
  using assms loaded_cong [of "tdisk t'" _ "tdisk t"]
  by (cases "map_of (cache t) j"; cases "node_path (t_manifest t) j") (simp_all add: node_view_def)

subsection \<open>Merging pending entries into the root\<close>

lemma get_node_cached:
  assumes "node_view t i = Inr n"
  shows "\<exists>c. get_node i t = (Inr n, t\<lparr>cache := c\<rparr>) \<and> map_of c i = Some n \<and>
    node_view (t\<lparr>cache := c\<rparr>) = node_view t"
proof (cases "map_of (cache t) i")
  case (Some m)
  with assms show ?thesis
    by (intro exI [of _ "cache t"]) (simp add: get_node_def node_view_def)
next
  case None
  let ?c = "AList.update i n (cache t)"
  have "get_node i t = (Inr n, t\<lparr>cache := ?c\<rparr>)"
    using None assms unfolding get_node_def node_view_def by (simp del: bind_res_eq_Inr)
  moreover have "node_view (t\<lparr>cache := ?c\<rparr>) = node_view t"
    unfolding node_view_update using assms by auto
  ultimately show ?thesis by (auto simp: update_conv)
qed

lemma get_node_hit: "map_of (cache t) i = Some n \<Longrightarrow> get_node i t = (Inr n, t)"
  by (simp add: get_node_def)

lemma merge_into_root_ok:
  assumes "node_view t (root_id (t_manifest t)) = Inr n"
  shows "\<exists>c. merge_into_root pending t = (Inr (push_pending pending n), t\<lparr>cache := c\<rparr>) \<and>
    map_of c (root_id (t_manifest t)) = Some (push_pending pending n) \<and>
    node_view (t\<lparr>cache := c\<rparr>) = (node_view t)(root_id (t_manifest t) := Inr (push_pending pending n))"
proof -
  let ?r = "root_id (t_manifest t)" and ?n = "push_pending pending n"
  from get_node_cached [OF assms] obtain c where c: "get_node ?r t = (Inr n, t\<lparr>cache := c\<rparr>)"
    "map_of c ?r = Some n" "node_view (t\<lparr>cache := c\<rparr>) = node_view t" by blast
  let ?c = "AList.update ?r ?n c"
  have upd: "upd_node ?r (push_pending pending) (t\<lparr>cache := c\<rparr>) = (Inr (), t\<lparr>cache := ?c\<rparr>)"
    using c(2) by (simp add: upd_node_def run_on_def)
  have hit: "map_of ?c ?r = Some ?n" by (simp add: update_conv)
  then have "get_node ?r (t\<lparr>cache := ?c\<rparr>) = (Inr ?n, t\<lparr>cache := ?c\<rparr>)" by (simp add: get_node_hit)
  with c(1) upd have "merge_into_root pending t = (Inr ?n, t\<lparr>cache := ?c\<rparr>)"
    by (simp add: merge_into_root_def bind_def)
  moreover have "node_view (t\<lparr>cache := ?c\<rparr>) = (node_view t)(?r := Inr ?n)"
    using node_view_update [of ?r ?n "t\<lparr>cache := c\<rparr>"] c(3) by simp
  ultimately show ?thesis using hit by blast
qed

text \<open>
  What a run of \<open>persist_root\<close> leaves in the root, whether or not the file could be written: the same
  place in the tree and, for each key, the newest version of the old buffer and the pending entries.
\<close>

definition root_holds :: "sst_node \<Rightarrow> entry list \<Rightarrow> sst_node \<Rightarrow> bool" where
  "root_holds n pending n' \<longleftrightarrow> nid n' = nid n \<and> level n' = level n \<and> child_ids n' = child_ids n \<and>
     num_children n' = num_children n \<and> entries_sorted (buffer n') \<and>
     (\<forall>k. newest k (buffer n') = newest k (buffer n @ pending)) \<and>
     set (buffer n') \<subseteq> set (buffer n @ pending) \<and>
     (buffer n' = [] \<longrightarrow> bloom_of n' = bloom_of n)"

lemma root_holds_push: "root_holds n pending (push_pending pending n)"
  by (simp add: root_holds_def push_pending_def)

lemma flush_root_ok:
  assumes "map_of (cache t) i = Some n" "nid n = i" "std_paths t"
  shows "\<exists>r n' t'. run_on i (flush_to_disk (data_dir (opts t))) t = (r, t') \<and>
    t' = t\<lparr>cache := AList.update i n' (cache t), tdisk := tdisk t'\<rparr> \<and>
    openable (tdisk t') = openable (tdisk t) \<and>
    root_holds n [] (n'\<lparr>bloom_of := if buffer n' = [] then bloom_of n else bloom_of n'\<rparr>) \<and>
    node_view t' = (node_view t)(i := Inr n') \<and>
    (r = Inr (node_path_in (data_dir (opts t)) i) \<and>
       file_path n' = node_path_in (data_dir (opts t)) i \<and>
       files (tdisk t') (node_path_in (data_dir (opts t)) i) = Some (node_image n') \<or>
     r = Inl (Cannot_open_for_writing (tmp_of (node_path_in (data_dir (opts t)) i))) \<and>
       \<not> openable (tdisk t) (tmp_of (node_path_in (data_dir (opts t)) i)))"
proof -
  let ?dir = "data_dir (opts t)" and ?d = "tdisk t"
  let ?path = "node_path_in ?dir i"
  obtain f where f: "flush_to_disk ?dir (n, ?d) =
       (case write_file ?dir (flushed_node n f) ?d of
          (Inl e, d') \<Rightarrow> (Inl e, (flushed_node n f, d'))
        | (Inr path, d') \<Rightarrow>
            (Inr path, ((flushed_node n f)\<lparr>file_path := path, entries_loaded := True\<rparr>, d')))"
    by (rule flush_to_disk_cases [of n ?dir ?d])
  have holds: "root_holds n [] (m\<lparr>bloom_of := if buffer m = [] then bloom_of n else bloom_of m\<rparr>)"
    if "m = (flushed_node n f)\<lparr>file_path := p, entries_loaded := l\<rparr> \<or> m = flushed_node n f" for m p l
    using that set_sort_entries [of "buffer n"] by (auto simp: root_holds_def keys_strict_sorted)
  show ?thesis
  proof (cases "openable ?d (tmp_of ?path)")
    case True
    let ?n = "(flushed_node n f)\<lparr>file_path := ?path, entries_loaded := True\<rparr>"
    let ?d' = "?d\<lparr>files := (files ?d)(tmp_of ?path := None, ?path \<mapsto> node_image ?n)\<rparr>"
    let ?t = "t\<lparr>cache := AList.update i ?n (cache t), tdisk := ?d'\<rparr>"
    have "run_on i (flush_to_disk ?dir) t = (Inr ?path, ?t)"
      using True assms(1,2) write_file_ok [of ?d ?dir "flushed_node n f"] by (simp add: run_on_def f)
    moreover have "node_view ?t = (node_view t)(i := Inr ?n)"
    proof
      fix j
      show "node_view ?t j = ((node_view t)(i := Inr ?n)) j"
      proof (cases "j = i")
        case True
        then show ?thesis by (simp add: node_view_def update_conv)
      next
        case False
        have "node_view ?t j = node_view t j"
        proof (rule node_view_keep)
          fix p assume "node_path (t_manifest t) j = Inr p"
          then have "p = node_path_in ?dir j" using assms(3) by (simp add: std_paths_def)
          then show "files (tdisk ?t) p = files ?d p"
            using False node_path_in_inj [of ?dir j i] node_path_not_tmp [of ?dir j i] by simp
        qed (use False in \<open>simp_all add: update_conv\<close>)
        with False show ?thesis by simp
      qed
    qed
    ultimately show ?thesis
      using holds [where m = ?n and p = ?path and l = True] by (intro exI [of _ "Inr ?path"] exI [of _ ?n] exI [of _ ?t]) simp
  next
    case False
    let ?n = "flushed_node n f"
    let ?t = "t\<lparr>cache := AList.update i ?n (cache t)\<rparr>"
    have "run_on i (flush_to_disk ?dir) t = (Inl (Cannot_open_for_writing (tmp_of ?path)), ?t)"
      using False assms(1,2) by (simp add: run_on_def f write_file_def Let_def)
    with False holds [where m = ?n] node_view_update [of i ?n t] show ?thesis
      by (intro exI [of _ "Inl (Cannot_open_for_writing (tmp_of ?path))"] exI [of _ ?n] exI [of _ ?t]) simp
  qed
qed

lemma node_path_register:
  "node_path (register_node i lvl path m) j = (if j = i then Inr path else node_path m j)"
  using manifest_registry.look_put [of i "(lvl, path)" m j] by (simp add: node_path_live)

lemma save_view:
  assumes "std_paths t"
  shows "\<exists>r d. save_manifest t = (r, t\<lparr>tdisk := d\<rparr>) \<and> openable d = openable (tdisk t) \<and>
    node_view (t\<lparr>tdisk := d\<rparr>) = node_view t \<and>
    (\<forall>j. files d (node_path_in (data_dir (opts t)) j) = files (tdisk t) (node_path_in (data_dir (opts t)) j)) \<and>
    (r = Inr () \<and> files d (manifest_path (t_manifest t)) = Some (manifest_text (t_manifest t)) \<or>
     r = Inl (Cannot_write_manifest (manifest_tmp_path (t_manifest t))) \<and>
       \<not> openable (tdisk t) (manifest_tmp_path (t_manifest t)))"
proof (cases "openable (tdisk t) (manifest_tmp_path (t_manifest t))")
  case True
  let ?m = "t_manifest t"
  let ?d = "(tdisk t)\<lparr>files := (files (tdisk t))(manifest_tmp_path ?m := None,
     manifest_path ?m \<mapsto> manifest_text ?m)\<rparr>"
  have dir: "m_dir ?m = data_dir (opts t)" using assms by (simp add: std_paths_def)
  have keep: "files ?d (node_path_in (data_dir (opts t)) j) = files (tdisk t) (node_path_in (data_dir (opts t)) j)"
    for j using node_path_not_manifest [OF dir, of j] by simp
  have "node_view (t\<lparr>tdisk := ?d\<rparr>) j = node_view t j" for j
  proof (rule node_view_keep)
    fix p assume "node_path ?m j = Inr p"
    then have "p = node_path_in (data_dir (opts t)) j" using assms by (simp add: std_paths_def)
    with keep show "files (tdisk (t\<lparr>tdisk := ?d\<rparr>)) p = files (tdisk t) p" by simp
  qed simp_all
  moreover have "save_manifest t = (Inr (), t\<lparr>tdisk := ?d\<rparr>)"
    using True by (simp add: save_manifest_def on_disk_def manifest_save_def)
  ultimately show ?thesis
    using keep by (intro exI [of _ "Inr ()"] exI [of _ ?d]) auto
next
  case False
  then show ?thesis
    by (intro exI [of _ "Inl (Cannot_write_manifest (manifest_tmp_path (t_manifest t)))"] exI [of _ "tdisk t"])
       (simp add: save_manifest_def on_disk_def manifest_save_def)
qed

lemma root_holds_nonempty:
  assumes "root_holds n es n'" "buffer n @ es \<noteq> []"
  shows "buffer n' \<noteq> []"
proof
  assume "buffer n' = []"
  then have "newest k (buffer n @ es) = None" for k using assms(1) by (metis newest_Nil root_holds_def)
  then show False using assms(2) by (metis hd_in_set imageI newest_None_iff)
qed

lemma root_holds_trans:
  assumes "root_holds n es m" "root_holds m [] m'" "buffer m \<noteq> []"
  shows "root_holds n es m'"
proof -
  have "buffer m' \<noteq> []" using root_holds_nonempty [OF assms(2)] assms(3) by simp
  then show ?thesis using assms(1,2) unfolding root_holds_def by auto
qed

lemma persist_root_ok:
  fixes t pending
  defines "rid \<equiv> root_id (t_manifest t)" and "dir \<equiv> data_dir (opts t)"
  assumes v: "node_view t rid = Inr n" "nid n = rid" "std_paths t"
  shows "\<exists>r t' n'. persist_root pending t = (r, t') \<and> node_view t' = (node_view t)(rid := Inr n') \<and>
    root_holds n pending n' \<and> root_id (t_manifest t') = rid \<and> write_buf t' = write_buf t \<and> seq t' = seq t \<and>
    opts t' = opts t \<and> std_paths t' \<and>
    ((\<forall>p. openable (tdisk t) p) \<longrightarrow> r = Inr () \<and>
       (buffer n @ pending \<noteq> [] \<longrightarrow>
          files (tdisk t') (node_path_in dir rid) = Some (node_image n') \<and>
          file_path n' = node_path_in dir rid \<and>
          t_manifest t' = register_node rid (level n) (node_path_in dir rid) (t_manifest t) \<and>
          files (tdisk t') (manifest_path (t_manifest t')) = Some (manifest_text (t_manifest t'))))"
proof -
  let ?n1 = "push_pending pending n"
  from merge_into_root_ok [OF v(1) [unfolded rid_def], of pending] obtain c where
    m: "merge_into_root pending t = (Inr ?n1, t\<lparr>cache := c\<rparr>)" "map_of c rid = Some ?n1"
    "node_view (t\<lparr>cache := c\<rparr>) = (node_view t)(rid := Inr ?n1)" unfolding rid_def by blast
  let ?t1 = "t\<lparr>cache := c\<rparr>"
  have push: "buffer ?n1 = [] \<longleftrightarrow> buffer n @ pending = []" by (simp add: push_pending_def)
  show ?thesis
  proof (cases "buffer ?n1 = []")
    case True
    then have "persist_root pending t = (Inr (), ?t1)" by (simp add: persist_root_def bind_def m(1))
    moreover have "std_paths ?t1" using v(3) by (simp add: std_paths_def)
    ultimately show ?thesis
      using m(3) root_holds_push [of n pending] True push
      by (intro exI [of _ "Inr ()"] exI [of _ ?t1] exI [of _ ?n1]) (simp add: rid_def)
  next
    case False
    have std1: "std_paths ?t1" using v(3) by (simp add: std_paths_def)
    have id1: "nid ?n1 = rid" using v(2) by (simp add: push_pending_def)
    from flush_root_ok [of ?t1 rid ?n1] m(2) id1 std1 obtain r n' t2 where
      t2: "run_on rid (flush_to_disk dir) ?t1 = (r, t2)"
      "t2 = ?t1\<lparr>cache := AList.update rid n' c, tdisk := tdisk t2\<rparr>"
      "openable (tdisk t2) = openable (tdisk t)"
      "root_holds ?n1 [] (n'\<lparr>bloom_of := if buffer n' = [] then bloom_of ?n1 else bloom_of n'\<rparr>)"
      "node_view t2 = (node_view ?t1)(rid := Inr n')"
      "r = Inr (node_path_in dir rid) \<and> file_path n' = node_path_in dir rid \<and>
         files (tdisk t2) (node_path_in dir rid) = Some (node_image n') \<or>
       r = Inl (Cannot_open_for_writing (tmp_of (node_path_in dir rid))) \<and>
         \<not> openable (tdisk t) (tmp_of (node_path_in dir rid))"
      unfolding dir_def by auto
    have ne: "buffer n' \<noteq> []" using root_holds_nonempty [OF t2(4)] False by simp
    then have holds: "root_holds n pending n'"
      using root_holds_trans [OF root_holds_push _ False] t2(4) by simp
    have view2: "node_view t2 = (node_view t)(rid := Inr n')" using t2(5) m(3) by simp
    have sel2: "t_manifest t2 = t_manifest t" "write_buf t2 = write_buf t" "seq t2 = seq t" "opts t2 = opts t"
      by (subst t2(2), simp)+
    show ?thesis
    proof (cases r)
      case (Inl e)
      then have "persist_root pending t = (Inl e, t2)"
        using False t2(1) by (simp add: persist_root_def bind_def m(1) rid_def dir_def)
      moreover have "std_paths t2" using v(3) sel2 by (simp add: std_paths_def)
      ultimately show ?thesis
        using holds view2 sel2 t2(6) Inl
        by (intro exI [of _ "Inl e"] exI [of _ t2] exI [of _ n']) (auto simp: rid_def)
    next
      case (Inr path)
      with t2(6) have path: "path = node_path_in dir rid" "file_path n' = path"
        "files (tdisk t2) path = Some (node_image n')" by auto
      let ?m = "register_node rid (level ?n1) path (t_manifest t)"
      let ?t3 = "t2\<lparr>t_manifest := ?m\<rparr>"
      have std3: "std_paths ?t3"
        using v(3) sel2 path(1) by (auto simp: std_paths_def node_path_register dir_def)
      have hit: "map_of (cache t2) rid = Some n'" by (subst t2(2)) (simp add: update_conv)
      have view3: "node_view ?t3 = node_view t2"
      proof
        fix j show "node_view ?t3 j = node_view t2 j"
          by (rule node_view_keep) (use hit sel2 in \<open>auto simp: node_path_register\<close>)
      qed
      from save_view [OF std3] obtain r' d where
        sv: "save_manifest ?t3 = (r', ?t3\<lparr>tdisk := d\<rparr>)" "openable d = openable (tdisk t2)"
        "node_view (?t3\<lparr>tdisk := d\<rparr>) = node_view ?t3"
        "\<forall>j. files d (node_path_in dir j) = files (tdisk t2) (node_path_in dir j)"
        "r' = Inr () \<and> files d (manifest_path ?m) = Some (manifest_text ?m) \<or>
         r' = Inl (Cannot_write_manifest (manifest_tmp_path ?m)) \<and> \<not> openable (tdisk t2) (manifest_tmp_path ?m)"
        using sel2 by (auto simp: dir_def)
      let ?t4 = "?t3\<lparr>tdisk := d\<rparr>"
      have "persist_root pending t = (r', ?t4)"
        using False t2(1) Inr sv(1) sel2
        by (simp add: persist_root_def bind_def m(1) rid_def dir_def on_manifest_def modify_def)
      moreover have "std_paths ?t4" using std3 by (simp add: std_paths_def)
      moreover have "level ?n1 = level n" by (simp add: push_pending_def)
      ultimately show ?thesis
        using holds view2 view3 sv sel2 path t2(3)
        by (intro exI [of _ r'] exI [of _ ?t4] exI [of _ n']) (auto simp: rid_def)
    qed
  qed
qed

subsection \<open>The invariant of a tree\<close>

definition node_sane :: "sst_node \<Rightarrow> bool" where
  "node_sane n \<longleftrightarrow> entries_sorted (buffer n) \<and> (buffer n = [] \<longrightarrow> (\<forall>f. bloom_of n = Some f \<longrightarrow> bloom_ok f))"

text \<open>
  \<open>tree_inv t\<close>: the write buffer is a well-formed skip list, files are named by the convention, the
  nodes form a well-founded tree, every node is sorted, and sequence numbers are layered: all below
  the counter, and the buffered version of a key above the version in the root.
\<close>

definition tree_inv :: "tree \<Rightarrow> bool" where
  "tree_inv t \<longleftrightarrow> sl_wf (write_buf t) \<and> fresh_seq t \<and> std_paths t \<and>
     subtree (node_view t) (root_id (t_manifest t)) \<and>
     (\<forall>i n. node_view t i = Inr n \<longrightarrow> node_sane n) \<and>
     (\<exists>n. node_view t (root_id (t_manifest t)) = Inr n \<and> nid n = root_id (t_manifest t) \<and>
        (\<forall>f\<in>set (buffer n). seq_no f < seq t \<and>
           (\<forall>e\<in>set (sl_entries (write_buf t)). key e = key f \<longrightarrow> seq_no f < seq_no e)))"

text \<open>Levels are 32-bit numbers, so this much fuel is enough for every well-founded tree.\<close>

definition FUEL :: nat where "FUEL = 2 ^ 32"

lemma level_fuel: "unat (level n) < FUEL"
  using unsigned_less [of "level n", where ?'a = nat] by (simp add: FUEL_def)

definition contents :: "tree \<Rightarrow> bytes \<Rightarrow> bytes option" where
  "contents t k =
     (case view_get FUEL (sl_entries (write_buf t)) (node_view t) (root_id (t_manifest t)) k of
        Inr r \<Rightarrow> r
      | Inl e \<Rightarrow> None)"

lemma node_sane_may:
  assumes "node_sane n" shows "\<exists>b. might_contain n k = Inr b"
proof (cases "buffer n = [] \<and> bloom_of n \<noteq> None")
  case True
  then obtain f where f: "bloom_of n = Some f" by blast
  with assms True have "bloom_ok f" unfolding node_sane_def by blast
  from bloom_set.mem_returns [OF this, of k] True f show ?thesis by (simp add: might_contain_def)
qed (auto simp: might_contain_def)

lemma search_view_total:
  "(\<And>i. i \<in> set is \<Longrightarrow> \<exists>n. v i = Inr n \<and> node_sane n) \<Longrightarrow> \<exists>r. search_view v k is = Inr r"
proof (induction "is")
  case (Cons i "is")
  from Cons.prems obtain n where n: "v i = Inr n" "node_sane n" by auto
  have "\<exists>b. might_contain n k = Inr b" by (rule node_sane_may [OF n(2)])
  moreover have "\<exists>r. search_view v k is = Inr r" using Cons by simp
  ultimately obtain b r where "might_contain n k = Inr b" "search_view v k is = Inr r" by blast
  with n(1) show ?case by (cases b; cases "sst_get n k") (simp_all del: bind_res_eq_Inr)
qed simp

lemma view_get_total:
  assumes "subtree v rid" "\<And>i n. v i = Inr n \<Longrightarrow> node_sane n"
  shows "\<exists>r. view_get FUEL buf v rid k = Inr r"
proof -
  obtain n where n: "v rid = Inr n" using subtree_view [OF assms(1)] by blast
  from path_view_total [OF assms(1) n level_fuel, of k "[]"] obtain rest where
    p: "path_view FUEL v k rid [] = Inr ([] @ rid # rest)"
      "\<forall>j\<in>set rest. \<exists>m. v j = Inr m \<and> level m < level n" by metis
  have "\<exists>r. search_view v k (rid # rest) = Inr r"
    by (rule search_view_total) (use n p(2) assms(2) in auto)
  with p(1) show ?thesis by (auto simp: view_get_def disk_get_def split: option.splits)
qed

lemma tree_get_contents:
  assumes "tree_inv t"
  shows "\<exists>t'. tree_get FUEL k t = (Inr (contents t k), t') \<and> same_but_cache t t'"
proof -
  have wf: "sl_wf (write_buf t)" using assms by (simp add: tree_inv_def)
  have "\<exists>r. view_get FUEL (sl_entries (write_buf t)) (node_view t) (root_id (t_manifest t)) k = Inr r"
    using assms by (intro view_get_total) (auto simp: tree_inv_def)
  then show ?thesis using tree_get_view [OF wf, of FUEL k] by (auto simp: contents_def)
qed

lemma tree_inv_cache: "tree_inv t \<Longrightarrow> same_but_cache t t' \<Longrightarrow> tree_inv t' \<and> contents t' = contents t"
proof
  assume inv: "tree_inv t" and "same_but_cache t t'"
  note sel = same_but_cache_sel [OF this(2)]
  show "tree_inv t'" using inv unfolding tree_inv_def fresh_seq_def std_paths_def sel .
  show "contents t' = contents t" by (rule ext) (simp add: contents_def sel)
qed

lemma search_root:
  assumes "v rid = Inr n" "node_sane n" "\<exists>r. search_view v k rest = Inr r"
  shows "search_view v k (rid # rest) =
    (case newest k (buffer n) of Some e \<Rightarrow> Inr (visible e) | None \<Rightarrow> search_view v k rest)"
proof -
  have get: "sst_get n k = newest k (buffer n)" using assms(2) by (simp add: node_sane_def sst_get_sorted)
  show ?thesis
  proof (cases "buffer n = []")
    case True
    obtain b where "might_contain n k = Inr b" using node_sane_may [OF assms(2)] by blast
    with True get assms(1) show ?thesis by simp
  next
    case False
    then show ?thesis using get assms(1) by (simp add: might_contain_def)
  qed
qed

subsection \<open>Replacing the root\<close>

lemma subtree_below:
  assumes "v rid = Inr r"
  shows "subtree v i \<Longrightarrow> (\<And>n. v i = Inr n \<Longrightarrow> level n < level r) \<Longrightarrow> subtree (v(rid := x)) i"
proof (induction i rule: subtree.induct)
  case (leaf i n)
  then have "i \<noteq> rid" using assms by auto
  with leaf show ?case by (intro subtree.leaf [of _ _ n]) auto
next
  case (inner i n cs)
  have i: "i \<noteq> rid" "level n < level r" using inner.hyps(1) inner.prems assms by auto
  have low: "\<exists>m. v c = Inr m \<and> level m < level n" if "c \<in> set cs" for c using inner.hyps(6) that by blast
  show ?case
  proof (rule subtree.inner [of _ _ n cs])
    fix c assume c: "c \<in> set cs"
    then obtain m where m: "v c = Inr m" "level m < level n" using low by blast
    have "level m' < level r" if "v c = Inr m'" for m' using that m i(2) by (metis less_trans sum.inject(2))
    then show "subtree (v(rid := x)) c" using inner.IH c by blast
    have "c \<noteq> rid" using m i(2) assms by auto
    with m show "\<exists>m. (v(rid := x)) c = Inr m \<and> level m < level n" by simp
  qed (use inner i in auto)
qed

lemma subtree_replace_root:
  assumes "subtree v rid" "v rid = Inr n"
    and "level n' = level n" "child_ids n' = child_ids n" "num_children n' = num_children n"
  shows "subtree (v(rid := Inr n')) rid"
proof (cases "is_leaf n")
  case True
  then show ?thesis using assms(3) by (intro subtree.leaf [of _ _ n']) (simp_all add: is_leaf_def)
next
  case False
  obtain cs where cs: "children_of n = Inr cs" "cs \<noteq> []"
    "\<And>c. c \<in> set cs \<Longrightarrow> subtree v c \<and> (\<exists>m. v c = Inr m \<and> level m < level n)"
    using subtree_children [OF assms(1,2) False] by metis
  show ?thesis
  proof (rule subtree.inner [of _ _ n' cs])
    show "children_of n' = Inr cs" using cs(1) assms(4,5) by (simp add: children_of_def split: if_splits)
    fix c assume c: "c \<in> set cs"
    then obtain m where m: "subtree v c" "v c = Inr m" "level m < level n" using cs(3) by blast
    then have "c \<noteq> rid" using assms(2) by auto
    with m assms(3) show "\<exists>m. (v(rid := Inr n')) c = Inr m \<and> level m < level n'" by simp
    show "subtree (v(rid := Inr n')) c" using subtree_below [OF assms(2) m(1)] m(2,3) by simp
  qed (use False cs(2) assms(3) in \<open>simp_all add: is_leaf_def\<close>)
qed

text \<open>Moving the buffered entries into the root does not change what \<^verbatim>\<open>get\<close> finds.\<close>

lemma view_get_drain:
  assumes sub: "subtree v rid" and n: "v rid = Inr n" and sane: "\<And>i m. v i = Inr m \<Longrightarrow> node_sane m"
    and holds: "root_holds n buf n'"
    and layered: "\<forall>f\<in>set (buffer n). \<forall>e\<in>set buf. key e = key f \<longrightarrow> seq_no f < seq_no e"
  shows "view_get FUEL [] (v(rid := Inr n')) rid k = view_get FUEL buf v rid k"
proof -
  let ?v = "v(rid := Inr n')"
  have "level n' = level n" "child_ids n' = child_ids n" "num_children n' = num_children n"
    using holds by (simp_all add: root_holds_def)
  from disk_get_root [OF sub n level_fuel, of ?v n' k, OF _ _ this] obtain rest where rest:
    "disk_get FUEL v rid k = search_view v k (rid # rest)"
    "disk_get FUEL ?v rid k = search_view ?v k (rid # rest)"
    "search_view ?v k rest = search_view v k rest" "\<forall>j\<in>set rest. \<exists>m. v j = Inr m" by auto
  have tot: "\<exists>r. search_view v k rest = Inr r"
    by (rule search_view_total) (use rest(4) sane in auto)
  have "node_sane n" using sane n by blast
  then have "node_sane n'"
    using holds root_holds_nonempty [OF holds] unfolding node_sane_def root_holds_def by auto
  have before: "disk_get FUEL v rid k =
      (case newest k (buffer n) of Some e \<Rightarrow> Inr (visible e) | None \<Rightarrow> search_view v k rest)"
    unfolding rest(1) by (rule search_root [OF n \<open>node_sane n\<close> tot])
  have after: "disk_get FUEL ?v rid k =
      (case newer (newest k (buffer n)) (newest k buf) of
         Some e \<Rightarrow> Inr (visible e) | None \<Rightarrow> search_view v k rest)"
  proof -
    have nk: "newest k (buffer n') = newer (newest k (buffer n)) (newest k buf)"
      using holds by (simp add: root_holds_def newest_append)
    have "search_view ?v k (rid # rest) =
        (case newest k (buffer n') of Some e \<Rightarrow> Inr (visible e) | None \<Rightarrow> search_view ?v k rest)"
      by (rule search_root) (use \<open>node_sane n'\<close> tot in \<open>simp_all add: rest(3)\<close>)
    then show ?thesis unfolding rest(2) nk rest(3) .
  qed
  show ?thesis
  proof (cases "newest k buf")
    case None
    with before after show ?thesis by (simp add: view_get_def)
  next
    case (Some e)
    have "newer (newest k (buffer n)) (Some e) = Some e"
    proof (cases "newest k (buffer n)")
      case (Some f)
      have "seq_no f < seq_no e"
        using layered newest_SomeD(1,2) [OF Some] newest_SomeD(1,2) [OF \<open>newest k buf = Some e\<close>] by auto
      with Some show ?thesis by simp
    qed simp
    with Some after show ?thesis by (simp add: view_get_def)
  qed
qed

text \<open>A version in the root answers, whatever lies below it.\<close>

lemma root_answers:
  assumes sub: "subtree v rid" and n: "v rid = Inr n" and sane: "\<And>i m. v i = Inr m \<Longrightarrow> node_sane m"
    and holds: "root_holds n es n'" and f: "newest k (buffer n @ es) = Some f"
  shows "disk_get FUEL (v(rid := Inr n')) rid k = Inr (visible f)"
proof -
  let ?v = "v(rid := Inr n')"
  have h: "level n' = level n" "child_ids n' = child_ids n" "num_children n' = num_children n"
    using holds by (simp_all add: root_holds_def)
  from disk_get_root [OF sub n level_fuel, of ?v n' k, OF _ _ h] obtain rest where rest:
    "disk_get FUEL ?v rid k = search_view ?v k (rid # rest)"
    "search_view ?v k rest = search_view v k rest" "\<forall>j\<in>set rest. \<exists>m. v j = Inr m" by auto
  have "\<exists>x. search_view v k rest = Inr x"
    by (rule search_view_total) (use rest(3) sane in auto)
  moreover have "node_sane n'"
    using holds root_holds_nonempty [OF holds] sane [OF n] unfolding node_sane_def root_holds_def by auto
  moreover have "newest k (buffer n') = Some f" using holds f by (simp add: root_holds_def)
  ultimately show ?thesis
    using search_root [of ?v rid n' k rest] rest(1,2) by (simp del: search_view.simps)
qed

text \<open>A root without children needs no assumption on other nodes.\<close>

lemma leaf_root_answers:
  assumes "is_leaf n" "node_sane n" "root_holds n es n'" "newest k (buffer n @ es) = Some f"
  shows "disk_get FUEL (v(rid := Inr n')) rid k = Inr (visible f)"
proof -
  let ?v = "v(rid := Inr n')"
  obtain fuel where f: "FUEL = Suc fuel" by (rule that [of "FUEL - 1"]) (simp add: FUEL_def)
  have "is_leaf n'" using assms(1,3) by (simp add: root_holds_def is_leaf_def)
  then have "disk_get FUEL ?v rid k = search_view ?v k [rid]" unfolding f by (simp add: disk_get_def del: search_view.simps)
  moreover have "node_sane n'"
    using assms(2,3) root_holds_nonempty [OF assms(3)] unfolding node_sane_def root_holds_def by auto
  moreover have "newest k (buffer n') = Some f" using assms(3,4) by (simp add: root_holds_def)
  ultimately show ?thesis using search_root [of ?v rid n' k "[]"] by (simp del: search_view.simps(2))
qed

lemma drain_ok:
  assumes "sl_wf (write_buf t)"
  shows "\<exists>sl. drain_write_buf t = (Inr (sl_entries (write_buf t)), t\<lparr>write_buf := sl\<rparr>) \<and> sl_wf sl \<and>
    sl_entries sl = []"
  using skip_buffer.reset_ok [OF assms] to_sorted_vector_wf [OF assms] by (auto simp: drain_write_buf_def)

lemma tree_flush_view:
  assumes wf: "sl_wf (write_buf t)" and std: "std_paths t"
    and n: "node_view t (root_id (t_manifest t)) = Inr n" "nid n = root_id (t_manifest t)"
  shows "\<exists>r t' n'. tree_flush t = (r, t') \<and>
    node_view t' = (node_view t)(root_id (t_manifest t) := Inr n') \<and>
    root_holds n (sl_entries (write_buf t)) n' \<and> root_id (t_manifest t') = root_id (t_manifest t) \<and>
    sl_wf (write_buf t') \<and> sl_entries (write_buf t') = [] \<and> seq t' = seq t \<and> opts t' = opts t \<and>
    std_paths t' \<and> ((\<forall>p. openable (tdisk t) p) \<longrightarrow> r = Inr () \<and>
      (buffer n @ sl_entries (write_buf t) \<noteq> [] \<longrightarrow>
        files (tdisk t') (node_path_in (data_dir (opts t)) (root_id (t_manifest t))) = Some (node_image n') \<and>
        files (tdisk t') (manifest_path (t_manifest t')) = Some (manifest_text (t_manifest t'))))"
proof -
  let ?rid = "root_id (t_manifest t)" and ?buf = "sl_entries (write_buf t)"
  from drain_ok [OF wf] obtain sl where sl: "drain_write_buf t = (Inr ?buf, t\<lparr>write_buf := sl\<rparr>)"
    "sl_wf sl" "sl_entries sl = []" by blast
  let ?t1 = "t\<lparr>write_buf := sl\<rparr>"
  have view1: "node_view ?t1 = node_view t" by (rule node_view_cong) simp_all
  have std1: "std_paths ?t1" using std by (simp add: std_paths_def)
  have "node_view ?t1 (root_id (t_manifest ?t1)) = Inr n" "nid n = root_id (t_manifest ?t1)"
    using n view1 by simp_all
  from persist_root_ok [OF this std1, of ?buf] obtain r t' n' where t':
    "persist_root ?buf ?t1 = (r, t')" "node_view t' = (node_view t)(?rid := Inr n')"
    "root_holds n ?buf n'" "root_id (t_manifest t') = ?rid" "write_buf t' = sl" "seq t' = seq t"
    "opts t' = opts t" "std_paths t'" "(\<forall>p. openable (tdisk t) p) \<longrightarrow> r = Inr () \<and>
      (buffer n @ ?buf \<noteq> [] \<longrightarrow>
        files (tdisk t') (node_path_in (data_dir (opts t)) ?rid) = Some (node_image n') \<and>
        files (tdisk t') (manifest_path (t_manifest t')) = Some (manifest_text (t_manifest t')))"
    unfolding view1 by auto
  have "tree_flush t = (r, t')" using sl(1) t'(1) by (simp add: tree_flush_def bind_def)
  then show ?thesis using t' sl by auto
qed

lemma tree_flush_ok:
  assumes inv: "tree_inv t"
  shows "\<exists>r t'. tree_flush t = (r, t') \<and> tree_inv t' \<and> contents t' = contents t \<and>
    sl_entries (write_buf t') = [] \<and> seq t' = seq t \<and> opts t' = opts t \<and>
    ((\<forall>p. openable (tdisk t) p) \<longrightarrow> r = Inr ())"
proof -
  let ?rid = "root_id (t_manifest t)" and ?buf = "sl_entries (write_buf t)"
  have wf: "sl_wf (write_buf t)" and std: "std_paths t" using inv by (simp_all add: tree_inv_def)
  from inv obtain n where n: "node_view t ?rid = Inr n" "nid n = ?rid"
    "\<forall>f\<in>set (buffer n). seq_no f < seq t \<and> (\<forall>e\<in>set ?buf. key e = key f \<longrightarrow> seq_no f < seq_no e)"
    by (auto simp: tree_inv_def)
  from tree_flush_view [OF wf std n(1,2)] obtain r t' n' where run: "tree_flush t = (r, t')" and t':
    "node_view t' = (node_view t)(?rid := Inr n')" "root_holds n ?buf n'"
    "root_id (t_manifest t') = ?rid" "sl_wf (write_buf t')" "sl_entries (write_buf t') = []"
    "seq t' = seq t" "opts t' = opts t" "std_paths t'" "(\<forall>p. openable (tdisk t) p) \<longrightarrow> r = Inr ()"
    by blast
  have sub: "subtree (node_view t) ?rid" and sane: "\<And>i m. node_view t i = Inr m \<Longrightarrow> node_sane m"
    using inv by (auto simp: tree_inv_def)
  have hold: "nid n' = nid n" "level n' = level n" "child_ids n' = child_ids n"
    "num_children n' = num_children n" "set (buffer n') \<subseteq> set (buffer n @ ?buf)"
    using t'(2) by (simp_all add: root_holds_def)
  have "node_sane n'"
    using t'(2) root_holds_nonempty [OF t'(2)] sane [OF n(1)] unfolding node_sane_def root_holds_def by auto
  moreover have "subtree (node_view t') ?rid"
    unfolding t'(1) by (rule subtree_replace_root [OF sub n(1) hold(2-4)])
  moreover have "\<forall>f\<in>set (buffer n'). seq_no f < seq t"
    using hold(5) n(3) inv by (auto simp: tree_inv_def fresh_seq_def)
  ultimately have "tree_inv t'"
    using sane t'(3-6,8) hold(1) n(2) by (auto simp: tree_inv_def fresh_seq_def t'(1))
  moreover have "contents t' = contents t"
    using view_get_drain [OF sub n(1) sane t'(2)] n(3)
    by (intro ext) (simp add: contents_def t'(1,3,5))
  ultimately show ?thesis using run t'(5-7,9) by blast
qed

lemma tree_inv_write:
  assumes inv: "tree_inv t" and room: "seq t \<noteq> - 1"
  shows "\<exists>t'. buffer_write k v del t = (Inr (), t') \<and> tree_inv t' \<and> seq t' = seq t + 1 \<and>
    contents t' = (contents t)(k := (if del then None else Some v))"
proof -
  let ?e = "\<lparr>key = k, val = v, seq_no = seq t, deleted = del\<rparr>"
  have wf: "sl_wf (write_buf t)" and fr: "fresh_seq t" using inv by (simp_all add: tree_inv_def)
  from buffer_write_ok [OF wf, of k v del] obtain t' where t': "buffer_write k v del t = (Inr (), t')"
    "sl_wf (write_buf t')" "sl_entries (write_buf t') = insert_stable entry_less ?e (sl_entries (write_buf t))"
    "seq t' = seq t + 1" "opts t' = opts t" "t_manifest t' = t_manifest t" "tdisk t' = tdisk t"
    "cache t' = cache t" by blast
  have view: "node_view t' = node_view t" using t' by (intro node_view_cong) simp_all
  have new: "newest x (sl_entries (write_buf t')) = newest x (?e # sl_entries (write_buf t))" for x
    unfolding t'(3) by (rule newest_insert_stable) (rule skip_buffer.inv_sorted [OF wf])
  have lt: "seq t < seq t + 1" by (rule u64_succ_less [OF room])
  have "fresh_seq t'" using fr lt by (auto simp: fresh_seq_def t'(3,4) intro: less_trans)
  moreover from inv obtain n where n: "node_view t (root_id (t_manifest t)) = Inr n"
    "nid n = root_id (t_manifest t)" "\<forall>f\<in>set (buffer n). seq_no f < seq t \<and>
      (\<forall>e\<in>set (sl_entries (write_buf t)). key e = key f \<longrightarrow> seq_no f < seq_no e)"
    by (auto simp: tree_inv_def)
  then have "\<forall>f\<in>set (buffer n). seq_no f < seq t' \<and>
      (\<forall>e\<in>set (sl_entries (write_buf t')). key e = key f \<longrightarrow> seq_no f < seq_no e)"
    using lt by (auto simp: t'(3,4) intro: less_trans)
  moreover have "std_paths t'" using inv t' by (simp add: tree_inv_def std_paths_def)
  ultimately have "tree_inv t'" using inv t'(2,6) n(1,2) by (auto simp: tree_inv_def view)
  moreover have "contents t' x = ((contents t)(k := (if del then None else Some v))) x" for x
  proof (cases "x = k")
    case True
    have "newest k (?e # sl_entries (write_buf t)) = Some ?e"
      using newest_fresh [of "sl_entries (write_buf t)" ?e] fr by (simp add: fresh_seq_def)
    with True show ?thesis by (simp add: contents_def view_get_def new visible_def del: newest_Cons)
  next
    case False
    then show ?thesis by (simp add: contents_def view_get_def new view t'(6))
  qed
  ultimately show ?thesis using t'(1,4) by blast
qed

subsection \<open>A store of its own\<close>

text \<open>The state of a store opened on an empty directory: an empty root leaf with id 1.\<close>

lemma tree_open_state:
  assumes "files d (data_dir os @ lit ''/manifest'') = None" "\<forall>p. openable d p"
  shows "\<exists>n t. tree_open os d = (Inr (), t) \<and>
    t_manifest t = set_root 1 (register_node 1 0 (node_path_in (data_dir os) 1) ((new_manifest (data_dir os))\<lparr>next_id := 2\<rparr>)) \<and>
    opts t = os \<and> cache t = [(1, n)] \<and> write_buf t = sl_new \<and> seq t = 1 \<and> (\<forall>p. openable (tdisk t) p) \<and>
    nid n = 1 \<and> level n = 0 \<and> buffer n = [] \<and> num_children n = 0 \<and> length (child_ids n) = MAX_FANOUT \<and>
    entries_loaded n \<and> bloom_covers n \<and> pred_option bloom_fits (bloom_of n) \<and> krange n = buffer_range [] \<and>
    files (tdisk t) (node_path_in (data_dir os) 1) = Some (node_image n) \<and>
    files (tdisk t) (manifest_path (t_manifest t)) = Some (manifest_text (t_manifest t))"
proof -
  let ?dir = "data_dir os"
  let ?p = "node_path_in ?dir 1"
  have "openable d (tmp_of ?p)" using assms(2) by blast
  from create_node_ok [OF this, of 0 "[]" "[]"] obtain n where c:
    "create_node 1 0 [] [] ?dir d = (Inr n, d\<lparr>files := (files d)(tmp_of ?p := None, ?p \<mapsto> node_image n)\<rparr>)"
    "nid n = 1" "level n = 0" "buffer n = sort_entries []"
    "num_children n = of_nat (min (length ([] :: node_id list)) MAX_FANOUT)"
    "child_ids n = take MAX_FANOUT [] @ replicate (MAX_FANOUT - length ([] :: node_id list)) 0"
    "file_path n = ?p" "entries_loaded n" "bloom_covers n"
    "length (sort_entries ([] :: entry list)) < 2 ^ 30 \<longrightarrow> pred_option bloom_fits (bloom_of n)"
    "krange n = buffer_range (sort_entries [])" by blast
  let ?d1 = "d\<lparr>files := (files d)(tmp_of ?p := None, ?p \<mapsto> node_image n)\<rparr>"
  define m where "m = set_root 1 (register_node 1 0 ?p ((new_manifest ?dir)\<lparr>next_id := 2\<rparr>))"
  define t where "t = (new_tree os d)\<lparr>t_manifest := m, cache := [(1, n)],
    tdisk := ?d1\<lparr>files := (files ?d1)(manifest_tmp_path m := None, manifest_path m \<mapsto> manifest_text m)\<rparr>\<rparr>"
  have load: "manifest_load (new_manifest ?dir) d = Inr (new_manifest ?dir)"
    using assms(1) by (simp add: manifest_load_def manifest_path_def new_manifest_def)
  have "tree_open os d = (Inr (), t)"
    using c(1,7) load assms(2)
    by (simp add: tree_open_def new_tree_def ensure_root_def new_manifest_def [of ?dir] INVALID_NODE_ID_def Let_def
        bind_def alloc_id_def next_node_id_def create_in_def on_disk_def on_manifest_def modify_def
        save_manifest_def manifest_save_def put_node_def t_def m_def)
  moreover have "t_manifest t = m" "opts t = os" "cache t = [(1, n)]" "write_buf t = sl_new" "seq t = 1"
    "\<forall>p. openable (tdisk t) p"
    using assms(2) by (simp_all add: t_def new_tree_def)
  moreover have "m_dir m = ?dir" by (simp add: m_def set_root_def register_node_def new_manifest_def)
  then have "files (tdisk t) ?p = Some (node_image n)" "files (tdisk t) (manifest_path m) = Some (manifest_text m)"
    using node_path_not_manifest [of m ?dir 1] by (simp_all add: t_def)
  ultimately show ?thesis
    using c(2-6,8-11) unfolding m_def by (intro exI [of _ n] exI [of _ t]) (simp add: sort_entries_def)
qed

lemma tree_open_fresh:
  assumes "files d (data_dir os @ lit ''/manifest'') = None" "\<forall>p. openable d p"
  shows "\<exists>t. tree_open os d = (Inr (), t) \<and> tree_inv t \<and> contents t = Map.empty \<and> seq t = 1 \<and>
    (\<forall>p. openable (tdisk t) p)"
proof -
  let ?p = "node_path_in (data_dir os) 1"
  define m where "m = set_root 1 (register_node 1 0 ?p ((new_manifest (data_dir os))\<lparr>next_id := 2\<rparr>))"
  from tree_open_state [OF assms] obtain n t where
    t: "tree_open os d = (Inr (), t)" "t_manifest t = m" "opts t = os" "cache t = [(1, n)]"
      "write_buf t = sl_new" "seq t = 1" "\<forall>p. openable (tdisk t) p"
    and n: "nid n = 1" "level n = 0" "buffer n = []" "bloom_covers n" unfolding m_def by blast
  have "node_path m j = (if j = 1 then Inr ?p else Inl (Unknown_node j))" for j
    by (simp add: m_def set_root_def node_path_def register_node_def new_manifest_def)
  then have view: "node_view t = (\<lambda>j. if j = 1 then Inr n else Inl (Unknown_node j))"
    and std: "std_paths t"
    by (auto simp: node_view_def std_paths_def t(2-4) fun_eq_iff m_def set_root_def new_manifest_def)
  have root: "root_id (t_manifest t) = 1" by (simp add: t(2) m_def set_root_def)
  have sane: "node_sane n" using n(3,4) by (auto simp: node_sane_def bloom_covers_def)
  have "subtree (node_view t) 1"
    by (rule subtree.leaf [of _ _ n]) (simp_all add: view is_leaf_def n(2))
  then have "tree_inv t"
    using n sane root std view t(5) skip_buffer.inv_fresh by (simp add: tree_inv_def fresh_seq_def split: if_splits)
  moreover have "contents t k = None" for k
  proof -
    obtain f where f: "FUEL = Suc f" using level_fuel [of n] by (cases FUEL) auto
    have "path_view (Suc f) (node_view t) k 1 [] = Inr [1]" by (simp add: view is_leaf_def n(2))
    then have "disk_get FUEL (node_view t) 1 k = search_view (node_view t) k [1]"
      unfolding disk_get_def f by (simp only: bind_res_simps)
    also have "\<dots> = Inr None"
      using search_root [of "node_view t" 1 n k "[]"] sane n(3) by (simp add: view del: bind_res_eq_Inr)
    finally show ?thesis
      using skip_buffer.inv_fresh by (simp add: contents_def view_get_def root t(5))
  qed
  ultimately show ?thesis using t(1,6,7) by blast
qed

subsection \<open>The contract of a key-value store\<close>

text \<open>
  A client issues commands; the specification is a map. The locale asks that each command keeps the
  invariant and acts on the contents as on the map, as long as there is room for its sequence number;
  the client's theorem is that any run does.
\<close>

datatype command = Put bytes bytes | Del bytes | Get bytes | Flush

fun apply_command :: "command \<Rightarrow> (bytes \<rightharpoonup> bytes) \<Rightarrow> (bytes \<rightharpoonup> bytes)" where
  "apply_command (Put k v) s = s(k \<mapsto> v)"
| "apply_command (Del k) s = s(k := None)"
| "apply_command (Get k) s = s"
| "apply_command Flush s = s"

locale kv_store =
  fixes inv :: "'s \<Rightarrow> bool"
    and contents_of :: "'s \<Rightarrow> bytes \<rightharpoonup> bytes"
    and run :: "command \<Rightarrow> 's \<Rightarrow> 's"
    and room :: "'s \<Rightarrow> nat"
  assumes run_ok: "inv s \<Longrightarrow> 0 < room s \<Longrightarrow>
    inv (run c s) \<and> contents_of (run c s) = apply_command c (contents_of s) \<and> room s \<le> Suc (room (run c s))"
begin

lemma run_all:
  "inv s \<Longrightarrow> length cs \<le> room s \<Longrightarrow>
     inv (fold run cs s) \<and> contents_of (fold run cs s) = fold apply_command cs (contents_of s)"
proof (induction cs arbitrary: s)
  case (Cons c cs)
  then have s: "inv (run c s)" "contents_of (run c s) = apply_command c (contents_of s)"
    "room s \<le> Suc (room (run c s))" using run_ok [of s c] by auto
  then have "length cs \<le> room (run c s)" using Cons.prems(2) by simp
  from Cons.IH [OF s(1) this] s(2) show ?case by simp
qed simp

end

fun run_command :: "command \<Rightarrow> tree \<Rightarrow> tree" where
  "run_command (Put k v) t = snd (tree_insert k v t)"
| "run_command (Del k) t = snd (tree_remove k t)"
| "run_command (Get k) t = snd (tree_get FUEL k t)"
| "run_command Flush t = snd (tree_flush t)"

definition seq_room :: "tree \<Rightarrow> nat" where
  "seq_room t = 2 ^ 64 - 1 - unat (seq t)"

lemma seq_room_pos: "0 < seq_room t \<Longrightarrow> seq t \<noteq> - 1 \<and> seq_room t = Suc (2 ^ 64 - 1 - unat (seq t + 1))"
proof -
  assume *: "0 < seq_room t"
  then have "seq t \<noteq> - 1" by (auto simp: seq_room_def unsigned_minus_1_eq_mask mask_eq_exp_minus_1)
  then have "1 + seq t \<noteq> 0" by (metis add_eq_0_iff minus_equation_iff)
  then have "unat (seq t + 1) = Suc (unat (seq t))" using unatSuc [of "seq t"] by (simp add: add.commute)
  with * \<open>seq t \<noteq> - 1\<close> show ?thesis by (simp add: seq_room_def)
qed

interpretation gravtree: kv_store tree_inv contents run_command seq_room
proof unfold_locales
  fix t c
  assume inv: "tree_inv t" and "0 < seq_room t"
  then have room: "seq t \<noteq> - 1" "seq_room t = Suc (2 ^ 64 - 1 - unat (seq t + 1))"
    using seq_room_pos by auto
  show "tree_inv (run_command c t) \<and> contents (run_command c t) = apply_command c (contents t) \<and>
      seq_room t \<le> Suc (seq_room (run_command c t))"
  proof (cases c)
    case (Put k v)
    from tree_inv_write [OF inv room(1), of k v False] Put room(2) show ?thesis
      by (auto simp: tree_insert_def seq_room_def)
  next
    case (Del k)
    from tree_inv_write [OF inv room(1), of k "[]" True] Del room(2) show ?thesis
      by (auto simp: tree_remove_def seq_room_def)
  next
    case (Get k)
    from tree_get_contents [OF inv, of k] obtain t' where
      t': "tree_get FUEL k t = (Inr (contents t k), t')" "same_but_cache t t'" by blast
    with tree_inv_cache [OF inv t'(2)] same_but_cache_sel(6) [OF t'(2)] Get show ?thesis
      by (simp add: seq_room_def)
  next
    case Flush
    from tree_flush_ok [OF inv] Flush show ?thesis by (auto simp: seq_room_def)
  qed
qed

subsection \<open>Scanning\<close>

lemma update_same: "map_of al k = Some v \<Longrightarrow> AList.update k v al = al"
  by (induction al) (auto split: if_splits)

lemma scan_cache_loaded:
  assumes "\<forall>i\<in>set is. \<exists>n. map_of (cache t) i = Some n \<and> entries_loaded n"
  shows "scan_cache lo hi is acc t =
    (Inr (acc @ concat (map (\<lambda>i. filter (in_scan lo hi) (buffer (the (map_of (cache t) i)))) is)), t)"
  using assms
proof (induction "is" arbitrary: acc)
  case (Cons i "is")
  then obtain n where "map_of (cache t) i = Some n" "entries_loaded n" by auto
  with Cons show ?case by (simp add: bind_def run_on_def load_entries_def update_same)
qed (simp add: exec_simps)

lemma scan_result_live: "\<forall>e\<in>set es. \<not> deleted e \<Longrightarrow> scan_result acc es = dedupe_loop acc es"
  by (induction es arbitrary: acc) auto

lemma scan_result_sort:
  assumes "\<forall>e\<in>set es. \<not> deleted e"
  shows "scan_result [] (stable_sort entry_less es) = sort_entries es"
proof -
  have "scan_result [] (stable_sort entry_less es) = dedupe_loop [] (stable_sort entry_less es)"
    by (rule scan_result_live) (use assms in simp)
  moreover have "dedupe_loop [] xs = xs" if "length xs \<le> 1" for xs using that by (cases xs) auto
  ultimately show ?thesis by (auto simp: sort_entries_def Let_def)
qed

text \<open>All the entries a scan looks at.\<close>

definition scan_entries :: "tree \<Rightarrow> entry list" where
  "scan_entries t = sl_entries (write_buf t) @ concat (map (buffer \<circ> snd) (cache t))"

lemma range_scan_collect:
  assumes "sl_wf (write_buf t)" "distinct (map fst (cache t))" "\<forall>(i, n)\<in>set (cache t). entries_loaded n"
  shows "range_scan lo hi t =
    (Inr (scan_result [] (stable_sort entry_less (filter (in_scan lo hi) (scan_entries t)))), t)"
proof -
  have hit: "map_of (cache t) i = Some n" if "(i, n) \<in> set (cache t)" for i n
    using that assms(2) by simp
  have loaded: "\<forall>i\<in>set (map fst (cache t)). \<exists>n. map_of (cache t) i = Some n \<and> entries_loaded n"
    using hit assms(3) by fastforce
  have eq: "map (\<lambda>x. filter (in_scan lo hi) (buffer (the (map_of (cache t) (fst x))))) (cache t) =
      map (\<lambda>x. filter (in_scan lo hi) (buffer (snd x))) (cache t)"
    using hit by auto
  show ?thesis
    by (simp add: range_scan_def iterate_wf [OF assms(1)] bind_def scan_cache_loaded [OF loaded]
        scan_entries_def ret_def filter_concat comp_def eq del: map_eq_conv)
qed

subsection \<open>Properties\<close>

text \<open>A small store for the concrete instances below.\<close>

definition demo_options :: options where
  "demo_options = \<lparr>data_dir = lit ''d'', buffer_threshold = 100, hard_limit_factor = FD 2 0, fanout = 8,
     max_height = 6, bloom_fpr = FD 1 0\<rparr>"

definition demo_disk :: disk where
  "demo_disk = \<lparr>files = Map.empty, openable = (\<lambda>_. True)\<rparr>"

lemma demo_disk_sel [simp]: "files demo_disk p = None" "openable demo_disk p"
  by (simp_all add: demo_disk_def)

text \<open>
  The store is a map. Open a store on an empty directory that can be written, run any sequence
  of insert, remove, get and flush calls: no operation corrupts the tree, and afterwards \<^verbatim>\<open>get\<close>
  returns for every key what the same sequence leaves in a map.
\<close>

lemma store_implements_map:
  assumes "files d (data_dir os @ lit ''/manifest'') = None" and "\<forall>p. openable d p"
    and "length cs < 2 ^ 64 - 1"
  shows "\<exists>t. tree_open os d = (Inr (), t) \<and> tree_inv (fold run_command cs t) \<and>
    fst (tree_get FUEL k (fold run_command cs t)) = Inr (fold apply_command cs Map.empty k)"
proof -
  from tree_open_fresh [OF assms(1,2)] obtain t where
    t: "tree_open os d = (Inr (), t)" "tree_inv t" "contents t = Map.empty" "seq t = 1" by blast
  have "length cs \<le> seq_room t" using assms(3) t(4) by (simp add: seq_room_def)
  from gravtree.run_all [OF t(2) this] t(3) have
    r: "tree_inv (fold run_command cs t)" "contents (fold run_command cs t) = fold apply_command cs Map.empty"
    by simp_all
  from tree_get_contents [OF r(1), of k] r t(1) show ?thesis by auto
qed

text \<open>
  C11. Read your writes, on a tree of any shape: after \<^verbatim>\<open>insert\<close> a \<^verbatim>\<open>get\<close> of the key returns the
  value, after \<^verbatim>\<open>remove\<close> nothing, and every other key answers as before, errors included.
\<close>

theorem write_then_get:
  assumes "sl_wf (write_buf t)" and "fresh_seq t"
  shows "(\<exists>t'. tree_insert k v t = (Inr (), t') \<and> fst (tree_get fuel k t') = Inr (Some v) \<and>
      (\<forall>k'. k' \<noteq> k \<longrightarrow> fst (tree_get fuel k' t') = fst (tree_get fuel k' t))) \<and>
    (\<exists>t'. tree_remove k t = (Inr (), t') \<and> fst (tree_get fuel k t') = Inr None \<and>
      (\<forall>k'. k' \<noteq> k \<longrightarrow> fst (tree_get fuel k' t') = fst (tree_get fuel k' t)))"
proof
  from buffer_write_get [OF assms, of k v False fuel]
  show "\<exists>t'. tree_insert k v t = (Inr (), t') \<and> fst (tree_get fuel k t') = Inr (Some v) \<and>
      (\<forall>k'. k' \<noteq> k \<longrightarrow> fst (tree_get fuel k' t') = fst (tree_get fuel k' t))"
    unfolding tree_insert_def by auto
  from buffer_write_get [OF assms, of k "[]" True fuel]
  show "\<exists>t'. tree_remove k t = (Inr (), t') \<and> fst (tree_get fuel k t') = Inr None \<and>
      (\<forall>k'. k' \<noteq> k \<longrightarrow> fst (tree_get fuel k' t') = fst (tree_get fuel k' t))"
    unfolding tree_remove_def by auto
qed

theorem write_then_get_witness:
  "\<exists>t'. tree_insert [5] [6] (new_tree demo_options demo_disk) = (Inr (), t') \<and>
     fst (tree_get 1 [5] t') = Inr (Some [6])"
  using write_then_get [of "new_tree demo_options demo_disk" "[5]" "[6]" 1]
    skip_buffer.inv_fresh
  by (auto simp: new_tree_def fresh_seq_def)

text \<open>
  C9. \<^verbatim>\<open>flush\<close> on a tree that satisfies the invariant empties the write buffer, keeps the invariant
  and changes the answer of no \<^verbatim>\<open>get\<close>, whether or not the files could be written; with a writable
  directory it succeeds.
\<close>

theorem flush_preserves_contents:
  assumes "tree_inv t"
  shows "\<exists>r t'. tree_flush t = (r, t') \<and> tree_inv t' \<and> sl_entries (write_buf t') = [] \<and>
    (\<forall>k. fst (tree_get FUEL k t') = fst (tree_get FUEL k t)) \<and>
    ((\<forall>p. openable (tdisk t) p) \<longrightarrow> r = Inr ())"
proof -
  from tree_flush_ok [OF assms] obtain r t' where t': "tree_flush t = (r, t')" "tree_inv t'"
    "contents t' = contents t" "sl_entries (write_buf t') = []" "(\<forall>p. openable (tdisk t) p) \<longrightarrow> r = Inr ()"
    by blast
  have "fst (tree_get FUEL k t') = fst (tree_get FUEL k t)" for k
    using tree_get_contents [OF t'(2), of k] tree_get_contents [OF assms, of k] t'(3) by auto
  with t' show ?thesis by blast
qed

theorem flush_preserves_contents_witness:
  "\<exists>t r t'. tree_open demo_options demo_disk = (Inr (), t) \<and>
     tree_flush t = (r, t') \<and> tree_inv t' \<and> (\<forall>k. fst (tree_get FUEL k t') = fst (tree_get FUEL k t))"
proof -
  let ?os = "demo_options" and ?d = "demo_disk"
  obtain t where "tree_open ?os ?d = (Inr (), t)" "tree_inv t" using tree_open_fresh [of ?d ?os] by auto
  with flush_preserves_contents [of t] show ?thesis by blast
qed

text \<open>
  C12. Termination and shape of \<^verbatim>\<open>find_path\<close>: on a tree whose child pointers lead to lower levels the
  descent ends within as many steps as the root's level plus one, starting at the root and ending at
  a leaf, visiting strictly lower levels below the root, and touches nothing but the cache.
\<close>

theorem find_path_returns:
  assumes "subtree (node_view t) (root_id (t_manifest t))"
    and "node_view t (root_id (t_manifest t)) = Inr n" and "unat (level n) < fuel"
  shows "\<exists>rest m t'. find_path fuel k t = (Inr (root_id (t_manifest t) # rest), t') \<and>
    node_view t (last (root_id (t_manifest t) # rest)) = Inr m \<and> is_leaf m \<and>
    (\<forall>j\<in>set rest. \<exists>m. node_view t j = Inr m \<and> level m < level n) \<and>
    t' = t\<lparr>cache := cache t'\<rparr> \<and> node_view t' = node_view t"
proof -
  from path_view_total [OF assms, of k "[]"] obtain rest m where p:
    "path_view fuel (node_view t) k (root_id (t_manifest t)) [] = Inr ([] @ root_id (t_manifest t) # rest)"
    "node_view t (last (root_id (t_manifest t) # rest)) = Inr m" "is_leaf m"
    "\<forall>j\<in>set rest. \<exists>m. node_view t j = Inr m \<and> level m < level n" by metis
  from reads_as_path [of fuel k "root_id (t_manifest t)" "[]"] obtain t' where
    "find_path_loop fuel k (root_id (t_manifest t)) [] t =
      (path_view fuel (node_view t) k (root_id (t_manifest t)) [], t')" "same_but_cache t t'"
    unfolding reads_as_def by blast
  then have "find_path fuel k t = (Inr (root_id (t_manifest t) # rest), t')" "same_but_cache t t'"
    using p(1) by (simp_all add: find_path_def)
  moreover from this(2) have "t' = t\<lparr>cache := cache t'\<rparr>" "node_view t' = node_view t"
    by (auto simp: same_but_cache_def)
  ultimately show ?thesis using p(2-4) by blast
qed

theorem find_path_returns_witness:
  "\<exists>rest t'. find_path 1 [5] ((new_tree demo_options demo_disk)
     \<lparr>cache := [(0, default_node)]\<rparr>) = (Inr (0 # rest), t')"
proof -
  let ?t = "(new_tree demo_options demo_disk)
     \<lparr>cache := [(0, default_node)]\<rparr>"
  have r: "root_id (t_manifest ?t) = 0" by (simp add: new_tree_def new_manifest_def INVALID_NODE_ID_def)
  have v: "node_view ?t (root_id (t_manifest ?t)) = Inr default_node" unfolding r by (simp add: node_view_def)
  have "subtree (node_view ?t) (root_id (t_manifest ?t))"
    by (rule subtree.leaf [of "node_view ?t" "root_id (t_manifest ?t)" default_node])
      (use v in \<open>simp_all add: is_leaf_def default_node_def\<close>)
  from find_path_returns [OF this v, of 1 "[5]"] r show ?thesis by (auto simp: default_node_def)
qed

lemma newest_in_scan:
  "newest k (filter (in_scan lo hi) es) = (if lo \<le> k \<and> k \<le> hi then newest k es else None)"
proof -
  have "in_scan lo hi = (\<lambda>e. lo \<le> key e \<and> key e \<le> hi)" by (auto simp: in_scan_def fun_eq_iff)
  then show ?thesis using newest_filter_key [of "\<lambda>k. lo \<le> k \<and> k \<le> hi" k es]
      newest_None_iff [of k "filter (in_scan lo hi) es"] by auto
qed

text \<open>
  C38. \<^verbatim>\<open>range_scan\<close> over loaded nodes that hold no tombstone in the range: the result is strictly
  ordered by key and holds, for every key of the range, the newest version of all buffers, and
  nothing else; the state is unchanged.
\<close>

theorem range_scan_correct:
  assumes "sl_wf (write_buf t)" and "distinct (map fst (cache t))"
    and "\<forall>(i, n)\<in>set (cache t). entries_loaded n"
    and "\<forall>e\<in>set (scan_entries t). in_scan lo hi e \<longrightarrow> \<not> deleted e"
  shows "\<exists>es. range_scan lo hi t = (Inr es, t) \<and> keys_strict es \<and>
    (\<forall>k. find_key_in k es = (if lo \<le> k \<and> k \<le> hi then newest k (scan_entries t) else None))"
proof -
  let ?es = "filter (in_scan lo hi) (scan_entries t)"
  have "range_scan lo hi t = (Inr (sort_entries ?es), t)"
    using range_scan_collect [OF assms(1-3), of lo hi] scan_result_sort [of ?es] assms(4) by simp
  moreover have "find_key_in k (sort_entries ?es) =
      (if lo \<le> k \<and> k \<le> hi then newest k (scan_entries t) else None)" for k
    using newest_in_scan [of k lo hi "scan_entries t"] by simp
  ultimately show ?thesis using sort_entries_strict by blast
qed

theorem range_scan_correct_witness:
  "\<exists>es. range_scan [1] [4] ((new_tree demo_options demo_disk)
      \<lparr>cache := [(1, default_node\<lparr>entries_loaded := True, buffer := [probe [2], probe [9]]\<rparr>)]\<rparr>) =
     (Inr es, (new_tree demo_options demo_disk)
      \<lparr>cache := [(1, default_node\<lparr>entries_loaded := True, buffer := [probe [2], probe [9]]\<rparr>)]\<rparr>) \<and>
    find_key_in [2] es = Some (probe [2]) \<and> find_key_in [9] es = None"
proof -
  let ?t = "(new_tree demo_options demo_disk)
      \<lparr>cache := [(1, default_node\<lparr>entries_loaded := True, buffer := [probe [2], probe [9]]\<rparr>)]\<rparr>"
  have se: "scan_entries ?t = [probe [2], probe [9]]"
    using skip_buffer.inv_fresh by (simp add: scan_entries_def new_tree_def)
  have "sl_wf (write_buf ?t)" using skip_buffer.inv_fresh by (simp add: new_tree_def)
  from range_scan_correct [OF this, of "[1]" "[4]"] obtain es where
    "range_scan [1] [4] ?t = (Inr es, ?t)"
    "\<forall>k. find_key_in k es = (if [1] \<le> k \<and> k \<le> [4] then newest k (scan_entries ?t) else None)"
    unfolding se by (auto simp: probe_def)
  moreover have "newest [2] (scan_entries ?t) = Some (probe [2])" unfolding se by (simp add: probe_def)
  ultimately show ?thesis by auto
qed

text \<open>
  C33. A removed key reappears in \<^verbatim>\<open>range_scan\<close>: the tombstone is skipped without recording its key,
  so the version it hides is returned, while \<^verbatim>\<open>get\<close> correctly finds nothing. On a new tree, for
  every key and value, after insert and remove.
\<close>

theorem range_scan_resurrects:
  "\<exists>t1 t2. tree_insert k v (new_tree os d) = (Inr (), t1) \<and> tree_remove k t1 = (Inr (), t2) \<and>
     fst (tree_get fuel k t2) = Inr None \<and>
     range_scan k k t2 = (Inr [\<lparr>key = k, val = v, seq_no = 1, deleted = False\<rparr>], t2)"
proof -
  let ?t = "new_tree os d"
  let ?e1 = "\<lparr>key = k, val = v, seq_no = 1, deleted = False\<rparr>"
  let ?e2 = "\<lparr>key = k, val = [], seq_no = 2, deleted = True\<rparr>"
  have t: "sl_wf (write_buf ?t)" "sl_entries (write_buf ?t) = []" "seq ?t = 1" "cache ?t = []"
    using skip_buffer.inv_fresh by (simp_all add: new_tree_def)
  from buffer_write_ok [OF t(1), of k v False] t obtain t1 where
    t1: "buffer_write k v False ?t = (Inr (), t1)" "sl_wf (write_buf t1)" "sl_entries (write_buf t1) = [?e1]"
    "seq t1 = 2" "cache t1 = []" by auto
  have less: "entry_less ?e2 ?e1" "\<not> entry_less ?e1 ?e2" by (simp_all add: entry_less_def)
  from buffer_write_ok [OF t1(2), of k "[]" True] t1 less obtain t2 where
    t2: "buffer_write k [] True t1 = (Inr (), t2)" "sl_wf (write_buf t2)" "sl_entries (write_buf t2) = [?e2, ?e1]"
    "cache t2 = []" by auto
  have "fresh_seq t1" using t1(3,4) by (simp add: fresh_seq_def)
  from buffer_write_get [OF t1(2) this, of k "[]" True fuel] t2(1) have "fst (tree_get fuel k t2) = Inr None"
    by auto
  moreover have "range_scan k k t2 = (Inr [?e1], t2)"
    using range_scan_collect [OF t2(2), of k k] t2(3,4) less
    by (simp add: scan_entries_def in_scan_def)
  ultimately show ?thesis using t1(1) t2(1) by (auto simp: tree_insert_def tree_remove_def)
qed

end
