(* ===== verification/Tree_Maintenance.thy ===== *)
theory Tree_Maintenance
  imports Grav_Tree
begin

text \<open>
  The operations of \<^verbatim>\<open>src/tree.cpp\<close> that restructure the tree: \<^verbatim>\<open>path_to\<close>, \<^verbatim>\<open>insert_child\<close>,
  \<^verbatim>\<open>split_leaf\<close>, \<^verbatim>\<open>do_flush\<close>, \<^verbatim>\<open>maybe_flush\<close> and the body of one round of the flush thread. They
  run under the cache lock. Fuel bounds the recursion over the levels: \<^verbatim>\<open>path_to\<close> descends,
  \<^verbatim>\<open>insert_child\<close> climbs and \<^verbatim>\<open>do_flush\<close> descends one level per call.
\<close>

subsection \<open>path_to\<close>

fun search_children ::
  "(node_id \<Rightarrow> node_id list \<Rightarrow> (bool \<times> node_id list) action) \<Rightarrow> node_id list \<Rightarrow> node_id list \<Rightarrow>
     (bool \<times> node_id list) action" where
  "search_children f [] path = ret (False, path)"
| "search_children f (c # cs) path =
     bind (f c path) (\<lambda>(found, path'). if found then ret (True, path') else search_children f cs path')"

fun dfs :: "nat \<Rightarrow> node_id \<Rightarrow> node_id \<Rightarrow> node_id list \<Rightarrow> (bool \<times> node_id list) action" where
  "dfs 0 target i path = throw Out_of_fuel"
| "dfs (Suc fuel) target i path =
     (if i = target then ret (True, path @ [i])
      else bind (get_node i) (\<lambda>node.
        bind (lift_res (children_of node)) (\<lambda>cs.
          bind (search_children (dfs fuel target) cs (path @ [i])) (\<lambda>(found, path').
            if found then ret (True, path') else ret (False, butlast path')))))"

definition path_to :: "nat \<Rightarrow> node_id \<Rightarrow> node_id list action" where
  "path_to fuel target t =
     bind (dfs fuel target (root_id (t_manifest t)) []) (\<lambda>(found, path). ret path) t"

subsection \<open>insert_child\<close>

text \<open>The range of a node set to span its first and last child.\<close>

definition span_of :: "node_id list \<Rightarrow> (bytes \<times> bytes) action" where
  "span_of cs = bind (get_node (hd cs)) (\<lambda>f. bind (get_node (last cs)) (\<lambda>l.
     ret (min_key (krange f), max_key (krange l))))"

text \<open>The shift of the pointers behind position \<open>i\<close> and the two new pointers.\<close>

definition replace_child :: "nat \<Rightarrow> node_id \<Rightarrow> node_id \<Rightarrow> sst_node \<Rightarrow> sst_node" where
  "replace_child i l r n =
     (let nc = unat (num_children n); cs = child_ids n in
      n\<lparr>child_ids := take i cs @ [l, r] @ take (nc - i - 1) (drop (i + 1) cs) @ drop (nc + 1) cs,
        num_children := num_children n + 1\<rparr>)"

definition set_min :: "bytes \<Rightarrow> sst_node \<Rightarrow> sst_node" where
  "set_min mn n = n\<lparr>krange := (krange n)\<lparr>min_key := mn\<rparr>\<rparr>"

definition set_max :: "bytes \<Rightarrow> sst_node \<Rightarrow> sst_node" where
  "set_max mx n = n\<lparr>krange := (krange n)\<lparr>max_key := mx\<rparr>\<rparr>"

text \<open>The lower bound is set before the last child is fetched.\<close>

definition finish_parent :: "node_id \<Rightarrow> unit action" where
  "finish_parent pid =
     bind (get_node pid) (\<lambda>parent.
     bind (lift_res (children_of parent)) (\<lambda>cs.
     bind (if cs \<noteq> [] then
             bind (get_node (hd cs)) (\<lambda>f. bind (upd_node pid (set_min (min_key (krange f)))) (\<lambda>_.
             bind (get_node (last cs)) (\<lambda>l. upd_node pid (set_max (max_key (krange l))))))
           else ret ()) (\<lambda>_. flush_and_register pid)))"

fun index_of :: "node_id \<Rightarrow> node_id list \<Rightarrow> nat option" where
  "index_of x [] = None"
| "index_of x (y # ys) = (if y = x then Some 0 else map_option Suc (index_of x ys))"

definition new_root_over :: "u32 \<Rightarrow> node_id \<Rightarrow> node_id \<Rightarrow> sst_node \<Rightarrow> sst_node \<Rightarrow> unit action" where
  "new_root_over lvl lid rid lnode rnode =
     bind alloc_id (\<lambda>new_root_id.
     bind (create_in new_root_id lvl [] [lid, rid]) (\<lambda>n0.
     bind (flush_local (set_range (min_key (krange lnode)) (max_key (krange rnode)) n0)) (\<lambda>new_root.
     bind (on_manifest (\<lambda>m. set_root new_root_id (register_node new_root_id lvl (file_path new_root) m))) (\<lambda>_.
       put_node new_root_id new_root))))"

text \<open>The two halves of a full parent, written to disk with the spans of their children.\<close>

definition create_halves :: "u32 \<Rightarrow> entry list \<Rightarrow> node_id list \<Rightarrow> node_id list \<Rightarrow> (sst_node \<times> sst_node) action" where
  "create_halves plevel pbuf lk rk =
     bind (get_node (hd rk)) (\<lambda>rfirst.
     let right_min = min_key (krange rfirst) in
     bind alloc_id (\<lambda>lid2. bind alloc_id (\<lambda>rid2.
     bind (create_in lid2 plevel (filter (\<lambda>e. key e < right_min) pbuf) lk) (\<lambda>ln0.
     bind (create_in rid2 plevel (filter (\<lambda>e. \<not> key e < right_min) pbuf) rk) (\<lambda>rn0.
     bind (span_of lk) (\<lambda>(lmn, lmx). bind (span_of rk) (\<lambda>(rmn, rmx).
     bind (flush_local (set_range lmn lmx ln0)) (\<lambda>lnode.
     bind (flush_local (set_range rmn rmx rn0)) (\<lambda>rnode. ret (lnode, rnode))))))))))"

fun insert_child :: "nat \<Rightarrow> node_id \<Rightarrow> node_id \<Rightarrow> node_id \<Rightarrow> node_id \<Rightarrow> unit action" where
  "insert_child 0 pid old l r = throw Out_of_fuel"
| "insert_child (Suc fuel) pid old l r =
     bind (get_node pid) (\<lambda>parent.
     bind (lift_res (children_of parent)) (\<lambda>kids.
       case index_of old kids of
         None \<Rightarrow> finish_parent pid
       | Some i \<Rightarrow>
           if length kids < MAX_FANOUT
           then bind (upd_node pid (replace_child i l r)) (\<lambda>_. finish_parent pid)
           else
             let kids' = take i kids @ [l, r] @ drop (i + 1) kids;
                 half = length kids' div 2
             in bind (create_halves (level parent) (buffer parent) (take half kids') (drop half kids')) (\<lambda>(lnode, rnode).
                bind (path_to fuel (nid parent)) (\<lambda>path.
                bind (on_manifest (invalidate_node (nid parent))) (\<lambda>_.
                bind (on_manifest (register_node (nid lnode) (level parent) (file_path lnode))) (\<lambda>_.
                bind (on_manifest (register_node (nid rnode) (level parent) (file_path rnode))) (\<lambda>_.
                bind (put_node (nid lnode) lnode) (\<lambda>_. bind (put_node (nid rnode) rnode) (\<lambda>_.
                bind (erase_node (nid parent)) (\<lambda>_.
                bind (if length path = 1 then new_root_over (level parent + 1) (nid lnode) (nid rnode) lnode rnode
                      else if length path < 2 then throw Undefined_behaviour
                      else insert_child fuel (path ! (length path - 2)) (nid parent) (nid lnode) (nid rnode)) (\<lambda>_.
                bind save_manifest (\<lambda>_. gc_manifest))))))))))))"

subsection \<open>split_leaf\<close>

text \<open>The two new leaves take the place of the old one in manifest and cache.\<close>

definition halve_leaf :: "node_id \<Rightarrow> entry list \<Rightarrow> entry list \<Rightarrow> (sst_node \<times> sst_node) action" where
  "halve_leaf leaf_id left_entries right_entries =
     bind alloc_id (\<lambda>left_id. bind alloc_id (\<lambda>right_id.
     bind (create_in left_id 0 left_entries []) (\<lambda>left_node.
     bind (create_in right_id 0 right_entries []) (\<lambda>right_node.
     bind (on_manifest (register_node left_id 0 (file_path left_node))) (\<lambda>_.
     bind (on_manifest (register_node right_id 0 (file_path right_node))) (\<lambda>_.
     bind (on_manifest (invalidate_node leaf_id)) (\<lambda>_.
     bind (modify (\<lambda>t. t\<lparr>split_ops := split_ops t + 1\<rparr>)) (\<lambda>_.
     bind (put_node left_id left_node) (\<lambda>_. bind (put_node right_id right_node) (\<lambda>_.
     bind (erase_node leaf_id) (\<lambda>_. ret (left_node, right_node))))))))))))"

definition split_leaf :: "nat \<Rightarrow> node_id \<Rightarrow> node_id list \<Rightarrow> unit action" where
  "split_leaf fuel leaf_id path =
     bind (get_node leaf_id) (\<lambda>_.
     bind (upd_node leaf_id (\<lambda>n. n\<lparr>buffer := stable_sort entry_less (buffer n)\<rparr>)) (\<lambda>_.
     bind (get_node leaf_id) (\<lambda>leaf.
     let mid = length (buffer leaf) div 2 in
     if buffer leaf = [] then throw Undefined_behaviour else
     bind (halve_leaf leaf_id (take mid (buffer leaf)) (drop mid (buffer leaf))) (\<lambda>(lnode, rnode).
     bind (if length path = 1 then new_root_over 1 (nid lnode) (nid rnode) lnode rnode
           else if length path < 2 then throw Undefined_behaviour
           else insert_child fuel (path ! (length path - 2)) leaf_id (nid lnode) (nid rnode)) (\<lambda>_.
     bind save_manifest (\<lambda>_. gc_manifest))))))"

subsection \<open>do_flush\<close>

fun copy_children :: "node_id list \<Rightarrow> sst_node list action" where
  "copy_children [] = ret []"
| "copy_children (c # cs) =
     bind (get_node c) (\<lambda>_.
     bind (run_on c (\<lambda>(n, d). case load_entries d n of Inl e \<Rightarrow> (Inl e, (n, d)) | Inr n' \<Rightarrow> (Inr n', (n', d)))) (\<lambda>n.
     bind (lift_res (copy_node n)) (\<lambda>n'.
     bind (copy_children cs) (\<lambda>ns. ret (n' # ns)))))"

definition run_local_flush :: "node_id \<Rightarrow> sst_node list \<Rightarrow> (flush_result \<times> sst_node list) action" where
  "run_local_flush pid cs t =
     (case map_of (cache t) pid of
        None \<Rightarrow> (Inl Undefined_behaviour, t)
      | Some parent \<Rightarrow>
          (case local_flush (data_dir (opts t))
                  \<lparr>fl_parent = parent, fl_children = cs, fl_manifest = t_manifest t, fl_disk = tdisk t\<rparr> of
             (r, st) \<Rightarrow>
               (map_sum (\<lambda>e. e) (\<lambda>res. (res, fl_children st)) r,
                t\<lparr>cache := AList.update pid (fl_parent st) (cache t), t_manifest := fl_manifest st,
                  tdisk := fl_disk st\<rparr>)))"

definition update_pointers :: "flush_result \<Rightarrow> sst_node \<Rightarrow> sst_node" where
  "update_pointers res n = n\<lparr>child_ids :=
     map (\<lambda>i. if i < unat (num_children n) \<and> child_ids n ! i \<in> set (old_child_ids res)
              then new_child_ids res ! i else child_ids n ! i) [0..<length (child_ids n)]\<rparr>"

definition widen :: "bytes \<Rightarrow> bytes \<Rightarrow> sst_node \<Rightarrow> sst_node" where
  "widen cmin cmax n =
     (let r = krange n in
      set_range (if min_key r = [] \<or> cmin < min_key r then cmin else min_key r)
                (if max_key r = [] \<or> cmax > max_key r then cmax else max_key r) n)"

definition refresh_child :: "nat \<Rightarrow> flush_result \<Rightarrow> sst_node \<Rightarrow> unit action" where
  "refresh_child i res c =
     bind (if i < length (old_child_ids res) then erase_node (old_child_ids res ! i) else ret ()) (\<lambda>_.
     bind (lift_res (children_of c)) (\<lambda>gs.
     bind (if gs \<noteq> [] then
             bind (span_of gs) (\<lambda>(cmin, cmax).
             bind (flush_local (widen cmin cmax c)) (\<lambda>c'.
             bind (on_manifest (register_node (nid c') (level c') (file_path c'))) (\<lambda>_. ret c')))
           else ret c) (\<lambda>c'. put_node (nid c') c')))"

fun refresh_children :: "nat \<Rightarrow> flush_result \<Rightarrow> sst_node list \<Rightarrow> unit action" where
  "refresh_children i res [] = ret ()"
| "refresh_children i res (c # cs) =
     bind (refresh_child i res c) (\<lambda>_. refresh_children (i + 1) res cs)"

text \<open>The last loop of \<^verbatim>\<open>do_flush\<close>; \<open>split\<close> and \<open>flush_child_node\<close> are the two ways on.\<close>

fun check_overflow :: "(node_id \<Rightarrow> unit action) \<Rightarrow> (node_id \<Rightarrow> unit action) \<Rightarrow> node_id list \<Rightarrow> unit action" where
  "check_overflow split flush_child_node [] = ret ()"
| "check_overflow split flush_child_node (cid # cids) =
     bind (\<lambda>t. case map_of (cache t) cid of
         None \<Rightarrow> (Inr (), t)
       | Some child \<Rightarrow>
           if \<not> buffer_full child then (Inr (), t)
           else if is_leaf child \<and> num_children child = 0 then split cid t
           else if num_children child > 0 then flush_child_node cid t
           else (Inr (), t))
       (\<lambda>_. check_overflow split flush_child_node cids)"

text \<open>
  The first part of \<^verbatim>\<open>do_flush\<close>, up to the rewritten parent file. The manifest on disk still is the
  one from before.
\<close>

definition push_to_children :: "node_id \<Rightarrow> flush_result action" where
  "push_to_children pid =
     bind (get_node pid) (\<lambda>parent.
     bind (lift_res (children_of parent)) (\<lambda>kids.
     bind (copy_children kids) (\<lambda>copies.
     bind (run_local_flush pid copies) (\<lambda>(res, cs).
     bind (modify (\<lambda>t. t\<lparr>flush_ops := flush_ops t + 1\<rparr>)) (\<lambda>_.
     bind (upd_node pid (update_pointers res)) (\<lambda>_.
     bind (refresh_children 0 res cs) (\<lambda>_.
     bind (upd_node pid (\<lambda>n. n\<lparr>buffer := []\<rparr>)) (\<lambda>_.
     bind (finish_parent pid) (\<lambda>_. ret res)))))))))"

fun do_flush :: "nat \<Rightarrow> node_id \<Rightarrow> unit action" where
  "do_flush 0 pid = throw Out_of_fuel"
| "do_flush (Suc fuel) pid =
     bind (push_to_children pid) (\<lambda>res.
     bind save_manifest (\<lambda>_.
     bind gc_manifest (\<lambda>_.
       check_overflow (\<lambda>cid. split_leaf fuel cid [pid, cid]) (do_flush fuel) (new_child_ids res))))"

definition maybe_flush :: "nat \<Rightarrow> node_id \<Rightarrow> node_id list \<Rightarrow> unit action" where
  "maybe_flush fuel i path =
     bind (get_node i) (\<lambda>node.
       if \<not> buffer_full node then ret ()
       else if is_leaf node \<and> num_children node = 0 then split_leaf fuel i path
       else if num_children node > 0 then do_flush fuel i else ret ())"

subsection \<open>One round of the flush thread\<close>

text \<open>
  The part of \<^verbatim>\<open>flush_thread_fn\<close> between \<^verbatim>\<open>try\<close> and \<^verbatim>\<open>catch\<close> that holds the cache lock; the
  buffer was drained before.
\<close>

definition flush_round :: "nat \<Rightarrow> entry list \<Rightarrow> unit action" where
  "flush_round fuel pending t =
     (let rid = root_id (t_manifest t) in
      bind (merge_into_root pending) (\<lambda>rt.
      bind (if buffer_full rt then
              (if is_leaf rt \<and> num_children rt = 0 then
                 bind (find_path fuel (if buffer rt = [] then [] else key (hd (buffer rt)))) (split_leaf fuel rid)
               else if num_children rt > 0 then do_flush fuel rid else ret ())
            else ret ()) (\<lambda>_.
      modify (\<lambda>t. t\<lparr>root_buf_bytes := sl_bytes (write_buf t)\<rparr>))) t)"

end
