(* ===== verification/Tree_Shape.thy ===== *)
theory Tree_Shape
  imports Tree_Operations Tree_Maintenance
begin

text \<open>
  The shape of a tree of nodes and what a search finds in it. \<open>lookup\<close> follows a key down the
  levels, \<open>separated\<close> says that the smallest keys of the children divide the keys between them,
  \<open>gtree\<close> is the invariant of a tree of a given height. The forward scan of \<^verbatim>\<open>find_path\<close> is shown
  to choose the same child as the backward scan of \<open>partition_entries\<close>; that is what lets an
  entry pushed down by a flush be found again.
\<close>

subsection \<open>Routing forward and backward\<close>

definition scan_forth :: "bytes list \<Rightarrow> bytes \<Rightarrow> nat" where
  "scan_forth mins k = length (takeWhile (\<lambda>m. m \<le> k) mins) - 1"

interpretation forth_routing: key_routing scan_forth
proof unfold_locales
  fix mins :: "bytes list" and k
  show "scan_forth mins k < length mins" if "mins \<noteq> []"
    using that length_takeWhile_le [of "\<lambda>m. m \<le> k" mins] by (cases mins) (auto simp: scan_forth_def)
  show "mins ! scan_forth mins k \<le> k" if "scan_forth mins k > 0"
  proof -
    let ?p = "takeWhile (\<lambda>m. m \<le> k) mins"
    have "scan_forth mins k < length ?p" using that by (simp add: scan_forth_def)
    then have "?p ! scan_forth mins k \<in> set ?p" "?p ! scan_forth mins k = mins ! scan_forth mins k"
      using nth_mem by (blast, simp add: takeWhile_nth)
    then show ?thesis by (metis set_takeWhileD)
  qed
  show "k < mins ! j" if "sorted mins" "scan_forth mins k < j" "j < length mins" for j
  proof -
    let ?n = "length (takeWhile (\<lambda>m. m \<le> k) mins)"
    have "?n \<le> j" using that(2) by (simp add: scan_forth_def)
    then have "\<not> mins ! ?n \<le> k" using that(3) by (intro nth_length_takeWhile) simp
    moreover have "mins ! ?n \<le> mins ! j" using that(1,3) \<open>?n \<le> j\<close> by (simp add: sorted_nth_mono)
    ultimately show ?thesis by simp
  qed
qed

lemma scan_forth_back:
  assumes "sorted mins" shows "scan_forth mins k = scan_back mins k (length mins)"
proof (cases "mins = []")
  case False
  with assms show ?thesis
    using back_routing.pick_bound [of mins k] back_routing.pick_lower [of mins k] back_routing.pick_upper [of mins k]
    by (intro forth_routing.pick_unique) auto
qed (simp add: scan_forth_def)

text \<open>The nodes of a view, their children and their lower bounds.\<close>

type_synonym view = "node_id \<Rightarrow> sst_node res"

definition the_node :: "view \<Rightarrow> node_id \<Rightarrow> sst_node" where
  "the_node v i = (case v i of Inl e \<Rightarrow> default_node | Inr n \<Rightarrow> n)"

lemma the_node_Inr [simp]: "v i = Inr n \<Longrightarrow> the_node v i = n"
  by (simp add: the_node_def)

definition min_of :: "view \<Rightarrow> node_id \<Rightarrow> bytes" where
  "min_of v i = min_key (krange (the_node v i))"

definition kids :: "sst_node \<Rightarrow> node_id list" where
  "kids n = take (unat (num_children n)) (child_ids n)"

definition route :: "view \<Rightarrow> node_id list \<Rightarrow> bytes \<Rightarrow> nat" where
  "route v cs k = scan_back (map (min_of v) cs) k (length cs)"

lemma children_of_kids: "unat (num_children n) \<le> MAX_FANOUT \<Longrightarrow> children_of n = Inr (kids n)"
  by (simp add: children_of_def kids_def)

lemma hd_kids: "kids n \<noteq> [] \<Longrightarrow> child_ids n ! 0 = kids n ! 0"
  by (auto simp: kids_def)

lemma route_bound: "cs \<noteq> [] \<Longrightarrow> route v cs k < length cs"
  using back_routing.pick_bound [of "map (min_of v) cs" k] by (simp add: route_def)

lemma scan_view_forth:
  assumes "\<forall>c\<in>set cs. \<exists>m. v c = Inr m"
  shows "scan_view v k cs d = Inr (last (d # takeWhile (\<lambda>c. min_of v c \<le> k) cs))"
  using assms
proof (induction cs arbitrary: d)
  case (Cons c cs)
  then obtain m where "v c = Inr m" by auto
  with Cons show ?case by (auto simp: min_of_def)
qed simp

lemma scan_view_route:
  assumes "\<forall>c\<in>set cs. \<exists>m. v c = Inr m" "sorted (map (min_of v) cs)" "cs \<noteq> []"
  shows "scan_view v k cs (cs ! 0) = Inr (cs ! route v cs k)"
proof -
  let ?p = "takeWhile (\<lambda>c. min_of v c \<le> k) cs"
  have "last (cs ! 0 # ?p) = cs ! (length ?p - 1)"
  proof (cases "?p = []")
    case False
    then have "last ?p = ?p ! (length ?p - 1)" by (simp add: last_conv_nth)
    also have "\<dots> = cs ! (length ?p - 1)" using False by (intro takeWhile_nth) simp
    finally show ?thesis using False by simp
  qed simp
  moreover have "length ?p - 1 = scan_forth (map (min_of v) cs) k"
    by (simp add: scan_forth_def takeWhile_map comp_def)
  ultimately show ?thesis
    using scan_view_forth [OF assms(1), of k "cs ! 0"] scan_forth_back [OF assms(2), of k]
    by (simp add: route_def)
qed

subsection \<open>Searching a tree\<close>

fun lookup :: "nat \<Rightarrow> view \<Rightarrow> node_id \<Rightarrow> bytes \<Rightarrow> entry option" where
  "lookup 0 v i k = newest k (buffer (the_node v i))"
| "lookup (Suc l) v i k =
     (case newest k (buffer (the_node v i)) of
        Some e \<Rightarrow> Some e
      | None \<Rightarrow> lookup l v (kids (the_node v i) ! route v (kids (the_node v i)) k) k)"

text \<open>
  \<open>separated mins f\<close>: the lower bounds are in order, none is the empty key (which the sources use
  for ``not set''), and what the \<open>j\<close>-th of the functions finds lies between its bound and the next.
\<close>

definition separated :: "bytes list \<Rightarrow> (nat \<Rightarrow> bytes \<Rightarrow> entry option) \<Rightarrow> bool" where
  "separated mins f \<longleftrightarrow> sorted mins \<and> [] \<notin> set mins \<and>
     (\<forall>j k. j < length mins \<longrightarrow> f j k \<noteq> None \<longrightarrow> mins ! j \<le> k \<and> (Suc j < length mins \<longrightarrow> k < mins ! Suc j))"

lemma separatedD:
  assumes "separated mins f"
  shows "sorted mins" "[] \<notin> set mins"
    "\<And>j k. j < length mins \<Longrightarrow> f j k \<noteq> None \<Longrightarrow> mins ! j \<le> k"
    "\<And>j k. Suc j < length mins \<Longrightarrow> f j k \<noteq> None \<Longrightarrow> k < mins ! Suc j"
  using assms unfolding separated_def by (blast, blast, blast, metis Suc_lessD)

text \<open>A key that some child knows is routed to that child, so at most one child knows it.\<close>

lemma separated_route:
  assumes "separated mins f" "j < length mins" "f j k \<noteq> None"
  shows "scan_back mins k (length mins) = j"
proof (rule back_routing.pick_unique [OF separatedD(1) [OF assms(1)] assms(2)])
  show "mins ! j \<le> k" using separatedD(3) [OF assms(1-3)] .
  fix i assume i: "j < i" "i < length mins"
  then have "k < mins ! Suc j" using separatedD(4) [OF assms(1) _ assms(3)] by simp
  also have "\<dots> \<le> mins ! i" using i separatedD(1) [OF assms(1)] by (intro sorted_nth_mono) simp_all
  finally show "k < mins ! i" .
qed

lemma separated_unique:
  assumes "separated mins f" "i < length mins" "i \<noteq> scan_back mins k (length mins)"
  shows "f i k = None"
  using separated_route [OF assms(1,2)] assms(3) by blast

definition sound_node :: "node_id \<Rightarrow> sst_node \<Rightarrow> bool" where
  "sound_node i n \<longleftrightarrow> nid n = i \<and> entries_loaded n \<and> unat (num_children n) \<le> MAX_FANOUT \<and>
     length (child_ids n) = MAX_FANOUT \<and> node_sane n \<and> pred_option bloom_fits (bloom_of n) \<and>
     [] \<notin> key ` set (buffer n)"

text \<open>Children of an inner node: a lower bound is not above that of the first grandchild.\<close>

definition low_bound :: "nat \<Rightarrow> view \<Rightarrow> node_id \<Rightarrow> bool" where
  "low_bound l v c \<longleftrightarrow> (0 < l \<longrightarrow> min_of v c \<le> min_of v (kids (the_node v c) ! 0))"

text \<open>The buffered version of a key is no older than what the children know.\<close>

definition layered :: "(bytes \<Rightarrow> entry option) \<Rightarrow> (bytes \<Rightarrow> entry option) \<Rightarrow> bool" where
  "layered upper lower \<longleftrightarrow>
     (\<forall>k e f. upper k = Some e \<longrightarrow> lower k = Some f \<longrightarrow> seq_no f \<le> seq_no e)"

fun gtree :: "nat \<Rightarrow> view \<Rightarrow> node_id \<Rightarrow> bool" where
  "gtree 0 v i \<longleftrightarrow> (\<exists>n. v i = Inr n \<and> sound_node i n \<and> level n = 0 \<and> num_children n = 0)"
| "gtree (Suc l) v i \<longleftrightarrow> (\<exists>n. v i = Inr n \<and> sound_node i n \<and> unat (level n) = Suc l \<and>
     kids n \<noteq> [] \<and> distinct (kids n) \<and> (\<forall>c\<in>set (kids n). gtree l v c \<and> low_bound l v c) \<and>
     separated (map (min_of v) (kids n)) (\<lambda>j. lookup l v (kids n ! j)) \<and>
     layered (\<lambda>k. newest k (buffer n)) (\<lambda>k. lookup l v (kids n ! route v (kids n) k) k))"

lemma gtree_node: "gtree l v i \<Longrightarrow> \<exists>n. v i = Inr n \<and> sound_node i n \<and> unat (level n) = l"
  by (cases l) auto

lemma gtree_SucE:
  assumes "gtree (Suc l) v i" "v i = Inr n"
  shows "sound_node i n" "unat (level n) = Suc l" "kids n \<noteq> []" "distinct (kids n)"
    "\<And>c. c \<in> set (kids n) \<Longrightarrow> gtree l v c" "\<And>c. c \<in> set (kids n) \<Longrightarrow> low_bound l v c"
    "separated (map (min_of v) (kids n)) (\<lambda>j. lookup l v (kids n ! j))"
    "layered (\<lambda>k. newest k (buffer n)) (\<lambda>k. lookup l v (kids n ! route v (kids n) k) k)"
  using assms by auto

lemma gtree_subtree: "gtree l v i \<Longrightarrow> subtree v i"
proof (induction l arbitrary: i)
  case 0
  then show ?case by (auto simp: is_leaf_def intro: subtree.leaf)
next
  case (Suc l)
  then obtain n where n: "v i = Inr n" by auto
  note t = gtree_SucE [OF Suc.prems n]
  show ?case
  proof (rule subtree.inner [of v i n "kids n", OF n])
    show "\<not> is_leaf n" using t(2) by (auto simp: is_leaf_def)
    show "children_of n = Inr (kids n)" using t(1) by (simp add: sound_node_def children_of_kids)
    fix c assume "c \<in> set (kids n)"
    then have c: "gtree l v c" by (rule t(5))
    then show "subtree v c" by (rule Suc.IH)
    from gtree_node [OF c] t(2) show "\<exists>m. v c = Inr m \<and> level m < level n"
      by (auto simp: word_less_nat_alt)
  qed (rule t(3))
qed

text \<open>On such a tree the search of \<^verbatim>\<open>get\<close> is \<open>lookup\<close>.\<close>

lemma gtree_search:
  assumes "gtree l v i"
  shows "\<exists>is. (\<forall>f acc. l < f \<longrightarrow> path_view f v k i acc = Inr (acc @ is)) \<and>
    search_view v k is = Inr (Option.bind (lookup l v i k) visible)"
  using assms
proof (induction l arbitrary: i)
  case 0
  then obtain n where n: "v i = Inr n" "sound_node i n" "level n = 0" by auto
  have "path_view f v k i acc = Inr (acc @ [i])" if "0 < f" for f acc
    using that n by (cases f) (simp_all add: is_leaf_def)
  moreover have "search_view v k [i] = Inr (Option.bind (lookup 0 v i k) visible)"
    using search_root [of v i n k "[]"] n by (auto simp: sound_node_def split: option.splits)
  ultimately show ?case by blast
next
  case (Suc l)
  then obtain n where n: "v i = Inr n" by auto
  note t = gtree_SucE [OF Suc.prems n]
  let ?j = "kids n ! route v (kids n) k"
  have j: "?j \<in> set (kids n)" using route_bound [OF t(3)] by simp
  from Suc.IH [OF t(5) [OF this]] obtain "is" where IH:
    "\<And>f acc. l < f \<Longrightarrow> path_view f v k ?j acc = Inr (acc @ is)"
    "search_view v k is = Inr (Option.bind (lookup l v ?j k) visible)" by blast
  have "\<forall>c\<in>set (kids n). \<exists>m. v c = Inr m" using t(5) gtree_node by blast
  then have scan: "scan_view v k (kids n) (child_ids n ! 0) = Inr ?j"
    using scan_view_route [of "kids n" v k] separatedD(1) [OF t(7)] t(3) hd_kids [OF t(3)] by simp
  have "path_view f v k i acc = Inr (acc @ i # is)" if "Suc l < f" for f acc
  proof -
    from that obtain f' where "f = Suc f'" "l < f'" by (cases f) auto
    with n scan IH(1) [of f' "acc @ [i]"] t(1,2) show ?thesis
      by (auto simp: is_leaf_def sound_node_def children_of_kids)
  qed
  moreover have "search_view v k (i # is) = Inr (Option.bind (lookup (Suc l) v i k) visible)"
    using search_root [of v i n k "is"] n IH(2) t(1) by (auto simp: sound_node_def split: option.splits)
  ultimately show ?case by blast
qed

lemma gtree_disk_get:
  assumes "gtree l v i"
  shows "disk_get FUEL v i k = Inr (Option.bind (lookup l v i k) visible)"
proof -
  obtain n where n: "v i = Inr n" "unat (level n) = l" using gtree_node [OF assms] by blast
  from gtree_search [OF assms, of k] obtain "is" where
    "l < FUEL \<longrightarrow> path_view FUEL v k i [] = Inr ([] @ is)"
    "search_view v k is = Inr (Option.bind (lookup l v i k) visible)" by blast
  then show ?thesis using level_fuel [of n] n(2) by (simp add: disk_get_def)
qed

text \<open>Only the nodes of the tree matter: those of lower levels and the node itself.\<close>

fun ids_of :: "nat \<Rightarrow> view \<Rightarrow> node_id \<Rightarrow> node_id set" where
  "ids_of 0 v i = {i}"
| "ids_of (Suc l) v i = insert i (\<Union>c\<in>set (kids (the_node v i)). ids_of l v c)"

lemma ids_of_self: "i \<in> ids_of l v i"
  by (cases l) auto

lemma kids_cong:
  assumes g: "\<forall>g\<in>set ks. gtree l v g" "\<forall>g\<in>set ks. low_bound l v g"
    and agree: "\<forall>g\<in>set ks. \<forall>j\<in>ids_of l v g. v' j = v j"
    and look: "\<forall>g\<in>set ks. lookup l v' g = lookup l v g"
  shows "map (min_of v') ks = map (min_of v) ks" "route v' ks k = route v ks k"
    "\<And>g. g \<in> set ks \<Longrightarrow> low_bound l v' g"
    "separated (map (min_of v) ks) (\<lambda>j. lookup l v (ks ! j)) \<Longrightarrow>
     separated (map (min_of v') ks) (\<lambda>j. lookup l v' (ks ! j))"
    "ks \<noteq> [] \<Longrightarrow> lookup l v' (ks ! route v' ks k) = lookup l v (ks ! route v ks k)"
proof -
  have node: "the_node v' g = the_node v g" "min_of v' g = min_of v g" if "g \<in> set ks" for g
    using agree that ids_of_self [of g l v] by (simp_all add: the_node_def min_of_def)
  then show mm: "map (min_of v') ks = map (min_of v) ks" by simp
  show route: "route v' ks k = route v ks k" by (simp only: route_def mm)
  show "low_bound l v' g" if g': "g \<in> set ks" for g
  proof (cases l)
    case (Suc l')
    have "kids (the_node v g) \<noteq> []" using g(1) g' Suc by auto
    then have "kids (the_node v g) ! 0 \<in> ids_of l v g" using ids_of_self Suc by (auto intro!: bexI)
    then have "v' (kids (the_node v g) ! 0) = v (kids (the_node v g) ! 0)" using agree g' by blast
    then show ?thesis using bspec [OF g(2) g'] node [OF g'] by (simp add: low_bound_def min_of_def the_node_def)
  qed (simp add: low_bound_def)
  show "separated (map (min_of v') ks) (\<lambda>j. lookup l v' (ks ! j))"
    if "separated (map (min_of v) ks) (\<lambda>j. lookup l v (ks ! j))"
    using that look unfolding mm separated_def by simp
  show "lookup l v' (ks ! route v' ks k) = lookup l v (ks ! route v ks k)" if "ks \<noteq> []"
    using route_bound [OF that, of v k] look route by simp
qed

lemma gtree_cong:
  assumes "gtree l v i" "\<And>j. j \<in> ids_of l v i \<Longrightarrow> v' j = v j"
  shows "lookup l v' i = lookup l v i \<and> gtree l v' i \<and> ids_of l v' i = ids_of l v i"
  using assms
proof (induction l arbitrary: i)
  case 0
  then have "v' i = v i" by simp
  with 0 show ?case by (auto simp: the_node_def fun_eq_iff)
next
  case (Suc l)
  obtain n where n: "v i = Inr n" using Suc.prems(1) by auto
  note t = gtree_SucE [OF Suc.prems(1) n]
  have n': "v' i = Inr n" using n Suc.prems(2) by simp
  have sub: "v' j = v j" if "c \<in> set (kids n)" "j \<in> ids_of l v c" for c j
    using that n Suc.prems(2) by auto
  have IH: "lookup l v' c = lookup l v c \<and> gtree l v' c \<and> ids_of l v' c = ids_of l v c"
    if "c \<in> set (kids n)" for c using that sub t(5) by (intro Suc.IH) auto
  have look: "\<forall>g\<in>set (kids n). lookup l v' g = lookup l v g" using IH by blast
  have pre: "\<forall>g\<in>set (kids n). gtree l v g" "\<forall>g\<in>set (kids n). low_bound l v g"
    "\<forall>g\<in>set (kids n). \<forall>j\<in>ids_of l v g. v' j = v j" using t(5,6) sub by auto
  note kc = kids_cong [OF pre look]
  have "layered (\<lambda>k. newest k (buffer n)) (\<lambda>k. lookup l v' (kids n ! route v' (kids n) k) k)"
    using t(8) kc(5) [OF t(3)] by simp
  then have "gtree (Suc l) v' i" using n' t(1-4) IH kc(3) kc(4) [OF t(7)] by auto
  moreover have "lookup (Suc l) v' i k = lookup (Suc l) v i k" for k
    using kc(5) [OF t(3)] by (simp add: n n' split: option.split)
  moreover have "ids_of (Suc l) v' i = ids_of (Suc l) v i" using IH by (simp add: n n')
  ultimately show ?case by blast
qed

subsection \<open>Pushing entries one level down\<close>

text \<open>What a search finds below the buffer of a node.\<close>

definition below :: "nat \<Rightarrow> view \<Rightarrow> node_id \<Rightarrow> bytes \<Rightarrow> entry option" where
  "below l v i k = (case l of 0 \<Rightarrow> None
     | Suc l' \<Rightarrow> lookup l' v (kids (the_node v i) ! route v (kids (the_node v i)) k) k)"

lemma lookup_below:
  "lookup l v i k = (case newest k (buffer (the_node v i)) of Some e \<Rightarrow> Some e | None \<Rightarrow> below l v i k)"
  by (cases l) (auto simp: below_def split: option.split)

lemma gtree_layered:
  "gtree l v i \<Longrightarrow> v i = Inr n \<Longrightarrow> layered (\<lambda>k. newest k (buffer n)) (below l v i)"
  by (cases l) (auto simp: below_def layered_def)

text \<open>A child that received \<open>part\<close>: a tree again, and its search sees \<open>part\<close> first.\<close>

lemma child_flushed:
  assumes c: "gtree l v c" "v c = Inr m" and c': "v' c' = Inr m'" "sound_node c' m'" "level m' = level m"
    "num_children m' = num_children m" "kids m' = kids m"
    and new: "\<And>k. newest k (buffer m') = newer (newest k part) (newest k (buffer m))"
    and lay: "layered (\<lambda>k. newest k part) (lookup l v c)"
    and agree: "\<And>g j. 0 < l \<Longrightarrow> g \<in> set (kids m) \<Longrightarrow> j \<in> ids_of (l - 1) v g \<Longrightarrow> v' j = v j"
  shows "gtree l v' c'" "lookup l v' c' k = (case newest k part of Some e \<Rightarrow> Some e | None \<Rightarrow> lookup l v c k)"
proof -
  have old: "layered (\<lambda>k. newest k (buffer m)) (below l v c)" by (rule gtree_layered [OF c])
  have top: "newest x (buffer m') = (case newest x part of Some e \<Rightarrow> Some e | None \<Rightarrow> newest x (buffer m))" for x
  proof (cases "newest x part"; cases "newest x (buffer m)")
    fix e f assume "newest x part = Some e" "newest x (buffer m) = Some f"
    then show ?thesis using lay c(2) new by (auto simp: layered_def lookup_below)
  qed (simp_all add: new)
  have lay': "layered (\<lambda>k. newest k (buffer m')) (below l v c)"
    unfolding layered_def
  proof (intro allI impI)
    fix x e f assume e: "newest x (buffer m') = Some e" and f: "below l v c x = Some f"
    show "seq_no f \<le> seq_no e"
    proof (cases "newest x part")
      case None
      with e f top old show ?thesis by (auto simp: layered_def)
    next
      case (Some p)
      then have p: "e = p" using e top by simp
      show ?thesis
      proof (cases "newest x (buffer m)")
        case None
        then have "lookup l v c x = Some f" using f c(2) by (simp add: lookup_below)
        with lay Some p show ?thesis by (auto simp: layered_def)
      next
        case (Some q)
        then have "lookup l v c x = Some q" "seq_no f \<le> seq_no q"
          using c(2) f old by (auto simp: lookup_below layered_def)
        with lay \<open>newest x part = Some p\<close> p show ?thesis by (auto simp: layered_def intro: order_trans)
      qed
    qed
  qed
  have same: "gtree l v' c' \<and> below l v' c' = below l v c"
  proof (cases l)
    case 0
    then show ?thesis using c c' by (auto simp: below_def fun_eq_iff)
  next
    case (Suc l')
    note t = gtree_SucE [OF c(1) [unfolded Suc] c(2)]
    have g: "lookup l' v' g = lookup l' v g \<and> gtree l' v' g \<and> ids_of l' v' g = ids_of l' v g"
      if "g \<in> set (kids m)" for g
      using that agree Suc t(5) by (intro gtree_cong) auto
    have sub: "v' j = v j" if "g \<in> set (kids m)" "j \<in> ids_of l' v g" for g j
      using agree [of g j] that Suc by simp
    have pre: "\<forall>g\<in>set (kids m). gtree l' v g" "\<forall>g\<in>set (kids m). low_bound l' v g"
      "\<forall>g\<in>set (kids m). \<forall>j\<in>ids_of l' v g. v' j = v j" "\<forall>g\<in>set (kids m). lookup l' v' g = lookup l' v g"
      using t(5,6) sub g by auto
    note kc = kids_cong [OF pre]
    have bel: "below l v' c' = below l v c"
      using c(2) c'(1,5) kc(5) [OF t(3)] by (auto simp: below_def Suc fun_eq_iff)
    have "layered (\<lambda>k. newest k (buffer m')) (\<lambda>k. lookup l' v' (kids m ! route v' (kids m) k) k)"
      using lay' bel c'(1,5) by (simp add: below_def Suc fun_eq_iff layered_def)
    moreover note kc(4) [OF t(7)]
    ultimately have "gtree l v' c'" using c' t(2-4) g kc(3) by (auto simp: Suc)
    with bel show ?thesis by blast
  qed
  then show "gtree l v' c'" by blast
  show "lookup l v' c' k = (case newest k part of Some e \<Rightarrow> Some e | None \<Rightarrow> lookup l v c k)"
    using c(2) c'(1) same top [of k] by (auto simp: lookup_below split: option.splits)
qed

text \<open>
  The flush of a node \<open>i\<close> into its children: the new children \<open>ks'\<close> stand for the old ones, each
  with the entries routed to it, and a lower bound that \<open>new_min\<close> describes; the buffer of \<open>i\<close> is
  empty. Nothing changes for a search.
\<close>

definition part_of :: "view \<Rightarrow> sst_node \<Rightarrow> nat \<Rightarrow> entry list" where
  "part_of v n j = filter (\<lambda>e. route v (kids n) (key e) = j) (buffer n)"

lemma newest_part_of:
  "newest k (part_of v n j) = (if route v (kids n) k = j then newest k (buffer n) else None)"
  using newest_filter_key [of "\<lambda>k. route v (kids n) k = j" k "buffer n"]
  by (auto simp: part_of_def newest_None_iff)

definition new_min :: "nat \<Rightarrow> view \<Rightarrow> sst_node \<Rightarrow> bytes" where
  "new_min l v m = (if l = 0 then key (hd (buffer m)) else min (key (hd (buffer m))) (min_of v (kids m ! 0)))"

definition flushed_down ::
  "nat \<Rightarrow> view \<Rightarrow> view \<Rightarrow> node_id \<Rightarrow> sst_node \<Rightarrow> sst_node \<Rightarrow> node_id list \<Rightarrow> bool" where
  "flushed_down l v v' i n n' ks' \<longleftrightarrow> gtree (Suc l) v i \<and> v i = Inr n \<and>
     v' i = Inr n' \<and> sound_node i n' \<and> level n' = level n \<and> buffer n' = [] \<and> kids n' = ks' \<and>
     length ks' = length (kids n) \<and> distinct ks' \<and>
     (\<forall>j m. j < length ks' \<longrightarrow> v (kids n ! j) = Inr m \<longrightarrow>
        (\<exists>m'. v' (ks' ! j) = Inr m' \<and> sound_node (ks' ! j) m' \<and> level m' = level m \<and>
          num_children m' = num_children m \<and> kids m' = kids m \<and>
          (\<forall>k. newest k (buffer m') = newer (newest k (part_of v n j)) (newest k (buffer m))) \<and>
          min_key (krange m') = (if part_of v n j = [] then min_key (krange m) else new_min l v m'))) \<and>
     (0 < l \<longrightarrow> (\<forall>c\<in>set (kids n). \<forall>g\<in>set (kids (the_node v c)). \<forall>j\<in>ids_of (l - 1) v g. v' j = v j))"

lemma flushed_downD:
  assumes "flushed_down l v v' i n n' ks'"
  shows "gtree (Suc l) v i" "v i = Inr n" "v' i = Inr n'" "sound_node i n'" "level n' = level n" "buffer n' = []"
    "kids n' = ks'" "length ks' = length (kids n)" "distinct ks'"
    "\<And>c g j. 0 < l \<Longrightarrow> c \<in> set (kids n) \<Longrightarrow> g \<in> set (kids (the_node v c)) \<Longrightarrow> j \<in> ids_of (l - 1) v g \<Longrightarrow> v' j = v j"
  using assms unfolding flushed_down_def by blast+

lemma flushed_down_child:
  assumes fd: "flushed_down l v v' i n n' ks'" and j: "j < length ks'"
  obtains m m' where "v (kids n ! j) = Inr m" "gtree l v (kids n ! j)" "v' (ks' ! j) = Inr m'"
    "sound_node (ks' ! j) m'" "level m' = level m" "num_children m' = num_children m" "kids m' = kids m"
    "\<And>k. newest k (buffer m') = newer (newest k (part_of v n j)) (newest k (buffer m))"
    "min_of v' (ks' ! j) = (if part_of v n j = [] then min_of v (kids n ! j) else new_min l v m')"
proof -
  note t = gtree_SucE [OF flushed_downD(1,2) [OF fd]]
  have c: "kids n ! j \<in> set (kids n)" using j flushed_downD(8) [OF fd] by simp
  from gtree_node [OF t(5) [OF c]] obtain m where m: "v (kids n ! j) = Inr m" by blast
  then obtain m' where "v' (ks' ! j) = Inr m'"
    "sound_node (ks' ! j) m'" "level m' = level m" "num_children m' = num_children m" "kids m' = kids m"
    "\<And>k. newest k (buffer m') = newer (newest k (part_of v n j)) (newest k (buffer m))"
    "min_key (krange m') = (if part_of v n j = [] then min_key (krange m) else new_min l v m')"
    using fd j unfolding flushed_down_def by blast
  then show ?thesis using m t(5) [OF c] by (intro that [of m m']) (simp_all add: min_of_def)
qed

lemma flushed_down_sub:
  assumes fd: "flushed_down l v v' i n n' ks'" and j: "j < length ks'"
  shows "gtree l v' (ks' ! j)"
    "lookup l v' (ks' ! j) k =
       (case newest k (part_of v n j) of Some e \<Rightarrow> Some e | None \<Rightarrow> lookup l v (kids n ! j) k)"
proof -
  note t = gtree_SucE [OF flushed_downD(1,2) [OF fd]]
  obtain m m' where m: "v (kids n ! j) = Inr m" "gtree l v (kids n ! j)" "v' (ks' ! j) = Inr m'"
    "sound_node (ks' ! j) m'" "level m' = level m" "num_children m' = num_children m" "kids m' = kids m"
    "\<And>k. newest k (buffer m') = newer (newest k (part_of v n j)) (newest k (buffer m))"
    using flushed_down_child [OF fd j] by blast
  have c: "kids n ! j \<in> set (kids n)" using j flushed_downD(8) [OF fd] by simp
  have lay: "layered (\<lambda>k. newest k (part_of v n j)) (lookup l v (kids n ! j))"
    using t(8) by (auto simp: layered_def newest_part_of split: if_splits)
  have ag: "v' x = v x" if "0 < l" "g \<in> set (kids m)" "x \<in> ids_of (l - 1) v g" for g x
    using flushed_downD(10) [OF fd that(1) c, of g x] that m(1) by simp
  show "gtree l v' (ks' ! j)"
    by (rule child_flushed(1) [OF m(2,1,3-8) lay ag])
  show "lookup l v' (ks' ! j) k =
       (case newest k (part_of v n j) of Some e \<Rightarrow> Some e | None \<Rightarrow> lookup l v (kids n ! j) k)"
    by (rule child_flushed(2) [OF m(2,1,3-8) lay ag])
qed

text \<open>What a new child knows is below the old bound of its right neighbour and not below its own.\<close>

lemma flushed_down_upper:
  assumes fd: "flushed_down l v v' i n n' ks'" and j: "Suc j < length ks'"
    and k: "lookup l v' (ks' ! j) k \<noteq> None"
  shows "k < min_of v (kids n ! Suc j)"
proof -
  note t = gtree_SucE [OF flushed_downD(1,2) [OF fd]] and len = flushed_downD(8) [OF fd]
  show ?thesis
  proof (cases "newest k (part_of v n j)")
    case None
    then have "lookup l v (kids n ! j) k \<noteq> None" using k flushed_down_sub(2) [OF fd, of j k] j by simp
    then show ?thesis using separatedD(4) [OF t(7), of j k] j len by simp
  next
    case (Some e)
    then have "route v (kids n) k = j" by (simp add: newest_part_of split: if_splits)
    then show ?thesis
      using back_routing.pick_upper [OF separatedD(1) [OF t(7)], of k "Suc j"] j len by (simp add: route_def)
  qed
qed

lemma hd_buffer_least:
  assumes "entries_sorted es" "newest k es \<noteq> None"
  shows "key (hd es) \<le> k"
proof -
  obtain e where "e \<in> set es" "key e = k" using assms(2) by (auto simp: newest_None_iff)
  moreover have "sorted (map key es)" by (rule entries_sorted_keys [OF assms(1)])
  ultimately show ?thesis by (cases es) auto
qed

lemma below_least:
  assumes "gtree (Suc l) v c" "v c = Inr m" "below (Suc l) v c k \<noteq> None"
  shows "min_of v (kids m ! 0) \<le> k"
proof -
  note t = gtree_SucE [OF assms(1,2)]
  let ?r = "route v (kids m) k"
  have r: "?r < length (kids m)" by (rule route_bound [OF t(3)])
  then have "min_of v (kids m ! ?r) \<le> k"
    using separatedD(3) [OF t(7), of ?r k] assms(2,3) by (simp add: below_def)
  moreover have "min_of v (kids m ! 0) \<le> min_of v (kids m ! ?r)"
    using sorted_nth_mono [OF separatedD(1) [OF t(7)], of 0 ?r] r t(3) by simp
  ultimately show ?thesis by simp
qed

lemma flushed_down_lower:
  assumes fd: "flushed_down l v v' i n n' ks'" and j: "j < length ks'"
    and k: "lookup l v' (ks' ! j) k \<noteq> None"
  shows "min_of v' (ks' ! j) \<le> k"
proof -
  note t = gtree_SucE [OF flushed_downD(1,2) [OF fd]] and len = flushed_downD(8) [OF fd]
  obtain m m' where m: "v (kids n ! j) = Inr m" "gtree l v (kids n ! j)" "v' (ks' ! j) = Inr m'"
    "sound_node (ks' ! j) m'" "kids m' = kids m"
    "\<And>k. newest k (buffer m') = newer (newest k (part_of v n j)) (newest k (buffer m))"
    "min_of v' (ks' ! j) = (if part_of v n j = [] then min_of v (kids n ! j) else new_min l v m')"
    using flushed_down_child [OF fd j] by blast
  show ?thesis
  proof (cases "part_of v n j = []")
    case True
    then have "lookup l v (kids n ! j) k \<noteq> None" using k flushed_down_sub(2) [OF fd j, of k] by simp
    then show ?thesis using separatedD(3) [OF t(7), of j k] j len m(7) True by simp
  next
    case False
    show ?thesis
    proof (cases "newest k (buffer m')")
      case None
      then have nk: "newest k (part_of v n j) = None" "newest k (buffer m) = None"
        using m(6) [of k] by (cases "newest k (part_of v n j)"; cases "newest k (buffer m)"; auto split: if_splits)+
      then have b: "below l v (kids n ! j) k \<noteq> None"
        using k flushed_down_sub(2) [OF fd j, of k] m(1) by (simp add: lookup_below)
      then obtain l' where l': "l = Suc l'" by (cases l) (auto simp: below_def)
      have "min_of v (kids m ! 0) \<le> k" using below_least [of l' v "kids n ! j" m k] m(1,2) b l' by simp
      then show ?thesis using m(5,7) False l' by (simp add: new_min_def min_le_iff_disj)
    next
      case (Some e)
      have "key (hd (buffer m')) \<le> k"
        using m(4) Some by (intro hd_buffer_least) (auto simp: sound_node_def node_sane_def)
      then show ?thesis using m(7) False by (auto simp: new_min_def min_le_iff_disj)
    qed
  qed
qed

text \<open>The bound of a child moves up only, except for the first one, and is never empty.\<close>

lemma flushed_down_min:
  assumes fd: "flushed_down l v v' i n n' ks'" and j: "j < length ks'"
  shows "0 < j \<Longrightarrow> min_of v (kids n ! j) \<le> min_of v' (ks' ! j)" "min_of v' (ks' ! j) \<noteq> []"
    "low_bound l v' (ks' ! j)"
proof -
  note t = gtree_SucE [OF flushed_downD(1,2) [OF fd]] and len = flushed_downD(8) [OF fd]
  obtain m m' where m: "v (kids n ! j) = Inr m" "gtree l v (kids n ! j)" "v' (ks' ! j) = Inr m'"
    "sound_node (ks' ! j) m'" "kids m' = kids m"
    "\<And>k. newest k (buffer m') = newer (newest k (part_of v n j)) (newest k (buffer m))"
    "min_of v' (ks' ! j) = (if part_of v n j = [] then min_of v (kids n ! j) else new_min l v m')"
    using flushed_down_child [OF fd j] by blast
  have c: "kids n ! j \<in> set (kids n)" using j len by simp
  have min: "min_of v (kids n ! j) \<noteq> []" using separatedD(2) [OF t(7)] c by (metis image_eqI image_set)
  have first: "buffer m' \<noteq> []" if "part_of v n j \<noteq> []"
  proof -
    have "newest (key (hd (part_of v n j))) (part_of v n j) \<noteq> None"
      using that by (auto simp: newest_None_iff)
    then have "newest (key (hd (part_of v n j))) (buffer m') \<noteq> None"
      using m(6) by (cases "newest (key (hd (part_of v n j))) (buffer m)") auto
    then show ?thesis by auto
  qed
  have grand: "min_of v (kids n ! j) \<le> min_of v (kids m ! 0)" "min_of v (kids m ! 0) \<noteq> []" if "0 < l"
    using t(6) [OF c] m(1) that min by (auto simp: low_bound_def)
  have hd: "hd (buffer m') \<in> set (buffer m')" "key (hd (buffer m')) \<noteq> []" if "part_of v n j \<noteq> []"
    using first [OF that] m(4) by (auto simp: sound_node_def) (metis hd_in_set image_eqI)
  show "min_of v' (ks' ! j) \<noteq> []"
    using m(5,7) min hd grand by (auto simp: new_min_def min_def split: if_splits)
  show "low_bound l v' (ks' ! j)"
  proof (cases l)
    case (Suc l')
    have g: "kids m ! 0 \<in> set (kids m)" using m(1,2) Suc by auto
    have "v' (kids m ! 0) = v (kids m ! 0)"
      using flushed_downD(10) [OF fd _ c, of "kids m ! 0" "kids m ! 0"] g m(1) Suc ids_of_self by simp
    then have "min_of v' (kids m' ! 0) = min_of v (kids m ! 0)" by (simp add: min_of_def the_node_def m(5))
    then show ?thesis using m(3,5,7) grand(1) Suc by (auto simp: low_bound_def new_min_def)
  qed (simp add: low_bound_def)
  have above: "min_of v (kids n ! j) \<le> key (hd (buffer m'))" if "part_of v n j \<noteq> []" "0 < j"
  proof -
    let ?k = "key (hd (buffer m'))"
    have "newest ?k (buffer m') \<noteq> None" using hd(1) [OF that(1)] by (auto simp: newest_None_iff)
    then consider "newest ?k (part_of v n j) \<noteq> None" | "newest ?k (buffer m) \<noteq> None"
      using m(6) [of ?k] by (cases "newest ?k (part_of v n j)") auto
    then show ?thesis
    proof cases
      case 1
      then have "route v (kids n) ?k = j" by (simp add: newest_part_of split: if_splits)
      then show ?thesis
        using back_routing.pick_lower [OF separatedD(1) [OF t(7)], of ?k] that(2) j len by (simp add: route_def)
    next
      case 2
      then have "lookup l v (kids n ! j) ?k \<noteq> None" using m(1) by (auto simp: lookup_below)
      then show ?thesis using separatedD(3) [OF t(7), of j ?k] j len by simp
    qed
  qed
  show "min_of v (kids n ! j) \<le> min_of v' (ks' ! j)" if "0 < j"
    using m(5,7) above that grand(1) by (auto simp: new_min_def)
qed

lemma flushed_down_separated:
  assumes fd: "flushed_down l v v' i n n' ks'"
  shows "separated (map (min_of v') ks') (\<lambda>j. lookup l v' (ks' ! j))"
proof -
  note t = gtree_SucE [OF flushed_downD(1,2) [OF fd]] and len = flushed_downD(8) [OF fd]
  have up: "k < min_of v' (ks' ! Suc j)" if "Suc j < length ks'" "lookup l v' (ks' ! j) k \<noteq> None" for j k
    using flushed_down_upper [OF fd that] flushed_down_min(1) [OF fd that(1)] by simp
  have step: "min_of v' (ks' ! j) \<le> min_of v' (ks' ! Suc j)" if j: "Suc j < length ks'" for j
  proof (cases "part_of v n j = []")
    case True
    obtain m' where "min_of v' (ks' ! j) = (if part_of v n j = [] then min_of v (kids n ! j) else new_min l v m')"
      using flushed_down_child [OF fd, of j] j by (metis Suc_lessD)
    also have "\<dots> \<le> min_of v (kids n ! Suc j)"
      using sorted_nth_mono [OF separatedD(1) [OF t(7)], of j "Suc j"] j len True by simp
    also have "\<dots> \<le> min_of v' (ks' ! Suc j)" by (rule flushed_down_min(1) [OF fd j]) simp
    finally show ?thesis .
  next
    case False
    let ?k = "key (hd (part_of v n j))"
    have "newest ?k (part_of v n j) \<noteq> None" using False by (auto simp: newest_None_iff)
    then have k: "lookup l v' (ks' ! j) ?k \<noteq> None"
      using flushed_down_sub(2) [OF fd, of j ?k] j by auto
    have "min_of v' (ks' ! j) \<le> ?k" using flushed_down_lower [OF fd _ k] j by simp
    also have "\<dots> < min_of v' (ks' ! Suc j)" by (rule up [OF j k])
    finally show ?thesis by simp
  qed
  have "sorted (map (min_of v') ks')"
    unfolding sorted_iff_nth_Suc using step by simp
  moreover have "[] \<notin> set (map (min_of v') ks')"
    using flushed_down_min(2) [OF fd] by (fastforce simp: in_set_conv_nth)
  ultimately show ?thesis
    unfolding separated_def using flushed_down_lower [OF fd] up by simp
qed

lemma flushed_down_gtree:
  assumes fd: "flushed_down l v v' i n n' ks'"
  shows "gtree (Suc l) v' i" "lookup (Suc l) v' i k = lookup (Suc l) v i k"
proof -
  note d = flushed_downD [OF fd]
  note t = gtree_SucE [OF d(1,2)] and sep = flushed_down_separated [OF fd]
  have "\<forall>c\<in>set ks'. gtree l v' c \<and> low_bound l v' c"
    using flushed_down_sub(1) [OF fd] flushed_down_min(3) [OF fd] by (auto simp: in_set_conv_nth)
  moreover have "ks' \<noteq> []" using d(8) t(3) by auto
  ultimately show "gtree (Suc l) v' i"
    using d(3-7,9) t(2) sep by (simp add: layered_def)
  let ?j = "route v (kids n) k" and ?j' = "route v' ks' k"
  have j: "?j < length ks'" using route_bound [OF t(3)] d(8) by simp
  have j': "?j' < length ks'" using route_bound [OF \<open>ks' \<noteq> []\<close>] .
  have here: "lookup l v' (ks' ! ?j) k = lookup (Suc l) v i k"
    using flushed_down_sub(2) [OF fd j, of k] d(2) by (simp add: newest_part_of split: option.split)
  have "lookup l v' (ks' ! ?j') k = lookup (Suc l) v i k"
  proof (cases "?j' = ?j")
    case False
    then have "newest k (part_of v n ?j') = None" by (simp add: newest_part_of)
    moreover have "lookup l v (kids n ! ?j') k = None"
      using separated_unique [OF t(7), of ?j' k] False j' d(8) by (simp add: route_def)
    ultimately have "lookup l v' (ks' ! ?j') k = None" using flushed_down_sub(2) [OF fd j', of k] by simp
    moreover have "lookup l v' (ks' ! ?j) k = None"
      using separated_unique [OF sep, of ?j k] False j by (auto simp: route_def)
    ultimately show ?thesis using here by simp
  qed (use here in simp)
  then show "lookup (Suc l) v' i k = lookup (Suc l) v i k" using d(3,6,7) by simp
qed

end
