(* ===== verification/Tree_Steps.thy ===== *)
theory Tree_Steps
  imports Tree_Shape
begin

text \<open>
  The single steps the maintenance operations are made of (loading, allocating, creating, caching,
  registering, writing and collecting nodes), each with what it leaves unchanged. \<open>evolves n S t t'\<close>
  is the frame of a step: outside the set \<open>S\<close> of node ids the state after it answers as before, and
  \<open>n\<close> ids were handed out. Frames compose, so an operation touches the union of what its steps touch.
\<close>

definition store_ok :: "tree \<Rightarrow> bool" where
  "store_ok t \<longleftrightarrow> manifest_wf (t_manifest t) \<and> m_dir (t_manifest t) = data_dir (opts t) \<and>
     (\<forall>(i, meta)\<in>set (m_nodes (t_manifest t)). m_path meta = node_path_in (data_dir (opts t)) i) \<and>
     (\<forall>i\<in>fst ` set (cache t). i < next_id (t_manifest t)) \<and> (\<forall>p. openable (tdisk t) p)"

lemma store_okD:
  assumes "store_ok t"
  shows "manifest_wf (t_manifest t)" "m_dir (t_manifest t) = data_dir (opts t)"
    "\<forall>(i, meta)\<in>set (m_nodes (t_manifest t)). m_path meta = node_path_in (data_dir (opts t)) i"
    "\<And>i. i \<in> fst ` set (cache t) \<Longrightarrow> i < next_id (t_manifest t)" "\<And>p. openable (tdisk t) p"
  using assms unfolding store_ok_def by (blast, blast, blast, blast, blast)

definition evolves :: "nat \<Rightarrow> node_id set \<Rightarrow> tree \<Rightarrow> tree \<Rightarrow> bool" where
  "evolves n S t t' \<longleftrightarrow> store_ok t' \<and>
     (\<forall>i. i \<notin> S \<longrightarrow> node_view t' i = node_view t i \<and> live (t_manifest t') i = live (t_manifest t) i \<and>
        (map_of (cache t) i \<noteq> None \<longrightarrow> map_of (cache t') i = map_of (cache t) i) \<and>
        (live (t_manifest t) i \<noteq> None \<longrightarrow> files (tdisk t') (node_path_in (data_dir (opts t)) i) =
           files (tdisk t) (node_path_in (data_dir (opts t)) i))) \<and>
     write_buf t' = write_buf t \<and> seq t' = seq t \<and> opts t' = opts t \<and>
     root_id (t_manifest t') = root_id (t_manifest t) \<and>
     unat (next_id (t_manifest t')) = unat (next_id (t_manifest t)) + n"

lemma evolvesD:
  assumes "evolves n S t t'"
  shows "store_ok t'" "\<And>i. i \<notin> S \<Longrightarrow> node_view t' i = node_view t i"
    "\<And>i. i \<notin> S \<Longrightarrow> live (t_manifest t') i = live (t_manifest t) i"
    "\<And>i m. i \<notin> S \<Longrightarrow> map_of (cache t) i = Some m \<Longrightarrow> map_of (cache t') i = Some m"
    "write_buf t' = write_buf t" "seq t' = seq t" "opts t' = opts t"
    "root_id (t_manifest t') = root_id (t_manifest t)"
    "unat (next_id (t_manifest t')) = unat (next_id (t_manifest t)) + n"
    "\<And>i p. i \<notin> S \<Longrightarrow> live (t_manifest t) i = Some p \<Longrightarrow>
       files (tdisk t') (node_path_in (data_dir (opts t)) i) = files (tdisk t) (node_path_in (data_dir (opts t)) i)"
  using assms unfolding evolves_def by auto

lemma evolves_refl: "store_ok t \<Longrightarrow> evolves 0 {} t t"
  by (simp add: evolves_def)

lemma evolves_trans:
  "evolves n S t t1 \<Longrightarrow> evolves n' S' t1 t2 \<Longrightarrow> evolves (n + n') (S \<union> S') t t2"
  unfolding evolves_def by auto

lemma evolves_mono: "evolves n S t t' \<Longrightarrow> S \<subseteq> S' \<Longrightarrow> evolves n S' t t'"
  unfolding evolves_def by blast

lemma cached_view: "map_of (cache t) i = Some n \<Longrightarrow> node_view t i = Inr n"
  by (simp add: node_view_def)

lemma unseen: "map_of (cache t) i = None \<Longrightarrow> live (t_manifest t) i = None \<Longrightarrow> node_view t i = Inl (Unknown_node i)"
  by (simp add: node_view_def node_path_live)

lemma store_ok_live:
  assumes "store_ok t" "live (t_manifest t) i = Some (lvl, p)"
  shows "p = node_path_in (data_dir (opts t)) i" "i < next_id (t_manifest t)"
proof -
  from assms(2) obtain meta where meta: "map_of (m_nodes (t_manifest t)) i = Some meta" "m_path meta = p"
    by (auto simp: live_def split: option.splits if_splits)
  then have mem: "(i, meta) \<in> set (m_nodes (t_manifest t))" by (simp add: map_of_SomeD)
  from bspec [OF store_okD(3) [OF assms(1)] mem] meta(2)
  show "p = node_path_in (data_dir (opts t)) i" by simp
  have "\<forall>(i, meta)\<in>set (m_nodes (t_manifest t)). m_id meta = i \<and> i < next_id (t_manifest t)"
    using store_okD(1) [OF assms(1)] unfolding manifest_wf_def by (elim conjE)
  from bspec [OF this mem] show "i < next_id (t_manifest t)" by simp
qed

lemma store_ok_std: "store_ok t \<Longrightarrow> std_paths t"
  using store_ok_live(1) [of t] store_okD(2) [of t]
  by (auto simp: std_paths_def node_path_live split: option.splits)

lemma store_ok_cached: "store_ok t \<Longrightarrow> map_of (cache t) i = Some n \<Longrightarrow> i < next_id (t_manifest t)"
  using store_okD(4) [of t i] by (force dest: map_of_SomeD)

lemma view_below_next:
  assumes "store_ok t" "node_view t i = Inr n"
  shows "i < next_id (t_manifest t)"
proof (cases "map_of (cache t) i")
  case None
  with assms(2) obtain p where "live (t_manifest t) i = Some p"
    by (auto simp: node_view_def node_path_live split: option.splits)
  with store_ok_live(2) [OF assms(1)] show ?thesis by (cases p) auto
qed (rule store_ok_cached [OF assms(1)])

lemma fresh_next:
  assumes "store_ok t" "next_id (t_manifest t) \<le> i"
  shows "map_of (cache t) i = None" "live (t_manifest t) i = None"
proof -
  show "map_of (cache t) i = None" using store_ok_cached [OF assms(1)] assms(2) by (metis leD option.exhaust)
  show "live (t_manifest t) i = None"
    using store_ok_live(2) [OF assms(1)] assms(2) by (metis leD option.exhaust surj_pair)
qed

text \<open>Two states agree on a node when cache, registration and file agree.\<close>

lemma view_frame:
  assumes "store_ok t" "map_of (cache t') j = map_of (cache t) j"
    and "live (t_manifest t') j = live (t_manifest t) j"
    and "files (tdisk t') (node_path_in (data_dir (opts t)) j) = files (tdisk t) (node_path_in (data_dir (opts t)) j)"
  shows "node_view t' j = node_view t j"
proof (rule node_view_keep [OF assms(2)])
  show "node_path (t_manifest t') j = node_path (t_manifest t) j" using assms(3) by (simp add: node_path_live)
  fix p assume "node_path (t_manifest t) j = Inr p"
  then have "p = node_path_in (data_dir (opts t)) j"
    using store_ok_std [OF assms(1)] by (simp add: std_paths_def)
  with assms(4) show "files (tdisk t') p = files (tdisk t) p" by simp
qed

subsection \<open>What is on disk\<close>

text \<open>
  \<open>on_file t i n\<close>: the manifest knows node \<open>i\<close> and its file is the image of \<open>n\<close>. \<open>small_node\<close> bounds
  what the 32-bit length fields of the format have to hold. \<open>saved t\<close>: the manifest file describes
  the registry of the manifest in memory.
\<close>

definition on_file :: "tree \<Rightarrow> node_id \<Rightarrow> sst_node \<Rightarrow> bool" where
  "on_file t i n \<longleftrightarrow> live (t_manifest t) i \<noteq> None \<and>
     files (tdisk t) (node_path_in (data_dir (opts t)) i) = Some (node_image n)"

definition small_node :: "sst_node \<Rightarrow> bool" where
  "small_node n \<longleftrightarrow> length (buffer n) < 2 ^ 32 \<and> list_all entry_fits (buffer n) \<and>
     short (min_key (krange n)) \<and> short (max_key (krange n))"

definition saved :: "tree \<Rightarrow> bool" where
  "saved t \<longleftrightarrow> (\<exists>m. files (tdisk t) (manifest_path (t_manifest t)) = Some (manifest_text m) \<and> manifest_wf m \<and>
     m_dir m = m_dir (t_manifest t) \<and> (\<forall>(i, meta)\<in>set (m_nodes m). m_path meta = node_path_in (m_dir m) i) \<and>
     root_id m = root_id (t_manifest t) \<and> next_id m = next_id (t_manifest t) \<and> live m = live (t_manifest t))"

definition all_small :: "tree \<Rightarrow> bool" where
  "all_small t \<longleftrightarrow> (\<forall>j m. node_view t j = Inr m \<longrightarrow> small_node m)"

text \<open>
  \<open>filed S t\<close>: outside \<open>S\<close> every node that can be seen is on file. \<open>settles S t t'\<close>: an operation that
  shows no node but old and sound ones and leaves everything on file if only \<open>S\<close> was not before.
\<close>

definition filed :: "node_id set \<Rightarrow> tree \<Rightarrow> bool" where
  "filed S t \<longleftrightarrow> (\<forall>j m. node_view t j = Inr m \<longrightarrow> j \<notin> S \<longrightarrow> on_file t j m)"

definition settles :: "node_id set \<Rightarrow> tree \<Rightarrow> tree \<Rightarrow> bool" where
  "settles S t t' \<longleftrightarrow> (\<forall>j m. node_view t' j = Inr m \<longrightarrow> node_view t j = Inr m \<or> sound_node j m) \<and>
     (all_small t \<longrightarrow> all_small t') \<and> (filed S t \<longrightarrow> filed {} t')"

lemma on_file_evolves: "evolves n S t t' \<Longrightarrow> i \<notin> S \<Longrightarrow> on_file t i m \<Longrightarrow> on_file t' i m"
  by (auto simp: on_file_def evolvesD(3,7,10))

lemma settlesI:
  assumes "\<And>j m. node_view t' j = Inr m \<Longrightarrow>
     j \<notin> S \<and> node_view t j = Inr m \<and> (on_file t j m \<longrightarrow> on_file t' j m) \<or>
     sound_node j m \<and> on_file t' j m \<and> (all_small t \<longrightarrow> small_node m)"
  shows "settles S t t'"
  using assms unfolding settles_def filed_def all_small_def by meson

lemma settlesD:
  assumes "settles S t t'"
  shows "\<And>j m. node_view t' j = Inr m \<Longrightarrow> node_view t j = Inr m \<or> sound_node j m"
    "all_small t \<Longrightarrow> all_small t'" "filed S t \<Longrightarrow> filed {} t'"
  using assms unfolding settles_def by blast+

lemma settles_trans: "settles S t t1 \<Longrightarrow> settles S' t1 t2 \<Longrightarrow> settles S t t2"
  unfolding settles_def by (metis empty_iff filed_def)

lemma small_node_fits: "sound_node i n \<Longrightarrow> small_node n \<Longrightarrow> node_fits n"
  by (simp add: sound_node_def small_node_def node_fits_def)

lemma small_range:
  assumes "list_all entry_fits es"
  shows "short (min_key (buffer_range es))" "short (max_key (buffer_range es))"
  using assms by (auto simp: buffer_range_def list_all_iff entry_fits_def)

lemma small_expanded:
  assumes "list_all entry_fits (buffer n)" "short (min_key (krange n))" "short (max_key (krange n))"
  shows "short (min_key (krange (expand_range (sort_buffer n))))" "short (max_key (krange (expand_range (sort_buffer n))))"
  using assms entries_fit_sort [OF assms(1)]
  by (auto simp: expand_range_def sort_buffer_def Let_def list_all_iff entry_fits_def)

subsection \<open>The steps\<close>

lemma get_node_step:
  assumes ok: "store_ok t" and v: "node_view t i = Inr n"
  shows "\<exists>t'. get_node i t = (Inr n, t') \<and> evolves 0 {} t t' \<and> map_of (cache t') i = Some n \<and>
    t_manifest t' = t_manifest t \<and> tdisk t' = tdisk t"
proof (cases "map_of (cache t) i")
  case (Some m)
  with v ok show ?thesis by (auto simp: get_node_def node_view_def evolves_refl)
next
  case None
  let ?t = "t\<lparr>cache := AList.update i n (cache t)\<rparr>"
  have get: "get_node i t = (Inr n, ?t)"
    using None v unfolding get_node_def node_view_def by (simp del: bind_res_eq_Inr)
  have view: "node_view ?t = node_view t" unfolding node_view_update using v by auto
  have "store_ok ?t"
    using ok view_below_next [OF ok v] unfolding store_ok_def by (auto dest!: set_update_cases)
  then have "evolves 0 {} t ?t" using view None by (auto simp: evolves_def update_conv)
  with get show ?thesis by (auto simp: update_conv)
qed

lemma alloc_step:
  assumes ok: "store_ok t" and room: "unat (next_id (t_manifest t)) + 1 < 2 ^ 64"
  shows "\<exists>t'. alloc_id t = (Inr (next_id (t_manifest t)), t') \<and> evolves 1 {} t t' \<and>
    next_id (t_manifest t') = next_id (t_manifest t) + 1 \<and> cache t' = cache t \<and> tdisk t' = tdisk t"
proof -
  let ?m = "t_manifest t"
  have neq: "next_id ?m \<noteq> - 1"
    using room by (auto simp: unsigned_minus_1_eq_mask mask_eq_exp_minus_1)
  have suc: "unat (next_id ?m + 1) = unat (next_id ?m) + 1"
    using room by (simp add: unat_word_ariths(1))
  let ?t = "t\<lparr>t_manifest := ?m\<lparr>next_id := next_id ?m + 1\<rparr>\<rparr>"
  have "next_id ?m < next_id ?m + 1" by (rule u64_succ_less [OF neq])
  then have "store_ok ?t"
    using ok manifest_wf_next [OF store_okD(1) [OF ok] neq]
    unfolding store_ok_def by (auto simp: next_node_id_def)
  moreover have "live (?m\<lparr>next_id := next_id ?m + 1\<rparr>) j = live ?m j" for j by (simp add: live_def)
  moreover have "node_view ?t j = node_view t j" for j
    by (rule view_frame [OF ok]) (simp_all add: live_def)
  ultimately have "evolves 1 {} t ?t" using suc by (simp add: evolves_def)
  then show ?thesis by (auto simp: alloc_id_def next_node_id_def)
qed

text \<open>A step that only writes the files of node \<open>i\<close>.\<close>

lemma file_step:
  fixes i :: node_id and t :: tree
  assumes ok: "store_ok t"
  defines "p \<equiv> node_path_in (data_dir (opts t)) i"
  shows "evolves 0 {i} t (t\<lparr>tdisk := (tdisk t)\<lparr>files := (files (tdisk t))(tmp_of p := None, p \<mapsto> bs)\<rparr>\<rparr>)"
proof -
  let ?t = "t\<lparr>tdisk := (tdisk t)\<lparr>files := (files (tdisk t))(tmp_of p := None, p \<mapsto> bs)\<rparr>\<rparr>"
  have "node_view ?t j = node_view t j" if "j \<noteq> i" for j
    using that node_path_in_inj [of "data_dir (opts t)" j i] node_path_not_tmp [of "data_dir (opts t)" j i]
    by (intro view_frame [OF ok]) (simp_all add: p_def)
  moreover have "store_ok ?t" using ok by (simp add: store_ok_def)
  moreover have "files (tdisk ?t) (node_path_in (data_dir (opts t)) j) = files (tdisk t) (node_path_in (data_dir (opts t)) j)"
    if "j \<noteq> i" for j
    using that node_path_in_inj [of "data_dir (opts t)" j i] node_path_not_tmp [of "data_dir (opts t)" j i]
    by (simp add: p_def)
  ultimately show ?thesis by (simp add: evolves_def)
qed

lemma create_step:
  assumes ok: "store_ok t"
  shows "\<exists>n t'. create_in i lvl es cs t = (Inr n, t') \<and> evolves 0 {i} t t' \<and>
    cache t' = cache t \<and> t_manifest t' = t_manifest t \<and>
    nid n = i \<and> level n = lvl \<and> buffer n = sort_entries es \<and>
    num_children n = of_nat (min (length cs) MAX_FANOUT) \<and>
    child_ids n = take MAX_FANOUT cs @ replicate (MAX_FANOUT - length cs) 0 \<and>
    krange n = buffer_range (sort_entries es) \<and> file_path n = node_path_in (data_dir (opts t)) i \<and>
    files (tdisk t') (file_path n) = Some (node_image n) \<and>
    (\<forall>j. j \<noteq> i \<longrightarrow> files (tdisk t') (node_path_in (data_dir (opts t)) j) = files (tdisk t) (node_path_in (data_dir (opts t)) j)) \<and>
    entries_loaded n \<and> bloom_covers n \<and> (length (sort_entries es) < 2 ^ 30 \<longrightarrow> pred_option bloom_fits (bloom_of n))"
proof -
  let ?dir = "data_dir (opts t)"
  have "openable (tdisk t) (tmp_of (node_path_in ?dir i))" by (rule store_okD(5) [OF ok])
  from create_node_ok [OF this, of lvl es cs] obtain n where n: "create_node i lvl es cs ?dir (tdisk t) =
      (Inr n, (tdisk t)\<lparr>files := (files (tdisk t))(tmp_of (node_path_in ?dir i) := None,
         node_path_in ?dir i \<mapsto> node_image n)\<rparr>)"
    "nid n = i" "level n = lvl" "buffer n = sort_entries es"
    "num_children n = of_nat (min (length cs) MAX_FANOUT)"
    "child_ids n = take MAX_FANOUT cs @ replicate (MAX_FANOUT - length cs) 0"
    "krange n = buffer_range (sort_entries es)" "file_path n = node_path_in ?dir i"
    "entries_loaded n" "bloom_covers n" "length (sort_entries es) < 2 ^ 30 \<longrightarrow> pred_option bloom_fits (bloom_of n)"
    by blast
  let ?t = "t\<lparr>tdisk := (tdisk t)\<lparr>files := (files (tdisk t))
      (tmp_of (node_path_in ?dir i) := None, node_path_in ?dir i \<mapsto> node_image n)\<rparr>\<rparr>"
  have "create_in i lvl es cs t = (Inr n, ?t)" using n(1) by (simp add: create_in_def on_disk_def)
  moreover have "files (tdisk ?t) (node_path_in ?dir j) = files (tdisk t) (node_path_in ?dir j)" if "j \<noteq> i" for j
    using that node_path_in_inj [of ?dir j i] node_path_not_tmp [of ?dir j i] by simp
  ultimately show ?thesis using n(2-) file_step [OF ok, of i "node_image n"]
    by (intro exI [of _ n] exI [of _ ?t]) simp
qed

lemma register_step:
  assumes ok: "store_ok t" and i: "i < next_id (t_manifest t)" "p = node_path_in (data_dir (opts t)) i"
  shows "\<exists>t'. on_manifest (register_node i lvl p) t = (Inr (), t') \<and> evolves 0 {i} t t' \<and>
    cache t' = cache t \<and> tdisk t' = tdisk t \<and> live (t_manifest t') i = Some (lvl, p)"
proof -
  let ?t = "t\<lparr>t_manifest := register_node i lvl p (t_manifest t)\<rparr>"
  have live: "live (t_manifest ?t) j = (if j = i then Some (lvl, p) else live (t_manifest t) j)" for j
    using manifest_registry.look_put [of i "(lvl, p)" "t_manifest t" j] by simp
  have paths: "\<forall>(j, meta)\<in>set (m_nodes (t_manifest ?t)). m_path meta = node_path_in (data_dir (opts t)) j"
    using store_okD(3) [OF ok] i(2) by (auto simp: register_node_def dest!: set_update_cases)
  have "store_ok ?t"
    using ok manifest_wf_register [OF store_okD(1) [OF ok] i(1)] paths by (simp add: store_ok_def)
  moreover have "node_view ?t j = node_view t j" if "j \<noteq> i" for j
    using that live by (intro view_frame [OF ok]) simp_all
  ultimately have "evolves 0 {i} t ?t" using live by (simp add: evolves_def)
  then show ?thesis using live by (simp add: on_manifest_def modify_def)
qed

lemma invalidate_step:
  assumes ok: "store_ok t"
  shows "\<exists>t'. on_manifest (invalidate_node i) t = (Inr (), t') \<and> evolves 0 {i} t t' \<and>
    cache t' = cache t \<and> tdisk t' = tdisk t \<and> live (t_manifest t') i = None"
proof -
  let ?t = "t\<lparr>t_manifest := invalidate_node i (t_manifest t)\<rparr>"
  have live: "live (t_manifest ?t) j = (if j = i then None else live (t_manifest t) j)" for j
    using manifest_registry.look_drop [of i "t_manifest t" j] by simp
  have paths: "\<forall>(j, meta)\<in>set (m_nodes (t_manifest ?t)). m_path meta = node_path_in (data_dir (opts t)) j"
    using store_okD(3) [OF ok] by (fastforce simp: invalidate_node_def dest!: map_entry_cases)
  have "store_ok ?t"
    using ok manifest_wf_invalidate [OF store_okD(1) [OF ok]] paths by (simp add: store_ok_def)
  moreover have "node_view ?t j = node_view t j" if "j \<noteq> i" for j
    using that live by (intro view_frame [OF ok]) simp_all
  ultimately have "evolves 0 {i} t ?t" using live by (simp add: evolves_def)
  then show ?thesis using live by (simp add: on_manifest_def modify_def)
qed

lemma put_step:
  assumes ok: "store_ok t" and i: "i < next_id (t_manifest t)"
  shows "\<exists>t'. put_node i n t = (Inr (), t') \<and> evolves 0 {i} t t' \<and>
    map_of (cache t') i = Some n \<and> t_manifest t' = t_manifest t \<and> tdisk t' = tdisk t"
proof -
  let ?t = "t\<lparr>cache := AList.update i n (cache t)\<rparr>"
  have "store_ok ?t" using ok i unfolding store_ok_def by (auto dest!: set_update_cases)
  then have "evolves 0 {i} t ?t" by (simp add: evolves_def node_view_update update_conv)
  then show ?thesis by (simp add: put_node_def modify_def update_conv)
qed

lemma erase_step:
  assumes ok: "store_ok t"
  shows "\<exists>t'. erase_node i t = (Inr (), t') \<and> evolves 0 {i} t t' \<and>
    map_of (cache t') i = None \<and> t_manifest t' = t_manifest t \<and> tdisk t' = tdisk t"
proof -
  let ?t = "t\<lparr>cache := AList.delete i (cache t)\<rparr>"
  have del: "map_of (AList.delete i (cache t)) j = (if j = i then None else map_of (cache t) j)" for j
    by (simp add: delete_conv')
  have "store_ok ?t" using ok unfolding store_ok_def by (auto simp: AList.delete_eq)
  moreover have "node_view ?t j = node_view t j" if "j \<noteq> i" for j
    using that del by (intro view_frame [OF ok]) simp_all
  ultimately have "evolves 0 {i} t ?t" using del by (simp add: evolves_def)
  then show ?thesis using del by (simp add: erase_node_def modify_def)
qed

lemma save_step:
  assumes ok: "store_ok t"
  shows "\<exists>t'. save_manifest t = (Inr (), t') \<and> evolves 0 {} t t' \<and> cache t' = cache t \<and>
    t_manifest t' = t_manifest t \<and> saved t'"
proof -
  from save_view [OF store_ok_std [OF ok]] store_okD(5) [OF ok] obtain d where
    d: "save_manifest t = (Inr (), t\<lparr>tdisk := d\<rparr>)" "openable d = openable (tdisk t)"
    "node_view (t\<lparr>tdisk := d\<rparr>) = node_view t"
    "\<forall>j. files d (node_path_in (data_dir (opts t)) j) = files (tdisk t) (node_path_in (data_dir (opts t)) j)"
    "files d (manifest_path (t_manifest t)) = Some (manifest_text (t_manifest t))" by auto
  have "store_ok (t\<lparr>tdisk := d\<rparr>)" using ok d(2) by (simp add: store_ok_def)
  moreover from this have "saved (t\<lparr>tdisk := d\<rparr>)" using d(5) store_okD(1-3) [OF ok] unfolding saved_def by (intro exI [of _ "t_manifest t"]) simp
  ultimately show ?thesis using d by (simp add: evolves_def)
qed

lemma gc_step:
  assumes ok: "store_ok t"
  shows "\<exists>t'. gc_manifest t = (Inr (), t') \<and> evolves 0 {} t t' \<and> cache t' = cache t \<and> (saved t \<longrightarrow> saved t')"
proof -
  let ?m = "t_manifest t"
  let ?ns = "filter (\<lambda>(i, meta). m_valid meta) (m_nodes ?m)"
  let ?fs = "\<lambda>p. if \<exists>(i, meta)\<in>set (m_nodes ?m). \<not> m_valid meta \<and> m_path meta = p then None else files (tdisk t) p"
  let ?t = "t\<lparr>t_manifest := ?m\<lparr>m_nodes := ?ns\<rparr>, tdisk := (tdisk t)\<lparr>files := ?fs\<rparr>\<rparr>"
  have dist: "distinct (map fst (m_nodes ?m))" using store_okD(1) [OF ok] by (simp add: manifest_wf_def)
  have live: "live (t_manifest ?t) = live ?m" using live_filter [OF dist] by simp
  have fkeep: "files (tdisk ?t) (node_path_in (data_dir (opts t)) j) = files (tdisk t) (node_path_in (data_dir (opts t)) j)"
    if "live ?m j \<noteq> None" for j
  proof -
    have "m_valid meta" if "(i, meta) \<in> set (m_nodes ?m)" "m_path meta = node_path_in (data_dir (opts t)) j" for i meta
    proof -
      from bspec [OF store_okD(3) [OF ok] that(1)] that(2) have "i = j" by (simp add: node_path_in_inj)
      then have "map_of (m_nodes ?m) j = Some meta" using that(1) dist by simp
      with \<open>live ?m j \<noteq> None\<close> show ?thesis by (simp add: live_def split: if_splits)
    qed
    then show ?thesis by auto
  qed
  have view: "node_view ?t j = node_view t j" for j
  proof (cases "live ?m j")
    case None
    then show ?thesis using live by (simp add: node_view_def node_path_live split: option.split)
  next
    case (Some p)
    then show ?thesis using fkeep live by (intro view_frame [OF ok]) simp_all
  qed
  have "manifest_wf (?m\<lparr>m_nodes := ?ns\<rparr>)"
    using store_okD(1) [OF ok] by (auto simp: manifest_wf_def distinct_map_filter)
  then have "store_ok ?t" using ok by (auto simp: store_ok_def)
  then have "evolves 0 {} t ?t" using view live fkeep by (simp add: evolves_def)
  moreover have "m_path meta \<noteq> manifest_path ?m" if "(i, meta) \<in> set (m_nodes ?m)" for i meta
    using bspec [OF store_okD(3) [OF ok] that] node_path_not_manifest(1) [OF store_okD(2) [OF ok]] by simp
  then have "files (tdisk ?t) (manifest_path (t_manifest ?t)) = files (tdisk t) (manifest_path ?m)"
    by (auto simp: manifest_path_def)
  then have "saved t \<longrightarrow> saved ?t" using live unfolding saved_def by auto
  ultimately show ?thesis by (simp add: gc_manifest_def gc_def gc_loop_spec)
qed

lemma sort_entries_empty [simp]: "sort_entries [] = []"
  by (simp add: sort_entries_def)

text \<open>What \<^verbatim>\<open>flush_to_disk\<close> makes of a node when its file can be written.\<close>

definition written :: "sst_node \<Rightarrow> sst_node \<Rightarrow> bool" where
  "written n n' \<longleftrightarrow> nid n' = nid n \<and> level n' = level n \<and> child_ids n' = child_ids n \<and>
     num_children n' = num_children n \<and> buffer n' = sort_entries (buffer n) \<and>
     krange n' = krange (expand_range (sort_buffer n)) \<and> entries_loaded n' \<and> bloom_covers n' \<and>
     (length (sort_entries (buffer n)) < 2 ^ 30 \<longrightarrow> pred_option bloom_fits (bloom_of n'))"

lemma written_small:
  assumes "written n n'" "small_node n"
  shows "small_node n'"
  using assms small_expanded [of n] length_sort_entries [of "buffer n"] entries_fit_sort [of "buffer n"]
  by (auto simp: written_def small_node_def)

lemma flush_to_disk_written:
  assumes "openable d (tmp_of (node_path_in dir (nid n)))"
  shows "\<exists>n'. flush_to_disk dir (n, d) = (Inr (node_path_in dir (nid n)), (n', d\<lparr>files := (files d)
      (tmp_of (node_path_in dir (nid n)) := None, node_path_in dir (nid n) \<mapsto> node_image n')\<rparr>)) \<and>
    written n n' \<and> file_path n' = node_path_in dir (nid n)"
proof -
  obtain f where f: "bloom_covers (flushed_node n f)" "length (sort_entries (buffer n)) < 2 ^ 30 \<Longrightarrow> bloom_fits f"
    "flush_to_disk dir (n, d) =
       (case write_file dir (flushed_node n f) d of
          (Inl e, d') \<Rightarrow> (Inl e, (flushed_node n f, d'))
        | (Inr path, d') \<Rightarrow>
            (Inr path, ((flushed_node n f)\<lparr>file_path := path, entries_loaded := True\<rparr>, d')))"
    by (rule flush_to_disk_cases [of n dir d]) blast
  let ?n = "(flushed_node n f)\<lparr>file_path := node_path_in dir (nid n), entries_loaded := True\<rparr>"
  have "written n ?n" using f(1,2) by (simp add: written_def bloom_covers_def)
  then show ?thesis
    using f(3) write_file_ok [of d dir "flushed_node n f"] assms by (intro exI [of _ ?n]) simp
qed

lemma flush_local_step:
  assumes ok: "store_ok t"
  shows "\<exists>n' t'. flush_local n t = (Inr n', t') \<and> evolves 0 {nid n} t t' \<and> cache t' = cache t \<and>
    t_manifest t' = t_manifest t \<and> written n n' \<and> file_path n' = node_path_in (data_dir (opts t)) (nid n) \<and>
    files (tdisk t') (file_path n') = Some (node_image n') \<and>
    (\<forall>j. j \<noteq> nid n \<longrightarrow>
       files (tdisk t') (node_path_in (data_dir (opts t)) j) = files (tdisk t) (node_path_in (data_dir (opts t)) j))"
proof -
  let ?p = "node_path_in (data_dir (opts t)) (nid n)"
  from flush_to_disk_written [OF store_okD(5) [OF ok], of "data_dir (opts t)" n] obtain n' where
    n': "flush_to_disk (data_dir (opts t)) (n, tdisk t) = (Inr ?p, (n', (tdisk t)\<lparr>files := (files (tdisk t))
      (tmp_of ?p := None, ?p \<mapsto> node_image n')\<rparr>))" "written n n'" "file_path n' = ?p" by blast
  with file_step [OF ok, of "nid n" "node_image n'"] node_path_in_inj [of "data_dir (opts t)" _ "nid n"]
    node_path_not_tmp [of "data_dir (opts t)" _ "nid n"]
  show ?thesis by (simp add: flush_local_def)
qed

lemma upd_step:
  assumes ok: "store_ok t" and i: "map_of (cache t) i = Some n"
  shows "\<exists>t'. upd_node i f t = (Inr (), t') \<and> evolves 0 {i} t t' \<and> map_of (cache t') i = Some (f n) \<and>
    t_manifest t' = t_manifest t \<and> tdisk t' = tdisk t"
proof -
  from put_step [OF ok store_ok_cached [OF ok i], of "f n"] show ?thesis
    using i by (simp add: upd_node_def run_on_def put_node_def modify_def)
qed

text \<open>\<^verbatim>\<open>flush_to_disk\<close> of a cached node, alone and followed by its registration.\<close>

lemma run_flush_step:
  assumes ok: "store_ok t" and i: "map_of (cache t) i = Some n" "nid n = i"
  defines "p \<equiv> node_path_in (data_dir (opts t)) i"
  shows "\<exists>n' t'. run_on i (flush_to_disk (data_dir (opts t))) t = (Inr p, t') \<and> evolves 0 {i} t t' \<and>
    map_of (cache t') i = Some n' \<and> written n n' \<and> file_path n' = p \<and> t_manifest t' = t_manifest t \<and>
    files (tdisk t') p = Some (node_image n')"
proof -
  from flush_to_disk_written [OF store_okD(5) [OF ok], of "data_dir (opts t)" n] i(2) obtain n' where
    n': "flush_to_disk (data_dir (opts t)) (n, tdisk t) = (Inr p, (n', (tdisk t)\<lparr>files := (files (tdisk t))
      (tmp_of p := None, p \<mapsto> node_image n')\<rparr>))" "written n n'" "file_path n' = p" unfolding p_def by auto
  let ?t1 = "t\<lparr>tdisk := (tdisk t)\<lparr>files := (files (tdisk t))(tmp_of p := None, p \<mapsto> node_image n')\<rparr>\<rparr>"
  have e1: "evolves 0 {i} t ?t1" unfolding p_def by (rule file_step [OF ok])
  have i1: "i < next_id (t_manifest ?t1)" using store_ok_cached [OF ok i(1)] by simp
  from put_step [OF evolvesD(1) [OF e1] i1, of n'] obtain t2 where
    t2: "put_node i n' ?t1 = (Inr (), t2)" "evolves 0 {i} ?t1 t2" "map_of (cache t2) i = Some n'"
    "t_manifest t2 = t_manifest t" "tdisk t2 = tdisk ?t1" by auto
  have "run_on i (flush_to_disk (data_dir (opts t))) t = (Inr p, t2)"
    using n'(1) i(1) t2(1) by (cases t) (auto simp: run_on_def put_node_def modify_def)
  moreover have "evolves 0 {i} t t2" using evolves_trans [OF e1 t2(2)] by simp
  ultimately show ?thesis using t2(3-5) n'(2,3) by auto
qed

lemma flush_register_step:
  assumes ok: "store_ok t" and i: "map_of (cache t) i = Some n" "nid n = i"
  shows "\<exists>n' t'. flush_and_register i t = (Inr (), t') \<and> evolves 0 {i} t t' \<and>
    map_of (cache t') i = Some n' \<and> written n n' \<and> file_path n' = node_path_in (data_dir (opts t)) i \<and>
    live (t_manifest t') i = Some (level n, file_path n') \<and>
    files (tdisk t') (file_path n') = Some (node_image n')"
proof -
  let ?p = "node_path_in (data_dir (opts t)) i"
  from run_flush_step [OF ok i] obtain n' t2 where
    t2: "run_on i (flush_to_disk (data_dir (opts t))) t = (Inr ?p, t2)" "evolves 0 {i} t t2"
      "map_of (cache t2) i = Some n'" "t_manifest t2 = t_manifest t" "files (tdisk t2) ?p = Some (node_image n')"
    and n': "written n n'" "file_path n' = ?p" by blast
  have "nid n' = i" "level n' = level n" using n'(1) i(2) by (simp_all add: written_def)
  moreover have "i < next_id (t_manifest t2)" "?p = node_path_in (data_dir (opts t2)) i"
    using store_ok_cached [OF ok i(1)] t2(4) evolvesD(7) [OF t2(2)] by simp_all
  from register_step [OF evolvesD(1) [OF t2(2)] this, of "level n"] obtain t3 where
    t3: "on_manifest (register_node i (level n) ?p) t2 = (Inr (), t3)" "evolves 0 {i} t2 t3"
    "cache t3 = cache t2" "tdisk t3 = tdisk t2" "live (t_manifest t3) i = Some (level n, ?p)" by blast
  ultimately have "flush_and_register i t = (Inr (), t3)"
    using t2(1,3) n'(2) by (simp add: flush_and_register_def bind_Inr)
  moreover have "evolves 0 {i} t t3" using evolves_trans [OF t2(2) t3(2)] by simp
  ultimately show ?thesis using t3 t2 n' by auto
qed

lemma counter_step:
  assumes "store_ok t" "\<And>t. t_manifest (f t) = t_manifest t \<and> cache (f t) = cache t \<and> tdisk (f t) = tdisk t \<and>
    opts (f t) = opts t \<and> write_buf (f t) = write_buf t \<and> seq (f t) = seq t"
  shows "evolves 0 {} t (f t)"
proof -
  have "store_ok (f t)" using assms by (simp add: store_ok_def)
  moreover have "node_view (f t) = node_view t" using assms(2) by (intro node_view_cong) simp_all
  ultimately show ?thesis using assms(2) by (simp add: evolves_def)
qed

end
