(* ===== verification/Tree_Split.thy ===== *)
theory Tree_Split
  imports Tree_Steps
begin

text \<open>
  Splitting a full root leaf: \<^verbatim>\<open>split_leaf\<close> on a path of one node, with the new root it puts over the
  two halves. The halves are cut at the middle of the buffer; when the two entries at the cut are of
  different keys (\<open>clean_cut\<close>) the result is a search tree that answers as the leaf did. When they are
  versions of one key, the search goes to the right half, with its older versions; \<open>Store_Runs\<close> shows
  what a client sees then.
\<close>

subsection \<open>A root over two leaves\<close>

text \<open>Where the keys of two halves of a sorted list are, when they are cut between two keys.\<close>

lemma halves_bounds:
  assumes es: "entries_sorted (xs @ ys)" "xs \<noteq> []" "ys \<noteq> []" "key (last xs) < key (hd ys)"
  shows "newest k xs \<noteq> None \<Longrightarrow> key (hd xs) \<le> k \<and> k < key (hd ys)" "newest k ys \<noteq> None \<Longrightarrow> key (hd ys) \<le> k"
    "newest k (xs @ ys) = (case newest k xs of Some e \<Rightarrow> Some e | None \<Rightarrow> newest k ys)" "key (hd xs) < key (hd ys)"
proof -
  have sorted: "sorted (map key xs @ map key ys)" using entries_sorted_keys [OF es(1)] by simp
  have x: "key (hd xs) \<le> key e \<and> key e < key (hd ys)" if "e \<in> set xs" for e
  proof -
    have "key (hd xs) \<le> key e" using sorted that by (cases xs) (auto simp: sorted_append)
    moreover have "key e \<le> key (last xs)"
      using sorted that es(2) by (cases xs rule: rev_cases) (auto simp: sorted_append)
    ultimately show ?thesis using es(4) by simp
  qed
  have y: "key (hd ys) \<le> key e" if "e \<in> set ys" for e
    using sorted that by (cases ys) (auto simp: sorted_append)
  show "key (hd xs) < key (hd ys)" using x [of "hd xs"] es(2) by simp
  have X: "key (hd xs) \<le> k \<and> k < key (hd ys)" if "newest k xs \<noteq> None" for k
    using that x by (auto simp: newest_None_iff)
  then show "newest k xs \<noteq> None \<Longrightarrow> key (hd xs) \<le> k \<and> k < key (hd ys)" .
  have Y: "key (hd ys) \<le> k" if "newest k ys \<noteq> None" for k using that y by (auto simp: newest_None_iff)
  then show "newest k ys \<noteq> None \<Longrightarrow> key (hd ys) \<le> k" .
  show "newest k (xs @ ys) = (case newest k xs of Some e \<Rightarrow> Some e | None \<Rightarrow> newest k ys)"
    using X [of k] Y [of k] unfolding newest_append by (cases "newest k xs"; cases "newest k ys") auto
qed

lemma two_leaves_gtree:
  assumes es: "entries_sorted (xs @ ys)" "xs \<noteq> []" "ys \<noteq> []" "key (last xs) < key (hd ys)"
    and r: "v r = Inr n" "sound_node r n" "level n = 1" "buffer n = []" "kids n = [a, b]" "a \<noteq> b"
    and a: "v a = Inr na" "sound_node a na" "level na = 0" "num_children na = 0"
      "\<And>k. newest k (buffer na) = newest k xs" "min_key (krange na) = key (hd xs)"
    and b: "v b = Inr nb" "sound_node b nb" "level nb = 0" "num_children nb = 0"
      "\<And>k. newest k (buffer nb) = newest k ys" "min_key (krange nb) = key (hd ys)"
    and ne: "[] \<notin> key ` set (xs @ ys)"
  shows "gtree 1 v r" "lookup 1 v r k = newest k (xs @ ys)"
proof -
  note H = halves_bounds [OF es]
  have mins: "map (min_of v) (kids n) = [key (hd xs), key (hd ys)]"
    using a(1,6) b(1,6) r(5) by (simp add: min_of_def)
  have hd: "key (hd xs) \<noteq> []" "key (hd ys) \<noteq> []"
    using ne es(2,3) by (metis Un_iff hd_in_set image_eqI set_append)+
  have lt: "key (hd xs) < key (hd ys)" by (rule H(4))
  have sep: "separated (map (min_of v) (kids n)) (\<lambda>j. lookup 0 v (kids n ! j))"
    unfolding separated_def mins using H(1,2) hd lt r(5) a(1,5) b(1,5) by (auto simp: less_Suc_eq)
  moreover have "gtree 0 v c \<and> low_bound 0 v c" if "c \<in> set (kids n)" for c
    using that r(5) a b by (auto simp: low_bound_def)
  ultimately show "gtree 1 v r"
    using r by (auto simp: One_nat_def layered_def)
  have "route v (kids n) k = (if key (hd ys) \<le> k then 1 else 0)"
    using lt unfolding route_def mins using r(5) by simp
  then have "lookup 1 v r k = (if key (hd ys) \<le> k then newest k ys else newest k xs)"
    using r(1,4,5) a(1,5) b(1,5) by (simp add: One_nat_def)
  also have "\<dots> = newest k (xs @ ys)"
    using H(1,2) [of k] unfolding H(3) [of k] by (cases "newest k xs"; cases "newest k ys") auto
  finally show "lookup 1 v r k = newest k (xs @ ys)" .
qed

subsection \<open>The new root\<close>

definition rooted :: "node_id \<Rightarrow> tree \<Rightarrow> tree" where
  "rooted r t = t\<lparr>t_manifest := set_root r (t_manifest t)\<rparr>"

lemma rooted_sel [simp]:
  "cache (rooted r t) = cache t" "opts (rooted r t) = opts t" "tdisk (rooted r t) = tdisk t"
  "write_buf (rooted r t) = write_buf t" "seq (rooted r t) = seq t" "root_id (t_manifest (rooted r t)) = r"
  "next_id (t_manifest (rooted r t)) = next_id (t_manifest t)" "live (t_manifest (rooted r t)) = live (t_manifest t)"
  "m_nodes (t_manifest (rooted r t)) = m_nodes (t_manifest t)" "m_dir (t_manifest (rooted r t)) = m_dir (t_manifest t)"
  by (simp_all add: rooted_def set_root_def live_def fun_eq_iff)

lemma rooted_on_file [simp]: "on_file (rooted r t) = on_file t"
  by (simp add: on_file_def fun_eq_iff)

lemma rooted_view [simp]: "node_view (rooted r t) = node_view t"
  by (rule ext) (simp add: node_view_def node_path_live split: option.split)

lemma rooted_ok [simp]: "store_ok (rooted r t) = store_ok t"
  by (simp add: store_ok_def manifest_wf_def)

lemma evolves_rooted: "evolves n S t t' \<Longrightarrow> evolves n S (rooted r t) (rooted r t')"
  by (simp add: evolves_def)

lemma rooted_rooted [simp]: "rooted r (rooted r' t) = rooted r t"
  by (simp add: rooted_def set_root_def)

lemma new_root_step:
  assumes ok: "store_ok t" and room: "unat (next_id (t_manifest t)) + 1 < 2 ^ 64"
  defines "r \<equiv> next_id (t_manifest t)"
  shows "\<exists>n t'. new_root_over lvl a b an bn t = (Inr (), t') \<and> evolves 1 {r} (rooted r t) t' \<and>
    map_of (cache t') r = Some n \<and> sound_node r n \<and> level n = lvl \<and> buffer n = [] \<and> kids n = [a, b] \<and>
    krange n = \<lparr>min_key = min_key (krange an), max_key = max_key (krange bn)\<rparr> \<and> on_file t' r n"
proof -
  let ?p = "node_path_in (data_dir (opts t)) r"
  from alloc_step [OF ok room] obtain t1 where t1: "alloc_id t = (Inr r, t1)" "evolves 1 {} t t1"
    unfolding r_def by blast
  note D1 = evolvesD [OF t1(2)]
  from create_step [OF D1(1), of r lvl "[]" "[a, b]"] obtain n0 t2 where t2:
    "create_in r lvl [] [a, b] t1 = (Inr n0, t2)" "evolves 0 {r} t1 t2" "nid n0 = r" "level n0 = lvl"
    "buffer n0 = sort_entries []" "num_children n0 = of_nat (min (length [a, b]) MAX_FANOUT)"
    "child_ids n0 = take MAX_FANOUT [a, b] @ replicate (MAX_FANOUT - length [a, b]) 0" by blast
  let ?n1 = "set_range (min_key (krange an)) (max_key (krange bn)) n0"
  have n1: "nid ?n1 = r" "level ?n1 = lvl" "buffer ?n1 = []" "num_children ?n1 = 2"
    "child_ids ?n1 = [a, b] @ replicate (MAX_FANOUT - 2) 0"
    using t2(3-7) by (simp_all add: set_range_def MAX_FANOUT_def)
  from flush_local_step [OF evolvesD(1) [OF t2(2)], of ?n1] n1(1) obtain n t3 where t3:
    "flush_local ?n1 t2 = (Inr n, t3)" "evolves 0 {r} t2 t3" "written ?n1 n"
    "file_path n = node_path_in (data_dir (opts t2)) r" "files (tdisk t3) (file_path n) = Some (node_image n)" by auto
  have o3: "opts t3 = opts t" "opts t2 = opts t"
    using evolvesD(7) [OF t3(2)] evolvesD(7) [OF t2(2)] D1(7) by simp_all
  have e3: "evolves 1 {r} t t3"
    using evolves_trans [OF evolves_trans [OF t1(2) t2(2)] t3(2)] by simp
  have lt: "r < next_id (t_manifest t3)" using evolvesD(9) [OF e3] by (simp add: word_less_nat_alt r_def)
  from register_step [OF evolvesD(1) [OF e3] lt refl, of lvl] obtain t4 where t4:
    "on_manifest (register_node r lvl ?p) t3 = (Inr (), t4)" "evolves 0 {r} t3 t4"
    "live (t_manifest t4) r = Some (lvl, ?p)" "tdisk t4 = tdisk t3" unfolding o3 by blast
  have e4: "evolves 1 {r} (rooted r t) (rooted r t4)"
    using evolves_rooted [OF evolves_trans [OF e3 t4(2)], of r] by simp
  have m4: "on_manifest (\<lambda>m. set_root r (register_node r lvl (file_path n) m)) t3 = (Inr (), rooted r t4)"
    using t4(1) t3(4) o3(2) by (auto simp: on_manifest_def modify_def rooted_def)
  have lt4: "r < next_id (t_manifest (rooted r t4))"
    using lt evolvesD(9) [OF t4(2)] by (simp add: word_less_nat_alt)
  from put_step [OF evolvesD(1) [OF e4] lt4, of n] obtain t5 where t5:
    "put_node r n (rooted r t4) = (Inr (), t5)" "evolves 0 {r} (rooted r t4) t5" "map_of (cache t5) r = Some n"
    "t_manifest t5 = t_manifest (rooted r t4)" "tdisk t5 = tdisk t3" using t4(4) by auto
  have "new_root_over lvl a b an bn t = (Inr (), t5)"
    using t1(1) t2(1) t3(1) m4 t5(1) by (simp add: new_root_over_def bind_Inr)
  moreover have "evolves 1 {r} (rooted r t) t5" using evolves_trans [OF e4 t5(2)] by simp
  moreover have n: "nid n = r" "level n = lvl" "buffer n = []" "num_children n = 2"
      "child_ids n = [a, b] @ replicate (MAX_FANOUT - 2) 0" "entries_loaded n" "bloom_covers n"
      "pred_option bloom_fits (bloom_of n)"
    using t3(3) n1 by (simp_all add: written_def)
  then have "sound_node r n" "kids n = [a, b]"
    by (auto simp: sound_node_def node_sane_def kids_def MAX_FANOUT_def bloom_covers_def)
  moreover have "krange n = \<lparr>min_key = min_key (krange an), max_key = max_key (krange bn)\<rparr>"
    using t3(3) n1(3) by (simp add: written_def set_range_def expand_range_def sort_buffer_def)
  moreover have "on_file t5 r n"
    using t4(3) t5(4,5) t3(4,5) o3 evolvesD(7) [OF t4(2)] evolvesD(7) [OF t5(2)] by (simp add: on_file_def)
  ultimately show ?thesis using t5(3) n by auto
qed

subsection \<open>Splitting the root leaf\<close>

lemma hd_sort_entries:
  assumes "entries_sorted es" "es \<noteq> []"
  shows "key (hd (sort_entries es)) = key (hd es)"
proof (rule antisym)
  have "newest (key (hd es)) es \<noteq> None" using assms(2) by (auto simp: newest_None_iff)
  then show "key (hd (sort_entries es)) \<le> key (hd es)"
    by (intro hd_buffer_least) (simp_all add: keys_strict_sorted)
  have "hd (sort_entries es) \<in> set (sort_entries es)" using assms(2) by (intro hd_in_set) simp
  then have "newest (key (hd (sort_entries es))) es \<noteq> None"
    using set_sort_entries [of es] by (auto simp: newest_None_iff)
  then show "key (hd es) \<le> key (hd (sort_entries es))" by (rule hd_buffer_least [OF assms(1)])
qed

lemma create_leaf:
  assumes ok: "store_ok t" and es: "es \<noteq> []" "[] \<notin> key ` set es" "length es < 2 ^ 30" "entries_sorted es"
  shows "\<exists>n t'. create_in i 0 es [] t = (Inr n, t') \<and> evolves 0 {i} t t' \<and> cache t' = cache t \<and>
    t_manifest t' = t_manifest t \<and> sound_node i n \<and> level n = 0 \<and> num_children n = 0 \<and>
    (\<forall>k. newest k (buffer n) = newest k es) \<and> min_key (krange n) = key (hd es) \<and>
    file_path n = node_path_in (data_dir (opts t)) i \<and> files (tdisk t') (file_path n) = Some (node_image n) \<and>
    (list_all entry_fits es \<longrightarrow> small_node n) \<and>
    (\<forall>j. j \<noteq> i \<longrightarrow> files (tdisk t') (node_path_in (data_dir (opts t)) j) = files (tdisk t) (node_path_in (data_dir (opts t)) j))"
proof -
  from create_step [OF ok, of i 0 es "[]"] obtain n t' where n:
    "create_in i 0 es [] t = (Inr n, t')" "evolves 0 {i} t t'" "cache t' = cache t" "t_manifest t' = t_manifest t"
    "nid n = i" "level n = 0" "buffer n = sort_entries es" "num_children n = of_nat (min (length ([] :: node_id list)) MAX_FANOUT)"
    "child_ids n = take MAX_FANOUT [] @ replicate (MAX_FANOUT - length ([] :: node_id list)) 0"
    "krange n = buffer_range (sort_entries es)" "file_path n = node_path_in (data_dir (opts t)) i"
    "files (tdisk t') (file_path n) = Some (node_image n)" "entries_loaded n" "bloom_covers n"
    "length (sort_entries es) < 2 ^ 30 \<longrightarrow> pred_option bloom_fits (bloom_of n)"
    "\<forall>j. j \<noteq> i \<longrightarrow> files (tdisk t') (node_path_in (data_dir (opts t)) j) = files (tdisk t) (node_path_in (data_dir (opts t)) j)"
    by blast
  have "[] \<notin> key ` set (buffer n)" using es(2) by (simp add: n(7) keys_sort_entries)
  moreover have "length (sort_entries es) < 2 ^ 30" using length_sort_entries [of es] es(3) by simp
  ultimately have "sound_node i n"
    using n by (auto simp: sound_node_def node_sane_def keys_strict_sorted bloom_covers_def MAX_FANOUT_def)
  moreover have "min_key (krange n) = key (hd es)"
    using n(10) es(1) hd_sort_entries [OF es(4,1)] by (simp add: buffer_range_def)
  moreover have "small_node n" if "list_all entry_fits es"
    using small_range [OF entries_fit_sort [OF that]] entries_fit_sort [OF that] length_sort_entries [of es] es(3) n(7,10)
    by (simp add: small_node_def)
  ultimately show ?thesis using n by auto
qed

definition clean_cut :: "entry list \<Rightarrow> bool" where
  "clean_cut es \<longleftrightarrow> 2 \<le> length es \<and> key (es ! (length es div 2 - 1)) \<noteq> key (es ! (length es div 2))"

lemma clean_cut_halves:
  assumes "clean_cut es" "entries_sorted es"
  defines "mid \<equiv> length es div 2"
  shows "take mid es \<noteq> []" "drop mid es \<noteq> []" "key (last (take mid es)) < key (hd (drop mid es))"
proof -
  have mid: "0 < mid" "mid < length es" using assms(1) by (auto simp: clean_cut_def mid_def)
  then show "take mid es \<noteq> []" "drop mid es \<noteq> []" by auto
  have "last (take mid es) = es ! (mid - 1)" "hd (drop mid es) = es ! mid"
    using mid last_conv_nth [of "take mid es"] by (cases "es = []", auto simp: hd_drop_conv_nth min_def)
  moreover have "key (es ! (mid - 1)) \<le> key (es ! mid)"
    using sorted_nth_mono [OF entries_sorted_keys [OF assms(2)], of "mid - 1" mid] mid by simp
  ultimately show "key (last (take mid es)) < key (hd (drop mid es))"
    using assms(1) by (auto simp: clean_cut_def mid_def order_less_le)
qed

text \<open>Two nodes enter the registry, and then the cache in the place of a third.\<close>

lemma register_pair_step:
  assumes ok: "store_ok t" and lt: "a < next_id (t_manifest t)" "b < next_id (t_manifest t)" "a \<noteq> b"
    and p: "pa = node_path_in (data_dir (opts t)) a" "pb = node_path_in (data_dir (opts t)) b"
  shows "\<exists>t1 t2. on_manifest (register_node a lvl pa) t = (Inr (), t1) \<and> on_manifest (register_node b lvl pb) t1 = (Inr (), t2) \<and>
    evolves 0 {a, b} t t2 \<and> cache t2 = cache t \<and> tdisk t2 = tdisk t \<and>
    live (t_manifest t2) a \<noteq> None \<and> live (t_manifest t2) b \<noteq> None"
proof -
  from register_step [OF ok lt(1) p(1), of lvl] obtain t1 where t1:
    "on_manifest (register_node a lvl pa) t = (Inr (), t1)" "evolves 0 {a} t t1"
    "live (t_manifest t1) a \<noteq> None" "cache t1 = cache t" "tdisk t1 = tdisk t" by blast
  have b1: "b < next_id (t_manifest t1)" "pb = node_path_in (data_dir (opts t1)) b"
    using lt(2) p(2) evolvesD(7,9) [OF t1(2)] by (simp_all add: word_less_nat_alt)
  from register_step [OF evolvesD(1) [OF t1(2)] b1, of lvl] obtain t2 where t2:
    "on_manifest (register_node b lvl pb) t1 = (Inr (), t2)" "evolves 0 {b} t1 t2"
    "live (t_manifest t2) b \<noteq> None" "cache t2 = cache t1" "tdisk t2 = tdisk t1" by blast
  have "live (t_manifest t2) a \<noteq> None" using t1(3) evolvesD(3) [OF t2(2), of a] lt(3) by simp
  moreover have "evolves 0 {a, b} t t2" using evolves_trans [OF t1(2) t2(2)] by (simp add: insert_commute)
  ultimately show ?thesis using t1 t2 by auto
qed

lemma exchange_step:
  assumes ok: "store_ok t" and lt: "a < next_id (t_manifest t)" "b < next_id (t_manifest t)"
    and ids: "i \<noteq> a" "i \<noteq> b" "a \<noteq> b"
  shows "\<exists>t1 t2 t3. put_node a na t = (Inr (), t1) \<and> put_node b nb t1 = (Inr (), t2) \<and> erase_node i t2 = (Inr (), t3) \<and>
    evolves 0 {a, b, i} t t3 \<and> map_of (cache t3) a = Some na \<and> map_of (cache t3) b = Some nb \<and>
    map_of (cache t3) i = None \<and> t_manifest t3 = t_manifest t \<and> tdisk t3 = tdisk t"
proof -
  from put_step [OF ok lt(1), of na] obtain t1 where t1: "put_node a na t = (Inr (), t1)" "evolves 0 {a} t t1"
    "map_of (cache t1) a = Some na" "t_manifest t1 = t_manifest t" "tdisk t1 = tdisk t" by blast
  have "b < next_id (t_manifest t1)" using t1(4) lt(2) by simp
  from put_step [OF evolvesD(1) [OF t1(2)] this, of nb] obtain t2 where t2: "put_node b nb t1 = (Inr (), t2)"
    "evolves 0 {b} t1 t2" "map_of (cache t2) b = Some nb" "t_manifest t2 = t_manifest t1" "tdisk t2 = tdisk t1" by blast
  from erase_step [OF evolvesD(1) [OF t2(2)], of i] obtain t3 where t3: "erase_node i t2 = (Inr (), t3)"
    "evolves 0 {i} t2 t3" "map_of (cache t3) i = None" "t_manifest t3 = t_manifest t2" "tdisk t3 = tdisk t2" by blast
  have "map_of (cache t3) a = Some na" "map_of (cache t3) b = Some nb"
    using ids t1(3) t2(3) evolvesD(4) [OF t2(2)] evolvesD(4) [OF t3(2)] by auto
  moreover have "evolves 0 {a, b, i} t t3"
    using evolves_trans [OF evolves_trans [OF t1(2) t2(2)] t3(2)] by (simp add: insert_commute)
  ultimately show ?thesis using t1(1,4,5) t2(1,4,5) t3(1,3-5) by auto
qed

lemma swap_leaves_step:
  assumes ok: "store_ok t" and lt: "a < next_id (t_manifest t)" "b < next_id (t_manifest t)"
    and ids: "i \<noteq> a" "i \<noteq> b" "a \<noteq> b"
    and p: "file_path na = node_path_in (data_dir (opts t)) a" "file_path nb = node_path_in (data_dir (opts t)) b"
  shows "\<exists>t'. bind (on_manifest (register_node a 0 (file_path na))) (\<lambda>_.
     bind (on_manifest (register_node b 0 (file_path nb))) (\<lambda>_.
     bind (on_manifest (invalidate_node i)) (\<lambda>_.
     bind (modify (\<lambda>t. t\<lparr>split_ops := split_ops t + 1\<rparr>)) (\<lambda>_.
     bind (put_node a na) (\<lambda>_. bind (put_node b nb) (\<lambda>_.
     bind (erase_node i) (\<lambda>_. ret (na, nb)))))))) t = (Inr (na, nb), t') \<and>
    evolves 0 {a, b, i} t t' \<and> node_view t' i = Inl (Unknown_node i) \<and>
    node_view t' a = Inr na \<and> node_view t' b = Inr nb \<and> tdisk t' = tdisk t \<and>
    live (t_manifest t') a \<noteq> None \<and> live (t_manifest t') b \<noteq> None"
proof -
  from register_pair_step [OF ok lt ids(3) p, of 0] obtain t1 t2 where t2:
    "on_manifest (register_node a 0 (file_path na)) t = (Inr (), t1)"
    "on_manifest (register_node b 0 (file_path nb)) t1 = (Inr (), t2)" "evolves 0 {a, b} t t2" "tdisk t2 = tdisk t"
    "live (t_manifest t2) a \<noteq> None" "live (t_manifest t2) b \<noteq> None" by blast
  from invalidate_step [OF evolvesD(1) [OF t2(3)], of i] obtain t3 where t3:
    "on_manifest (invalidate_node i) t2 = (Inr (), t3)" "evolves 0 {i} t2 t3" "live (t_manifest t3) i = None"
    "tdisk t3 = tdisk t2" by blast
  let ?t4 = "t3\<lparr>split_ops := split_ops t3 + 1\<rparr>"
  have e4: "evolves 0 {} t3 ?t4"
    by (rule counter_step [OF evolvesD(1) [OF t3(2)], of "\<lambda>t. t\<lparr>split_ops := split_ops t + 1\<rparr>"]) simp
  have E4: "evolves 0 {a, b, i} t ?t4"
    using evolves_trans [OF evolves_trans [OF t2(3) t3(2)] e4] by (simp add: insert_commute)
  have "a < next_id (t_manifest ?t4)" "b < next_id (t_manifest ?t4)"
    using evolvesD(9) [OF E4] lt by (simp_all add: word_less_nat_alt)
  from exchange_step [OF evolvesD(1) [OF E4] this ids, of na nb] obtain t5 t6 t7 where t7:
    "put_node a na ?t4 = (Inr (), t5)" "put_node b nb t5 = (Inr (), t6)" "erase_node i t6 = (Inr (), t7)"
    "evolves 0 {a, b, i} ?t4 t7" "map_of (cache t7) a = Some na" "map_of (cache t7) b = Some nb"
    "map_of (cache t7) i = None" "t_manifest t7 = t_manifest t3" "tdisk t7 = tdisk t3" by auto
  have "live (t_manifest t7) i = None" using t3(3) t7(8) by simp
  moreover have "live (t_manifest t7) a \<noteq> None" "live (t_manifest t7) b \<noteq> None"
    using t2(5,6) evolvesD(3) [OF t3(2), of a] evolvesD(3) [OF t3(2), of b] ids t7(8) by simp_all
  moreover from calculation(1) have "node_view t7 i = Inl (Unknown_node i)" by (rule unseen [OF t7(7)])
  moreover have "evolves 0 {a, b, i} t t7" using evolves_trans [OF E4 t7(4)] by simp
  ultimately show ?thesis
    using t2(1,2,4) t3(1,4) t7(1-3,5,6,9) cached_view
    by (intro exI [of _ t7]) (simp add: bind_Inr exec_simps)
qed

lemma halve_leaf_step:
  assumes ok: "store_ok t" and n: "map_of (cache t) i = Some n"
    and xs: "xs \<noteq> []" "[] \<notin> key ` set xs" "length xs < 2 ^ 30" "entries_sorted xs"
    and ys: "ys \<noteq> []" "[] \<notin> key ` set ys" "length ys < 2 ^ 30" "entries_sorted ys"
    and room: "unat (next_id (t_manifest t)) + 2 < 2 ^ 64"
  defines "a \<equiv> next_id (t_manifest t)"
  shows "\<exists>na nb t'. halve_leaf i xs ys t = (Inr (na, nb), t') \<and> evolves 2 {a, a + 1, i} t t' \<and>
    node_view t' i = Inl (Unknown_node i) \<and>
    node_view t' a = Inr na \<and> sound_node a na \<and> level na = 0 \<and> num_children na = 0 \<and>
    (\<forall>k. newest k (buffer na) = newest k xs) \<and> min_key (krange na) = key (hd xs) \<and>
    node_view t' (a + 1) = Inr nb \<and> sound_node (a + 1) nb \<and> level nb = 0 \<and> num_children nb = 0 \<and>
    (\<forall>k. newest k (buffer nb) = newest k ys) \<and> min_key (krange nb) = key (hd ys) \<and>
    on_file t' a na \<and> on_file t' (a + 1) nb \<and>
    (list_all entry_fits xs \<longrightarrow> small_node na) \<and> (list_all entry_fits ys \<longrightarrow> small_node nb)"
proof -
  let ?b = "a + 1"
  have nx: "next_id (t_manifest t) = a" by (simp add: a_def)
  have i: "i < a" using store_ok_cached [OF ok n] by (simp add: a_def)
  have ab: "a < ?b" "unat ?b = unat a + 1"
    using room nx by (auto simp: word_less_nat_alt unat_word_ariths)
  have ids: "i \<noteq> a" "i \<noteq> ?b" "a \<noteq> ?b" using i ab(1) by auto
  from alloc_step [OF ok] room nx obtain t1 where t1: "alloc_id t = (Inr a, t1)" "evolves 1 {} t t1"
    "next_id (t_manifest t1) = ?b" by auto
  note ok1 = evolvesD(1) [OF t1(2)]
  from alloc_step [OF ok1] room nx t1(3) ab(2) obtain t2 where t2: "alloc_id t1 = (Inr ?b, t2)" "evolves 1 {} t1 t2"
    by auto
  note ok2 = evolvesD(1) [OF t2(2)]
  from create_leaf [OF ok2 xs, of a] obtain na t3 where t3: "create_in a 0 xs [] t2 = (Inr na, t3)"
    "evolves 0 {a} t2 t3" and na: "sound_node a na" "level na = 0" "num_children na = 0"
    "\<forall>k. newest k (buffer na) = newest k xs" "min_key (krange na) = key (hd xs)"
    "file_path na = node_path_in (data_dir (opts t2)) a" "files (tdisk t3) (file_path na) = Some (node_image na)"
    "list_all entry_fits xs \<longrightarrow> small_node na" by blast
  note ok3 = evolvesD(1) [OF t3(2)]
  from create_leaf [OF ok3 ys, of ?b] obtain nb t4 where t4: "create_in ?b 0 ys [] t3 = (Inr nb, t4)"
    "evolves 0 {?b} t3 t4" "t_manifest t4 = t_manifest t3" and nb: "sound_node ?b nb" "level nb = 0" "num_children nb = 0"
    "\<forall>k. newest k (buffer nb) = newest k ys" "min_key (krange nb) = key (hd ys)"
    "file_path nb = node_path_in (data_dir (opts t3)) ?b" "files (tdisk t4) (file_path nb) = Some (node_image nb)"
    "list_all entry_fits ys \<longrightarrow> small_node nb"
    and keep: "\<forall>j. j \<noteq> ?b \<longrightarrow> files (tdisk t4) (node_path_in (data_dir (opts t3)) j) =
      files (tdisk t3) (node_path_in (data_dir (opts t3)) j)" by blast
  have e4: "evolves 2 {a, ?b} t t4"
    using evolves_trans [OF evolves_trans [OF evolves_trans [OF t1(2) t2(2)] t3(2)] t4(2)] by (simp add: insert_commute numeral_2_eq_2)
  note D4 = evolvesD [OF e4]
  have opt: "opts t2 = opts t4" "opts t3 = opts t4"
    using evolvesD(7) [OF t3(2)] evolvesD(7) [OF t4(2)] by simp_all
  have lt4: "a < next_id (t_manifest t4)" "?b < next_id (t_manifest t4)"
    using D4(9) nx ab(2) by (simp_all add: word_less_nat_alt)
  have p: "file_path na = node_path_in (data_dir (opts t4)) a" "file_path nb = node_path_in (data_dir (opts t4)) ?b"
    using na(6) nb(6) opt by simp_all
  from swap_leaves_step [OF D4(1) lt4 ids p] obtain t5 where t5:
    "bind (on_manifest (register_node a 0 (file_path na))) (\<lambda>_.
     bind (on_manifest (register_node ?b 0 (file_path nb))) (\<lambda>_.
     bind (on_manifest (invalidate_node i)) (\<lambda>_.
     bind (modify (\<lambda>t. t\<lparr>split_ops := split_ops t + 1\<rparr>)) (\<lambda>_.
     bind (put_node a na) (\<lambda>_. bind (put_node ?b nb) (\<lambda>_.
     bind (erase_node i) (\<lambda>_. ret (na, nb)))))))) t4 = (Inr (na, nb), t5)"
    "evolves 0 {a, ?b, i} t4 t5" "node_view t5 i = Inl (Unknown_node i)" "node_view t5 a = Inr na"
    "node_view t5 ?b = Inr nb" "tdisk t5 = tdisk t4" "live (t_manifest t5) a \<noteq> None" "live (t_manifest t5) ?b \<noteq> None"
    by blast
  have "halve_leaf i xs ys t = (Inr (na, nb), t5)"
    unfolding halve_leaf_def using t1(1) t2(1) t3(1) t4(1) t5(1) by (simp add: bind_Inr)
  moreover have "evolves 2 {a, ?b, i} t t5"
    using evolves_trans [OF e4 t5(2)] by (simp add: insert_commute)
  moreover have "files (tdisk t4) (node_path_in (data_dir (opts t4)) a) = Some (node_image na)"
    using keep ids(3) na(6,7) opt by simp
  then have "on_file t5 a na" "on_file t5 ?b nb"
    using t5(6-8) nb(7) p evolvesD(7) [OF t5(2)] by (simp_all add: on_file_def)
  ultimately show ?thesis using t5(3-5) na nb by blast
qed

text \<open>The nodes a split of the root leaves behind: two leaves with the halves and a root over them.\<close>

definition split_nodes :: "view \<Rightarrow> node_id \<Rightarrow> node_id \<Rightarrow> node_id \<Rightarrow> entry list \<Rightarrow> entry list \<Rightarrow> bool" where
  "split_nodes v r a b xs ys \<longleftrightarrow> a \<noteq> b \<and>
     (\<exists>m. v r = Inr m \<and> sound_node r m \<and> level m = 1 \<and> buffer m = [] \<and> kids m = [a, b]) \<and>
     (\<forall>(c, es)\<in>{(a, xs), (b, ys)}. \<exists>n. v c = Inr n \<and> sound_node c n \<and> level n = 0 \<and> num_children n = 0 \<and>
        (\<forall>k. newest k (buffer n) = newest k es) \<and> min_key (krange n) = key (hd es))"

text \<open>\<^verbatim>\<open>split_leaf\<close> up to the point where the path decides.\<close>

lemma split_leaf_front:
  fixes t :: tree
  assumes ok: "store_ok t" and n: "node_view t i = Inr n" "sound_node i n"
    and len: "2 \<le> length (buffer n)" "length (buffer n) < 2 ^ 30"
    and room: "unat (next_id (t_manifest t)) + 2 < 2 ^ 64"
  defines "mid \<equiv> length (buffer n) div 2" and "a \<equiv> next_id (t_manifest t)"
  shows "\<exists>na nb t'. split_leaf fuel i path t =
      bind (if length path = 1 then new_root_over 1 a (a + 1) na nb
           else if length path < 2 then throw Undefined_behaviour
           else insert_child fuel (path ! (length path - 2)) i a (a + 1)) (\<lambda>_.
        bind save_manifest (\<lambda>_. gc_manifest)) t' \<and> evolves 2 {a, a + 1, i} t t' \<and>
    node_view t' i = Inl (Unknown_node i) \<and> i < a \<and>
    node_view t' a = Inr na \<and> sound_node a na \<and> level na = 0 \<and> num_children na = 0 \<and>
    (\<forall>k. newest k (buffer na) = newest k (take mid (buffer n))) \<and> min_key (krange na) = key (hd (take mid (buffer n))) \<and>
    node_view t' (a + 1) = Inr nb \<and> sound_node (a + 1) nb \<and> level nb = 0 \<and> num_children nb = 0 \<and>
    (\<forall>k. newest k (buffer nb) = newest k (drop mid (buffer n))) \<and> min_key (krange nb) = key (hd (drop mid (buffer n))) \<and>
    on_file t' a na \<and> on_file t' (a + 1) nb \<and> (small_node n \<longrightarrow> small_node na \<and> small_node nb)"
proof -
  let ?es = "buffer n"
  let ?xs = "take mid ?es" and ?ys = "drop mid ?es" and ?b = "a + 1"
  have es: "entries_sorted ?es" "[] \<notin> key ` set ?es" using n(2) by (auto simp: sound_node_def node_sane_def)
  have halves: "?xs \<noteq> []" "?ys \<noteq> []" using len(1) by (auto simp: mid_def)
  have sh: "entries_sorted ?xs" "entries_sorted ?ys"
    using sorted_wrt_take [OF es(1), of mid] sorted_wrt_drop [OF es(1), of mid]
    by (simp_all add: take_map drop_map)
  have neh: "[] \<notin> key ` set ?xs" "[] \<notin> key ` set ?ys" using es(2) by (auto dest: in_set_takeD in_set_dropD)
  have lenh: "length ?xs < 2 ^ 30" "length ?ys < 2 ^ 30" using len(2) by simp_all
  from get_node_step [OF ok n(1)] obtain t1 where t1: "get_node i t = (Inr n, t1)" "evolves 0 {} t t1"
    "map_of (cache t1) i = Some n" by blast
  from upd_step [OF evolvesD(1) [OF t1(2)] t1(3), of "\<lambda>n. n\<lparr>buffer := stable_sort entry_less (buffer n)\<rparr>"]
  obtain t2 where t2: "upd_node i (\<lambda>n. n\<lparr>buffer := stable_sort entry_less (buffer n)\<rparr>) t1 = (Inr (), t2)"
    "evolves 0 {i} t1 t2" "map_of (cache t2) i = Some n"
    using stable_sort_id [OF es(1)] by auto
  have g2: "get_node i t2 = (Inr n, t2)" by (rule get_node_hit [OF t2(3)])
  have e2: "evolves 0 {i} t t2" using evolves_trans [OF t1(2) t2(2)] by simp
  have a2: "next_id (t_manifest t2) = a" using evolvesD(9) [OF e2] by (simp add: a_def word_unat_eq_iff)
  have "unat (next_id (t_manifest t2)) + 2 < 2 ^ 64" using room a2 by (simp add: a_def)
  from halve_leaf_step [OF evolvesD(1) [OF e2] t2(3) halves(1) neh(1) lenh(1) sh(1) halves(2) neh(2) lenh(2) sh(2) this]
  obtain na nb t3 where t3: "halve_leaf i ?xs ?ys t2 = (Inr (na, nb), t3)" "evolves 2 {a, ?b, i} t2 t3"
    "node_view t3 i = Inl (Unknown_node i)"
    and na: "node_view t3 a = Inr na" "sound_node a na" "level na = 0" "num_children na = 0"
      "\<And>k. newest k (buffer na) = newest k ?xs" "min_key (krange na) = key (hd ?xs)"
    and nb: "node_view t3 ?b = Inr nb" "sound_node ?b nb" "level nb = 0" "num_children nb = 0"
      "\<And>k. newest k (buffer nb) = newest k ?ys" "min_key (krange nb) = key (hd ?ys)"
    and fl: "on_file t3 a na" "on_file t3 ?b nb" "list_all entry_fits ?xs \<longrightarrow> small_node na"
      "list_all entry_fits ?ys \<longrightarrow> small_node nb"
    unfolding a2 by blast
  have "i < a" using store_ok_cached [OF evolvesD(1) [OF e2] t2(3)] a2 by simp
  moreover have "nid na = a" "nid nb = ?b" "?es \<noteq> []" using na(2) nb(2) halves by (auto simp: sound_node_def)
  then have "split_leaf fuel i path t = bind (if length path = 1 then new_root_over 1 a ?b na nb
           else if length path < 2 then throw Undefined_behaviour
           else insert_child fuel (path ! (length path - 2)) i a ?b) (\<lambda>_.
        bind save_manifest (\<lambda>_. gc_manifest)) t3"
    using t1(1) t2(1) g2 t3(1) by (simp add: split_leaf_def bind_Inr Let_def mid_def)
  moreover have "evolves 2 {a, ?b, i} t t3" using evolves_trans [OF e2 t3(2)] by (simp add: insert_commute numeral_2_eq_2)
  moreover have "list_all entry_fits ?xs \<and> list_all entry_fits ?ys" if "small_node n"
  proof -
    have "\<forall>e\<in>set ?es. entry_fits e" using that by (simp add: small_node_def list_all_iff)
    then show ?thesis by (auto simp: list_all_iff dest: in_set_takeD in_set_dropD)
  qed
  then have "small_node n \<longrightarrow> small_node na \<and> small_node nb" using fl(3,4) by blast
  ultimately show ?thesis using t3(3) na nb fl(1,2) by blast
qed

lemma split_root_nodes:
  assumes ok: "store_ok t" and tree: "gtree 0 (node_view t) i" "node_view t i = Inr n"
    and len: "2 \<le> length (buffer n)" "length (buffer n) < 2 ^ 30"
    and room: "unat (next_id (t_manifest t)) + 3 < 2 ^ 64"
  defines "mid \<equiv> length (buffer n) div 2"
  shows "\<exists>a b t'. split_leaf fuel i [i] t = (Inr (), t') \<and> store_ok t' \<and>
    split_nodes (node_view t') (root_id (t_manifest t')) a b (take mid (buffer n)) (drop mid (buffer n)) \<and>
    settles {i} t t' \<and> saved t' \<and> root_id (t_manifest t') \<noteq> 0 \<and>
    write_buf t' = write_buf t \<and> seq t' = seq t \<and> opts t' = opts t \<and>
    unat (next_id (t_manifest t')) = unat (next_id (t_manifest t)) + 3 \<and> node_view t' i = Inl (Unknown_node i)"
proof -
  let ?xs = "take mid (buffer n)" and ?ys = "drop mid (buffer n)"
  define a where "a = next_id (t_manifest t)"
  let ?b = "a + 1"
  have "sound_node i n" "unat (next_id (t_manifest t)) + 2 < 2 ^ 64" using tree room by auto
  from split_leaf_front [OF ok tree(2) this(1) len this(2), of fuel "[i]"]
  obtain na nb t3 where t3: "split_leaf fuel i [i] t =
      bind (new_root_over 1 a ?b na nb) (\<lambda>_. bind save_manifest (\<lambda>_. gc_manifest)) t3"
    "evolves 2 {a, ?b, i} t t3" "node_view t3 i = Inl (Unknown_node i)" "i < a"
    and na: "node_view t3 a = Inr na" "sound_node a na" "level na = 0" "num_children na = 0"
      "\<And>k. newest k (buffer na) = newest k ?xs" "min_key (krange na) = key (hd ?xs)"
    and nb: "node_view t3 ?b = Inr nb" "sound_node ?b nb" "level nb = 0" "num_children nb = 0"
      "\<And>k. newest k (buffer nb) = newest k ?ys" "min_key (krange nb) = key (hd ?ys)"
    and fl: "on_file t3 a na" "on_file t3 ?b nb" "small_node n \<longrightarrow> small_node na \<and> small_node nb"
    unfolding a_def mid_def by auto
  define r where "r = next_id (t_manifest t3)"
  have r: "unat r = unat a + 2" using evolvesD(9) [OF t3(2)] by (simp add: r_def a_def)
  have "unat (next_id (t_manifest t3)) + 1 < 2 ^ 64" using r room by (simp add: r_def a_def)
  from new_root_step [OF evolvesD(1) [OF t3(2)] this, of 1 a ?b na nb] obtain m t4 where t4:
    "new_root_over 1 a ?b na nb t3 = (Inr (), t4)" "evolves 1 {r} (rooted r t3) t4" "map_of (cache t4) r = Some m"
    "sound_node r m" "level m = 1" "buffer m = []" "kids m = [a, ?b]"
    "krange m = \<lparr>min_key = min_key (krange na), max_key = max_key (krange nb)\<rparr>" "on_file t4 r m" unfolding r_def by blast
  from save_step [OF evolvesD(1) [OF t4(2)]] obtain t5 where t5: "save_manifest t4 = (Inr (), t5)" "evolves 0 {} t4 t5"
    "saved t5" by blast
  from gc_step [OF evolvesD(1) [OF t5(2)]] obtain t6 where t6: "gc_manifest t5 = (Inr (), t6)" "evolves 0 {} t5 t6"
    "saved t5 \<longrightarrow> saved t6" by blast
  have e6: "evolves 1 {r} (rooted r t3) t6"
    using evolves_trans [OF evolves_trans [OF t4(2) t5(2)] t6(2)] by simp
  note D6 = evolvesD [OF e6]
  have ne: "a \<noteq> r" "?b \<noteq> r" "i \<noteq> r" "a \<noteq> ?b"
    using r t3(4) room by (auto simp: a_def word_less_nat_alt word_unat_eq_iff unat_word_ariths)
  have view: "node_view t6 a = Inr na" "node_view t6 ?b = Inr nb" "node_view t6 r = Inr m"
    using D6(2) [of a] D6(2) [of ?b] na(1) nb(1) ne t4(3) evolvesD(2) [OF t5(2)] evolvesD(2) [OF t6(2)] cached_view
    by auto
  have split: "split_nodes (node_view t6) r a ?b ?xs ?ys"
    unfolding split_nodes_def using ne(4) view t4(4-7) na(2-6) nb(2-6) by auto
  have old: "settles {i} t t6"
  proof (rule settlesI)
    fix j x assume jx: "node_view t6 j = Inr x"
    let ?new = "sound_node j x \<and> on_file t6 j x \<and> (all_small t \<longrightarrow> small_node x)"
    let ?old = "j \<notin> {i} \<and> node_view t j = Inr x \<and> (on_file t j x \<longrightarrow> on_file t6 j x)"
    have small: "small_node na" "small_node nb" "small_node m" if "all_small t"
    proof -
      show "small_node na" "small_node nb" using that tree(2) fl(3) by (auto simp: all_small_def)
      then show "small_node m" using t4(6,8) by (simp add: small_node_def)
    qed
    have f6: "on_file t6 a na" "on_file t6 ?b nb" "on_file t6 r m"
      using on_file_evolves [OF e6, of a na] on_file_evolves [OF e6, of ?b nb] fl(1,2) ne(1,2)
        on_file_evolves [OF t6(2) _ on_file_evolves [OF t5(2) _ t4(9)]] by simp_all
    consider "j \<in> {a, ?b, r}" | "j = i" | "j \<notin> {a, ?b, i, r}" by blast
    then show "?old \<or> ?new"
    proof cases
      case 1
      then show ?thesis using jx view t4(4) na(2) nb(2) small f6 by auto
    next
      case 2
      then show ?thesis using jx t3(3) D6(2) [of i] ne(3) by auto
    next
      case 3
      then have "on_file t6 j x" if "on_file t j x"
        using on_file_evolves [OF e6, of j x] on_file_evolves [OF t3(2), of j x] that by simp
      then show ?thesis using 3 jx D6(2) [of j] evolvesD(2) [OF t3(2), of j] by auto
    qed
  qed
  have "r \<noteq> 0" using store_okD(1) [OF evolvesD(1) [OF t3(2)]] by (auto simp: r_def manifest_wf_def)
  then have r0: "root_id (t_manifest t6) \<noteq> 0" using D6(8) by simp
  have "split_leaf fuel i [i] t = (Inr (), t6)" using t3(1) t4(1) t5(1) t6(1) by (simp add: bind_Inr)
  moreover have "node_view t6 i = Inl (Unknown_node i)" using D6(2) [of i] t3(3) ne(3) by simp
  ultimately show ?thesis
    using D6 split old r0 t5(3) t6(3) evolvesD(5-7,9) [OF t3(2)]
    by (intro exI [of _ a] exI [of _ ?b] exI [of _ t6]) auto
qed

lemma split_root_step:
  assumes ok: "store_ok t" and tree: "gtree 0 (node_view t) i" "node_view t i = Inr n"
    and cut: "clean_cut (buffer n)" "length (buffer n) < 2 ^ 30"
    and room: "unat (next_id (t_manifest t)) + 3 < 2 ^ 64"
  shows "\<exists>r t'. split_leaf fuel i [i] t = (Inr (), t') \<and> store_ok t' \<and> root_id (t_manifest t') = r \<and>
    gtree 1 (node_view t') r \<and> (\<forall>k. lookup 1 (node_view t') r k = newest k (buffer n)) \<and>
    settles {i} t t' \<and> saved t' \<and> root_id (t_manifest t') \<noteq> 0 \<and>
    (\<exists>m. node_view t' r = Inr m \<and> buffer m = []) \<and>
    write_buf t' = write_buf t \<and> seq t' = seq t \<and> opts t' = opts t"
proof -
  let ?xs = "take (length (buffer n) div 2) (buffer n)" and ?ys = "drop (length (buffer n) div 2) (buffer n)"
  have es: "entries_sorted (buffer n)" "[] \<notin> key ` set (buffer n)"
    using tree by (auto simp: sound_node_def node_sane_def)
  have "2 \<le> length (buffer n)" using cut(1) by (simp add: clean_cut_def)
  from split_root_nodes [OF ok tree this cut(2) room, of fuel] obtain a b t' where
    t': "split_leaf fuel i [i] t = (Inr (), t')" "store_ok t'"
      "settles {i} t t'" "saved t'" "root_id (t_manifest t') \<noteq> 0"
      "write_buf t' = write_buf t" "seq t' = seq t" "opts t' = opts t"
    and split: "split_nodes (node_view t') (root_id (t_manifest t')) a b ?xs ?ys" by blast
  from split obtain m na nb where m: "node_view t' (root_id (t_manifest t')) = Inr m"
      "sound_node (root_id (t_manifest t')) m" "level m = 1" "buffer m = []" "kids m = [a, b]" "a \<noteq> b"
    and na: "node_view t' a = Inr na" "sound_node a na" "level na = 0" "num_children na = 0"
      "\<And>k. newest k (buffer na) = newest k ?xs" "min_key (krange na) = key (hd ?xs)"
    and nb: "node_view t' b = Inr nb" "sound_node b nb" "level nb = 0" "num_children nb = 0"
      "\<And>k. newest k (buffer nb) = newest k ?ys" "min_key (krange nb) = key (hd ?ys)"
    unfolding split_nodes_def by auto
  have app: "?xs @ ?ys = buffer n" by simp
  note two = two_leaves_gtree [of ?xs ?ys "node_view t'" "root_id (t_manifest t')" m a b na nb, unfolded app,
      OF es(1) clean_cut_halves [OF cut(1) es(1)] m na nb es(2)]
  show ?thesis using t' two m(1,4) by blast
qed

text \<open>A key on which the cut falls is searched in the right half, whatever the left half holds.\<close>

lemma split_straddle_get:
  assumes split: "split_nodes v r a b xs ys" and k: "key (hd xs) \<le> k" "key (hd ys) \<le> k"
  shows "disk_get (Suc (Suc fuel)) v r k = Inr (Option.bind (newest k ys) visible)"
proof -
  from split obtain m na nb where m: "v r = Inr m" "sound_node r m" "level m = 1" "buffer m = []" "kids m = [a, b]"
    and na: "v a = Inr na" "min_key (krange na) = key (hd xs)"
    and nb: "v b = Inr nb" "sound_node b nb" "level nb = 0" "\<And>k. newest k (buffer nb) = newest k ys"
      "min_key (krange nb) = key (hd ys)" unfolding split_nodes_def by auto
  have kids: "children_of m = Inr [a, b]"
    using m(2,5) by (simp add: children_of_kids sound_node_def)
  have "child_ids m ! 0 = a"
    using m(5) unfolding kids_def by (cases "child_ids m"; cases "unat (num_children m)") simp_all
  then have "path_view (Suc (Suc fuel)) v k r [] = Inr [r, b]"
    using m(1,3) kids na nb(1,3,5) k by (simp add: is_leaf_def)
  moreover have b: "search_view v k [b] = Inr (Option.bind (newest k ys) visible)"
    using search_root [of v b nb k "[]"] nb(1,2,4) by (cases "newest k ys") (simp_all add: sound_node_def del: bind_res_eq_Inr)
  moreover have "search_view v k [r, b] = search_view v k [b]"
    using search_root [of v r m k "[b]"] m(1,2,4) b by (simp add: sound_node_def del: bind_res_eq_Inr)
  ultimately show ?thesis by (simp add: disk_get_def del: path_view.simps search_view.simps)
qed

subsection \<open>Properties\<close>

text \<open>A leaf for the concrete instances, and a store whose cache holds the given nodes.\<close>

definition demo_leaf :: "node_id \<Rightarrow> entry list \<Rightarrow> sst_node" where
  "demo_leaf i es = default_node\<lparr>nid := i, entries_loaded := True, buffer := es,
     krange := \<lparr>min_key = key (hd es), max_key = key (last es)\<rparr>\<rparr>"

definition demo_store :: "node_id \<Rightarrow> sst_node list \<Rightarrow> tree" where
  "demo_store rid ns = (new_tree demo_options demo_disk)
     \<lparr>t_manifest := set_root rid (fold (\<lambda>n. register_node (nid n) (level n) (node_path_in (data_dir demo_options) (nid n))) ns
        ((new_manifest (data_dir demo_options))\<lparr>next_id := of_nat (length ns) + 1\<rparr>)),
      cache := map (\<lambda>n. (nid n, n)) ns\<rparr>"

definition demo_entry :: "8 word \<Rightarrow> seq_number \<Rightarrow> entry" where
  "demo_entry k s = \<lparr>key = [k], val = [k], seq_no = s, deleted = False\<rparr>"

lemma demo_entry_sel [simp]:
  "key (demo_entry k s) = [k]" "val (demo_entry k s) = [k]" "seq_no (demo_entry k s) = s" "\<not> deleted (demo_entry k s)"
  by (simp_all add: demo_entry_def)

lemma demo_leaf_sel [simp]:
  "nid (demo_leaf i es) = i" "level (demo_leaf i es) = 0" "buffer (demo_leaf i es) = es"
  "num_children (demo_leaf i es) = 0" "krange (demo_leaf i es) = \<lparr>min_key = key (hd es), max_key = key (last es)\<rparr>"
  "kids (demo_leaf i es) = []"
  by (simp_all add: demo_leaf_def default_node_def kids_def)

lemma demo_leaf_sound:
  "entries_sorted es \<Longrightarrow> [] \<notin> key ` set es \<Longrightarrow> sound_node i (demo_leaf i es)"
  by (simp add: sound_node_def node_sane_def demo_leaf_def default_node_def)

lemma demo_store_view:
  "map_of (map (\<lambda>n. (nid n, n)) ns) i = Some n \<Longrightarrow> node_view (demo_store rid ns) i = Inr n"
  by (simp add: demo_store_def cached_view)

lemma register_all_ok:
  assumes "manifest_wf m" "m_dir m = dir" "\<forall>(i, meta)\<in>set (m_nodes m). m_path meta = node_path_in dir i"
    "\<forall>n\<in>set ns. nid n < next_id m"
  defines "m' \<equiv> fold (\<lambda>n. register_node (nid n) (level n) (node_path_in dir (nid n))) ns m"
  shows "manifest_wf m' \<and> m_dir m' = dir \<and> next_id m' = next_id m \<and>
    (\<forall>(i, meta)\<in>set (m_nodes m'). m_path meta = node_path_in dir i)"
  using assms(1-4) unfolding m'_def
proof (induction ns arbitrary: m)
  case (Cons n ns)
  let ?m = "register_node (nid n) (level n) (node_path_in dir (nid n)) m"
  have nx: "m_dir ?m = dir" "next_id ?m = next_id m" using Cons.prems(2) by (simp_all add: register_node_def)
  have "\<forall>(i, meta)\<in>set (m_nodes ?m). m_path meta = node_path_in dir i"
    using Cons.prems(3) by (auto simp: register_node_def dest!: set_update_cases)
  moreover have "manifest_wf ?m" using Cons.prems(1,4) by (intro manifest_wf_register) simp_all
  ultimately show ?case using Cons.IH [of ?m] Cons.prems(4) nx by simp
qed simp

lemma demo_store_ok:
  assumes "\<forall>n\<in>set ns. nid n < of_nat (length ns) + 1" "0 < (of_nat (length ns) + 1 :: node_id)"
  shows "store_ok (demo_store rid ns)"
proof -
  let ?m = "(new_manifest (data_dir demo_options))\<lparr>next_id := of_nat (length ns) + 1\<rparr>"
  have "manifest_wf ?m" using assms(2) by (simp add: manifest_wf_def new_manifest_def)
  from register_all_ok [OF this, of "data_dir demo_options" ns] assms(1)
  show ?thesis
    by (auto simp: store_ok_def demo_store_def set_root_def manifest_wf_def new_tree_def new_manifest_def)
qed

text \<open>
  C7. Splitting a full root leaf whose cut falls between two keys: \<^verbatim>\<open>split_leaf\<close> succeeds and leaves a
  tree of height one. The new root has an empty buffer and exactly two children, two different leaves,
  the first with what the lower half of the old buffer says of every key and the second with what the
  upper half says; the old leaf is gone. Every key is found as it was in the leaf, and the write buffer
  is untouched.
\<close>

theorem split_leaf_root_correct:
  assumes "store_ok t" and "gtree 0 (node_view t) i" and "node_view t i = Inr n"
    and "clean_cut (buffer n)" and "length (buffer n) < 2 ^ 30"
    and "unat (next_id (t_manifest t)) + 3 < 2 ^ 64"
  shows "\<exists>t' m a b na nb. split_leaf fuel i [i] t = (Inr (), t') \<and> store_ok t' \<and>
    gtree 1 (node_view t') (root_id (t_manifest t')) \<and>
    (\<forall>k. lookup 1 (node_view t') (root_id (t_manifest t')) k = lookup 0 (node_view t) i k) \<and>
    write_buf t' = write_buf t \<and>
    node_view t' (root_id (t_manifest t')) = Inr m \<and> buffer m = [] \<and> kids m = [a, b] \<and> a \<noteq> b \<and>
    node_view t' a = Inr na \<and> is_leaf na \<and> (\<forall>k. newest k (buffer na) = newest k (take (length (buffer n) div 2) (buffer n))) \<and>
    node_view t' b = Inr nb \<and> is_leaf nb \<and> (\<forall>k. newest k (buffer nb) = newest k (drop (length (buffer n) div 2) (buffer n))) \<and>
    node_view t' i = Inl (Unknown_node i)"
proof -
  from split_root_step [OF assms, of fuel] assms(3) obtain t' where t': "split_leaf fuel i [i] t = (Inr (), t')" "store_ok t'"
    "gtree 1 (node_view t') (root_id (t_manifest t'))"
    "\<forall>k. lookup 1 (node_view t') (root_id (t_manifest t')) k = lookup 0 (node_view t) i k" "write_buf t' = write_buf t" by auto
  have "2 \<le> length (buffer n)" using assms(4) by (simp add: clean_cut_def)
  from split_root_nodes [OF assms(1-3) this assms(5,6), of fuel] t'(1) obtain a b where
    "split_nodes (node_view t') (root_id (t_manifest t')) a b
       (take (length (buffer n) div 2) (buffer n)) (drop (length (buffer n) div 2) (buffer n))"
    "node_view t' i = Inl (Unknown_node i)" by auto
  with t' show ?thesis by (fastforce simp: split_nodes_def is_leaf_def)
qed

theorem split_leaf_root_correct_witness:
  "\<exists>t' m a b. split_leaf 0 1 [1] (demo_store 1 [demo_leaf 1 [demo_entry 2 5, demo_entry 4 3]]) = (Inr (), t') \<and>
     gtree 1 (node_view t') (root_id (t_manifest t')) \<and>
     node_view t' (root_id (t_manifest t')) = Inr m \<and> buffer m = [] \<and> kids m = [a, b] \<and> a \<noteq> b \<and>
     lookup 1 (node_view t') (root_id (t_manifest t')) [4] = Some (demo_entry 4 3)"
proof -
  let ?n = "demo_leaf 1 [demo_entry 2 5, demo_entry 4 3]"
  let ?t = "demo_store 1 [?n]"
  have v: "node_view ?t 1 = Inr ?n" by (rule demo_store_view) simp
  have "sound_node 1 ?n" by (rule demo_leaf_sound) (simp_all add: pos_of_def less_eq_sort_pos_def)
  then have g: "gtree 0 (node_view ?t) 1" using v by simp
  have ok: "store_ok ?t" by (rule demo_store_ok) simp_all
  have "unat (next_id (t_manifest ?t)) + 3 < 2 ^ 64" by (simp add: demo_store_def set_root_def register_node_def)
  from split_leaf_root_correct [OF ok g v _ _ this, of 0] v show ?thesis by (fastforce simp: clean_cut_def)
qed

end
