(* ===== verification/Tree_Flush.thy ===== *)
theory Tree_Flush
  imports Tree_Split
begin

text \<open>
  \<^verbatim>\<open>do_flush\<close> at the root: the buffered entries move into the children, which become new nodes, the
  root's pointers follow, the old children leave cache, manifest and disk. When no child overflows
  afterwards, the tree is a tree again and every search finds what it found before.
\<close>

subsection \<open>local_flush as a sequence of steps\<close>

text \<open>The state of a \<^verbatim>\<open>local_flush\<close> seen as a state of the tree.\<close>

definition in_flush :: "tree \<Rightarrow> flush_state \<Rightarrow> tree" where
  "in_flush t st = t\<lparr>t_manifest := fl_manifest st, tdisk := fl_disk st\<rparr>"

lemma in_flush_sel [simp]:
  "t_manifest (in_flush t st) = fl_manifest st" "tdisk (in_flush t st) = fl_disk st"
  "cache (in_flush t st) = cache t" "opts (in_flush t st) = opts t"
  by (simp_all add: in_flush_def)

definition sound_child :: "sst_node \<Rightarrow> bool" where
  "sound_child c \<longleftrightarrow> sound_node (nid c) c"

lemma sound_child_ok: "sound_child c \<Longrightarrow> child_ok c"
  by (simp add: sound_child_def sound_node_def child_ok_def)

lemma flushed_sound:
  assumes c: "sound_child c" and f: "flushed part c c'" "[] \<notin> key ` set part"
    and c': "part \<noteq> [] \<Longrightarrow> length (child_ids c') = MAX_FANOUT"
      "part \<noteq> [] \<Longrightarrow> pred_option bloom_fits (bloom_of c')"
  shows "sound_child c'"
proof (cases "part = []")
  case False
  have "[] \<notin> key ` set (buffer c')"
    using c f False by (auto simp: flushed_def sound_child_def sound_node_def keys_merge)
  moreover have "node_sane c'"
    using f False by (auto simp: flushed_def node_sane_def keys_strict_sorted bloom_covers_def)
  ultimately show ?thesis
    using c f False c' by (auto simp: flushed_def sound_child_def sound_node_def)
qed (use c f in \<open>simp add: flushed_def\<close>)

lemma flush_child_step:
  assumes ok: "store_ok (in_flush t st)" and cs: "fl_children st = pre @ c # post" "length pre = i"
    and c: "sound_child c" "nid c < next_id (fl_manifest st)"
    and room: "unat (next_id (fl_manifest st)) + 1 < 2 ^ 64"
  shows "\<exists>c' st'. flush_child (data_dir (opts t)) i part res st =
      (Inr \<lparr>new_child_ids = new_child_ids res @ [nid c'],
            old_child_ids = old_child_ids res @ (if part = [] then [] else [nid c])\<rparr>, st') \<and>
    fl_children st' = pre @ c' # post \<and> fl_parent st' = fl_parent st \<and> flushed part c c' \<and>
    evolves (if part = [] then 0 else 1) (if part = [] then {} else {nid c', nid c}) (in_flush t st) (in_flush t st') \<and>
    (part \<noteq> [] \<longrightarrow> nid c' = next_id (fl_manifest st) \<and> live (fl_manifest st') (nid c) = None \<and>
       length (child_ids c') = MAX_FANOUT \<and>
       (length (buffer c') < 2 ^ 30 \<longrightarrow> pred_option bloom_fits (bloom_of c')) \<and> on_file (in_flush t st') (nid c') c')"
proof -
  let ?dir = "data_dir (opts t)" and ?m = "fl_manifest st"
  have op: "\<forall>p. openable (fl_disk st) p" using store_okD(5) [OF ok] by simp
  from flush_child_ok [OF op cs sound_child_ok [OF c(1)], of ?dir part res] obtain c' m' d' where
    run: "flush_child ?dir i part res st =
      (Inr \<lparr>new_child_ids = new_child_ids res @ [nid c'],
            old_child_ids = old_child_ids res @ (if part = [] then [] else [nid c])\<rparr>,
       st\<lparr>fl_children := pre @ c' # post, fl_manifest := m', fl_disk := d'\<rparr>)" and fl: "flushed part c c'"
    and m': "m' = (if part = [] then ?m
      else invalidate_node (nid c) (register_node (nid c') (level c) (file_path c') (snd (next_node_id ?m))))"
    and d': "if part = [] then d' = fl_disk st
     else nid c' = next_id ?m \<and> file_path c' = node_path_in ?dir (nid c') \<and> length (child_ids c') = MAX_FANOUT \<and>
       (length (buffer c') < 2 ^ 30 \<longrightarrow> pred_option bloom_fits (bloom_of c')) \<and>
       d' = (fl_disk st)\<lparr>files := (files (fl_disk st))(tmp_of (file_path c') := None, file_path c' \<mapsto> node_image c')\<rparr>"
    by blast
  let ?st = "st\<lparr>fl_children := pre @ c' # post, fl_manifest := m', fl_disk := d'\<rparr>"
  show ?thesis
  proof (cases "part = []")
    case True
    then have "in_flush t ?st = in_flush t st" using m' d' by (simp add: in_flush_def)
    then have "evolves 0 {} (in_flush t st) (in_flush t ?st)" using evolves_refl [OF ok] by simp
    with run fl True show ?thesis by (intro exI [of _ c'] exI [of _ ?st]) simp
  next
    case False
    let ?n = "next_id ?m"
    have p: "nid c' = ?n" "file_path c' = node_path_in ?dir ?n" using d' False by auto
    from alloc_step [OF ok] room obtain t1 where t1: "alloc_id (in_flush t st) = (Inr ?n, t1)"
      "evolves 1 {} (in_flush t st) t1" by auto
    have t1': "t1 = (in_flush t st)\<lparr>t_manifest := snd (next_node_id ?m)\<rparr>"
      using t1(1) by (simp add: alloc_id_def next_node_id_def)
    have o1: "opts t1 = opts t" using t1' by (simp add: in_flush_def)
    let ?t2 = "t1\<lparr>tdisk := d'\<rparr>"
    have t2: "evolves 0 {?n} t1 ?t2"
      using file_step [OF evolvesD(1) [OF t1(2)], of ?n "node_image c'"] d' False p o1 t1' by simp
    have lt: "?n < next_id (t_manifest ?t2)"
      using evolvesD(9) [OF t1(2)] by (simp add: word_less_nat_alt)
    from register_step [OF evolvesD(1) [OF t2] lt, of "file_path c'" "level c"] p o1 obtain t3 where t3:
      "on_manifest (register_node ?n (level c) (file_path c')) ?t2 = (Inr (), t3)" "evolves 0 {?n} ?t2 t3"
      "live (t_manifest t3) ?n \<noteq> None" by auto
    from invalidate_step [OF evolvesD(1) [OF t3(2)], of "nid c"] obtain t4 where t4:
      "on_manifest (invalidate_node (nid c)) t3 = (Inr (), t4)" "evolves 0 {nid c} t3 t4"
      "live (t_manifest t4) (nid c) = None" by blast
    have t4': "t4 = in_flush t ?st"
      using t3(1) t4(1) False m' p(1) by (auto simp: on_manifest_def modify_def in_flush_def t1')
    have "evolves 1 {?n, nid c} (in_flush t st) (in_flush t ?st)"
      using evolves_trans [OF evolves_trans [OF evolves_trans [OF t1(2) t2] t3(2)] t4(2)]
      by (simp add: t4' insert_commute)
    moreover have "live (fl_manifest ?st) (nid c) = None" using t4(3) t4' by simp
    moreover have "live (fl_manifest ?st) ?n \<noteq> None"
      using t3(3) evolvesD(3) [OF t4(2), of ?n] c(2) t4' by auto
    then have "on_file (in_flush t ?st) (nid c') c'" using p d' False by (simp add: on_file_def)
    ultimately show ?thesis
      using run fl False p(1) d' by (intro exI [of _ c'] exI [of _ ?st]) simp
  qed
qed

text \<open>
  The loop over the children. \<open>moved\<close> relates an old child to what stands in its place: itself, or a
  new node with an id from the range handed out.
\<close>

definition moved :: "node_id \<Rightarrow> node_id \<Rightarrow> entry list \<Rightarrow> sst_node \<Rightarrow> sst_node \<Rightarrow> bool" where
  "moved lo hi part c c' \<longleftrightarrow> flushed part c c' \<and>
     (part \<noteq> [] \<longrightarrow> lo \<le> nid c' \<and> nid c' < hi \<and> length (child_ids c') = MAX_FANOUT \<and>
       (length (buffer c') < 2 ^ 30 \<longrightarrow> pred_option bloom_fits (bloom_of c')))"

lemma moved_mono: "moved lo hi part c c' \<Longrightarrow> lo' \<le> lo \<Longrightarrow> hi \<le> hi' \<Longrightarrow> moved lo' hi' part c c'"
  unfolding moved_def by auto

lemma moved_nid: "moved lo hi part c c' \<Longrightarrow> nid c' = nid c \<and> part = [] \<or> lo \<le> nid c' \<and> part \<noteq> []"
  unfolding moved_def flushed_def by auto

definition old_ids :: "entry list list \<Rightarrow> sst_node list \<Rightarrow> node_id list" where
  "old_ids ps cs = map (nid \<circ> snd) (filter (\<lambda>(p, c). p \<noteq> []) (zip ps cs))"

lemma old_ids_simps [simp]:
  "old_ids [] [] = []"
  "old_ids (p # ps) (c # cs) = (if p = [] then [] else [nid c]) @ old_ids ps cs"
  by (simp_all add: old_ids_def)

lemma old_ids_sub: "length ps = length cs \<Longrightarrow> set (old_ids ps cs) \<subseteq> nid ` set cs"
  by (auto simp: old_ids_def dest: set_zip_rightD)

lemma list_all2_nid:
  assumes "list_all2 (\<lambda>(p, c) c'. moved lo hi p c c') (zip ps cs) cs'" "length ps = length cs" "c' \<in> set cs'"
  shows "nid c' \<in> nid ` set cs \<or> lo \<le> nid c'"
proof -
  obtain j where j: "j < length cs'" "c' = cs' ! j" using assms(3) by (metis in_set_conv_nth)
  then have "moved lo hi (ps ! j) (cs ! j) c'" "j < length cs"
    using list_all2_nthD2 [OF assms(1) j(1)] list_all2_lengthD [OF assms(1)] assms(2) by auto
  then show ?thesis using moved_nid by fastforce
qed

lemma flush_children_step:
  assumes "store_ok (in_flush t st)" "fl_children st = pre @ cs @ post" "length pre = i" "length ps = length cs"
    "\<forall>c\<in>set cs. sound_child c \<and> nid c < next_id (fl_manifest st)" "distinct (map nid cs)"
    "unat (next_id (fl_manifest st)) + length cs < 2 ^ 64"
  shows "\<exists>cs' st' n. flush_children (data_dir (opts t)) i ps res st =
      (Inr \<lparr>new_child_ids = new_child_ids res @ map nid cs', old_child_ids = old_child_ids res @ old_ids ps cs\<rparr>, st') \<and>
    n \<le> length cs \<and> fl_children st' = pre @ cs' @ post \<and> fl_parent st' = fl_parent st \<and>
    evolves n (nid ` set cs' \<union> set (old_ids ps cs)) (in_flush t st) (in_flush t st') \<and>
    list_all2 (\<lambda>(p, c) c'. moved (next_id (fl_manifest st)) (next_id (fl_manifest st')) p c c') (zip ps cs) cs' \<and>
    distinct (map nid cs') \<and> (\<forall>j\<in>set (old_ids ps cs). live (fl_manifest st') j = None) \<and>
    ((\<forall>c\<in>set cs. on_file (in_flush t st) (nid c) c) \<longrightarrow> (\<forall>c'\<in>set cs'. on_file (in_flush t st') (nid c') c'))"
  using assms
proof (induction ps arbitrary: i pre cs res st)
  case Nil
  then show ?case
    using evolves_refl by (intro exI [of _ "[]"] exI [of _ st] exI [of _ 0]) (auto simp: exec_simps)
next
  case (Cons p ps)
  then obtain c ds where cs: "cs = c # ds" by (cases cs) auto
  let ?N = "\<lambda>st. next_id (fl_manifest st)"
  have c: "sound_child c" "nid c < ?N st" "unat (?N st) + 1 < 2 ^ 64" using Cons.prems(5,7) cs by auto
  from flush_child_step [OF Cons.prems(1) _ Cons.prems(3) c, of "ds @ post" p res] Cons.prems(2) cs obtain c' st1 where
    run: "flush_child (data_dir (opts t)) i p res st =
      (Inr \<lparr>new_child_ids = new_child_ids res @ [nid c'],
            old_child_ids = old_child_ids res @ (if p = [] then [] else [nid c])\<rparr>, st1)"
    and st1: "fl_children st1 = pre @ c' # ds @ post" "fl_parent st1 = fl_parent st" "flushed p c c'"
    "evolves (if p = [] then 0 else 1) (if p = [] then {} else {nid c', nid c}) (in_flush t st) (in_flush t st1)"
    "p \<noteq> [] \<longrightarrow> nid c' = ?N st \<and> live (fl_manifest st1) (nid c) = None \<and> length (child_ids c') = MAX_FANOUT \<and>
       (length (buffer c') < 2 ^ 30 \<longrightarrow> pred_option bloom_fits (bloom_of c')) \<and> on_file (in_flush t st1) (nid c') c'"
    by auto
  note D = evolvesD [OF st1(4)]
  have N1: "unat (?N st1) = unat (?N st) + (if p = [] then 0 else 1)" using D(9) by simp
  then have le1: "?N st \<le> ?N st1" by (simp add: word_le_nat_alt)
  let ?res = "\<lparr>new_child_ids = new_child_ids res @ [nid c'],
            old_child_ids = old_child_ids res @ (if p = [] then [] else [nid c])\<rparr>"
  have pre1: "\<forall>c\<in>set ds. sound_child c \<and> nid c < ?N st1" "unat (?N st1) + length ds < 2 ^ 64"
    using Cons.prems(5,7) cs le1 N1 by (auto intro: less_le_trans)
  from Cons.IH [OF D(1), of "pre @ [c']" ds "i + 1" ?res] st1(1) Cons.prems(3,4,6) cs pre1 obtain ds' st' n where
    IH: "flush_children (data_dir (opts t)) (i + 1) ps ?res st1 =
      (Inr \<lparr>new_child_ids = new_child_ids ?res @ map nid ds', old_child_ids = old_child_ids ?res @ old_ids ps ds\<rparr>, st')"
    "n \<le> length ds" "fl_children st' = (pre @ [c']) @ ds' @ post" "fl_parent st' = fl_parent st1"
    "evolves n (nid ` set ds' \<union> set (old_ids ps ds)) (in_flush t st1) (in_flush t st')"
    "list_all2 (\<lambda>(p, c) c'. moved (?N st1) (?N st') p c c') (zip ps ds) ds'" "distinct (map nid ds')"
    "\<forall>j\<in>set (old_ids ps ds). live (fl_manifest st') j = None"
    "(\<forall>c\<in>set ds. on_file (in_flush t st1) (nid c) c) \<longrightarrow> (\<forall>c'\<in>set ds'. on_file (in_flush t st') (nid c') c')" by auto
  have le2: "?N st1 \<le> ?N st'" using evolvesD(9) [OF IH(5)] by (simp add: word_le_nat_alt)
  have len: "length ps = length ds" using Cons.prems(4) cs by simp
  have mv: "moved (?N st) (?N st') p c c'"
    using st1(3,5) N1 le2 by (auto simp: moved_def word_le_nat_alt word_less_nat_alt)
  have new: "nid d' \<in> nid ` set ds \<or> ?N st1 \<le> nid d'" if "d' \<in> set ds'" for d'
    using list_all2_nid [OF IH(6) len that] .
  have dist: "nid c \<notin> nid ` set ds" using Cons.prems(6) cs by auto
  have nc: "nid c \<notin> nid ` set ds'" using new dist c(2) le1 by fastforce
  have nc': "nid c' \<notin> nid ` set ds'"
  proof (cases "p = []")
    case True
    then show ?thesis using nc st1(3) by (simp add: flushed_def)
  next
    case False
    then have "nid c' = ?N st" "?N st < ?N st1" using st1(5) N1 by (simp_all add: word_less_nat_alt)
    then show ?thesis using new Cons.prems(5) cs by fastforce
  qed
  have "nid c' \<notin> nid ` set ds"
  proof (cases "p = []")
    case True
    then show ?thesis using st1(3) dist by (simp add: flushed_def)
  next
    case False
    then have "nid c' = ?N st" using st1(5) by simp
    then show ?thesis using Cons.prems(5) cs by auto
  qed
  then have nco: "nid c' \<notin> set (old_ids ps ds)" using old_ids_sub [OF len] by blast
  have "on_file (in_flush t st') (nid d') d'"
    if on: "\<forall>c\<in>set cs. on_file (in_flush t st) (nid c) c" and d': "d' \<in> set (c' # ds')" for d'
  proof (cases "d' = c'")
    case True
    have "on_file (in_flush t st1) (nid c') c'"
      using on st1(3,5) on_file_evolves [OF st1(4), of "nid c" c] cs by (cases "p = []") (auto simp: flushed_def)
    then show ?thesis using on_file_evolves [OF IH(5)] nc' nco True by simp
  next
    case False
    have "on_file (in_flush t st1) (nid d) d" if "d \<in> set ds" for d
    proof (rule on_file_evolves [OF st1(4)])
      have "nid d \<in> nid ` set ds" using that by simp
      then have "nid d \<noteq> nid c" "nid d < ?N st" using dist Cons.prems(5) cs by auto
      then show "nid d \<notin> (if p = [] then {} else {nid c', nid c})" using st1(5) by auto
    qed (use that on cs in simp)
    then show ?thesis using IH(9) d' False by simp
  qed
  moreover have "live (fl_manifest st') (nid c) = None" if "p \<noteq> []"
    using evolvesD(3) [OF IH(5), of "nid c"] that st1(5) nc dist old_ids_sub [OF len] by auto
  moreover have "evolves ((if p = [] then 0 else 1) + n)
      (nid ` set (c' # ds') \<union> set (old_ids (p # ps) cs)) (in_flush t st) (in_flush t st')"
    by (rule evolves_mono [OF evolves_trans [OF st1(4) IH(5)]]) (auto simp: cs)
  moreover have "list_all2 (\<lambda>(p, c) c'. moved (?N st) (?N st') p c c') (zip (p # ps) cs) (c' # ds')"
    using mv list_all2_mono [OF IH(6)] le1 moved_mono by (fastforce simp: cs)
  ultimately show ?case
    using IH(1-4,7,8) run st1(2) nc' cs
    by (intro exI [of _ "c' # ds'"] exI [of _ st'] exI [of _ "(if p = [] then 0 else 1) + n"])
       (auto simp: bind_Inr)
qed

definition parts_of :: "sst_node list \<Rightarrow> entry list \<Rightarrow> entry list list" where
  "parts_of cs es = map (\<lambda>j. filter (\<lambda>e. target_of cs (key e) = j) es) [0..<length cs]"

lemma length_parts_of [simp]: "length (parts_of cs es) = length cs"
  by (simp add: parts_of_def)

lemma local_flush_step:
  assumes ok: "store_ok t" and pid: "map_of (cache t) pid = Some n" "entries_sorted (buffer n)"
    and cs: "cs \<noteq> []" "\<forall>c\<in>set cs. sound_child c \<and> nid c < next_id (t_manifest t)" "distinct (map nid cs)"
    and room: "unat (next_id (t_manifest t)) + length cs < 2 ^ 64"
  defines "ps \<equiv> parts_of cs (buffer n)"
  shows "\<exists>cs' k t'. run_local_flush pid cs t =
      (Inr (\<lparr>new_child_ids = map nid cs', old_child_ids = old_ids ps cs\<rparr>, cs'), t') \<and> k \<le> length cs \<and>
    evolves k (nid ` set cs' \<union> set (old_ids ps cs)) t t' \<and> cache t' = cache t \<and>
    list_all2 (\<lambda>(p, c) c'. moved (next_id (t_manifest t)) (next_id (t_manifest t')) p c c') (zip ps cs) cs' \<and>
    distinct (map nid cs') \<and> (\<forall>j\<in>set (old_ids ps cs). live (t_manifest t') j = None) \<and>
    ((\<forall>c\<in>set cs. on_file t (nid c) c) \<longrightarrow> (\<forall>c'\<in>set cs'. on_file t' (nid c') c'))"
proof -
  let ?st = "\<lparr>fl_parent = n, fl_children = cs, fl_manifest = t_manifest t, fl_disk = tdisk t\<rparr>"
  let ?res = "\<lparr>new_child_ids = [], old_child_ids = []\<rparr>"
  have t: "in_flush t ?st = t" by (simp add: in_flush_def)
  from flush_children_step [of t ?st "[]" cs "[]" 0 ps ?res] ok cs room t obtain cs' st' k where
    run: "flush_children (data_dir (opts t)) 0 ps ?res ?st =
      (Inr \<lparr>new_child_ids = map nid cs', old_child_ids = old_ids ps cs\<rparr>, st')"
    and st': "k \<le> length cs" "fl_children st' = cs'" "fl_parent st' = n"
    "evolves k (nid ` set cs' \<union> set (old_ids ps cs)) t (in_flush t st')"
    "list_all2 (\<lambda>(p, c) c'. moved (next_id (t_manifest t)) (next_id (fl_manifest st')) p c c') (zip ps cs) cs'"
    "distinct (map nid cs')" "\<forall>j\<in>set (old_ids ps cs). live (fl_manifest st') j = None"
    "(\<forall>c\<in>set cs. on_file t (nid c) c) \<longrightarrow> (\<forall>c'\<in>set cs'. on_file (in_flush t st') (nid c') c')"
    by (auto simp: ps_def)
  have "partition_entries (buffer n) cs = Inr ps" unfolding ps_def parts_of_def by (rule partition_entries_spec [OF cs(1)])
  then have "local_flush (data_dir (opts t)) ?st =
      (Inr \<lparr>new_child_ids = map nid cs', old_child_ids = old_ids ps cs\<rparr>, st')"
    using run stable_sort_id [OF pid(2)] by (simp add: local_flush_def exec_simps Let_def)
  then have "run_local_flush pid cs t =
      (Inr (\<lparr>new_child_ids = map nid cs', old_child_ids = old_ids ps cs\<rparr>, cs'), in_flush t st')"
    using pid(1) st'(2,3) update_same [OF pid(1)] by (simp add: run_local_flush_def in_flush_def)
  with st' show ?thesis by (intro exI [of _ cs'] exI [of _ k] exI [of _ "in_flush t st'"]) simp
qed

subsection \<open>Copying the children in, putting the new ones back\<close>

lemma copy_children_step:
  assumes "store_ok t" "\<forall>c\<in>set ks. \<exists>m. node_view t c = Inr m \<and> sound_node c m"
  shows "\<exists>t'. copy_children ks t = (Inr (map (the_node (node_view t)) ks), t') \<and> evolves 0 {} t t'"
  using assms
proof (induction ks arbitrary: t)
  case Nil
  then show ?case by (auto simp: exec_simps evolves_refl)
next
  case (Cons c ks)
  then obtain m where m: "node_view t c = Inr m" "sound_node c m" by auto
  from get_node_step [OF Cons.prems(1) m(1)] obtain t1 where t1: "get_node c t = (Inr m, t1)" "evolves 0 {} t t1"
    "map_of (cache t1) c = Some m" by blast
  have load: "load_entries (tdisk t1) m = Inr m" using m(2) by (simp add: sound_node_def load_entries_def)
  have copy: "copy_node m = Inr m" using m(2) by (intro copy_node_same) (simp add: sound_node_def)
  have v1: "node_view t1 = node_view t" using evolvesD(2) [OF t1(2)] by auto
  from Cons.IH [OF evolvesD(1) [OF t1(2)]] Cons.prems(2) v1 obtain t2 where
    t2: "copy_children ks t1 = (Inr (map (the_node (node_view t)) ks), t2)" "evolves 0 {} t1 t2" by auto
  have "run_on c (\<lambda>(n, d). case load_entries d n of Inl e \<Rightarrow> (Inl e, (n, d)) | Inr n' \<Rightarrow> (Inr n', (n', d))) t1 = (Inr m, t1)"
    using t1(3) load update_same [OF t1(3)] by (simp add: run_on_def)
  then have "copy_children (c # ks) t = (Inr (map (the_node (node_view t)) (c # ks)), t2)"
    using t1(1) t2(1) copy m(1) by (simp add: bind_Inr exec_simps)
  moreover have "evolves 0 {} t t2" using evolves_trans [OF t1(2) t2(2)] by simp
  ultimately show ?case by blast
qed

lemma span_step:
  assumes ok: "store_ok t" and v: "\<forall>g\<in>set gs. \<exists>m. node_view t g = Inr m" and gs: "gs \<noteq> []"
  shows "\<exists>mx t'. span_of gs t = (Inr (min_of (node_view t) (gs ! 0), mx), t') \<and> evolves 0 {} t t' \<and>
    ((\<forall>g\<in>set gs. small_node (the_node (node_view t) g)) \<longrightarrow> short (min_of (node_view t) (gs ! 0)) \<and> short mx)"
proof -
  obtain f l where f: "node_view t (hd gs) = Inr f" and l: "node_view t (last gs) = Inr l" using v gs by fastforce
  from get_node_step [OF ok f] obtain t1 where t1: "get_node (hd gs) t = (Inr f, t1)" "evolves 0 {} t t1" by blast
  have "node_view t1 (last gs) = Inr l" using l evolvesD(2) [OF t1(2)] by simp
  from get_node_step [OF evolvesD(1) [OF t1(2)] this] obtain t2 where
    t2: "get_node (last gs) t1 = (Inr l, t2)" "evolves 0 {} t1 t2" by blast
  have "min_of (node_view t) (gs ! 0) = min_key (krange f)" using f gs by (simp add: min_of_def hd_conv_nth)
  then have "span_of gs t = (Inr (min_of (node_view t) (gs ! 0), max_key (krange l)), t2)"
    using t1(1) t2(1) by (simp add: span_of_def bind_Inr exec_simps)
  moreover have "short (min_of (node_view t) (gs ! 0)) \<and> short (max_key (krange l))"
    if "\<forall>g\<in>set gs. small_node (the_node (node_view t) g)"
    using bspec [OF that, of "gs ! 0"] bspec [OF that, of "last gs"] gs l by (simp add: small_node_def min_of_def)
  ultimately show ?thesis using evolves_trans [OF t1(2) t2(2)] by auto
qed

text \<open>What \<^verbatim>\<open>do_flush\<close> makes of a child before it goes back into the cache.\<close>

definition refreshed :: "view \<Rightarrow> sst_node \<Rightarrow> sst_node \<Rightarrow> bool" where
  "refreshed v c c' \<longleftrightarrow> sound_child c' \<and> nid c' = nid c \<and> level c' = level c \<and>
     num_children c' = num_children c \<and> kids c' = kids c \<and> (\<forall>k. newest k (buffer c') = newest k (buffer c)) \<and>
     buffer_size_bytes c' \<le> buffer_size_bytes c \<and> key (hd (buffer c')) = key (hd (buffer c)) \<and>
     min_key (krange c') =
       (if kids c = [] then min_key (krange c) else min (min_key (krange c)) (min_of v (kids c ! 0))) \<and>
     (small_node c \<and> (\<forall>g\<in>set (kids c). small_node (the_node v g)) \<longrightarrow> small_node c') \<and> (kids c = [] \<longrightarrow> c' = c)"

lemma refreshed_cong:
  assumes "\<And>g. g \<in> set (kids c) \<Longrightarrow> v' g = v g" "refreshed v c c'"
  shows "refreshed v' c c'"
  using assms by (cases "kids c = []") (auto simp: refreshed_def min_of_def the_node_def)

definition refreshable :: "sst_node \<Rightarrow> bool" where
  "refreshable c \<longleftrightarrow> sound_child c \<and> length (buffer c) < 2 ^ 30 \<and> min_key (krange c) \<noteq> [] \<and>
     (\<forall>e\<in>set (buffer c). min_key (krange c) \<le> key e)"

lemma sort_bytes_le: "sum_list (map f (sort_entries es)) \<le> sum_list (map f es)" for f :: "entry \<Rightarrow> nat"
proof -
  have "sum_list (map f (dedupe_loop acc xs)) \<le> sum_list (map f acc) + sum_list (map f xs)" for acc xs
  proof (induction xs arbitrary: acc)
    case (Cons a xs)
    from Cons.IH [of acc] Cons.IH [of "acc @ [a]"] show ?case by auto
  qed simp
  from this [of "[]" "stable_sort entry_less es"]
  have "sum_list (map f (sort_entries es)) \<le> sum_list (map f (stable_sort entry_less es))"
    by (simp add: sort_entries_def Let_def)
  also have "\<dots> = sum_list (map f es)"
    by (metis mset_map mset_sort stable_sort_eq_sort_key sum_mset_sum_list)
  finally show ?thesis .
qed

lemma widened_written:
  assumes c: "refreshable c" and w: "written (widen cmin cmax c) c'" and cm: "cmin = min_of v (kids c ! 0)" "cmin \<noteq> []"
    "kids c \<noteq> []" and span: "(\<forall>g\<in>set (kids c). small_node (the_node v g)) \<longrightarrow> short cmin \<and> short cmax"
  shows "refreshed v c c'"
proof -
  let ?w = "widen cmin cmax c" and ?mn = "min (min_key (krange c)) cmin"
  have sc: "sound_child c" "length (buffer c) < 2 ^ 30" "min_key (krange c) \<noteq> []" using c by (auto simp: refreshable_def)
  have sel: "nid ?w = nid c" "level ?w = level c" "num_children ?w = num_children c" "child_ids ?w = child_ids c"
    "buffer ?w = buffer c" "min_key (krange ?w) = ?mn"
    using sc(3) by (auto simp: widen_def set_range_def Let_def min_def)
  have es: "entries_sorted (buffer c)" using sc(1) by (simp add: sound_child_def sound_node_def node_sane_def)
  have "min_key (krange (expand_range (sort_buffer ?w))) = ?mn"
  proof (cases "buffer c = []")
    case True
    then show ?thesis using sel by (simp add: expand_range_def sort_buffer_def)
  next
    case False
    have "hd (sort_entries (buffer c)) \<in> set (buffer c)"
      using False set_sort_entries [of "buffer c"] by (metis hd_in_set sort_entries_Nil subsetD)
    then have "min_key (krange c) \<le> key (hd (sort_entries (buffer c)))" using c by (simp add: refreshable_def)
    moreover have "?mn \<noteq> []" using sc(3) cm(2) by (simp add: min_def)
    ultimately show ?thesis
      using False sel by (auto simp: expand_range_def sort_buffer_def Let_def min_le_iff_disj not_less)
  qed
  moreover have "key (hd (sort_entries (buffer c))) = key (hd (buffer c))"
    using hd_sort_entries [OF es] by (cases "buffer c = []") auto
  moreover have "length (sort_entries (buffer c)) < 2 ^ 30" using length_sort_entries [of "buffer c"] sc(2) by simp
  moreover have "node_sane c'" using w by (auto simp: written_def node_sane_def bloom_covers_def keys_strict_sorted)
  moreover have "small_node c'" if "small_node c" "\<forall>g\<in>set (kids c). small_node (the_node v g)"
  proof (rule written_small [OF w])
    show "small_node ?w" using that span by (auto simp: small_node_def widen_def set_range_def Let_def)
  qed
  ultimately show ?thesis
    using w sel sc(1) cm sort_bytes_le [of entry_bytes "buffer c"]
    by (auto simp: refreshed_def written_def sound_child_def sound_node_def kids_def buffer_size_bytes_sum)
qed

definition erased_at :: "nat \<Rightarrow> flush_result \<Rightarrow> node_id set" where
  "erased_at i res = (if i < length (old_child_ids res) then {old_child_ids res ! i} else {})"

lemma refreshed_refl: "refreshable c \<Longrightarrow> kids c = [] \<Longrightarrow> refreshed v c c"
  by (simp add: refreshed_def refreshable_def)

text \<open>Writing the widened child, if it has children of its own.\<close>

lemma widen_child_step:
  assumes ok: "store_ok t" and c: "refreshable c" "nid c < next_id (t_manifest t)"
    and g: "\<forall>g\<in>set (kids c). \<exists>m. node_view t g = Inr m" "kids c \<noteq> [] \<Longrightarrow> min_of (node_view t) (kids c ! 0) \<noteq> []"
  shows "\<exists>c' t'. (if kids c \<noteq> [] then
       bind (span_of (kids c)) (\<lambda>(cmin, cmax).
       bind (flush_local (widen cmin cmax c)) (\<lambda>c'.
       bind (on_manifest (register_node (nid c') (level c') (file_path c'))) (\<lambda>_. ret c')))
     else ret c) t = (Inr c', t') \<and> evolves 0 {nid c} t t' \<and> refreshed (node_view t) c c' \<and>
    (on_file t (nid c) c \<longrightarrow> on_file t' (nid c) c')"
proof (cases "kids c = []")
  case True
  then show ?thesis
    using refreshed_refl [OF c(1) True] evolves_mono [OF evolves_refl [OF ok]] by (auto simp: exec_simps)
next
  case False
  from span_step [OF ok g(1) False] obtain mx t1 where
    t1: "span_of (kids c) t = (Inr (min_of (node_view t) (kids c ! 0), mx), t1)" "evolves 0 {} t t1"
    "(\<forall>g\<in>set (kids c). small_node (the_node (node_view t) g)) \<longrightarrow> short (min_of (node_view t) (kids c ! 0)) \<and> short mx"
    by blast
  let ?w = "widen (min_of (node_view t) (kids c ! 0)) mx c"
  have w: "nid ?w = nid c" "level ?w = level c" by (simp_all add: widen_def set_range_def Let_def)
  from flush_local_step [OF evolvesD(1) [OF t1(2)], of ?w] obtain c' t2 where
    t2: "flush_local ?w t1 = (Inr c', t2)" "evolves 0 {nid c} t1 t2" "cache t2 = cache t1"
    "written ?w c'" "file_path c' = node_path_in (data_dir (opts t1)) (nid c)"
    "files (tdisk t2) (file_path c') = Some (node_image c')" unfolding w by blast
  have rf: "refreshed (node_view t) c c'" by (rule widened_written [OF c(1) t2(4) refl g(2) [OF False] False t1(3)])
  then have c': "nid c' = nid c" by (simp add: refreshed_def)
  have lt: "nid c < next_id (t_manifest t2)"
    using c(2) evolvesD(9) [OF t1(2)] evolvesD(9) [OF t2(2)] by (simp add: word_less_nat_alt)
  from register_step [OF evolvesD(1) [OF t2(2)] lt, of "file_path c'" "level c'"] t2(5) evolvesD(7) [OF t2(2)]
  obtain t3 where t3: "on_manifest (register_node (nid c) (level c') (file_path c')) t2 = (Inr (), t3)"
    "evolves 0 {nid c} t2 t3" "cache t3 = cache t2" "tdisk t3 = tdisk t2" "live (t_manifest t3) (nid c) \<noteq> None" by auto
  have "evolves 0 {nid c} t t3" using evolves_trans [OF evolves_trans [OF t1(2) t2(2)] t3(2)] by simp
  moreover have "on_file t3 (nid c) c'"
    using t2(5,6) t3(4,5) evolvesD(7) [OF t2(2)] evolvesD(7) [OF t3(2)] by (simp add: on_file_def)
  ultimately show ?thesis
    using False t1(1) t2(1) t3(1) rf c' by (intro exI [of _ c'] exI [of _ t3]) (simp add: bind_Inr exec_simps)
qed

lemma refresh_child_step:
  assumes ok: "store_ok t" and c: "refreshable c" "nid c < next_id (t_manifest t)"
    and g: "\<forall>g\<in>set (kids c). \<exists>m. node_view t g = Inr m" "kids c \<noteq> [] \<Longrightarrow> min_of (node_view t) (kids c ! 0) \<noteq> []"
    and x: "set (kids c) \<inter> erased_at i res = {}" "nid c \<notin> erased_at i res"
      "\<forall>j\<in>erased_at i res. live (t_manifest t) j = None"
  shows "\<exists>c' t'. refresh_child i res c t = (Inr (), t') \<and> evolves 0 (insert (nid c) (erased_at i res)) t t' \<and>
    refreshed (node_view t) c c' \<and> map_of (cache t') (nid c) = Some c' \<and>
    (\<forall>j\<in>erased_at i res. node_view t' j = Inl (Unknown_node j)) \<and>
    (\<forall>j. j \<noteq> nid c \<longrightarrow> live (t_manifest t') j = live (t_manifest t) j) \<and>
    (on_file t (nid c) c \<longrightarrow> on_file t' (nid c) c')"
proof -
  let ?E = "erased_at i res"
  obtain t1 where t1: "(if i < length (old_child_ids res) then erase_node (old_child_ids res ! i) else ret ()) t =
      (Inr (), t1)" "evolves 0 ?E t t1" "\<forall>j\<in>?E. map_of (cache t1) j = None" "t_manifest t1 = t_manifest t"
    using erase_step [OF ok, of "old_child_ids res ! i"] evolves_refl [OF ok]
    by (cases "i < length (old_child_ids res)") (auto simp: erased_at_def exec_simps)
  have seen: "node_view t1 j = node_view t j" if "j \<in> set (kids c)" for j
    using that x(1) by (intro evolvesD(2) [OF t1(2)]) blast
  have "min_of (node_view t1) (kids c ! 0) = min_of (node_view t) (kids c ! 0)" if "kids c \<noteq> []"
    using seen [of "kids c ! 0"] that by (simp add: min_of_def the_node_def)
  then have mn: "kids c \<noteq> [] \<Longrightarrow> min_of (node_view t1) (kids c ! 0) \<noteq> []" using g(2) by auto
  from widen_child_step [OF evolvesD(1) [OF t1(2)] c(1), of] c(2) t1(4) g(1) seen mn obtain c' t2 where
    t2: "(if kids c \<noteq> [] then
       bind (span_of (kids c)) (\<lambda>(cmin, cmax).
       bind (flush_local (widen cmin cmax c)) (\<lambda>c'.
       bind (on_manifest (register_node (nid c') (level c') (file_path c'))) (\<lambda>_. ret c')))
     else ret c) t1 = (Inr c', t2)" "evolves 0 {nid c} t1 t2" "refreshed (node_view t1) c c'"
    "on_file t1 (nid c) c \<longrightarrow> on_file t2 (nid c) c'" by fastforce
  have c': "nid c' = nid c" using t2(3) by (simp add: refreshed_def)
  have lt: "nid c < next_id (t_manifest t2)"
    using c(2) evolvesD(9) [OF t1(2)] evolvesD(9) [OF t2(2)] by (simp add: word_less_nat_alt)
  from put_step [OF evolvesD(1) [OF t2(2)] lt, of c'] obtain t3 where
    t3: "put_node (nid c) c' t2 = (Inr (), t3)" "evolves 0 {nid c} t2 t3" "map_of (cache t3) (nid c) = Some c'"
    "t_manifest t3 = t_manifest t2" "tdisk t3 = tdisk t2" by blast
  have fl: "on_file t3 (nid c) c'" if "on_file t (nid c) c"
    using on_file_evolves [OF t1(2) x(2) that] t2(4) t3(4,5) evolvesD(7) [OF t3(2)] by (simp add: on_file_def)
  have kids: "children_of c = Inr (kids c)"
    using c(1) by (intro children_of_kids) (simp add: refreshable_def sound_child_def sound_node_def)
  have e: "evolves 0 {nid c} t1 t3" using evolves_trans [OF t2(2) t3(2)] by simp
  have "node_view t3 j = Inl (Unknown_node j)" if "j \<in> ?E" for j
    using that x(2,3) t1(3,4) evolvesD(2) [OF e, of j] unseen [of t1 j] by auto
  moreover have "live (t_manifest t3) j = live (t_manifest t) j" if "j \<noteq> nid c" for j
    using that evolvesD(3) [OF e, of j] t1(4) by simp
  moreover have "refresh_child i res c t = (Inr (), t3)"
    using t1(1) t2(1) t3(1) c' kids by (simp add: refresh_child_def bind_Inr exec_simps)
  moreover have "evolves 0 (insert (nid c) ?E) t t3" using evolves_trans [OF t1(2) e] by simp
  moreover have "refreshed (node_view t) c c'" by (rule refreshed_cong [OF _ t2(3)]) (simp add: seen)
  ultimately show ?thesis using t3(3) fl by blast
qed

lemma refresh_children_step:
  assumes "store_ok t" "\<forall>c\<in>set cs. refreshable c \<and> nid c < next_id (t_manifest t)" "distinct (map nid cs)"
    "\<forall>c\<in>set cs. \<forall>g\<in>set (kids c). (\<exists>m. node_view t g = Inr m) \<and> min_of (node_view t) g \<noteq> [] \<and>
       g \<notin> set old \<and> g \<notin> nid ` set cs"
    "set old \<inter> nid ` set cs = {}" "distinct old" "\<forall>j\<in>set old. live (t_manifest t) j = None"
    "old = drop i (old_child_ids res)"
  shows "\<exists>cs' t'. refresh_children i res cs t = (Inr (), t') \<and>
    evolves 0 (set old \<union> nid ` set cs) t t' \<and> list_all2 (refreshed (node_view t)) cs cs' \<and>
    (\<forall>c'\<in>set cs'. map_of (cache t') (nid c') = Some c') \<and>
    (\<forall>j\<in>set (take (length cs) old). node_view t' j = Inl (Unknown_node j)) \<and>
    ((\<forall>c\<in>set cs. on_file t (nid c) c) \<longrightarrow> (\<forall>c'\<in>set cs'. on_file t' (nid c') c'))"
  using assms
proof (induction cs arbitrary: t i old)
  case Nil
  then show ?case using evolves_mono [OF evolves_refl, of t "set old"] by (auto simp: exec_simps)
next
  case (Cons c cs)
  let ?E = "erased_at i res" and ?old = "tl old"
  have E: "?E = set (take 1 old)"
    using Cons.prems(8) by (simp add: erased_at_def take_Suc hd_drop_conv_nth)
  have Eo: "?E \<subseteq> set old" "set old = ?E \<union> set ?old" "?E \<inter> set ?old = {}"
    using E Cons.prems(6) by (cases old; auto)+
  have pre: "refreshable c" "nid c < next_id (t_manifest t)" "\<forall>g\<in>set (kids c). \<exists>m. node_view t g = Inr m"
    "kids c \<noteq> [] \<Longrightarrow> min_of (node_view t) (kids c ! 0) \<noteq> []" "set (kids c) \<inter> ?E = {}" "nid c \<notin> ?E"
    "\<forall>j\<in>?E. live (t_manifest t) j = None"
    using Cons.prems(2,4,5,7) Eo by auto
  from refresh_child_step [OF Cons.prems(1) pre] obtain c' t1 where
    t1: "refresh_child i res c t = (Inr (), t1)" "evolves 0 (insert (nid c) ?E) t t1"
    "refreshed (node_view t) c c'" "map_of (cache t1) (nid c) = Some c'"
    "\<forall>j\<in>?E. node_view t1 j = Inl (Unknown_node j)"
    "\<forall>j. j \<noteq> nid c \<longrightarrow> live (t_manifest t1) j = live (t_manifest t) j"
    "on_file t (nid c) c \<longrightarrow> on_file t1 (nid c) c'" by blast
  note D = evolvesD [OF t1(2)]
  have next1: "next_id (t_manifest t1) = next_id (t_manifest t)" using D(9) by (simp add: word_unat_eq_iff)
  have seen: "node_view t1 g = node_view t g" if "d \<in> set cs" "g \<in> set (kids d)" for d g
    using that Cons.prems(4) Eo(1) by (intro D(2)) auto
  have mseen: "min_of (node_view t1) g = min_of (node_view t) g" if "d \<in> set cs" "g \<in> set (kids d)" for d g
    using seen [OF that] by (simp add: min_of_def the_node_def)
  have p1: "\<forall>c\<in>set cs. refreshable c \<and> nid c < next_id (t_manifest t1)" "distinct (map nid cs)"
    using Cons.prems(2,3) next1 by auto
  have p2: "\<forall>c\<in>set cs. \<forall>g\<in>set (kids c). (\<exists>m. node_view t1 g = Inr m) \<and> min_of (node_view t1) g \<noteq> [] \<and>
       g \<notin> set ?old \<and> g \<notin> nid ` set cs" using Cons.prems(4) seen mseen Eo(2) by auto
  have p3: "set ?old \<inter> nid ` set cs = {}" "distinct ?old" using Cons.prems(5,6) Eo(2) by (auto simp: distinct_tl)
  have "j \<noteq> nid c \<and> live (t_manifest t) j = None" if "j \<in> set ?old" for j
    using that Cons.prems(5,7) Eo(2) by auto
  then have p4: "\<forall>j\<in>set ?old. live (t_manifest t1) j = None" using t1(6) by metis
  have p5: "?old = drop (i + 1) (old_child_ids res)" using Cons.prems(8) by (simp add: drop_Suc tl_drop)
  from Cons.IH [OF D(1) p1 p2 p3 p4 p5] obtain cs' t2 where
    t2: "refresh_children (i + 1) res cs t1 = (Inr (), t2)" "evolves 0 (set ?old \<union> nid ` set cs) t1 t2"
    "list_all2 (refreshed (node_view t1)) cs cs'" "\<forall>c'\<in>set cs'. map_of (cache t2) (nid c') = Some c'"
    "\<forall>j\<in>set (take (length cs) ?old). node_view t2 j = Inl (Unknown_node j)"
    "(\<forall>c\<in>set cs. on_file t1 (nid c) c) \<longrightarrow> (\<forall>c'\<in>set cs'. on_file t2 (nid c') c')" by blast
  have "refreshed (node_view t) d d'" if "d \<in> set cs" "refreshed (node_view t1) d d'" for d d'
    by (rule refreshed_cong [OF _ that(2)]) (simp add: seen [OF that(1)])
  then have rf: "list_all2 (refreshed (node_view t)) cs cs'"
    using t2(3) by (auto simp: list_all2_conv_all_nth)
  have nc: "nid c' = nid c" using t1(3) by (simp add: refreshed_def)
  have oc: "nid c \<notin> set ?old \<union> nid ` set cs" using Cons.prems(3,5) Eo(2) by auto
  have "on_file t2 (nid d') d'" if on: "\<forall>c\<in>set (c # cs). on_file t (nid c) c" and d': "d' \<in> set (c' # cs')" for d'
  proof (cases "d' = c'")
    case True
    then show ?thesis using on t1(7) nc on_file_evolves [OF t2(2) oc] by simp
  next
    case False
    have "on_file t1 (nid d) d" if d: "d \<in> set cs" for d
    proof (rule on_file_evolves [OF t1(2)])
      have "nid d \<in> nid ` set cs" using d by simp
      then have "nid d \<noteq> nid c" "nid d \<in> nid ` set (c # cs)" using Cons.prems(3) by auto
      then show "nid d \<notin> insert (nid c) ?E" using Cons.prems(5) Eo(1) by blast
    qed (use d on in simp)
    then show ?thesis using t2(6) d' False by simp
  qed
  moreover from nc oc have "map_of (cache t2) (nid c') = Some c'" using evolvesD(4) [OF t2(2)] t1(4) by simp
  moreover have "node_view t2 j = Inl (Unknown_node j)" if "j \<in> ?E" for j
  proof -
    have "j \<notin> set ?old \<union> nid ` set cs" using that Eo(1,3) Cons.prems(5) by auto
    then show ?thesis using that t1(5) evolvesD(2) [OF t2(2)] by simp
  qed
  then have "\<forall>j\<in>set (take (length (c # cs)) old). node_view t2 j = Inl (Unknown_node j)"
    using t2(5) E by (cases old) auto
  moreover have "evolves 0 (set old \<union> nid ` set (c # cs)) t t2"
  proof (rule evolves_mono)
    show "evolves 0 (insert (nid c) ?E \<union> (set ?old \<union> nid ` set cs)) t t2"
      using evolves_trans [OF t1(2) t2(2)] by simp
  qed (use Eo(2) in auto)
  ultimately show ?case
    using t1(1,3) t2(1,4) rf by (intro exI [of _ "c' # cs'"] exI [of _ t2]) (simp add: bind_Inr)
qed

subsection \<open>The parent\<close>

text \<open>The range of the parent is set in two steps; a fetch in between may fill the cache.\<close>

lemma set_span_step:
  assumes ok: "store_ok t" and n: "map_of (cache t) pid = Some n" and gs: "gs \<noteq> []" "\<forall>g\<in>set gs. \<exists>m. node_view t g = Inr m"
  shows "\<exists>mn mx t'. bind (get_node (hd gs)) (\<lambda>f. bind (upd_node pid (set_min (min_key (krange f)))) (\<lambda>_.
      bind (get_node (last gs)) (\<lambda>l. upd_node pid (set_max (max_key (krange l)))))) t = (Inr (), t') \<and>
    evolves 0 {pid} t t' \<and> map_of (cache t') pid = Some (set_range mn mx n) \<and>
    ((\<forall>g\<in>set gs. small_node (the_node (node_view t) g)) \<longrightarrow> short mn \<and> short mx)"
proof -
  obtain f l where f: "node_view t (hd gs) = Inr f" and l: "node_view t (last gs) = Inr l" using gs by fastforce
  from get_node_step [OF ok f] obtain t1 where t1: "get_node (hd gs) t = (Inr f, t1)" "evolves 0 {} t t1" by blast
  have n1: "map_of (cache t1) pid = Some n" using evolvesD(4) [OF t1(2) _ n] by simp
  let ?mn = "min_key (krange f)"
  from upd_step [OF evolvesD(1) [OF t1(2)] n1, of "set_min ?mn"] obtain t2 where
    t2: "upd_node pid (set_min ?mn) t1 = (Inr (), t2)" "evolves 0 {pid} t1 t2" "map_of (cache t2) pid = Some (set_min ?mn n)" by blast
  have "\<exists>l'. node_view t2 (last gs) = Inr l' \<and> max_key (krange l') = max_key (krange l)"
  proof (cases "last gs = pid")
    case True
    then show ?thesis using l cached_view [OF n] cached_view [OF t2(3)] by (simp add: set_min_def)
  next
    case False
    then show ?thesis using l evolvesD(2) [OF t1(2)] evolvesD(2) [OF t2(2)] by simp
  qed
  then obtain l' where l': "node_view t2 (last gs) = Inr l'" "max_key (krange l') = max_key (krange l)" by blast
  from get_node_step [OF evolvesD(1) [OF t2(2)] l'(1)] obtain t3 where
    t3: "get_node (last gs) t2 = (Inr l', t3)" "evolves 0 {} t2 t3" by blast
  have n3: "map_of (cache t3) pid = Some (set_min ?mn n)" using evolvesD(4) [OF t3(2) _ t2(3)] by simp
  from upd_step [OF evolvesD(1) [OF t3(2)] n3, of "set_max (max_key (krange l))"] obtain t4 where
    t4: "upd_node pid (set_max (max_key (krange l))) t3 = (Inr (), t4)" "evolves 0 {pid} t3 t4"
      "map_of (cache t4) pid = Some (set_range ?mn (max_key (krange l)) n)"
    by (auto simp: set_min_def set_max_def set_range_def)
  have "evolves 0 {pid} t t4"
    using evolves_trans [OF evolves_trans [OF evolves_trans [OF t1(2) t2(2)] t3(2)] t4(2)] by simp
  moreover have "short ?mn \<and> short (max_key (krange l))" if "\<forall>g\<in>set gs. small_node (the_node (node_view t) g)"
    using that gs(1) f l by (metis hd_in_set last_in_set small_node_def the_node_def sum.case(2))
  ultimately show ?thesis using t1(1) t2(1) t3(1) t4(1,3) l'(2) by (fastforce simp: bind_Inr)
qed

lemma finish_parent_step:
  assumes ok: "store_ok t" and n: "map_of (cache t) pid = Some n" "nid n = pid" "unat (num_children n) \<le> MAX_FANOUT"
    and ks: "kids n \<noteq> []" "\<forall>g\<in>set (kids n). \<exists>m. node_view t g = Inr m"
  shows "\<exists>n' t'. finish_parent pid t = (Inr (), t') \<and> evolves 0 {pid} t t' \<and> map_of (cache t') pid = Some n' \<and>
    nid n' = pid \<and> level n' = level n \<and> child_ids n' = child_ids n \<and> num_children n' = num_children n \<and>
    buffer n' = sort_entries (buffer n) \<and> entries_loaded n' \<and> bloom_covers n' \<and>
    (length (buffer n) < 2 ^ 30 \<longrightarrow> pred_option bloom_fits (bloom_of n')) \<and> on_file t' pid n' \<and>
    (small_node n \<and> (\<forall>g\<in>set (kids n). small_node (the_node (node_view t) g)) \<longrightarrow> small_node n')"
proof -
  let ?span = "bind (get_node (hd (kids n))) (\<lambda>f. bind (upd_node pid (set_min (min_key (krange f)))) (\<lambda>_.
      bind (get_node (last (kids n))) (\<lambda>l. upd_node pid (set_max (max_key (krange l))))))"
  have g: "get_node pid t = (Inr n, t)" by (rule get_node_hit [OF n(1)])
  have cs: "lift_res (children_of n) t = (Inr (kids n), t)" using n(3) by (simp add: children_of_kids lift_res_def)
  from set_span_step [OF ok n(1) ks] obtain mn mx t2 where
    t2: "?span t = (Inr (), t2)" "evolves 0 {pid} t t2"
    "map_of (cache t2) pid = Some (set_range mn mx n)"
    "(\<forall>g\<in>set (kids n). small_node (the_node (node_view t) g)) \<longrightarrow> short mn \<and> short mx" by blast
  have "nid (set_range mn mx n) = pid" using n(2) by (simp add: set_range_def)
  from flush_register_step [OF evolvesD(1) [OF t2(2)] t2(3) this] obtain n' t3 where
    t3: "flush_and_register pid t2 = (Inr (), t3)" "evolves 0 {pid} t2 t3" "map_of (cache t3) pid = Some n'"
    "written (set_range mn mx n) n'" "file_path n' = node_path_in (data_dir (opts t2)) pid"
    "live (t_manifest t3) pid \<noteq> None" "files (tdisk t3) (file_path n') = Some (node_image n')" by blast
  have "finish_parent pid t = bind ?span (\<lambda>_. flush_and_register pid) t"
    unfolding finish_parent_def bind_Inr [of "get_node pid", OF g] bind_Inr [of "lift_res (children_of n)", OF cs]
    using ks(1) by simp
  then have "finish_parent pid t = (Inr (), t3)" unfolding bind_Inr [of ?span, OF t2(1)] t3(1) .
  moreover have "evolves 0 {pid} t t3" using evolves_trans [OF t2(2) t3(2)] by simp
  moreover have "length (sort_entries (buffer n)) \<le> length (buffer n)" by (rule length_sort_entries)
  moreover have "on_file t3 pid n'" using t3(5-7) evolvesD(7) [OF t3(2)] by (simp add: on_file_def)
  moreover have "small_node n'" if "small_node n" "\<forall>g\<in>set (kids n). small_node (the_node (node_view t) g)"
    using that t2(4) by (intro written_small [OF t3(4)]) (simp add: small_node_def set_range_def)
  ultimately show ?thesis
    using t3(3,4) n(2) by (intro exI [of _ n'] exI [of _ t3]) (auto simp: written_def set_range_def)
qed

lemma check_overflow_quiet:
  assumes "\<forall>i\<in>set is. \<exists>c. map_of (cache t) i = Some c \<and> \<not> buffer_full c"
  shows "check_overflow f g is t = (Inr (), t)"
  using assms by (induction "is") (auto simp: exec_simps bind_def)

lemma kids_update_pointers:
  assumes "length (child_ids n) = MAX_FANOUT" "unat (num_children n) \<le> MAX_FANOUT"
    and "length (new_child_ids res) = length (kids n)"
    and "\<forall>j < length (kids n). kids n ! j \<notin> set (old_child_ids res) \<longrightarrow> new_child_ids res ! j = kids n ! j"
  shows "kids (update_pointers res n) = new_child_ids res"
    "length (child_ids (update_pointers res n)) = MAX_FANOUT"
proof -
  show "length (child_ids (update_pointers res n)) = MAX_FANOUT" using assms(1) by (simp add: update_pointers_def)
  have len: "length (kids n) = unat (num_children n)" using assms(1,2) by (simp add: kids_def)
  show "kids (update_pointers res n) = new_child_ids res"
  proof (rule nth_equalityI)
    show "length (kids (update_pointers res n)) = length (new_child_ids res)"
      using assms(1-3) len by (simp add: kids_def update_pointers_def)
    fix j assume "j < length (kids (update_pointers res n))"
    then have j: "j < unat (num_children n)" using assms(1,2) by (simp add: kids_def update_pointers_def)
    then have "kids n ! j = child_ids n ! j" by (simp add: kids_def)
    then show "kids (update_pointers res n) ! j = new_child_ids res ! j"
      using j assms len by (auto simp: kids_def update_pointers_def)
  qed
qed

lemma old_ids_distinct: "distinct (map nid cs) \<Longrightarrow> length ps = length cs \<Longrightarrow> distinct (old_ids ps cs)"
proof (induction ps cs rule: list_induct2')
  case (4 p ps c cs)
  then show ?case using old_ids_sub [of ps cs] by auto
qed auto

lemma old_ids_iff:
  "length ps = length cs \<Longrightarrow> x \<in> set (old_ids ps cs) \<longleftrightarrow> (\<exists>j < length cs. ps ! j \<noteq> [] \<and> x = nid (cs ! j))"
proof (induction ps cs rule: list_induct2')
  case (4 p ps c cs)
  then show ?case by (auto simp: less_Suc_eq_0_disj)
qed auto

lemma old_ids_length: "length ps = length cs \<Longrightarrow> length (old_ids ps cs) \<le> length cs"
  by (induction ps cs rule: list_induct2') auto

subsection \<open>The whole flush\<close>

text \<open>The buffer a child has after the flush, and that none of them is full.\<close>

definition buffer_after :: "view \<Rightarrow> sst_node \<Rightarrow> nat \<Rightarrow> entry list" where
  "buffer_after v n j =
     (let c = the_node v (kids n ! j)
      in if part_of v n j = [] then buffer c
         else sort_entries (merge_sorted_entries (part_of v n j) (buffer c)))"

definition no_overflow :: "view \<Rightarrow> sst_node \<Rightarrow> bool" where
  "no_overflow v n \<longleftrightarrow>
     (\<forall>j < length (kids n). sum_list (map entry_bytes (buffer_after v n j)) < BUFFER_THRESHOLD)"

text \<open>What the steps up to the overflow check need: no filter grows past its length field.\<close>

definition modest :: "view \<Rightarrow> sst_node \<Rightarrow> bool" where
  "modest v n \<longleftrightarrow> (\<forall>j < length (kids n). length (buffer_after v n j) < 2 ^ 30)"

lemma entry_bytes_pos: "length es \<le> sum_list (map entry_bytes es)"
  by (induction es) (auto simp: entry_bytes_def)

lemma no_overflow_modest:
  assumes "no_overflow v n"
  shows "modest v n"
  unfolding modest_def
proof (intro allI impI)
  fix j assume "j < length (kids n)"
  then have "sum_list (map entry_bytes (buffer_after v n j)) < BUFFER_THRESHOLD" using assms by (simp add: no_overflow_def)
  then show "length (buffer_after v n j) < 2 ^ 30"
    using entry_bytes_pos [of "buffer_after v n j"] by (simp add: BUFFER_THRESHOLD_def)
qed

lemma target_of_route: "target_of (map (the_node v) ks) k = route v ks k"
  by (simp add: target_of_def route_def min_of_def [abs_def] comp_def)

lemma parts_of_nth: "j < length (kids n) \<Longrightarrow> parts_of (map (the_node v) (kids n)) (buffer n) ! j = part_of v n j"
  by (simp add: parts_of_def part_of_def target_of_route)

lemma kids_flushed: "flushed part c c' \<Longrightarrow> kids c' = kids c"
  by (auto simp: flushed_def kids_def split: if_splits)

lemma moved_child:
  assumes tree: "gtree (Suc l) v i" "v i = Inr n" and fit: "modest v n" and j: "j < length (kids n)"
    and c: "v (kids n ! j) = Inr c" and mv: "moved lo hi (part_of v n j) c c'"
  shows "refreshable c'" "buffer c' = buffer_after v n j" "kids c' = kids c" "level c' = level c"
    "num_children c' = num_children c"
    "\<forall>k. newest k (buffer c') = newer (newest k (part_of v n j)) (newest k (buffer c))"
    "part_of v n j = [] \<Longrightarrow> c' = c"
    "part_of v n j \<noteq> [] \<Longrightarrow> min_key (krange c') = key (hd (buffer c'))"
    "small_node c \<Longrightarrow> small_node n \<Longrightarrow> small_node c'"
proof -
  note t = gtree_SucE [OF tree]
  let ?p = "part_of v n j"
  have fl: "flushed ?p c c'" using mv by (simp add: moved_def)
  have gc: "gtree l v (kids n ! j)" using t(5) j by simp
  have sc: "sound_child c" using gtree_node [OF gc] c by (auto simp: sound_child_def sound_node_def)
  show buf: "buffer c' = buffer_after v n j" using fl c by (auto simp: buffer_after_def flushed_def Let_def)
  then have len: "length (buffer c') < 2 ^ 30" using fit j by (simp add: modest_def)
  show "small_node c'" if small: "small_node c" "small_node n"
  proof (cases "?p = []")
    case False
    then have b: "buffer c' = sort_entries (merge_sorted_entries ?p (buffer c))" "krange c' = buffer_range (buffer c')"
      using fl by (simp_all add: flushed_def)
    have "list_all entry_fits (merge_sorted_entries ?p (buffer c))"
      using small set_merge [of ?p "buffer c"] by (auto simp: small_node_def list_all_iff part_of_def)
    then have "list_all entry_fits (buffer c')" unfolding b(1) by (rule entries_fit_sort)
    then show ?thesis using small_range b(2) len by (simp add: small_node_def)
  qed (use small fl in \<open>simp add: flushed_def\<close>)
  have sorted: "entries_sorted (buffer n)" "[] \<notin> key ` set (buffer n)"
    using t(1) by (auto simp: sound_node_def node_sane_def)
  then have ps: "entries_sorted ?p" "[] \<notin> key ` set ?p" using filter_sorted by (auto simp: part_of_def)
  have "sound_child c'"
    by (rule flushed_sound [OF sc fl ps(2)]) (use mv len in \<open>auto simp: moved_def\<close>)
  show "kids c' = kids c" by (rule kids_flushed [OF fl])
  show "level c' = level c" "num_children c' = num_children c" using fl by (auto simp: flushed_def split: if_splits)
  show "\<forall>k. newest k (buffer c') = newer (newest k ?p) (newest k (buffer c))"
    using flushed_newest [OF fl ps(1)] sc by (simp add: sound_child_def sound_node_def node_sane_def)
  show same: "c' = c" if "?p = []" using fl that by (simp add: flushed_def)
  have ne: "buffer c' \<noteq> []" if "?p \<noteq> []"
  proof -
    have "key ` set (merge_sorted_entries ?p (buffer c)) \<noteq> {}" using that by (simp add: keys_merge)
    then show ?thesis using fl that by (auto simp: flushed_def)
  qed
  show first: "min_key (krange c') = key (hd (buffer c'))" if "?p \<noteq> []"
    using fl that ne by (simp add: flushed_def buffer_range_def)
  have "min_key (krange c') \<noteq> [] \<and> (\<forall>e\<in>set (buffer c'). min_key (krange c') \<le> key e)"
  proof (cases "?p = []")
    case True
    have "min_of v (kids n ! j) \<noteq> []" using separatedD(2) [OF t(7)] j by (metis image_eqI image_set nth_mem)
    moreover have "min_of v (kids n ! j) \<le> key e" if "e \<in> set (buffer c)" for e
    proof -
      have "lookup l v (kids n ! j) (key e) \<noteq> None"
        using that c by (auto simp: lookup_below newest_None_iff split: option.splits)
      then show ?thesis using separatedD(3) [OF t(7), of j "key e"] j by simp
    qed
    ultimately show ?thesis using same [OF True] c by (simp add: min_of_def)
  next
    case False
    have "key (hd (buffer c')) \<le> key e" if "e \<in> set (buffer c')" for e
      using \<open>sound_child c'\<close> that
      by (intro hd_buffer_least) (auto simp: sound_child_def sound_node_def node_sane_def newest_None_iff)
    moreover have "key (hd (buffer c')) \<in> key ` set (buffer c')" using ne [OF False] by simp
    then have "key (hd (buffer c')) \<noteq> []" using \<open>sound_child c'\<close> unfolding sound_child_def sound_node_def by metis
    ultimately show ?thesis using first [OF False] by simp
  qed
  then show "refreshable c'" using \<open>sound_child c'\<close> len by (simp add: refreshable_def)
qed

lemma ids_level:
  "gtree l v i \<Longrightarrow> j \<in> ids_of l v i \<Longrightarrow> \<exists>m. v j = Inr m \<and> unat (level m) \<le> l"
proof (induction l arbitrary: i)
  case 0
  then show ?case using gtree_node [of 0 v i] by auto
next
  case (Suc l)
  then obtain n where n: "v i = Inr n" "unat (level n) = Suc l" by auto
  show ?case
  proof (cases "j = i")
    case False
    then obtain c where "c \<in> set (kids n)" "j \<in> ids_of l v c" using Suc.prems(2) n by auto
    with Suc.IH gtree_SucE(5) [OF Suc.prems(1) n(1)] show ?thesis by fastforce
  qed (use n in simp)
qed

text \<open>The grandchildren: on a lower level than the children, and with lower bounds of their own.\<close>

lemma grandchild:
  assumes tree: "gtree (Suc l) v i" "v i = Inr n" and c: "c \<in> set (kids n)" and g: "g \<in> set (kids (the_node v c))"
  shows "0 < l" "\<exists>m. v g = Inr m" "min_of v g \<noteq> []" "gtree (l - 1) v g"
    "\<And>j. j \<in> ids_of (l - 1) v g \<Longrightarrow> \<exists>m. v j = Inr m \<and> unat (level m) < l"
proof -
  have gc: "gtree l v c" by (rule gtree_SucE(5) [OF tree c])
  obtain m where m: "v c = Inr m" using gtree_node [OF gc] by blast
  show "0 < l"
  proof (rule ccontr)
    assume "\<not> 0 < l"
    then have "kids m = []" using gc m by (simp add: kids_def)
    then show False using g m by simp
  qed
  then obtain l' where l: "l = Suc l'" by (cases l) auto
  note t = gtree_SucE [OF gc [unfolded l] m]
  have gm: "g \<in> set (kids m)" using g m by simp
  show "min_of v g \<noteq> []" using separatedD(2) [OF t(7)] gm by (metis image_eqI image_set)
  show gg: "gtree (l - 1) v g" using t(5) [OF gm] l by simp
  then show "\<exists>m. v g = Inr m" using gtree_node by blast
  show "\<exists>m. v j = Inr m \<and> unat (level m) < l" if "j \<in> ids_of (l - 1) v g" for j
    using ids_level [OF gg that] l by auto
qed

definition copies :: "view \<Rightarrow> sst_node \<Rightarrow> sst_node list" where
  "copies v n = map (the_node v) (kids n)"

definition olds :: "view \<Rightarrow> sst_node \<Rightarrow> node_id list" where
  "olds v n = old_ids (parts_of (copies v n) (buffer n)) (copies v n)"

lemma gtree_copies:
  assumes "gtree (Suc l) v i" "v i = Inr n"
  shows "map nid (copies v n) = kids n" "\<forall>c\<in>set (copies v n). sound_child c"
    "\<And>j. j < length (kids n) \<Longrightarrow> v (kids n ! j) = Inr (copies v n ! j)" "length (copies v n) = length (kids n)"
proof -
  have k: "\<exists>m. v c = Inr m \<and> sound_node c m" if "c \<in> set (kids n)" for c
    using gtree_node gtree_SucE(5) [OF assms that] by blast
  show "map nid (copies v n) = kids n"
    using k by (auto simp: copies_def sound_node_def intro!: map_idI) force
  show "\<forall>c\<in>set (copies v n). sound_child c" using k by (force simp: copies_def sound_child_def sound_node_def)
  show "v (kids n ! j) = Inr (copies v n ! j)" if "j < length (kids n)" for j
    using k [of "kids n ! j"] that by (auto simp: copies_def)
  show "length (copies v n) = length (kids n)" by (simp add: copies_def)
qed

lemma olds_iff:
  assumes "gtree (Suc l) v i" "v i = Inr n"
  shows "x \<in> set (olds v n) \<longleftrightarrow> (\<exists>j < length (kids n). part_of v n j \<noteq> [] \<and> x = kids n ! j)"
proof -
  note c = gtree_copies [OF assms]
  have "nid (copies v n ! j) = kids n ! j" if "j < length (kids n)" for j
    using c(1,4) that by (metis nth_map)
  then show ?thesis
    using old_ids_iff [of "parts_of (copies v n) (buffer n)" "copies v n" x] parts_of_nth [of _ n v] c(4)
    by (auto simp: olds_def copies_def)
qed

text \<open>First part of \<^verbatim>\<open>do_flush\<close>: copies of the children, and \<^verbatim>\<open>local_flush\<close> on them.\<close>

lemma do_flush_local:
  assumes ok: "store_ok t" and tree: "gtree (Suc l) (node_view t) pid" "node_view t pid = Inr n"
    and room: "unat (next_id (t_manifest t)) + MAX_FANOUT < 2 ^ 64"
  defines "v \<equiv> node_view t"
  shows "\<exists>t1 t2 t3 cs' k. get_node pid t = (Inr n, t1) \<and> copy_children (kids n) t1 = (Inr (copies v n), t2) \<and>
    run_local_flush pid (copies v n) t2 = (Inr (\<lparr>new_child_ids = map nid cs', old_child_ids = olds v n\<rparr>, cs'), t3) \<and>
    evolves k (nid ` set cs' \<union> set (olds v n)) t t3 \<and> k \<le> MAX_FANOUT \<and> map_of (cache t3) pid = Some n \<and>
    length cs' = length (kids n) \<and> distinct (map nid cs') \<and>
    (\<forall>j < length (kids n). moved (next_id (t_manifest t)) (next_id (t_manifest t3)) (part_of v n j)
       (copies v n ! j) (cs' ! j)) \<and>
    (\<forall>j\<in>set (olds v n). live (t_manifest t3) j = None) \<and>
    ((\<forall>c\<in>set (copies v n). on_file t (nid c) c) \<longrightarrow> (\<forall>c'\<in>set cs'. on_file t3 (nid c') c'))"
proof -
  note g = gtree_SucE [OF tree]
  note cp = gtree_copies [OF tree, folded v_def]
  from get_node_step [OF ok tree(2)] obtain t1 where t1: "get_node pid t = (Inr n, t1)" "evolves 0 {} t t1"
    "map_of (cache t1) pid = Some n" by blast
  have v1: "node_view t1 = v" using evolvesD(2) [OF t1(2)] by (auto simp: v_def)
  have "\<forall>c\<in>set (kids n). \<exists>m. node_view t1 c = Inr m \<and> sound_node c m"
    unfolding v1 v_def using gtree_node g(5) by blast
  from copy_children_step [OF evolvesD(1) [OF t1(2)] this] obtain t2 where
    t2: "copy_children (kids n) t1 = (Inr (copies v n), t2)" "evolves 0 {} t1 t2" by (auto simp: v1 copies_def)
  have e2: "evolves 0 {} t t2" using evolves_trans [OF t1(2) t2(2)] by simp
  note D = evolvesD [OF e2]
  have nx: "next_id (t_manifest t2) = next_id (t_manifest t)" using D(9) by (simp add: word_unat_eq_iff)
  have n2: "map_of (cache t2) pid = Some n" using evolvesD(4) [OF t2(2) _ t1(3)] by simp
  have srt: "entries_sorted (buffer n)" using g(1) by (simp add: sound_node_def node_sane_def)
  have "nid c < next_id (t_manifest t2)" if "c \<in> set (copies v n)" for c
  proof -
    have "nid c \<in> set (kids n)" using that cp(1) by (metis image_eqI image_set)
    then show ?thesis using view_below_next [OF ok] gtree_node [OF g(5)] nx by metis
  qed
  then have cs: "copies v n \<noteq> []" "\<forall>c\<in>set (copies v n). sound_child c \<and> nid c < next_id (t_manifest t2)"
    "distinct (map nid (copies v n))"
    using cp(1,2) g(3,4) by (auto simp: copies_def)
  have len: "length (copies v n) \<le> MAX_FANOUT" using g(1) cp(4) by (simp add: sound_node_def kids_def)
  then have "unat (next_id (t_manifest t2)) + length (copies v n) < 2 ^ 64" using room nx by simp
  from local_flush_step [OF D(1) n2 srt cs this] obtain cs' k t3 where t3:
    "run_local_flush pid (copies v n) t2 = (Inr (\<lparr>new_child_ids = map nid cs', old_child_ids = olds v n\<rparr>, cs'), t3)"
    "k \<le> length (copies v n)" "evolves k (nid ` set cs' \<union> set (olds v n)) t2 t3" "cache t3 = cache t2"
    "list_all2 (\<lambda>(p, c) c'. moved (next_id (t_manifest t2)) (next_id (t_manifest t3)) p c c')
       (zip (parts_of (copies v n) (buffer n)) (copies v n)) cs'"
    "distinct (map nid cs')" "\<forall>j\<in>set (olds v n). live (t_manifest t3) j = None"
    "(\<forall>c\<in>set (copies v n). on_file t2 (nid c) c) \<longrightarrow> (\<forall>c'\<in>set cs'. on_file t3 (nid c') c')"
    unfolding olds_def by blast
  have l3: "length cs' = length (kids n)" using list_all2_lengthD [OF t3(5)] cp(4) by simp
  have "moved (next_id (t_manifest t)) (next_id (t_manifest t3)) (part_of v n j) (copies v n ! j) (cs' ! j)"
    if "j < length (kids n)" for j
    using list_all2_nthD [OF t3(5), of j] that cp(4) parts_of_nth [OF that, of v] nx by (simp add: copies_def)
  moreover have "evolves k (nid ` set cs' \<union> set (olds v n)) t t3" using evolves_trans [OF e2 t3(3)] by simp
  moreover have "(\<forall>c\<in>set (copies v n). on_file t (nid c) c) \<longrightarrow> (\<forall>c'\<in>set cs'. on_file t3 (nid c') c')"
    using t3(8) on_file_evolves [OF e2] by blast
  ultimately show ?thesis using t1(1) t2(1) t3 l3 n2 len by auto
qed

text \<open>What the first part leaves, as the second part needs it.\<close>

definition after_local :: "nat \<Rightarrow> tree \<Rightarrow> node_id \<Rightarrow> sst_node \<Rightarrow> tree \<Rightarrow> sst_node list \<Rightarrow> bool" where
  "after_local l t pid n t3 cs' \<longleftrightarrow> store_ok t \<and> gtree (Suc l) (node_view t) pid \<and> node_view t pid = Inr n \<and>
     modest (node_view t) n \<and> length cs' = length (kids n) \<and> distinct (map nid cs') \<and>
     (\<exists>k. evolves k (nid ` set cs' \<union> set (olds (node_view t) n)) t t3) \<and>
     (\<forall>j < length (kids n). moved (next_id (t_manifest t)) (next_id (t_manifest t3)) (part_of (node_view t) n j)
        (copies (node_view t) n ! j) (cs' ! j)) \<and>
     (\<forall>j\<in>set (olds (node_view t) n). live (t_manifest t3) j = None)"

lemma after_localD:
  assumes "after_local l t pid n t3 cs'"
  shows "store_ok t" "gtree (Suc l) (node_view t) pid" "node_view t pid = Inr n" "modest (node_view t) n"
    "length cs' = length (kids n)" "distinct (map nid cs')"
    "\<And>j. j < length (kids n) \<Longrightarrow> moved (next_id (t_manifest t)) (next_id (t_manifest t3))
       (part_of (node_view t) n j) (copies (node_view t) n ! j) (cs' ! j)"
    "\<forall>j\<in>set (olds (node_view t) n). live (t_manifest t3) j = None"
    "\<exists>k. evolves k (nid ` set cs' \<union> set (olds (node_view t) n)) t t3"
  using assms unfolding after_local_def by blast+

lemma after_local_child:
  assumes al: "after_local l t pid n t3 cs'" and j: "j < length (kids n)"
  shows "refreshable (cs' ! j)" "kids (cs' ! j) = kids (the_node (node_view t) (kids n ! j))"
    "nid (cs' ! j) = kids n ! j \<and> part_of (node_view t) n j = [] \<or>
     next_id (t_manifest t) \<le> nid (cs' ! j) \<and> part_of (node_view t) n j \<noteq> []"
    "nid (cs' ! j) < next_id (t_manifest t3)"
proof -
  note D = after_localD [OF al]
  note cp = gtree_copies [OF D(2,3)]
  have c: "node_view t (kids n ! j) = Inr (copies (node_view t) n ! j)" by (rule cp(3) [OF j])
  have id: "nid (copies (node_view t) n ! j) = kids n ! j" using cp(1,4) j by (metis nth_map)
  note mc = moved_child [OF D(2-4) j c D(7) [OF j]]
  show "refreshable (cs' ! j)" by (rule mc(1))
  show "kids (cs' ! j) = kids (the_node (node_view t) (kids n ! j))" using mc(3) c by simp
  show alt: "nid (cs' ! j) = kids n ! j \<and> part_of (node_view t) n j = [] \<or>
     next_id (t_manifest t) \<le> nid (cs' ! j) \<and> part_of (node_view t) n j \<noteq> []"
    using moved_nid [OF D(7) [OF j]] id by simp
  obtain k where "evolves k (nid ` set cs' \<union> set (olds (node_view t) n)) t t3" using D(9) by blast
  from evolvesD(9) [OF this] have "next_id (t_manifest t) \<le> next_id (t_manifest t3)" by (simp add: word_le_nat_alt)
  moreover have "kids n ! j < next_id (t_manifest t)" by (rule view_below_next [OF D(1) c])
  ultimately show "nid (cs' ! j) < next_id (t_manifest t3)"
    using alt D(7) [OF j] by (auto simp: moved_def)
qed

text \<open>Nodes on the levels below the children are not touched.\<close>

lemma after_local_low:
  assumes al: "after_local l t pid n t3 cs'" and x: "node_view t x = Inr m" "unat (level m) < l"
  shows "x \<notin> nid ` set cs'" "x \<notin> set (olds (node_view t) n)" "x \<noteq> pid"
proof -
  note D = after_localD [OF al]
  have child: "x \<noteq> kids n ! j" if "j < length (kids n)" for j
    using gtree_node [OF gtree_SucE(5) [OF D(2,3), of "kids n ! j"]] x that by auto
  show "x \<notin> nid ` set cs'"
  proof
    assume "x \<in> nid ` set cs'"
    then obtain j where j: "j < length (kids n)" "x = nid (cs' ! j)" using D(5) by (metis imageE in_set_conv_nth)
    from after_local_child(3) [OF al j(1)] child [OF j(1)] j(2) view_below_next [OF D(1) x(1)] show False by auto
  qed
  show "x \<notin> set (olds (node_view t) n)" using olds_iff [OF D(2,3), of x] child by auto
  show "x \<noteq> pid" using x D(3) gtree_SucE(2) [OF D(2,3)] by auto
qed

lemma after_local_pid:
  assumes al: "after_local l t pid n t3 cs'"
  shows "pid \<notin> set (olds (node_view t) n)" "pid \<notin> nid ` set cs'"
proof -
  note D = after_localD [OF al]
  have child: "pid \<noteq> kids n ! j" if "j < length (kids n)" for j
  proof -
    have "gtree l (node_view t) (kids n ! j)" using that by (intro gtree_SucE(5) [OF D(2,3)]) simp
    from gtree_node [OF this] obtain m where "node_view t (kids n ! j) = Inr m" "unat (level m) = l" by blast
    then show ?thesis using gtree_SucE(2) [OF D(2,3)] D(3) by auto
  qed
  then show "pid \<notin> set (olds (node_view t) n)" using olds_iff [OF D(2,3)] by auto
  show "pid \<notin> nid ` set cs'"
  proof
    assume "pid \<in> nid ` set cs'"
    then obtain j where j: "j < length (kids n)" "pid = nid (cs' ! j)" using D(5) by (metis imageE in_set_conv_nth)
    from after_local_child(3) [OF al j(1)] child [OF j(1)] j(2) view_below_next [OF D(1,3)] show False by auto
  qed
qed

lemma after_local_disjoint:
  assumes al: "after_local l t pid n t3 cs'"
  shows "set (olds (node_view t) n) \<inter> nid ` set cs' = {}"
proof -
  note D = after_localD [OF al]
  have "kids n ! i \<noteq> nid (cs' ! j)" if i: "i < length (kids n)" "part_of (node_view t) n i \<noteq> []" and j: "j < length (kids n)" for i j
  proof
    assume eq: "kids n ! i = nid (cs' ! j)"
    have "kids n ! i < next_id (t_manifest t)"
      using view_below_next [OF D(1)] gtree_copies(3) [OF D(2,3) i(1)] by blast
    then have "kids n ! i = kids n ! j" "part_of (node_view t) n j = []" using after_local_child(3) [OF al j] eq by auto
    then show False using gtree_SucE(4) [OF D(2,3)] i j by (auto simp: nth_eq_iff_index_eq)
  qed
  then show ?thesis using olds_iff [OF D(2,3)] D(5) by (fastforce simp: in_set_conv_nth)
qed

lemma after_local_small:
  assumes al: "after_local l t pid n t3 cs'" and rf: "list_all2 (refreshed (node_view t)) cs' cs''" and c: "c \<in> set cs''"
  shows "all_small t \<Longrightarrow> small_node c" "sound_child c"
proof -
  note D = after_localD [OF al]
  obtain j where j: "j < length (kids n)" "c = cs'' ! j" and r: "refreshed (node_view t) (cs' ! j) c"
    using rf c D(5) by (auto simp: list_all2_conv_all_nth in_set_conv_nth)
  then show "sound_child c" by (simp add: refreshed_def)
  have cj: "node_view t (kids n ! j) = Inr (copies (node_view t) n ! j)" by (rule gtree_copies(3) [OF D(2,3) j(1)])
  note mc = moved_child [OF D(2-4) j(1) cj D(7) [OF j(1)]]
  show "small_node c" if small: "all_small t"
  proof -
    have "small_node (cs' ! j)" using mc(9) cj D(3) small by (auto simp: all_small_def)
    moreover have "small_node (the_node (node_view t) g)" if "g \<in> set (kids (cs' ! j))" for g
    proof -
      have "g \<in> set (kids (the_node (node_view t) (kids n ! j)))" using that mc(3) cj by simp
      from grandchild(2) [OF D(2,3) _ this] j(1) small show ?thesis by (auto simp: all_small_def)
    qed
    ultimately show ?thesis using r by (simp add: refreshed_def)
  qed
qed

lemma filed_copies:
  assumes "gtree (Suc l) (node_view t) pid" "node_view t pid = Inr n" "filed {pid} t"
  shows "\<forall>c\<in>set (copies (node_view t) n). on_file t (nid c) c"
proof
  fix c assume "c \<in> set (copies (node_view t) n)"
  then obtain j where j: "j < length (kids n)" "c = copies (node_view t) n ! j"
    using gtree_copies(4) [OF assms(1,2)] by (metis in_set_conv_nth)
  have v: "node_view t (kids n ! j) = Inr c" using gtree_copies(3) [OF assms(1,2) j(1)] j(2) by simp
  have id: "nid c = kids n ! j" using gtree_copies(1,4) [OF assms(1,2)] j by (metis nth_map)
  have "gtree l (node_view t) (kids n ! j)" using j(1) by (intro gtree_SucE(5) [OF assms(1,2)]) simp
  from gtree_node [OF this] v gtree_SucE(2) [OF assms(1,2)] assms(2) have "kids n ! j \<noteq> pid" by auto
  then show "on_file t (nid c) c" using assms(3) v id by (simp add: filed_def)
qed

lemma do_flush_refresh:
  assumes al: "after_local l t pid n t3 cs'" and t5: "evolves 0 {pid} t3 t5"
  defines "v \<equiv> node_view t"
  shows "\<exists>t6 cs''. refresh_children 0 \<lparr>new_child_ids = map nid cs', old_child_ids = olds v n\<rparr> cs' t5 = (Inr (), t6) \<and>
    evolves 0 (set (olds v n) \<union> nid ` set cs') t5 t6 \<and> list_all2 (refreshed v) cs' cs'' \<and>
    (\<forall>c'\<in>set cs''. map_of (cache t6) (nid c') = Some c') \<and>
    (\<forall>j\<in>set (olds v n). node_view t6 j = Inl (Unknown_node j)) \<and>
    ((\<forall>c\<in>set cs'. on_file t5 (nid c) c) \<longrightarrow> (\<forall>c'\<in>set cs''. on_file t6 (nid c') c'))"
proof -
  note D = after_localD [OF al]
  have nx: "next_id (t_manifest t5) = next_id (t_manifest t3)" using evolvesD(9) [OF t5] by (simp add: word_unat_eq_iff)
  have g: "(\<exists>m. v g = Inr m) \<and> node_view t5 g = v g \<and> min_of v g \<noteq> [] \<and> g \<notin> set (olds v n) \<and> g \<notin> nid ` set cs'"
    if c: "c \<in> set cs'" "g \<in> set (kids c)" for c g
  proof -
    obtain j where j: "j < length (kids n)" "c = cs' ! j" using c(1) D(5) by (metis in_set_conv_nth)
    then have "kids n ! j \<in> set (kids n)" "g \<in> set (kids (the_node v (kids n ! j)))"
      using after_local_child(2) [OF al j(1)] c(2) by (simp_all add: v_def)
    note gr = grandchild [OF D(2,3) this(1), folded v_def, OF this(2)]
    obtain m where m: "v g = Inr m" "unat (level m) < l" using gr(5) [OF ids_of_self] by blast
    note low = after_local_low [OF al, folded v_def, OF m]
    obtain k where "evolves k (nid ` set cs' \<union> set (olds v n)) t t3" using D(9) by (auto simp: v_def)
    then have "node_view t5 g = v g"
      using evolvesD(2) [OF t5, of g] evolvesD(2) [of k _ t t3 g] low by (auto simp: v_def)
    with m gr(3) low show ?thesis by blast
  qed
  have gpre: "\<forall>c\<in>set cs'. \<forall>g\<in>set (kids c). (\<exists>m. node_view t5 g = Inr m) \<and> min_of (node_view t5) g \<noteq> [] \<and>
       g \<notin> set (olds v n) \<and> g \<notin> nid ` set cs'"
    using g by (auto simp: min_of_def the_node_def)
  have pre: "\<forall>c\<in>set cs'. refreshable c \<and> nid c < next_id (t_manifest t5)"
    using after_local_child(1,4) [OF al] D(5) nx by (auto simp: in_set_conv_nth)
  have "pid \<notin> set (olds v n)" using after_local_pid(1) [OF al] by (simp add: v_def)
  then have lv: "\<forall>j\<in>set (olds v n). live (t_manifest t5) j = None"
    using D(8) evolvesD(3) [OF t5] unfolding v_def by (metis singletonD)
  have dist: "distinct (olds v n)"
    using gtree_copies(1) [OF D(2,3)] gtree_SucE(4) [OF D(2,3)] unfolding olds_def v_def
    by (intro old_ids_distinct) simp_all
  have all: "take (length cs') (olds v n) = olds v n"
    using old_ids_length [of "parts_of (copies v n) (buffer n)" "copies v n"] D(5) gtree_copies(4) [OF D(2,3)]
    by (simp add: olds_def v_def)
  let ?res = "\<lparr>new_child_ids = map nid cs', old_child_ids = olds v n\<rparr>"
  from refresh_children_step [OF evolvesD(1) [OF t5] pre D(6) gpre after_local_disjoint [OF al, folded v_def] dist lv,
      of 0 ?res] all obtain cs'' t6 where t6: "refresh_children 0 ?res cs' t5 = (Inr (), t6)"
    "evolves 0 (set (olds v n) \<union> nid ` set cs') t5 t6" "list_all2 (refreshed (node_view t5)) cs' cs''"
    "\<forall>c'\<in>set cs''. map_of (cache t6) (nid c') = Some c'"
    "\<forall>j\<in>set (olds v n). node_view t6 j = Inl (Unknown_node j)"
    "(\<forall>c\<in>set cs'. on_file t5 (nid c) c) \<longrightarrow> (\<forall>c'\<in>set cs''. on_file t6 (nid c') c')" by auto
  have "refreshed v d d'" if "d \<in> set cs'" "refreshed (node_view t5) d d'" for d d'
    by (rule refreshed_cong [OF _ that(2)]) (use g [OF that(1)] in simp)
  then have "list_all2 (refreshed v) cs' cs''" using t6(3) by (auto simp: list_all2_conv_all_nth)
  with t6 show ?thesis by blast
qed

text \<open>The views before and after are related by \<open>flushed_down\<close>.\<close>

lemma after_local_flushed_down:
  assumes al: "after_local l t pid n t3 cs'" and rf: "list_all2 (refreshed (node_view t)) cs' cs''"
    and v': "v' pid = Inr n'" "sound_node pid n'" "level n' = level n" "buffer n' = []" "kids n' = map nid cs'"
      "\<forall>c\<in>set cs''. v' (nid c) = Inr c"
      "\<And>x. x \<notin> insert pid (set (olds (node_view t) n) \<union> nid ` set cs') \<Longrightarrow> v' x = node_view t x"
  shows "flushed_down l (node_view t) v' pid n n' (map nid cs')"
proof -
  let ?v = "node_view t"
  note D = after_localD [OF al]
  have child: "\<exists>m'. v' (map nid cs' ! j) = Inr m' \<and> sound_node (map nid cs' ! j) m' \<and> level m' = level m \<and>
      num_children m' = num_children m \<and> kids m' = kids m \<and>
      (\<forall>k. newest k (buffer m') = newer (newest k (part_of ?v n j)) (newest k (buffer m))) \<and>
      min_key (krange m') = (if part_of ?v n j = [] then min_key (krange m) else new_min l ?v m')"
    if j: "j < length (map nid cs')" "?v (kids n ! j) = Inr m" for j m
  proof -
    have jn: "j < length (kids n)" using j(1) D(5) by simp
    have m: "copies ?v n ! j = m" using gtree_copies(3) [OF D(2,3) jn] j(2) by simp
    note mc = moved_child [OF D(2-4) jn j(2) D(7) [OF jn, unfolded m]]
    let ?c = "cs' ! j" and ?c' = "cs'' ! j"
    have r: "refreshed ?v ?c ?c'" and c': "?c' \<in> set cs''"
      using rf j(1) by (auto simp: list_all2_conv_all_nth)
    note R = r [unfolded refreshed_def]
    have "v' (nid ?c') = Inr ?c'" using v'(6) c' by blast
    then have view: "v' (map nid cs' ! j) = Inr ?c'" using R j(1) by simp
    have low: "min_key (krange m) \<le> min_of ?v (kids m ! 0)" if "kids m \<noteq> []"
    proof -
      have "kids m ! 0 \<in> set (kids (the_node ?v (kids n ! j)))" using that j(2) by simp
      from grandchild(1) [OF D(2,3) _ this] jn have "0 < l" by simp
      with gtree_SucE(6) [OF D(2,3), of "kids n ! j"] jn j(2) show ?thesis by (simp add: low_bound_def min_of_def)
    qed
    have gm: "gtree l ?v (kids n ! j)" using jn by (intro gtree_SucE(5) [OF D(2,3)]) simp
    have leaf: "kids m = [] \<longleftrightarrow> l = 0"
    proof
      assume "kids m = []"
      then show "l = 0" using gm j(2) by (cases l) auto
    next
      assume "l = 0"
      then show "kids m = []" using gm j(2) by (simp add: kids_def [of m])
    qed
    have "min_key (krange ?c') = (if part_of ?v n j = [] then min_key (krange m) else new_min l ?v ?c')"
      using R mc(3,7,8) low leaf by (auto simp: new_min_def min_absorb1)
    then show ?thesis using view R mc j(1) by (auto simp: sound_child_def)
  qed
  have "v' x = ?v x" if "0 < l" "c \<in> set (kids n)" "g \<in> set (kids (the_node ?v c))" "x \<in> ids_of (l - 1) ?v g" for c g x
  proof -
    from grandchild(5) [OF D(2,3) that(2-4)] obtain m where "?v x = Inr m" "unat (level m) < l" by blast
    from after_local_low [OF al this] show ?thesis by (intro v'(7)) simp
  qed
  with child show ?thesis
    unfolding flushed_down_def using D(2,3,5,6) v'(1-5) by (intro conjI) auto
qed

text \<open>
  \<open>pushed_down\<close>: the state after the entries of \<open>pid\<close> went down. \<open>cs'\<close> are the children as
  \<^verbatim>\<open>local_flush\<close> left them, \<open>cs''\<close> as they went back into the cache, \<open>n'\<close> is the rewritten parent.
\<close>

definition pushed_down ::
  "nat \<Rightarrow> tree \<Rightarrow> node_id \<Rightarrow> sst_node \<Rightarrow> tree \<Rightarrow> sst_node list \<Rightarrow> sst_node list \<Rightarrow> sst_node \<Rightarrow> bool" where
  "pushed_down l t pid n t' cs' cs'' n' \<longleftrightarrow> (\<exists>t3. after_local l t pid n t3 cs') \<and>
     list_all2 (refreshed (node_view t)) cs' cs'' \<and>
     (\<exists>k \<le> MAX_FANOUT. evolves k (insert pid (set (olds (node_view t) n) \<union> nid ` set cs')) t t') \<and>
     (\<forall>c\<in>set cs''. map_of (cache t') (nid c) = Some c) \<and> map_of (cache t') pid = Some n' \<and>
     sound_node pid n' \<and> kids n' = map nid cs' \<and> level n' = level n \<and> buffer n' = [] \<and>
     (\<forall>j\<in>set (olds (node_view t) n). node_view t' j = Inl (Unknown_node j)) \<and> on_file t' pid n' \<and>
     (filed {pid} t \<longrightarrow> (\<forall>c\<in>set cs''. on_file t' (nid c) c)) \<and> (all_small t \<longrightarrow> small_node n')"

lemma pushed_downD:
  assumes "pushed_down l t pid n t' cs' cs'' n'"
  obtains t3 k where "after_local l t pid n t3 cs'" "k \<le> MAX_FANOUT"
    "evolves k (insert pid (set (olds (node_view t) n) \<union> nid ` set cs')) t t'"
  using assms unfolding pushed_down_def by blast

lemma pushed_down_parts:
  assumes "pushed_down l t pid n t' cs' cs'' n'"
  shows "list_all2 (refreshed (node_view t)) cs' cs''" "\<And>c. c \<in> set cs'' \<Longrightarrow> map_of (cache t') (nid c) = Some c"
    "map_of (cache t') pid = Some n'" "sound_node pid n'" "kids n' = map nid cs'" "level n' = level n" "buffer n' = []"
    "\<And>j. j \<in> set (olds (node_view t) n) \<Longrightarrow> node_view t' j = Inl (Unknown_node j)" "on_file t' pid n'"
    "\<And>c. filed {pid} t \<Longrightarrow> c \<in> set cs'' \<Longrightarrow> on_file t' (nid c) c" "all_small t \<Longrightarrow> small_node n'"
    "map nid cs'' = map nid cs'"
  using assms unfolding pushed_down_def
  by (blast, blast, blast, blast, blast, blast, blast, blast, blast, blast, blast,
      auto simp: list_all2_conv_all_nth refreshed_def intro!: nth_equalityI)

lemma pushed_down_later:
  assumes pd: "pushed_down l t pid n t' cs' cs'' n'" and e: "evolves 0 {} t' t''"
  shows "pushed_down l t pid n t'' cs' cs'' n'"
proof -
  from pushed_downD [OF pd] obtain t3 k where k: "after_local l t pid n t3 cs'" "k \<le> MAX_FANOUT"
    "evolves k (insert pid (set (olds (node_view t) n) \<union> nid ` set cs')) t t'" by blast
  have "evolves k (insert pid (set (olds (node_view t) n) \<union> nid ` set cs')) t t''"
    using evolves_trans [OF k(3) e] by simp
  then show ?thesis
    unfolding pushed_down_def
    using k(1,2) pushed_down_parts [OF pd] evolvesD(2,4) [OF e] on_file_evolves [OF e] by auto
qed

lemma update_pointers_kids:
  assumes al: "after_local l t pid n t3 cs'"
  defines "res \<equiv> \<lparr>new_child_ids = map nid cs', old_child_ids = olds (node_view t) n\<rparr>"
  shows "kids (update_pointers res n) = map nid cs'" "length (child_ids (update_pointers res n)) = MAX_FANOUT"
proof -
  note D = after_localD [OF al]
  have "nid (cs' ! j) = kids n ! j" if "j < length (kids n)" "kids n ! j \<notin> set (olds (node_view t) n)" for j
    using after_local_child(3) [OF al that(1)] that olds_iff [OF D(2,3)] by auto
  then show "kids (update_pointers res n) = map nid cs'" "length (child_ids (update_pointers res n)) = MAX_FANOUT"
    using kids_update_pointers [of n res] gtree_SucE(1) [OF D(2,3)] D(5) by (simp_all add: res_def sound_node_def)
qed

text \<open>The emptied parent with its new pointers, once the children are in the cache.\<close>

lemma finish_pushed:
  assumes al: "after_local l t pid n t3 cs'" and rf: "list_all2 (refreshed (node_view t)) cs' cs''"
    and ok: "store_ok t7" and c7: "\<And>c. c \<in> set cs'' \<Longrightarrow> map_of (cache t7) (nid c) = Some c"
    and n7: "map_of (cache t7) pid =
      Some ((update_pointers \<lparr>new_child_ids = map nid cs', old_child_ids = olds (node_view t) n\<rparr> n)\<lparr>buffer := []\<rparr>)"
  shows "\<exists>n' t8. finish_parent pid t7 = (Inr (), t8) \<and> evolves 0 {pid} t7 t8 \<and> map_of (cache t8) pid = Some n' \<and>
    sound_node pid n' \<and> kids n' = map nid cs' \<and> level n' = level n \<and> buffer n' = [] \<and> on_file t8 pid n' \<and>
    (all_small t \<longrightarrow> small_node n')"
proof -
  let ?n5 = "update_pointers \<lparr>new_child_ids = map nid cs', old_child_ids = olds (node_view t) n\<rparr> n"
  let ?n7 = "?n5\<lparr>buffer := []\<rparr>"
  note D = after_localD [OF al] and K = update_pointers_kids [OF al]
  note g = gtree_SucE [OF D(2,3)]
  have k7: "kids ?n7 = map nid cs'" "nid ?n7 = pid" "unat (num_children ?n7) \<le> MAX_FANOUT" "level ?n7 = level n"
    using K(1) g(1) by (simp_all add: kids_def update_pointers_def sound_node_def)
  have ids: "map nid cs'' = map nid cs'"
    using rf by (auto simp: list_all2_conv_all_nth refreshed_def intro!: nth_equalityI)
  have child: "\<exists>c\<in>set cs''. node_view t7 x = Inr c" if "x \<in> set (kids ?n7)" for x
  proof -
    from that k7(1) ids obtain c where "c \<in> set cs''" "x = nid c" by (metis imageE image_set)
    then show ?thesis using cached_view [OF c7] by blast
  qed
  with finish_parent_step [OF ok n7 k7(2,3)] k7(1) D(5) g(3) obtain n' t8 where
    t8: "finish_parent pid t7 = (Inr (), t8)" "evolves 0 {pid} t7 t8" "map_of (cache t8) pid = Some n'"
    and n': "nid n' = pid" "level n' = level ?n7" "child_ids n' = child_ids ?n7" "num_children n' = num_children ?n7"
      "buffer n' = []" "entries_loaded n'" "bloom_covers n'" "pred_option bloom_fits (bloom_of n')" "on_file t8 pid n'"
      "small_node ?n7 \<and> (\<forall>g\<in>set (kids ?n7). small_node (the_node (node_view t7) g)) \<longrightarrow> small_node n'"
    by fastforce
  have "small_node n'" if small: "all_small t"
  proof -
    have "small_node n" using small D(3) by (auto simp: all_small_def)
    then have "small_node ?n7" by (simp add: small_node_def update_pointers_def)
    moreover have "small_node (the_node (node_view t7) x)" if "x \<in> set (kids ?n7)" for x
      using child [OF that] after_local_small(1) [OF al rf _ small] by auto
    ultimately show ?thesis using n'(10) by blast
  qed
  moreover have "sound_node pid n'" "kids n' = map nid cs'"
    using n' K(2) k7 by (auto simp: sound_node_def node_sane_def bloom_covers_def kids_def)
  ultimately show ?thesis using t8 n'(2,5,9) k7(4) by auto
qed

lemma push_to_children_step:
  assumes ok: "store_ok t" and tree: "gtree (Suc l) (node_view t) pid" "node_view t pid = Inr n"
    and fit: "modest (node_view t) n" and room: "unat (next_id (t_manifest t)) + MAX_FANOUT < 2 ^ 64"
  shows "\<exists>t' cs' cs'' n'. push_to_children pid t =
      (Inr \<lparr>new_child_ids = map nid cs', old_child_ids = olds (node_view t) n\<rparr>, t') \<and> pushed_down l t pid n t' cs' cs'' n'"
proof -
  let ?v = "node_view t"
  note g = gtree_SucE [OF tree]
  from do_flush_local [OF ok tree room] obtain t1 t2 t3 cs' k where
    run3: "get_node pid t = (Inr n, t1)" "copy_children (kids n) t1 = (Inr (copies ?v n), t2)"
      "run_local_flush pid (copies ?v n) t2 = (Inr (\<lparr>new_child_ids = map nid cs', old_child_ids = olds ?v n\<rparr>, cs'), t3)"
    and t3: "evolves k (nid ` set cs' \<union> set (olds ?v n)) t t3" "map_of (cache t3) pid = Some n"
      "(\<forall>c\<in>set (copies ?v n). on_file t (nid c) c) \<longrightarrow> (\<forall>c'\<in>set cs'. on_file t3 (nid c') c')" "k \<le> MAX_FANOUT"
    and al: "after_local l t pid n t3 cs'"
    unfolding after_local_def using ok tree fit by blast
  let ?res = "\<lparr>new_child_ids = map nid cs', old_child_ids = olds ?v n\<rparr>"
  let ?t4 = "t3\<lparr>flush_ops := flush_ops t3 + 1\<rparr>"
  have t4: "evolves 0 {} t3 ?t4"
    by (rule counter_step [OF evolvesD(1) [OF t3(1)], of "\<lambda>t. t\<lparr>flush_ops := flush_ops t + 1\<rparr>"]) simp
  have n4: "map_of (cache ?t4) pid = Some n" using t3(2) by simp
  from upd_step [OF evolvesD(1) [OF t4] n4, of "update_pointers ?res"] obtain t5 where
    t5: "upd_node pid (update_pointers ?res) ?t4 = (Inr (), t5)" "evolves 0 {pid} ?t4 t5"
    "map_of (cache t5) pid = Some (update_pointers ?res n)" by blast
  have e5: "evolves 0 {pid} t3 t5" using evolves_trans [OF t4 t5(2)] by simp
  from do_flush_refresh [OF al e5] obtain t6 cs'' where
    t6: "refresh_children 0 ?res cs' t5 = (Inr (), t6)" "evolves 0 (set (olds ?v n) \<union> nid ` set cs') t5 t6"
    "list_all2 (refreshed ?v) cs' cs''" "\<forall>c'\<in>set cs''. map_of (cache t6) (nid c') = Some c'"
    "\<forall>j\<in>set (olds ?v n). node_view t6 j = Inl (Unknown_node j)"
    "(\<forall>c\<in>set cs'. on_file t5 (nid c) c) \<longrightarrow> (\<forall>c'\<in>set cs''. on_file t6 (nid c') c')" by blast
  note p = after_local_pid [OF al]
  have n6: "map_of (cache t6) pid = Some (update_pointers ?res n)" using evolvesD(4) [OF t6(2) _ t5(3)] p by simp
  from upd_step [OF evolvesD(1) [OF t6(2)] n6, of "\<lambda>n. n\<lparr>buffer := []\<rparr>"] obtain t7 where
    t7: "upd_node pid (\<lambda>n. n\<lparr>buffer := []\<rparr>) t6 = (Inr (), t7)" "evolves 0 {pid} t6 t7"
    "map_of (cache t7) pid = Some ((update_pointers ?res n)\<lparr>buffer := []\<rparr>)" by blast
  have "map nid cs'' = map nid cs'"
    using t6(3) by (auto simp: list_all2_conv_all_nth refreshed_def intro!: nth_equalityI)
  then have pc: "nid c \<noteq> pid" if "c \<in> set cs''" for c using that p(2) by (metis image_eqI image_set)
  have c7: "map_of (cache t7) (nid c) = Some c" if "c \<in> set cs''" for c
    using evolvesD(4) [OF t7(2)] t6(4) pc [OF that] that by simp
  from finish_pushed [OF al t6(3) evolvesD(1) [OF t7(2)] c7 t7(3)] obtain n' t8 where
    t8: "finish_parent pid t7 = (Inr (), t8)" "evolves 0 {pid} t7 t8" "map_of (cache t8) pid = Some n'"
    and n': "sound_node pid n'" "kids n' = map nid cs'" "level n' = level n" "buffer n' = []" "on_file t8 pid n'"
      "all_small t \<longrightarrow> small_node n'" by blast
  have e8: "evolves 0 {pid} t6 t8" using evolves_trans [OF t7(2) t8(2)] by simp
  have "evolves k (insert pid (set (olds ?v n) \<union> nid ` set cs')) t t8"
  proof (rule evolves_mono)
    show "evolves k (nid ` set cs' \<union> set (olds ?v n) \<union> ({pid} \<union> (set (olds ?v n) \<union> nid ` set cs' \<union> {pid}))) t t8"
      using evolves_trans [OF t3(1) evolves_trans [OF e5 evolves_trans [OF t6(2) e8]]] by simp
  qed auto
  moreover have "map_of (cache t8) (nid c) = Some c" if "c \<in> set cs''" for c
    using evolvesD(4) [OF e8] t6(4) pc [OF that] that by simp
  moreover have "node_view t8 j = Inl (Unknown_node j)" if "j \<in> set (olds ?v n)" for j
    using that t6(5) evolvesD(2) [OF e8, of j] p(1) by auto
  moreover have "on_file t8 (nid c) c" if fl: "filed {pid} t" and c: "c \<in> set cs''" for c
  proof -
    have "\<forall>c\<in>set (copies ?v n). on_file t (nid c) c" by (rule filed_copies [OF tree fl])
    then have "on_file t5 (nid c) c" if "c \<in> set cs'" for c
      using t3(3) p(2) that by (intro on_file_evolves [OF e5]) auto
    then show ?thesis using t6(6) on_file_evolves [OF e8] pc c by auto
  qed
  ultimately have "pushed_down l t pid n t8 cs' cs'' n'"
    unfolding pushed_down_def using al t3(4) t6(3) t8(3) n' by blast
  moreover have "push_to_children pid t = (Inr ?res, t8)"
    using run3 t5(1) t6(1) t7(1) t8(1) g(1)
    by (simp add: push_to_children_def bind_Inr exec_simps children_of_kids sound_node_def)
  ultimately show ?thesis by blast
qed

text \<open>What such a state shows: a tree that answers as before, settled nodes.\<close>

lemma pushed_down_gtree:
  assumes pd: "pushed_down l t pid n t' cs' cs'' n'"
  shows "gtree (Suc l) (node_view t') pid" "lookup (Suc l) (node_view t') pid k = lookup (Suc l) (node_view t) pid k"
proof -
  from pushed_downD [OF pd] obtain t3 j where al: "after_local l t pid n t3 cs'"
    and E: "evolves j (insert pid (set (olds (node_view t) n) \<union> nid ` set cs')) t t'" by blast
  note P = pushed_down_parts [OF pd]
  have "flushed_down l (node_view t) (node_view t') pid n n' (map nid cs')"
    by (rule after_local_flushed_down [where v' = "node_view t'", OF al P(1) cached_view [OF P(3)] P(4,6,7,5)])
       (use P(2) cached_view evolvesD(2) [OF E] in auto)
  from flushed_down_gtree [OF this]
  show "gtree (Suc l) (node_view t') pid" "lookup (Suc l) (node_view t') pid k = lookup (Suc l) (node_view t) pid k"
    by blast+
qed

lemma pushed_down_settles:
  assumes pd: "pushed_down l t pid n t' cs' cs'' n'"
  shows "settles {pid} t t'"
proof -
  from pushed_downD [OF pd] obtain t3 k where al: "after_local l t pid n t3 cs'"
    and E: "evolves k (insert pid (set (olds (node_view t) n) \<union> nid ` set cs')) t t'" by blast
  note P = pushed_down_parts [OF pd]
  have seen: "j = pid \<and> m = n' \<or> (\<exists>c\<in>set cs''. j = nid c \<and> m = c) \<or>
      j \<notin> insert pid (set (olds (node_view t) n) \<union> nid ` set cs') \<and> node_view t j = Inr m"
    if jm: "node_view t' j = Inr m" for j m
  proof -
    consider "j = pid" | "j \<in> set (olds (node_view t) n)" | c where "c \<in> set cs''" "j = nid c"
      | "j \<notin> insert pid (set (olds (node_view t) n) \<union> nid ` set cs')"
      using P(12) by (metis UnE image_iff image_set insertE)
    then show ?thesis
    proof cases
      case 2
      then show ?thesis using jm P(8) by simp
    next
      case 3
      then show ?thesis using jm cached_view [OF P(2)] by auto
    qed (use jm cached_view [OF P(3)] evolvesD(2) [OF E] in auto)
  qed
  show ?thesis
    unfolding settles_def
  proof (intro conjI allI impI)
    fix j m assume "node_view t' j = Inr m"
    from seen [OF this] show "node_view t j = Inr m \<or> sound_node j m"
      using P(4) after_local_small(2) [OF al P(1)] by (auto simp: sound_child_def)
  next
    assume small: "all_small t"
    then have cs: "small_node c" if "c \<in> set cs''" for c using after_local_small(1) [OF al P(1) that] by blast
    with seen P(11) [OF small] small show "all_small t'" unfolding all_small_def by metis
  next
    assume fl: "filed {pid} t"
    have "on_file t' j m" if "j \<notin> insert pid (set (olds (node_view t) n) \<union> nid ` set cs')" "node_view t j = Inr m" for j m
      using fl that on_file_evolves [OF E] by (auto simp: filed_def)
    then show "filed {} t'" unfolding filed_def using seen P(9) P(10) [OF fl] by metis
  qed
qed

text \<open>Up to the overflow check.\<close>

lemma do_flush_prefix:
  assumes ok: "store_ok t" and tree: "gtree (Suc l) (node_view t) pid" "node_view t pid = Inr n"
    and fit: "modest (node_view t) n" and room: "unat (next_id (t_manifest t)) + MAX_FANOUT < 2 ^ 64"
  shows "\<exists>t' cs' cs'' n'. do_flush (Suc fuel) pid t =
      check_overflow (\<lambda>cid. split_leaf fuel cid [pid, cid]) (do_flush fuel) (map nid cs') t' \<and>
    pushed_down l t pid n t' cs' cs'' n' \<and> saved t'"
proof -
  from push_to_children_step [OF assms] obtain t8 cs' cs'' n' where
    t8: "push_to_children pid t = (Inr \<lparr>new_child_ids = map nid cs', old_child_ids = olds (node_view t) n\<rparr>, t8)"
    and pd: "pushed_down l t pid n t8 cs' cs'' n'" by blast
  have ok8: "store_ok t8" by (rule pushed_downD [OF pd]) (rule evolvesD(1))
  from save_step [OF ok8] obtain t9 where t9: "save_manifest t8 = (Inr (), t9)" "evolves 0 {} t8 t9" "saved t9" by blast
  from gc_step [OF evolvesD(1) [OF t9(2)]] t9(3) obtain t10 where
    t10: "gc_manifest t9 = (Inr (), t10)" "evolves 0 {} t9 t10" "saved t10" by blast
  have "evolves 0 {} t8 t10" using evolves_trans [OF t9(2) t10(2)] by simp
  from pushed_down_later [OF pd this] t8 t9(1) t10(1,3) show ?thesis by (auto simp: bind_Inr)
qed

text \<open>The buffers of the new children.\<close>

lemma pushed_down_buffer:
  assumes pd: "pushed_down l t pid n t' cs' cs'' n'" and j: "j < length (kids n)"
  shows "\<exists>c. map_of (cache t') (nid (cs' ! j)) = Some c \<and> level c = level (the_node (node_view t) (kids n ! j)) \<and>
    num_children c = num_children (the_node (node_view t) (kids n ! j)) \<and>
    buffer_size_bytes c \<le> sum_list (map entry_bytes (buffer_after (node_view t) n j)) \<and>
    (kids (the_node (node_view t) (kids n ! j)) = [] \<longrightarrow> buffer c = buffer_after (node_view t) n j)"
proof -
  from pushed_downD [OF pd] obtain t3 where al: "after_local l t pid n t3 cs'" by blast
  note P = pushed_down_parts [OF pd] and D = after_localD [OF al]
  have r: "refreshed (node_view t) (cs' ! j) (cs'' ! j)" "cs'' ! j \<in> set cs''"
    using P(1) j D(5) by (auto simp: list_all2_conv_all_nth)
  note mc = moved_child [OF D(2-4) j gtree_copies(3) [OF D(2,3) j] D(7) [OF j]]
  have "node_view t (kids n ! j) = Inr (copies (node_view t) n ! j)" by (rule gtree_copies(3) [OF D(2,3) j])
  then show ?thesis
    using P(2) [OF r(2)] r(1) mc(2-5) by (auto simp: refreshed_def buffer_size_bytes_sum)
qed

lemma do_flush_step:
  assumes ok: "store_ok t" and tree: "gtree (Suc l) (node_view t) pid" "node_view t pid = Inr n"
    and fit: "no_overflow (node_view t) n" and room: "unat (next_id (t_manifest t)) + MAX_FANOUT < 2 ^ 64"
  shows "\<exists>t'. do_flush (Suc fuel) pid t = (Inr (), t') \<and> store_ok t' \<and> gtree (Suc l) (node_view t') pid \<and>
    (\<forall>k. lookup (Suc l) (node_view t') pid k = lookup (Suc l) (node_view t) pid k) \<and>
    settles {pid} t t' \<and> saved t' \<and> (\<exists>m. node_view t' pid = Inr m \<and> buffer m = []) \<and>
    write_buf t' = write_buf t \<and> seq t' = seq t \<and> opts t' = opts t \<and>
    root_id (t_manifest t') = root_id (t_manifest t)"
proof -
  from do_flush_prefix [OF ok tree no_overflow_modest [OF fit] room, of fuel] obtain t' cs' cs'' n' where
    run: "do_flush (Suc fuel) pid t =
      check_overflow (\<lambda>cid. split_leaf fuel cid [pid, cid]) (do_flush fuel) (map nid cs') t'"
    and pd: "pushed_down l t pid n t' cs' cs'' n'" "saved t'" by blast
  from pushed_downD [OF pd(1)] obtain t3 k where al: "after_local l t pid n t3 cs'"
    and E: "evolves k (insert pid (set (olds (node_view t) n) \<union> nid ` set cs')) t t'" by blast
  have "\<exists>c. map_of (cache t') x = Some c \<and> \<not> buffer_full c" if "x \<in> set (map nid cs')" for x
  proof -
    from that obtain j where j: "j < length (kids n)" "x = nid (cs' ! j)"
      using after_localD(5) [OF al] by (metis in_set_conv_nth length_map nth_map)
    from pushed_down_buffer [OF pd(1) j(1)] j fit show ?thesis
      by (fastforce simp: no_overflow_def buffer_full_def)
  qed
  then have "do_flush (Suc fuel) pid t = (Inr (), t')" unfolding run by (intro check_overflow_quiet) blast
  then show ?thesis
    using pushed_down_gtree [OF pd(1)] pushed_down_settles [OF pd(1)] pd(2) evolvesD [OF E]
      cached_view [OF pushed_down_parts(3) [OF pd(1)]] pushed_down_parts(7) [OF pd(1)] by blast
qed

subsection \<open>Properties\<close>

text \<open>
  C5. \<^verbatim>\<open>do_flush\<close> of an inner node whose parts fit its children: it succeeds, empties the node's
  buffer, and leaves a tree of the same height in which every key is found as before; on the way
  every child that received entries was rewritten under a new id.
\<close>

theorem do_flush_correct:
  assumes "store_ok t" and "gtree (Suc l) (node_view t) pid" and "node_view t pid = Inr n"
    and "no_overflow (node_view t) n" and "unat (next_id (t_manifest t)) + MAX_FANOUT < 2 ^ 64"
  shows "\<exists>t' m. do_flush (Suc fuel) pid t = (Inr (), t') \<and> store_ok t' \<and> gtree (Suc l) (node_view t') pid \<and>
    (\<forall>k. lookup (Suc l) (node_view t') pid k = lookup (Suc l) (node_view t) pid k) \<and>
    node_view t' pid = Inr m \<and> buffer m = [] \<and> root_id (t_manifest t') = root_id (t_manifest t)"
  using do_flush_step [OF assms, of fuel] by blast

lemma all_less_two: "(\<forall>j < Suc (Suc 0). P j) \<longleftrightarrow> P 0 \<and> P 1"
  by (auto simp: less_Suc_eq)

definition demo_inner :: "node_id \<Rightarrow> node_id list \<Rightarrow> entry list \<Rightarrow> sst_node" where
  "demo_inner i cs es = (demo_leaf i es)\<lparr>level := 1, num_children := of_nat (length cs),
     child_ids := cs @ replicate (MAX_FANOUT - length cs) 0\<rparr>"

theorem do_flush_correct_witness:
  "\<exists>t' m. do_flush 1 3 (demo_store 3 [demo_leaf 1 [demo_entry 2 5], demo_leaf 2 [demo_entry 7 6],
       demo_inner 3 [1, 2] [demo_entry 2 9, demo_entry 8 10]]) = (Inr (), t') \<and>
     node_view t' 3 = Inr m \<and> buffer m = [] \<and> lookup 1 (node_view t') 3 [2] = Some (demo_entry 2 9)"
proof -
  let ?a = "demo_leaf 1 [demo_entry 2 5]" and ?b = "demo_leaf 2 [demo_entry 7 6]"
  let ?n = "demo_inner 3 [1, 2] [demo_entry 2 9, demo_entry 8 10]"
  let ?t = "demo_store 3 [?a, ?b, ?n]"
  let ?v = "node_view ?t"
  have sel: "nid ?n = 3" "level ?n = 1" "buffer ?n = [demo_entry 2 9, demo_entry 8 10]" "kids ?n = [1, 2]"
    by (simp_all add: demo_inner_def kids_def)
  have v: "?v 1 = Inr ?a" "?v 2 = Inr ?b" "?v 3 = Inr ?n" by (rule demo_store_view, simp add: sel)+
  have sound: "sound_node 1 ?a" "sound_node 2 ?b" "sound_node 3 ?n"
    by (simp_all add: demo_leaf_sound sound_node_def node_sane_def demo_inner_def demo_leaf_def default_node_def
        MAX_FANOUT_def pos_of_def less_eq_sort_pos_def)
  have mins: "map (min_of ?v) (kids ?n) = [[2], [7]]" using v by (simp add: sel min_of_def)
  have sep: "separated (map (min_of ?v) (kids ?n)) (\<lambda>j. lookup 0 ?v (kids ?n ! j))"
    unfolding separated_def mins using v by (auto simp: sel less_Suc_eq)
  have route: "route ?v (kids ?n) k = (if [7] \<le> k then 1 else 0)" for k
    unfolding route_def mins by (simp add: sel)
  have g: "gtree (Suc 0) ?v 3"
    using v sound sep by (auto simp: sel layered_def route [unfolded sel(4)] low_bound_def)
  have parts: "part_of ?v ?n 0 = [demo_entry 2 9]" "part_of ?v ?n 1 = [demo_entry 8 10]"
    by (simp_all add: part_of_def route [unfolded sel(4)] sel(3,4))
  have "buffer_after ?v ?n 0 = [demo_entry 2 9]" "buffer_after ?v ?n 1 = [demo_entry 7 6, demo_entry 8 10]"
    using v parts by (simp_all add: buffer_after_def sel(4) sort_entries_def entry_less_def)
  then have fit: "no_overflow ?v ?n"
    by (simp add: no_overflow_def sel(4) numeral_2_eq_2 all_less_two entry_bytes_def BUFFER_THRESHOLD_def)
  have ok: "store_ok ?t" by (rule demo_store_ok) (simp_all add: sel)
  have "unat (next_id (t_manifest ?t)) + MAX_FANOUT < 2 ^ 64"
    by (simp add: demo_store_def set_root_def register_node_def MAX_FANOUT_def)
  from do_flush_correct [OF ok g v(3) fit this, of 0] v show ?thesis by (auto simp: sel)
qed

text \<open>
  C10. \<^verbatim>\<open>find_path\<close> and \<^verbatim>\<open>partition_entries\<close> agree: among children in the order of their lower bounds,
  the forward scan of a search picks the child into which a flush puts the entries of the key.
\<close>

theorem routing_agrees:
  assumes "cs \<noteq> []" and "\<forall>c\<in>set cs. \<exists>n. node_view t c = Inr n" and "sorted (map (min_of (node_view t)) cs)"
  shows "\<exists>t'. scan_children k cs (cs ! 0) t = (Inr (cs ! target_of (map (the_node (node_view t)) cs) k), t') \<and>
    same_but_cache t t'"
proof -
  from reads_as_scan [of k cs "cs ! 0"] obtain t' where
    "scan_children k cs (cs ! 0) t = (scan_view (node_view t) k cs (cs ! 0), t')" "same_but_cache t t'"
    unfolding reads_as_def by blast
  then show ?thesis using scan_view_route [of cs "node_view t" k] assms by (auto simp: target_of_route)
qed

theorem routing_agrees_witness:
  "\<exists>t'. scan_children [5] [1, 2] 1 (demo_store 3 [demo_leaf 1 [demo_entry 2 5], demo_leaf 2 [demo_entry 7 6]]) = (Inr 1, t')"
proof -
  let ?a = "demo_leaf 1 [demo_entry 2 5]" and ?b = "demo_leaf 2 [demo_entry 7 6]"
  let ?t = "demo_store 3 [?a, ?b]"
  have v: "node_view ?t 1 = Inr ?a" "node_view ?t 2 = Inr ?b" by (rule demo_store_view, simp)+
  then have "sorted (map (min_of (node_view ?t)) [1, 2])" "\<forall>c\<in>set [1, 2]. \<exists>n. node_view ?t c = Inr n"
    by (simp_all add: min_of_def)
  from routing_agrees [OF _ this(2,1), of "[5]"] v show ?thesis by (auto simp: target_of_def)
qed

end
