(* ===== verification/Tree_Insert.thy ===== *)
theory Tree_Insert
  imports Tree_Flush
begin

text \<open>
  \<^verbatim>\<open>insert_child\<close> on a parent that has room for one more child: the pointer array is shifted in place,
  the parent rewritten. (\<open>Tree_Grow\<close> has the branch for a full root.) With it, \<^verbatim>\<open>split_leaf\<close> of a leaf
  below the root: the tree stays a search tree that answers as before.
\<close>

subsection \<open>A new child in a parent with room\<close>

lemma index_of_append: "old \<notin> set xs \<Longrightarrow> index_of old (xs @ old # ys) = Some (length xs)"
  by (induction xs) auto

text \<open>The shift of the pointer array: the two halves take the place of the old child.\<close>

lemma kids_replace_child:
  fixes l r :: node_id
  assumes n: "sound_node i n" "kids n = xs @ old # ys" "length (kids n) < MAX_FANOUT"
  defines "m \<equiv> replace_child (length xs) l r n"
  shows "kids m = xs @ [l, r] @ ys" "length (child_ids m) = MAX_FANOUT" "unat (num_children m) = unat (num_children n) + 1"
proof -
  have len: "length (child_ids n) = MAX_FANOUT" "unat (num_children n) = length (kids n)"
    using n(1) by (simp_all add: sound_node_def kids_def)
  show nc: "unat (num_children m) = unat (num_children n) + 1"
    using n(3) len(2) by (simp add: m_def replace_child_def Let_def MAX_FANOUT_def unat_word_ariths)
  define cs where "cs = child_ids n"
  obtain zs where cs: "cs = xs @ old # ys @ zs"
    using n(2) append_take_drop_id [of "unat (num_children n)" cs] by (metis append.assoc append_Cons cs_def kids_def)
  have k: "unat (num_children n) = length xs + 1 + length ys" using len(2) n(2) by simp
  have z: "length xs + 1 + length ys + length zs = MAX_FANOUT" using len(1) cs by (simp add: cs_def)
  have "child_ids m = take (length xs) cs @ [l, r] @ take (unat (num_children n) - length xs - 1) (drop (length xs + 1) cs) @
      drop (unat (num_children n) + 1) cs"
    by (simp add: m_def replace_child_def Let_def cs_def)
  then have c: "child_ids m = xs @ [l, r] @ ys @ drop 1 zs" unfolding k cs by simp
  show "kids m = xs @ [l, r] @ ys" using c nc k by (simp add: kids_def)
  show "length (child_ids m) = MAX_FANOUT" using c z n(3) len(2) k by simp
qed

lemma insert_child_step:
  assumes ok: "store_ok t" and n: "node_view t pid = Inr n" "sound_node pid n" "length (buffer n) < 2 ^ 30"
    and ks: "kids n = xs @ old # ys" "old \<notin> set xs" "length (kids n) < MAX_FANOUT"
    and new: "\<forall>g\<in>set (xs @ [l, r] @ ys). \<exists>m. node_view t g = Inr m"
  shows "\<exists>m t'. insert_child (Suc fuel) pid old l r t = (Inr (), t') \<and> evolves 0 {pid} t t' \<and> node_view t' pid = Inr m \<and>
    sound_node pid m \<and> kids m = xs @ [l, r] @ ys \<and> level m = level n \<and> buffer m = sort_entries (buffer n) \<and>
    on_file t' pid m \<and> (all_small t \<longrightarrow> small_node m)"
proof -
  let ?n = "replace_child (length xs) l r n"
  from get_node_step [OF ok n(1)] obtain t1 where t1: "get_node pid t = (Inr n, t1)" "evolves 0 {} t t1"
    "map_of (cache t1) pid = Some n" by blast
  from upd_step [OF evolvesD(1) [OF t1(2)] t1(3), of "replace_child (length xs) l r"] obtain t2 where
    t2: "upd_node pid (replace_child (length xs) l r) t1 = (Inr (), t2)" "evolves 0 {pid} t1 t2"
    "map_of (cache t2) pid = Some ?n" by blast
  note K = kids_replace_child [OF n(2) ks(1,3), of l r]
  have nn: "nid ?n = pid" "level ?n = level n" "buffer ?n = buffer n"
    using n(2) by (simp_all add: replace_child_def Let_def sound_node_def)
  have "unat (num_children n) = length (kids n)" using n(2) by (simp add: sound_node_def kids_def)
  then have room: "unat (num_children ?n) \<le> MAX_FANOUT" using K(3) ks(3) by simp
  have "\<exists>m. node_view t2 g = Inr m" if "g \<in> set (kids ?n)" for g
    using that new evolvesD(2) [OF t2(2), of g] evolvesD(2) [OF t1(2), of g] cached_view [OF t2(3)] K(1)
    by (cases "g = pid") auto
  with finish_parent_step [OF evolvesD(1) [OF t2(2)] t2(3) nn(1) room] K(1) obtain m t3 where
    t3: "finish_parent pid t2 = (Inr (), t3)" "evolves 0 {pid} t2 t3" "map_of (cache t3) pid = Some m"
    and m: "nid m = pid" "level m = level ?n" "child_ids m = child_ids ?n" "num_children m = num_children ?n"
      "buffer m = sort_entries (buffer ?n)" "entries_loaded m" "bloom_covers m" "pred_option bloom_fits (bloom_of m)"
      "on_file t3 pid m"
      "small_node ?n \<and> (\<forall>g\<in>set (kids ?n). small_node (the_node (node_view t2) g)) \<longrightarrow> small_node m"
    using n(3) nn(3) by fastforce
  have sm: "small_node m" if small: "all_small t"
  proof -
    have "small_node n" using small n(1) by (auto simp: all_small_def)
    then have sn: "small_node ?n" by (simp add: small_node_def replace_child_def Let_def)
    moreover have "small_node (the_node (node_view t2) g)" if gk: "g \<in> set (kids ?n)" for g
    proof (cases "g = pid")
      case False
      obtain y where y: "node_view t g = Inr y" using gk new K(1) by metis
      then have "node_view t2 g = Inr y" using False evolvesD(2) [OF t2(2), of g] evolvesD(2) [OF t1(2), of g] by simp
      then show ?thesis using small y by (auto simp: all_small_def)
    qed (use cached_view [OF t2(3)] sn in simp)
    ultimately show ?thesis using m(10) by blast
  qed
  have "insert_child (Suc fuel) pid old l r t = (Inr (), t3)"
    using t1(1) t2(1) t3(1) n(2) ks index_of_append [OF ks(2), of ys]
    by (simp add: bind_Inr exec_simps children_of_kids sound_node_def)
  moreover have "evolves 0 {pid} t t3" using evolves_trans [OF evolves_trans [OF t1(2) t2(2)] t3(2)] by simp
  moreover have "sound_node pid m"
    using m K(2) room n(2) nn(3) by (auto simp: sound_node_def node_sane_def bloom_covers_def keys_strict_sorted keys_sort_entries)
  moreover have "kids m = xs @ [l, r] @ ys" using m(3,4) K(1) by (simp add: kids_def)
  ultimately show ?thesis using cached_view [OF t3(3)] m(2,5,9) nn(2,3) sm by (auto simp del: insert_child.simps)
qed

subsection \<open>Two leaves in the place of one\<close>

text \<open>\<open>separated\<close> on a list of bounds with what is found behind each.\<close>

fun chained :: "(bytes \<times> (bytes \<Rightarrow> entry option)) list \<Rightarrow> bool" where
  "chained [] \<longleftrightarrow> True"
| "chained [(m, f)] \<longleftrightarrow> m \<noteq> [] \<and> (\<forall>k. f k \<noteq> None \<longrightarrow> m \<le> k)"
| "chained ((m, f) # (m', f') # r) \<longleftrightarrow>
     m \<noteq> [] \<and> m \<le> m' \<and> (\<forall>k. f k \<noteq> None \<longrightarrow> m \<le> k \<and> k < m') \<and> chained ((m', f') # r)"

lemma separated_Cons:
  "separated (m # m' # ms) f \<longleftrightarrow> m \<noteq> [] \<and> m \<le> m' \<and> (\<forall>k. f 0 k \<noteq> None \<longrightarrow> m \<le> k \<and> k < m') \<and>
     separated (m' # ms) (\<lambda>j. f (Suc j))"
proof -
  have "(\<forall>j k. j < Suc (length (m' # ms)) \<longrightarrow> P j k) \<longleftrightarrow> (\<forall>k. P 0 k) \<and> (\<forall>j k. j < length (m' # ms) \<longrightarrow> P (Suc j) k)" for P
    by (auto simp: less_Suc_eq_0_disj)
  from this [of "\<lambda>j k. f j k \<noteq> None \<longrightarrow> (m # m' # ms) ! j \<le> k \<and> (Suc j < length (m # m' # ms) \<longrightarrow> k < (m # m' # ms) ! Suc j)"]
  show ?thesis unfolding separated_def by auto
qed

lemma separated_chained: "separated (map fst ps) (\<lambda>j. snd (ps ! j)) \<longleftrightarrow> chained ps"
proof (induction ps rule: chained.induct)
  case (2 m f)
  then show ?case by (auto simp: separated_def)
next
  case (3 m f m' f' r)
  then show ?case by (simp add: separated_Cons)
qed (simp add: separated_def)

lemma chained_split:
  assumes "chained (ps @ (m, f) # qs)" "m \<le> m1" "m1 \<le> m2" "m1 \<noteq> []" "f m2 \<noteq> None"
    and "\<And>k. f1 k \<noteq> None \<Longrightarrow> m1 \<le> k \<and> k < m2" "\<And>k. f2 k \<noteq> None \<Longrightarrow> m2 \<le> k \<and> f k \<noteq> None"
  shows "chained (ps @ (m1, f1) # (m2, f2) # qs)"
  using assms(1)
proof (induction ps)
  case Nil
  have "m2 \<noteq> []" using assms(3,4) by auto
  moreover have "m2 \<le> fst q" if "qs = q # qs'" for q qs'
    using Nil assms(5) that by (cases q) (auto intro: less_imp_le)
  ultimately show ?case using Nil assms(2-) by (cases qs) auto
next
  case (Cons p ps)
  then have "chained (ps @ (m, f) # qs)" by (cases p; cases ps) auto
  with Cons.IH have IH: "chained (ps @ (m1, f1) # (m2, f2) # qs)" .
  then show ?case using Cons.prems assms(2) by (cases p; cases ps) (auto intro: order_trans less_le_trans)
qed

text \<open>What a search finds below the buffer is what some child knows.\<close>

lemma separated_found:
  assumes "separated mins f" "mins \<noteq> []"
  shows "f (scan_back mins k (length mins)) k = Some e \<longleftrightarrow> (\<exists>j < length mins. f j k = Some e)"
proof
  assume "\<exists>j < length mins. f j k = Some e"
  then obtain j where j: "j < length mins" "f j k = Some e" by blast
  then have "scan_back mins k (length mins) = j" by (intro separated_route [OF assms(1)]) simp_all
  then show "f (scan_back mins k (length mins)) k = Some e" using j(2) by simp
qed (use back_routing.pick_bound [OF assms(2), of k] in blast)

definition child_pairs :: "nat \<Rightarrow> view \<Rightarrow> node_id list \<Rightarrow> (bytes \<times> (bytes \<Rightarrow> entry option)) list" where
  "child_pairs l v cs = map (\<lambda>c. (min_of v c, lookup l v c)) cs"

lemma separated_pairs:
  "separated (map (min_of v) cs) (\<lambda>j. lookup l v (cs ! j)) \<longleftrightarrow> chained (child_pairs l v cs)"
proof -
  have "separated (map (min_of v) cs) (\<lambda>j. lookup l v (cs ! j)) \<longleftrightarrow>
      separated (map (min_of v) cs) (\<lambda>j. snd (child_pairs l v cs ! j))"
    unfolding separated_def child_pairs_def by simp
  then show ?thesis using separated_chained [of "child_pairs l v cs"] by (simp add: child_pairs_def comp_def)
qed

lemma routed_found:
  assumes "chained (child_pairs l v cs)" "cs \<noteq> []"
  shows "lookup l v (cs ! route v cs k) k = Some e \<longleftrightarrow> (\<exists>c\<in>set cs. lookup l v c k = Some e)"
proof -
  have "lookup l v (cs ! route v cs k) k = Some e \<longleftrightarrow> (\<exists>j < length cs. lookup l v (cs ! j) k = Some e)"
    using separated_found [OF assms(1) [folded separated_pairs], of k e] assms(2) by (simp add: route_def)
  also have "\<dots> \<longleftrightarrow> (\<exists>c\<in>set cs. lookup l v c k = Some e)" by (metis in_set_conv_nth)
  finally show ?thesis .
qed

lemma split_child_pairs:
  assumes t: "gtree (Suc 0) v i" "v i = Inr n" "kids n = xs @ c # ys" and c: "v c = Inr nc" "buffer nc = A @ B"
    and cut: "A \<noteq> []" "B \<noteq> []" "key (last A) < key (hd B)"
    and a: "v' a = Inr na" "\<And>k. newest k (buffer na) = newest k A" "min_key (krange na) = key (hd A)"
    and b: "v' b = Inr nb" "\<And>k. newest k (buffer nb) = newest k B" "min_key (krange nb) = key (hd B)"
    and same: "\<And>g. g \<in> set xs \<union> set ys \<Longrightarrow> v' g = v g"
  shows "chained (child_pairs 0 v' (xs @ [a, b] @ ys))"
    "(\<exists>x\<in>set (xs @ [a, b] @ ys). lookup 0 v' x k = Some e) \<longleftrightarrow> (\<exists>x\<in>set (kids n). lookup 0 v x k = Some e)"
proof -
  note g = gtree_SucE [OF t(1,2)]
  have gc: "gtree 0 v c" using g(5) t(3) by simp
  have sc: "entries_sorted (A @ B)" using gc c by (auto simp: sound_node_def node_sane_def)
  note H = halves_bounds [OF sc cut]
  have lc: "lookup 0 v c = (\<lambda>k. newest k (A @ B))" using c by (simp add: fun_eq_iff)
  have la: "lookup 0 v' a = (\<lambda>k. newest k A)" "min_of v' a = key (hd A)" using a by (simp_all add: min_of_def fun_eq_iff)
  have lb: "lookup 0 v' b = (\<lambda>k. newest k B)" "min_of v' b = key (hd B)" using b by (simp_all add: min_of_def fun_eq_iff)
  have old: "chained (child_pairs 0 v (kids n))" using g(7) by (simp add: separated_pairs)
  have keep: "map (\<lambda>x. (min_of v' x, lookup 0 v' x)) zs = map (\<lambda>x. (min_of v x, lookup 0 v x)) zs"
    if "set zs \<subseteq> set xs \<union> set ys" for zs
    using that same by (auto simp: min_of_def the_node_def fun_eq_iff)
  have hdA: "newest (key (hd A)) (A @ B) \<noteq> None" and hdB: "newest (key (hd B)) (A @ B) \<noteq> None"
    using cut(1,2) by (auto simp: newest_None_iff)
  have inB: "newest k (A @ B) \<noteq> None" if "newest k B \<noteq> None" for k using that by (simp only: newest_None_iff) auto
  have low: "min_of v c \<le> key (hd A)"
  proof -
    obtain j where j: "j < length (kids n)" "kids n ! j = c" using t(3) by (metis in_set_conv_decomp in_set_conv_nth)
    then show ?thesis using separatedD(3) [OF g(7), of j "key (hd A)"] hdA lc by simp
  qed
  have neA: "key (hd A) \<noteq> []" using gc c cut(1) by (cases A) (auto simp: sound_node_def)
  have mid: "chained (child_pairs 0 v xs @ (min_of v c, lookup 0 v c) # child_pairs 0 v ys)"
    using old t(3) by (simp add: child_pairs_def)
  have "chained (child_pairs 0 v xs @ (key (hd A), \<lambda>k. newest k A) # (key (hd B), \<lambda>k. newest k B) # child_pairs 0 v ys)"
  proof (rule chained_split [OF mid low less_imp_le [OF H(4)] neA])
    show "lookup 0 v c (key (hd B)) \<noteq> None" using hdB by (simp only: lc) simp
    show "key (hd A) \<le> k \<and> k < key (hd B)" if "newest k A \<noteq> None" for k by (rule H(1) [OF that])
    show "key (hd B) \<le> k \<and> lookup 0 v c k \<noteq> None" if "newest k B \<noteq> None" for k
      using H(2) [OF that] inB [OF that] unfolding lc by blast
  qed
  moreover have "child_pairs 0 v' xs = child_pairs 0 v xs" "child_pairs 0 v' ys = child_pairs 0 v ys"
    using keep [of xs] keep [of ys] by (simp_all add: child_pairs_def)
  then have "child_pairs 0 v' (xs @ [a, b] @ ys) =
      child_pairs 0 v xs @ (key (hd A), \<lambda>k. newest k A) # (key (hd B), \<lambda>k. newest k B) # child_pairs 0 v ys"
    using la lb by (simp add: child_pairs_def)
  ultimately show "chained (child_pairs 0 v' (xs @ [a, b] @ ys))" by simp
  have ab: "newest k (A @ B) = Some e \<longleftrightarrow> newest k A = Some e \<or> newest k B = Some e"
    using H(1,2) [of k] unfolding H(3) [of k] by (auto split: option.split)
  have "lookup 0 v' x k = lookup 0 v x k" if "x \<in> set xs \<union> set ys" for x using same [OF that] by (simp add: the_node_def)
  then show "(\<exists>x\<in>set (xs @ [a, b] @ ys). lookup 0 v' x k = Some e) \<longleftrightarrow> (\<exists>x\<in>set (kids n). lookup 0 v x k = Some e)"
    using t(3) la(1) lb(1) lc ab by (auto simp del: lookup.simps)
qed

lemma split_child_gtree:
  assumes t: "gtree (Suc 0) v i" "v i = Inr n" "kids n = xs @ c # ys" and c: "v c = Inr nc" "buffer nc = A @ B"
    and cut: "A \<noteq> []" "B \<noteq> []" "key (last A) < key (hd B)"
    and n': "v' i = Inr n'" "sound_node i n'" "level n' = level n" "kids n' = xs @ [a, b] @ ys"
      "\<And>k. newest k (buffer n') = newest k (buffer n)"
    and a: "v' a = Inr na" "sound_node a na" "level na = 0" "num_children na = 0"
      "\<And>k. newest k (buffer na) = newest k A" "min_key (krange na) = key (hd A)"
    and b: "v' b = Inr nb" "sound_node b nb" "level nb = 0" "num_children nb = 0"
      "\<And>k. newest k (buffer nb) = newest k B" "min_key (krange nb) = key (hd B)"
    and ids: "distinct (xs @ [a, b] @ ys)" and same: "\<And>g. g \<in> set xs \<union> set ys \<Longrightarrow> v' g = v g"
  shows "gtree (Suc 0) v' i" "lookup (Suc 0) v' i k = lookup (Suc 0) v i k"
proof -
  note g = gtree_SucE [OF t(1,2)]
  note S = split_child_pairs [OF t c cut a(1,5,6) b(1,5,6) same, folded n'(4)]
  have old: "chained (child_pairs 0 v (kids n))" using g(7) by (simp add: separated_pairs)
  have found: "lookup 0 v' (kids n' ! route v' (kids n') k) k = lookup 0 v (kids n ! route v (kids n) k) k" for k
    using S(2) [of k] routed_found [OF S(1), of k] routed_found [OF old, of k] t(3) n'(4)
    by (metis append_is_Nil_conv list.distinct(1) not_Some_eq)
  show "lookup (Suc 0) v' i k = lookup (Suc 0) v i k" using found n'(1,5) t(2) by (simp split: option.split)
  have "gtree 0 v' x \<and> low_bound 0 v' x" if "x \<in> set (kids n')" for x
    using that n'(4) a(1-4) b(1-4) same [of x] g(5) [of x] t(3) by (auto simp: low_bound_def)
  moreover have "layered (\<lambda>k. newest k (buffer n')) (\<lambda>k. lookup 0 v' (kids n' ! route v' (kids n') k) k)"
    using g(8) unfolding found n'(5) .
  moreover have "kids n' \<noteq> []" "distinct (kids n')" using n'(4) ids by auto
  ultimately show "gtree (Suc 0) v' i"
    using n'(1-3) g(2) S(1) by (simp add: separated_pairs del: lookup.simps)
qed

subsection \<open>Splitting a leaf below the root\<close>

lemma split_child_step:
  fixes t :: tree
  assumes ok: "store_ok t" and g: "gtree (Suc 0) (node_view t) pid" "node_view t pid = Inr n" "buffer n = []"
    and ks: "kids n = xs @ c # ys" "length (kids n) < MAX_FANOUT"
    and c: "node_view t c = Inr nc" "clean_cut (buffer nc)" "length (buffer nc) < 2 ^ 30"
    and room: "unat (next_id (t_manifest t)) + 2 < 2 ^ 64"
  defines "a \<equiv> next_id (t_manifest t)"
  shows "\<exists>t' n'. split_leaf (Suc fuel) c [pid, c] t = (Inr (), t') \<and> evolves 2 {pid, c, a, a + 1} t t' \<and>
    gtree (Suc 0) (node_view t') pid \<and> (\<forall>k. lookup (Suc 0) (node_view t') pid k = lookup (Suc 0) (node_view t) pid k) \<and>
    node_view t' pid = Inr n' \<and> kids n' = xs @ [a, a + 1] @ ys \<and> buffer n' = [] \<and> settles {} t t' \<and> saved t'"
proof -
  let ?b = "a + 1" and ?es = "buffer nc"
  let ?A = "take (length ?es div 2) ?es" and ?B = "drop (length ?es div 2) ?es"
  note G = gtree_SucE [OF g(1,2)]
  have gc: "gtree 0 (node_view t) c" using G(5) ks(1) by simp
  then have sc: "sound_node c nc" using c(1) by auto
  then have es: "entries_sorted ?es" by (simp add: sound_node_def node_sane_def)
  note cut = clean_cut_halves [OF c(2) es]
  have "2 \<le> length ?es" using c(2) by (simp add: clean_cut_def)
  from split_leaf_front [OF ok c(1) sc this c(3) room, of "Suc fuel" "[pid, c]"]
  obtain na nb t1 where run: "split_leaf (Suc fuel) c [pid, c] t =
      bind (insert_child (Suc fuel) pid c a ?b) (\<lambda>_. bind save_manifest (\<lambda>_. gc_manifest)) t1"
    and t1: "evolves 2 {a, ?b, c} t t1" "node_view t1 c = Inl (Unknown_node c)" "c < a"
    and na: "node_view t1 a = Inr na" "sound_node a na" "level na = 0" "num_children na = 0"
      "\<And>k. newest k (buffer na) = newest k ?A" "min_key (krange na) = key (hd ?A)"
    and nb: "node_view t1 ?b = Inr nb" "sound_node ?b nb" "level nb = 0" "num_children nb = 0"
      "\<And>k. newest k (buffer nb) = newest k ?B" "min_key (krange nb) = key (hd ?B)"
    and fl: "on_file t1 a na" "on_file t1 ?b nb" "small_node nc \<longrightarrow> small_node na \<and> small_node nb"
    unfolding a_def by auto
  have below: "x < a" if "x = pid \<or> x \<in> set (kids n)" for x
    using that view_below_next [OF ok] g(2) gtree_node [OF G(5)] unfolding a_def by blast
  have ab: "a < ?b" using room by (simp add: a_def word_less_nat_alt unat_word_ariths)
  have pc: "pid \<noteq> c" using G(2) g(2) gc c(1) by auto
  have out: "x \<notin> {a, ?b, c}" if "x = pid \<or> x \<in> set xs \<union> set ys" for x
    using that below [of x] ab pc G(4) ks(1) by auto
  have v1: "node_view t1 x = node_view t x" if "x = pid \<or> x \<in> set xs \<union> set ys" for x
    using evolvesD(2) [OF t1(1) out [OF that]] .
  have "\<exists>m. node_view t1 x = Inr m" if "x \<in> set (xs @ [a, ?b] @ ys)" for x
    using that v1 [of x] na(1) nb(1) gtree_node [OF G(5), of x] ks(1) by fastforce
  moreover have "c \<notin> set xs" "node_view t1 pid = Inr n" "length (buffer n) < 2 ^ 30"
    using G(4) ks(1) v1 [of pid] g(2,3) by auto
  ultimately obtain n' t2 where t2: "insert_child (Suc fuel) pid c a ?b t1 = (Inr (), t2)" "evolves 0 {pid} t1 t2"
    "node_view t2 pid = Inr n'" and n': "sound_node pid n'" "kids n' = xs @ [a, ?b] @ ys" "level n' = level n" "buffer n' = []"
      "on_file t2 pid n'" "all_small t1 \<longrightarrow> small_node n'"
    using insert_child_step [OF evolvesD(1) [OF t1(1)] _ G(1) _ ks(1) _ ks(2), of a ?b fuel] g(3) by auto
  from save_step [OF evolvesD(1) [OF t2(2)]] obtain t3 where t3: "save_manifest t2 = (Inr (), t3)" "evolves 0 {} t2 t3"
    "saved t3" by blast
  from gc_step [OF evolvesD(1) [OF t3(2)]] t3(3) obtain t4 where t4: "gc_manifest t3 = (Inr (), t4)" "evolves 0 {} t3 t4"
    "saved t4" by blast
  have e14: "evolves 0 {pid} t1 t4" using evolves_trans [OF evolves_trans [OF t2(2) t3(2)] t4(2)] by simp
  have E: "evolves 2 {pid, c, a, ?b} t t4" using evolves_trans [OF t1(1) e14] by (simp add: insert_commute)
  have v4: "node_view t4 pid = Inr n'" "node_view t4 a = Inr na" "node_view t4 ?b = Inr nb" "node_view t4 c = Inl (Unknown_node c)"
    using t2(3) evolvesD(2) [OF t3(2), of pid] evolvesD(2) [OF t4(2), of pid] evolvesD(2) [OF e14, of a]
      evolvesD(2) [OF e14, of ?b] evolvesD(2) [OF e14, of c] out [of pid] pc na(1) nb(1) t1(2) by auto
  have keep: "node_view t4 x = node_view t x" if "x \<in> set xs \<union> set ys" for x
  proof -
    have "x \<noteq> pid" using that G(5) [of x] ks(1) g(2) G(2) gtree_node by force
    then show ?thesis using evolvesD(2) [OF e14, of x] v1 [of x] that by simp
  qed
  have dist: "distinct (xs @ [a, ?b] @ ys)" using G(4) ks(1) out ab by auto
  have app: "buffer nc = ?A @ ?B" by simp
  have bn: "newest k (buffer n') = newest k (buffer n)" for k using n'(4) g(3) by simp
  note tree = split_child_gtree [of "node_view t" pid n xs c ys nc ?A ?B "node_view t4" n' a ?b na nb,
      OF g(1,2) ks(1) c(1) app cut v4(1) n'(1,3,2) bn v4(2) na(2-6) v4(3) nb(2-6) dist keep]
  have "settles {} t t4"
  proof (rule settlesI)
    fix j m assume jm: "node_view t4 j = Inr m"
    have small: "small_node na \<and> small_node nb \<and> small_node n'" if s: "all_small t"
    proof -
      have nab: "small_node na" "small_node nb" using s c(1) fl(3) by (auto simp: all_small_def)
      have "all_small t1" unfolding all_small_def
      proof (intro allI impI)
        fix x y assume "node_view t1 x = Inr y"
        then show "small_node y"
          using s nab na(1) nb(1) t1(2) evolvesD(2) [OF t1(1), of x] by (cases "x \<in> {a, ?b, c}") (auto simp: all_small_def)
      qed
      with nab n'(6) show ?thesis by blast
    qed
    have f4: "on_file t4 pid n'" "on_file t4 a na" "on_file t4 ?b nb"
      using on_file_evolves [OF t4(2) _ on_file_evolves [OF t3(2) _ n'(5)]] on_file_evolves [OF e14 _ fl(1)]
        on_file_evolves [OF e14 _ fl(2)] out [of pid] by auto
    consider "j \<in> {pid, a, ?b}" | "j = c" | "j \<notin> {pid, c, a, ?b}" by blast
    then show "j \<notin> {} \<and> node_view t j = Inr m \<and> (on_file t j m \<longrightarrow> on_file t4 j m) \<or>
        sound_node j m \<and> on_file t4 j m \<and> (all_small t \<longrightarrow> small_node m)"
    proof cases
      case 1
      then show ?thesis using jm v4(1-3) n'(1) na(2) nb(2) f4 small by auto
    next
      case 3
      then show ?thesis using jm evolvesD(2) [OF E 3] on_file_evolves [OF E 3] by simp
    qed (use jm v4(4) in simp)
  qed
  moreover have "split_leaf (Suc fuel) c [pid, c] t = (Inr (), t4)" using run t2(1) t3(1) t4(1) by (simp add: bind_Inr)
  ultimately show ?thesis using E tree v4(1) n'(2,4) t4(3) by blast
qed

lemma settles_refl: "settles {} t t"
  by (simp add: settles_def)

subsection \<open>Properties\<close>

text \<open>
  C18. \<^verbatim>\<open>insert_child\<close> on a parent with room: the two halves take the place of the split child in the
  pointer array, which keeps its fixed length, the number of children goes up by one and stays within
  the fan-out, the buffered entries stay, the parent is written and registered again, and no other
  node changes.
\<close>

theorem insert_child_with_room:
  assumes "store_ok t" and "node_view t pid = Inr n" and "sound_node pid n" and "length (buffer n) < 2 ^ 30"
    and "kids n = xs @ old # ys" and "old \<notin> set xs" and "length (kids n) < MAX_FANOUT"
    and "\<forall>g\<in>set (xs @ [l, r] @ ys). \<exists>m. node_view t g = Inr m"
  shows "\<exists>m t'. insert_child (Suc fuel) pid old l r t = (Inr (), t') \<and> store_ok t' \<and> node_view t' pid = Inr m \<and>
    kids m = xs @ [l, r] @ ys \<and> length (child_ids m) = MAX_FANOUT \<and> length (kids m) = length (kids n) + 1 \<and>
    level m = level n \<and> (\<forall>k. newest k (buffer m) = newest k (buffer n)) \<and>
    (\<forall>j. j \<noteq> pid \<longrightarrow> node_view t' j = node_view t j)"
proof -
  from insert_child_step [OF assms, of fuel] obtain m t' where
    "insert_child (Suc fuel) pid old l r t = (Inr (), t')" "evolves 0 {pid} t t'" "node_view t' pid = Inr m"
    "sound_node pid m" "kids m = xs @ [l, r] @ ys" "level m = level n" "buffer m = sort_entries (buffer n)" by blast
  then show ?thesis
    using evolvesD(1,2) [of 0 "{pid}" t t'] assms(5) by (intro exI [of _ m] exI [of _ t']) (auto simp: sound_node_def)
qed

theorem insert_child_with_room_witness:
  "\<exists>m t'. insert_child 1 3 1 4 2 (demo_store 3 [demo_leaf 1 [demo_entry 2 5], demo_leaf 2 [demo_entry 7 6],
       demo_inner 3 [1] [], demo_leaf 4 [demo_entry 2 5]]) = (Inr (), t') \<and> node_view t' 3 = Inr m \<and> kids m = [4, 2]"
proof -
  let ?n = "demo_inner 3 [1] []"
  let ?t = "demo_store 3 [demo_leaf 1 [demo_entry 2 5], demo_leaf 2 [demo_entry 7 6], ?n, demo_leaf 4 [demo_entry 2 5]]"
  have sel: "nid ?n = 3" "kids ?n = [] @ 1 # []" "buffer ?n = []" by (simp_all add: demo_inner_def kids_def)
  have v: "node_view ?t 3 = Inr ?n" "node_view ?t 4 = Inr (demo_leaf 4 [demo_entry 2 5])"
      "node_view ?t 2 = Inr (demo_leaf 2 [demo_entry 7 6])"
    by (rule demo_store_view, simp add: sel)+
  have sound: "sound_node 3 ?n"
    by (simp add: sound_node_def node_sane_def demo_inner_def demo_leaf_def default_node_def MAX_FANOUT_def)
  have ok: "store_ok ?t" by (rule demo_store_ok) (simp_all add: sel)
  from insert_child_with_room [OF ok v(1) sound _ sel(2), of 4 2 0] v(2,3) sel
  show ?thesis by (auto simp: MAX_FANOUT_def)
qed

end
