(* ===== verification/Tree_Grow.thy ===== *)
theory Tree_Grow
  imports Tree_Insert
begin

text \<open>
  \<^verbatim>\<open>insert_child\<close> on a full root: its children and the new one are divided between two inner nodes, and a
  new root is put over them, so the tree grows by a level. With it the flushes after which a round is
  known to leave a search tree: those that fill no child, and those of a node above the leaves that
  fill at most as many leaves as the parent has room for, or one more.
\<close>

subsection \<open>Two inner nodes in the place of one\<close>

lemma chained_appendD:
  assumes "chained (ps @ qs)"
  shows "chained ps" "chained qs"
proof -
  show "chained ps" using assms
  proof (induction ps rule: chained.induct)
    case (2 m f)
    then show ?case by (cases qs) auto
  qed auto
  show "chained qs" using assms
  proof (induction ps)
    case (Cons p ps)
    then show ?case by (cases p; cases "ps @ qs") auto
  qed simp
qed

lemma chained_lower: "chained ((m, f) # ps) \<Longrightarrow> (m', f') \<in> set ((m, f) # ps) \<Longrightarrow> m \<le> m' \<and> (f' k \<noteq> None \<longrightarrow> m \<le> k)"
proof (induction ps arbitrary: m f)
  case (Cons p ps)
  obtain m1 f1 where p: "p = (m1, f1)" by fastforce
  from Cons.prems(1) p have c: "m \<le> m1" "chained ((m1, f1) # ps)" by auto
  from Cons.prems(2) consider "(m', f') = (m, f)" | "(m', f') \<in> set ((m1, f1) # ps)" using p by auto
  then show ?case
  proof cases
    case 1
    then show ?thesis using Cons.prems(1) p by auto
  next
    case 2
    with Cons.IH [OF c(2)] c(1) show ?thesis by (auto intro: order_trans)
  qed
qed auto

lemma chained_upper: "chained (ps @ (m, f) # qs) \<Longrightarrow> (m', f') \<in> set ps \<Longrightarrow> f' k \<noteq> None \<Longrightarrow> k < m"
proof (induction ps)
  case (Cons p ps)
  show ?case
  proof (cases "(m', f') \<in> set ps")
    case True
    then show ?thesis using Cons chained_appendD(2) [of "[p]" "ps @ (m, f) # qs"] by simp
  next
    case False
    then have p: "p = (m', f')" using Cons.prems(2) by simp
    show ?thesis
    proof (cases ps)
      case Nil
      then show ?thesis using Cons.prems(1,3) p by auto
    next
      case (Cons q rs)
      obtain m1 f1 where q: "q = (m1, f1)" by fastforce
      then have "k < m1" "chained ((m1, f1) # rs @ (m, f) # qs)" using Cons.prems(1,3) p Cons by auto
      with chained_lower [OF this(2), of m f k] show ?thesis by auto
    qed
  qed
qed simp

text \<open>A node without buffered entries over the children \<open>cs\<close>.\<close>

definition inner_node :: "node_id \<Rightarrow> u32 \<Rightarrow> node_id list \<Rightarrow> bytes \<Rightarrow> sst_node \<Rightarrow> bool" where
  "inner_node i lvl cs mn n \<longleftrightarrow> sound_node i n \<and> level n = lvl \<and> buffer n = [] \<and> kids n = cs \<and> min_key (krange n) = mn"

lemma inner_nodeD:
  assumes "inner_node i lvl cs mn n"
  shows "sound_node i n" "level n = lvl" "buffer n = []" "kids n = cs" "min_key (krange n) = mn"
  using assms by (simp_all add: inner_node_def)

lemma inner_gtree:
  assumes n: "v i = Inr n" "inner_node i lvl cs mn n" "unat lvl = Suc l"
    and cs: "cs \<noteq> []" "distinct cs" "\<And>c. c \<in> set cs \<Longrightarrow> gtree l v c \<and> low_bound l v c" "chained (child_pairs l v cs)"
  shows "gtree (Suc l) v i" "lookup (Suc l) v i k = Some e \<longleftrightarrow> (\<exists>c\<in>set cs. lookup l v c k = Some e)"
proof -
  note D = inner_nodeD [OF n(2)]
  have "layered (\<lambda>k. newest k (buffer n)) (\<lambda>k. lookup l v (kids n ! route v (kids n) k) k)" by (simp add: D(3) layered_def)
  then show "gtree (Suc l) v i" using n(1,3) cs D by (auto simp: separated_pairs)
  show "lookup (Suc l) v i k = Some e \<longleftrightarrow> (\<exists>c\<in>set cs. lookup l v c k = Some e)"
    using routed_found [OF cs(4,1), of k e] n(1) D(3,4) by simp
qed

lemma grow_gtree:
  assumes a: "v a = Inr na" "inner_node a lvl P (min_of v (hd P)) na" and b: "v b = Inr nb" "inner_node b lvl Q (min_of v (hd Q)) nb"
    and r: "v r = Inr m" "inner_node r (lvl + 1) [a, b] mn m" and lvl: "unat lvl = Suc l" "unat (lvl + 1) = Suc (Suc l)"
    and cs: "P \<noteq> []" "Q \<noteq> []" "distinct (P @ Q)" "\<And>c. c \<in> set (P @ Q) \<Longrightarrow> gtree l v c \<and> low_bound l v c"
      "chained (child_pairs l v (P @ Q))" and ab: "a \<noteq> b"
  shows "gtree (Suc (Suc l)) v r" "lookup (Suc (Suc l)) v r k = Some e \<longleftrightarrow> (\<exists>c\<in>set (P @ Q). lookup l v c k = Some e)"
proof -
  note A = inner_nodeD [OF a(2)] and B = inner_nodeD [OF b(2)]
  have ch: "chained (child_pairs l v P @ child_pairs l v Q)" using cs(5) by (simp add: child_pairs_def)
  have dist: "distinct P" "distinct Q" using cs(3) by auto
  have sub: "\<And>c. c \<in> set P \<Longrightarrow> gtree l v c \<and> low_bound l v c" "\<And>c. c \<in> set Q \<Longrightarrow> gtree l v c \<and> low_bound l v c"
    using cs(4) by auto
  note GA = inner_gtree [OF a lvl(1) cs(1) dist(1) sub(1) chained_appendD(1) [OF ch]]
  note GB = inner_gtree [OF b lvl(1) cs(2) dist(2) sub(2) chained_appendD(2) [OF ch]]
  obtain p ps q qs where P: "P = p # ps" and Q: "Q = q # qs" using cs(1,2) by (cases P; cases Q) auto
  have ch': "chained ((min_of v p, lookup l v p) # child_pairs l v ps @ (min_of v q, lookup l v q) # child_pairs l v qs)"
    "chained (child_pairs l v (p # ps) @ (min_of v q, lookup l v q) # child_pairs l v qs)"
    "chained ((min_of v q, lookup l v q) # child_pairs l v qs)"
    using ch chained_appendD(2) [OF ch] by (simp_all add: child_pairs_def P Q)
  have ne: "min_of v p \<noteq> []" "min_of v q \<noteq> []"
    using chained_appendD(1) [of "[(min_of v p, lookup l v p)]", simplified, OF ch'(1)] ch'(3)
    by (auto simp: child_pairs_def) (cases qs; auto)+
  have mem: "(min_of v c, lookup l v c) \<in> set (child_pairs l v cs)" if "c \<in> set cs" for c cs
    using that by (simp add: child_pairs_def)
  have "min_of v p \<le> min_of v q" using chained_lower [OF ch'(1)] by auto
  moreover have "min_of v p \<le> k \<and> k < min_of v q" if "lookup (Suc l) v a k \<noteq> None" for k
  proof -
    from that obtain e where "lookup (Suc l) v a k = Some e" by blast
    then obtain c where c: "c \<in> set (p # ps)" "lookup l v c k \<noteq> None" using GA(2) [of k e] P by auto
    show ?thesis
      using chained_lower [OF ch'(1), of _ "lookup l v c" k] chained_upper [OF ch'(2) mem [OF c(1)] c(2)] mem [OF c(1)] c(2)
      by (auto simp: child_pairs_def)
  qed
  moreover have "min_of v q \<le> k" if "lookup (Suc l) v b k \<noteq> None" for k
  proof -
    from that obtain e where "lookup (Suc l) v b k = Some e" by blast
    then obtain c where c: "c \<in> set (q # qs)" "lookup l v c k \<noteq> None" using GB(2) [of k e] Q by auto
    show ?thesis using chained_lower [OF ch'(3), of _ "lookup l v c" k] mem [OF c(1)] c(2) by (auto simp: child_pairs_def)
  qed
  moreover have "min_of v a = min_of v p" "min_of v b = min_of v q" using a(1) b(1) A(5) B(5) by (simp_all add: min_of_def P Q)
  ultimately have top: "chained (child_pairs (Suc l) v [a, b])" using ne by (simp add: child_pairs_def del: lookup.simps)
  have low: "gtree (Suc l) v c \<and> low_bound (Suc l) v c" if "c \<in> set [a, b]" for c
    using that GA(1) GB(1) a(1) b(1) A(4,5) B(4,5) by (auto simp: low_bound_def min_of_def P Q simp del: gtree.simps)
  have d: "distinct [a, b]" using ab by simp
  note GR = inner_gtree [OF r lvl(2) _ d low top]
  show "gtree (Suc (Suc l)) v r" using GR(1) by simp
  show "lookup (Suc (Suc l)) v r k = Some e \<longleftrightarrow> (\<exists>c\<in>set (P @ Q). lookup l v c k = Some e)"
    using GR(2) [of k e] GA(2) [of k e] GB(2) [of k e] by (auto simp del: lookup.simps)
qed

subsection \<open>The halves of a full node\<close>

lemma written_inner:
  assumes n0: "nid n0 = i" "level n0 = lvl" "buffer n0 = []" "num_children n0 = of_nat (min (length cs) MAX_FANOUT)"
      "child_ids n0 = take MAX_FANOUT cs @ replicate (MAX_FANOUT - length cs) 0"
    and n: "written (set_range mn mx n0) n" and len: "length cs \<le> MAX_FANOUT"
  shows "inner_node i lvl cs mn n" "short mn \<Longrightarrow> short mx \<Longrightarrow> small_node n"
proof -
  have w: "nid n = i" "level n = lvl" "buffer n = []" "num_children n = of_nat (length cs)"
      "child_ids n = cs @ replicate (MAX_FANOUT - length cs) 0" "entries_loaded n" "bloom_covers n"
      "pred_option bloom_fits (bloom_of n)" "krange n = \<lparr>min_key = mn, max_key = mx\<rparr>"
    using n n0 len by (simp_all add: written_def set_range_def expand_range_def sort_buffer_def min_def)
  have "unat (of_nat (length cs) :: u32) = length cs" using len by (simp add: MAX_FANOUT_def unat_of_nat)
  then show "inner_node i lvl cs mn n"
    using w len by (auto simp: inner_node_def sound_node_def node_sane_def kids_def bloom_covers_def)
  show "short mn \<Longrightarrow> short mx \<Longrightarrow> small_node n" using w by (simp add: small_node_def)
qed

lemma create_halves_step:
  assumes ok: "store_ok t" and vis: "\<forall>g\<in>set (P @ Q). \<exists>m. node_view t g = Inr m"
    and P: "P \<noteq> []" "length P \<le> MAX_FANOUT" and Q: "Q \<noteq> []" "length Q \<le> MAX_FANOUT"
    and room: "unat (next_id (t_manifest t)) + 2 < 2 ^ 64"
  defines "a \<equiv> next_id (t_manifest t)"
  shows "\<exists>na nb t'. create_halves lvl [] P Q t = (Inr (na, nb), t') \<and> evolves 2 {a, a + 1} t t' \<and>
    inner_node a lvl P (min_of (node_view t) (hd P)) na \<and> inner_node (a + 1) lvl Q (min_of (node_view t) (hd Q)) nb \<and>
    (all_small t \<longrightarrow> small_node na \<and> small_node nb) \<and>
    file_path na = node_path_in (data_dir (opts t)) a \<and> file_path nb = node_path_in (data_dir (opts t)) (a + 1) \<and>
    files (tdisk t') (file_path na) = Some (node_image na) \<and> files (tdisk t') (file_path nb) = Some (node_image nb)"
proof -
  let ?b = "a + 1"
  have ab: "a < ?b" "unat ?b = unat a + 1" using room by (auto simp: a_def word_less_nat_alt unat_word_ariths)
  obtain q where q: "node_view t (hd Q) = Inr q" using vis Q(1) by (metis Un_iff hd_in_set set_append)
  from get_node_step [OF ok q] obtain t1 where t1: "get_node (hd Q) t = (Inr q, t1)" "evolves 0 {} t t1"
    "t_manifest t1 = t_manifest t" by blast
  from alloc_step [OF evolvesD(1) [OF t1(2)]] room t1(3) obtain t2 where t2: "alloc_id t1 = (Inr a, t2)" "evolves 1 {} t1 t2"
    "next_id (t_manifest t2) = ?b" by (auto simp: a_def)
  from alloc_step [OF evolvesD(1) [OF t2(2)]] room t2(3) ab(2) obtain t3 where t3: "alloc_id t2 = (Inr ?b, t3)" "evolves 1 {} t2 t3"
    by (auto simp: a_def)
  have e3: "evolves 2 {} t t3" using evolves_trans [OF evolves_trans [OF t1(2) t2(2)] t3(2)] by (simp add: numeral_2_eq_2)
  from create_step [OF evolvesD(1) [OF e3], of a lvl "[]" P] obtain ln0 t4 where t4: "create_in a lvl [] P t3 = (Inr ln0, t4)"
    "evolves 0 {a} t3 t4" and l0: "nid ln0 = a" "level ln0 = lvl" "buffer ln0 = []"
      "num_children ln0 = of_nat (min (length P) MAX_FANOUT)" "child_ids ln0 = take MAX_FANOUT P @ replicate (MAX_FANOUT - length P) 0"
    by auto
  from create_step [OF evolvesD(1) [OF t4(2)], of ?b lvl "[]" Q] obtain rn0 t5 where t5: "create_in ?b lvl [] Q t4 = (Inr rn0, t5)"
    "evolves 0 {?b} t4 t5" and r0: "nid rn0 = ?b" "level rn0 = lvl" "buffer rn0 = []"
      "num_children rn0 = of_nat (min (length Q) MAX_FANOUT)" "child_ids rn0 = take MAX_FANOUT Q @ replicate (MAX_FANOUT - length Q) 0"
    by auto
  have e5: "evolves 2 {a, ?b} t t5" using evolves_trans [OF evolves_trans [OF e3 t4(2)] t5(2)] by (simp add: insert_commute)
  have old: "g \<notin> {a, ?b}" "node_view t5 g = node_view t g" if "g \<in> set (P @ Q)" for g
  proof -
    have "g < a" using that vis view_below_next [OF ok] unfolding a_def by blast
    then show "g \<notin> {a, ?b}" using ab(1) by auto
    then show "node_view t5 g = node_view t g" by (rule evolvesD(2) [OF e5])
  qed
  have vP: "\<forall>g\<in>set P. \<exists>m. node_view t5 g = Inr m" using vis old(2) by auto
  from span_step [OF evolvesD(1) [OF e5] vP P(1)] obtain lmx t6 where t6:
    "span_of P t5 = (Inr (min_of (node_view t5) (P ! 0), lmx), t6)" "evolves 0 {} t5 t6"
    "(\<forall>g\<in>set P. small_node (the_node (node_view t5) g)) \<longrightarrow> short (min_of (node_view t5) (P ! 0)) \<and> short lmx" by blast
  have v6: "node_view t6 = node_view t5" using evolvesD(2) [OF t6(2)] by auto
  have vQ: "\<forall>g\<in>set Q. \<exists>m. node_view t6 g = Inr m" using vis old(2) v6 by auto
  from span_step [OF evolvesD(1) [OF t6(2)] vQ Q(1)] obtain rmx t7 where t7:
    "span_of Q t6 = (Inr (min_of (node_view t6) (Q ! 0), rmx), t7)" "evolves 0 {} t6 t7"
    "(\<forall>g\<in>set Q. small_node (the_node (node_view t6) g)) \<longrightarrow> short (min_of (node_view t6) (Q ! 0)) \<and> short rmx" by blast
  have same: "min_of (node_view t5) g = min_of (node_view t) g" "the_node (node_view t5) g = the_node (node_view t) g"
    if "g \<in> set (P @ Q)" for g using old(2) [OF that] by (simp_all add: min_of_def the_node_def)
  have mins: "min_of (node_view t5) (P ! 0) = min_of (node_view t) (hd P)" "min_of (node_view t6) (Q ! 0) = min_of (node_view t) (hd Q)"
    using same(1) [of "hd P"] same(1) [of "hd Q"] P(1) Q(1) by (simp_all add: hd_conv_nth v6)
  let ?ln1 = "set_range (min_of (node_view t) (hd P)) lmx ln0" and ?rn1 = "set_range (min_of (node_view t) (hd Q)) rmx rn0"
  have id1: "nid ?ln1 = a" "nid ?rn1 = ?b" using l0(1) r0(1) by (simp_all add: set_range_def)
  from flush_local_step [OF evolvesD(1) [OF t7(2)], of ?ln1] id1(1) obtain na t8 where t8: "flush_local ?ln1 t7 = (Inr na, t8)"
    "evolves 0 {a} t7 t8" "written ?ln1 na" "file_path na = node_path_in (data_dir (opts t7)) a"
    "files (tdisk t8) (file_path na) = Some (node_image na)" by auto
  from flush_local_step [OF evolvesD(1) [OF t8(2)], of ?rn1] id1(2) obtain nb t9 where t9: "flush_local ?rn1 t8 = (Inr nb, t9)"
    "evolves 0 {?b} t8 t9" "written ?rn1 nb" "file_path nb = node_path_in (data_dir (opts t8)) ?b"
    "files (tdisk t9) (file_path nb) = Some (node_image nb)"
    "\<forall>j. j \<noteq> ?b \<longrightarrow> files (tdisk t9) (node_path_in (data_dir (opts t8)) j) = files (tdisk t8) (node_path_in (data_dir (opts t8)) j)"
    by auto
  have op: "opts t7 = opts t" "opts t8 = opts t"
    using evolvesD(7) [OF t8(2)] evolvesD(7) [OF t7(2)] evolvesD(7) [OF t6(2)] evolvesD(7) [OF e5] by simp_all
  have "evolves 2 {a, ?b} t t9"
    using evolves_trans [OF evolves_trans [OF evolves_trans [OF evolves_trans [OF e5 t6(2)] t7(2)] t8(2)] t9(2)]
    by (simp add: insert_commute)
  moreover have "create_halves lvl [] P Q t = (Inr (na, nb), t9)"
    using t1(1) t2(1) t3(1) t4(1) t5(1) t6(1) t7(1) t8(1) t9(1) mins by (simp add: create_halves_def Let_def bind_Inr exec_simps)
  moreover have "small_node na \<and> small_node nb" if s: "all_small t"
  proof -
    have "small_node (the_node (node_view t) g)" if "g \<in> set (P @ Q)" for g using s vis that by (force simp: all_small_def)
    then have "short (min_of (node_view t) (hd P)) \<and> short lmx" "short (min_of (node_view t) (hd Q)) \<and> short rmx"
      using t6(3) [unfolded mins] t7(3) [unfolded mins] same(2) by (auto simp: v6)
    then show ?thesis using written_inner(2) [OF l0 t8(3) P(2)] written_inner(2) [OF r0 t9(3) Q(2)] by simp
  qed
  moreover have "files (tdisk t9) (file_path na) = Some (node_image na)"
    using t8(4,5) t9(6) ab(1) op by auto
  ultimately show ?thesis
    using written_inner(1) [OF l0 t8(3) P(2)] written_inner(1) [OF r0 t9(3) Q(2)] t8(4) t9(4,5) op by auto
qed

subsection \<open>A new child in a full root\<close>

lemma path_to_root: "path_to (Suc fuel) (root_id (t_manifest t)) t = (Inr [root_id (t_manifest t)], t)"
  by (simp add: path_to_def bind_def ret_def)

lemma insert_child_grow_step:
  fixes t :: tree and l r :: node_id
  assumes ok: "store_ok t" and pid: "pid = root_id (t_manifest t)"
    and n: "node_view t pid = Inr n" "sound_node pid n" "buffer n = []"
    and ks: "kids n = xs @ old # ys" "old \<notin> set xs" "length (kids n) = MAX_FANOUT"
    and new: "\<forall>g\<in>set (xs @ [l, r] @ ys). \<exists>m. node_view t g = Inr m"
    and room: "unat (next_id (t_manifest t)) + 3 < 2 ^ 64"
  defines "a \<equiv> next_id (t_manifest t)" and "P \<equiv> take (length (xs @ [l, r] @ ys) div 2) (xs @ [l, r] @ ys)"
    and "Q \<equiv> drop (length (xs @ [l, r] @ ys) div 2) (xs @ [l, r] @ ys)"
  shows "\<exists>na nb m t'. insert_child (Suc (Suc fuel)) pid old l r t = (Inr (), t') \<and>
    evolves 3 {pid, a, a + 1, a + 2} (rooted (a + 2) t) t' \<and> node_view t' pid = Inl (Unknown_node pid) \<and>
    node_view t' a = Inr na \<and> inner_node a (level n) P (min_of (node_view t) (hd P)) na \<and>
    node_view t' (a + 1) = Inr nb \<and> inner_node (a + 1) (level n) Q (min_of (node_view t) (hd Q)) nb \<and>
    node_view t' (a + 2) = Inr m \<and> inner_node (a + 2) (level n + 1) [a, a + 1] (min_of (node_view t) (hd P)) m \<and>
    on_file t' a na \<and> on_file t' (a + 1) nb \<and> on_file t' (a + 2) m \<and>
    (all_small t \<longrightarrow> small_node na \<and> small_node nb \<and> small_node m) \<and> saved t'"
proof -
  let ?b = "a + 1" and ?r = "a + 2" and ?K = "xs @ [l, r] @ ys"
  have ab: "a < ?b" "?b < ?r" "unat ?r = unat a + 2" "pid < a"
    using room view_below_next [OF ok n(1)] by (auto simp: a_def word_less_nat_alt unat_word_ariths)
  then have ne: "pid \<noteq> a" "pid \<noteq> ?b" "pid \<noteq> ?r" "a \<noteq> ?b" "a \<noteq> ?r" "?b \<noteq> ?r" by auto
  have len: "length ?K = MAX_FANOUT + 1" using ks(1,3) by simp
  then have PQ: "P \<noteq> []" "length P \<le> MAX_FANOUT" "Q \<noteq> []" "length Q \<le> MAX_FANOUT"
    by (auto simp: P_def Q_def MAX_FANOUT_def)
  from get_node_step [OF ok n(1)] obtain t1 where t1: "get_node pid t = (Inr n, t1)" "evolves 0 {} t t1"
    "t_manifest t1 = t_manifest t" by blast
  have v1: "node_view t1 = node_view t" using evolvesD(2) [OF t1(2)] by auto
  have vis: "\<forall>g\<in>set (P @ Q). \<exists>m. node_view t1 g = Inr m" using new v1 by (simp only: P_def Q_def append_take_drop_id simp_thms)
  have "unat (next_id (t_manifest t1)) + 2 < 2 ^ 64" using room t1(3) by simp
  from create_halves_step [OF evolvesD(1) [OF t1(2)] vis PQ this, of "level n"] obtain na nb t2 where
    t2: "create_halves (level n) [] P Q t1 = (Inr (na, nb), t2)" "evolves 2 {a, ?b} t1 t2"
    and na: "inner_node a (level n) P (min_of (node_view t) (hd P)) na"
    and nb: "inner_node ?b (level n) Q (min_of (node_view t) (hd Q)) nb"
    and sm: "all_small t1 \<longrightarrow> small_node na \<and> small_node nb"
    and fl: "file_path na = node_path_in (data_dir (opts t1)) a" "file_path nb = node_path_in (data_dir (opts t1)) ?b"
      "files (tdisk t2) (file_path na) = Some (node_image na)" "files (tdisk t2) (file_path nb) = Some (node_image nb)"
    unfolding t1(3) v1 a_def by blast
  have id: "nid na = a" "nid nb = ?b" "nid n = pid" using inner_nodeD(1) [OF na] inner_nodeD(1) [OF nb] n(2) by (simp_all add: sound_node_def)
  have e2: "evolves 2 {a, ?b} t t2" using evolves_trans [OF t1(2) t2(2)] by (simp add: numeral_2_eq_2)
  have path: "path_to (Suc fuel) pid t2 = (Inr [pid], t2)" using path_to_root [of fuel t2] evolvesD(8) [OF e2] pid by simp
  from invalidate_step [OF evolvesD(1) [OF e2], of pid] obtain t3 where t3: "on_manifest (invalidate_node pid) t2 = (Inr (), t3)"
    "evolves 0 {pid} t2 t3" "live (t_manifest t3) pid = None" "tdisk t3 = tdisk t2" by blast
  have e3: "evolves 2 {pid, a, ?b} t t3" using evolves_trans [OF e2 t3(2)] by (simp add: insert_commute)
  have lt: "a < next_id (t_manifest t3)" "?b < next_id (t_manifest t3)"
    using evolvesD(9) [OF e3] ab room by (auto simp: a_def word_less_nat_alt unat_word_ariths)
  have p: "file_path na = node_path_in (data_dir (opts t3)) a" "file_path nb = node_path_in (data_dir (opts t3)) ?b"
    using fl(1,2) evolvesD(7) [OF t1(2)] evolvesD(7) [OF e3] by simp_all
  from register_pair_step [OF evolvesD(1) [OF e3] lt ne(4) p, of "level n"] obtain t4 t5 where t5:
    "on_manifest (register_node a (level n) (file_path na)) t3 = (Inr (), t4)"
    "on_manifest (register_node ?b (level n) (file_path nb)) t4 = (Inr (), t5)" "evolves 0 {a, ?b} t3 t5"
    "tdisk t5 = tdisk t3" "live (t_manifest t5) a \<noteq> None" "live (t_manifest t5) ?b \<noteq> None" by blast
  have lt5: "a < next_id (t_manifest t5)" "?b < next_id (t_manifest t5)"
    using lt evolvesD(9) [OF t5(3)] by (simp_all add: word_less_nat_alt)
  from exchange_step [OF evolvesD(1) [OF t5(3)] lt5 ne(1,2,4), of na nb] obtain t6 t7 t8 where t8:
    "put_node a na t5 = (Inr (), t6)" "put_node ?b nb t6 = (Inr (), t7)" "erase_node pid t7 = (Inr (), t8)"
    "evolves 0 {a, ?b, pid} t5 t8" "map_of (cache t8) a = Some na" "map_of (cache t8) ?b = Some nb"
    "map_of (cache t8) pid = None" "t_manifest t8 = t_manifest t5" "tdisk t8 = tdisk t5" by auto
  have e8: "evolves 2 {pid, a, ?b} t t8"
    using evolves_trans [OF evolves_trans [OF e3 t5(3)] t8(4)] by (simp add: insert_commute)
  have f8: "on_file t8 a na" "on_file t8 ?b nb"
    using t5(4-6) t8(8,9) t3(4) fl(3,4) p evolvesD(7) [OF e8] evolvesD(7) [OF e3] by (simp_all add: on_file_def)
  have gone: "node_view t8 pid = Inl (Unknown_node pid)"
    using t3(3) t8(7,8) evolvesD(3) [OF t5(3), of pid] ne(1,2) by (intro unseen) simp_all
  have nx: "next_id (t_manifest t8) = ?r" using evolvesD(9) [OF e8] ab(3) by (simp add: word_unat_eq_iff a_def)
  then have "unat (next_id (t_manifest t8)) + 1 < 2 ^ 64" using ab(3) room by (simp add: a_def)
  from new_root_step [OF evolvesD(1) [OF e8] this, of "level n + 1" a ?b na nb] obtain m t9 where t9:
    "new_root_over (level n + 1) a ?b na nb t8 = (Inr (), t9)" "evolves 1 {?r} (rooted ?r t8) t9" "map_of (cache t9) ?r = Some m"
    and m: "sound_node ?r m" "level m = level n + 1" "buffer m = []" "kids m = [a, ?b]"
      "krange m = \<lparr>min_key = min_key (krange na), max_key = max_key (krange nb)\<rparr>" "on_file t9 ?r m" unfolding nx by blast
  from save_step [OF evolvesD(1) [OF t9(2)]] obtain t10 where t10: "save_manifest t9 = (Inr (), t10)" "evolves 0 {} t9 t10"
    "saved t10" by blast
  from gc_step [OF evolvesD(1) [OF t10(2)]] t10(3) obtain t11 where t11: "gc_manifest t10 = (Inr (), t11)" "evolves 0 {} t10 t11"
    "saved t11" by blast
  have e11: "evolves 1 {?r} (rooted ?r t8) t11" using evolves_trans [OF evolves_trans [OF t9(2) t10(2)] t11(2)] by simp
  have E: "evolves 3 {pid, a, ?b, ?r} (rooted ?r t) t11"
    using evolves_trans [OF evolves_rooted [OF e8, of ?r] e11] by (simp add: insert_commute)
  define K where "K = ?K"
  have K: "take (length xs) (kids n) @ l # r # drop (Suc (length xs)) (kids n) = K"
    "take (length K div 2) K = P" "drop (length K div 2) K = Q"
    using ks(1) by (simp_all add: K_def P_def Q_def)
  have "children_of n = Inr (kids n)" "index_of old (kids n) = Some (length xs)"
    using n(2) index_of_append [OF ks(2), of ys] ks(1) by (simp_all add: children_of_kids sound_node_def)
  then have "insert_child (Suc (Suc fuel)) pid old l r t = (Inr (), t11)"
    by (subst insert_child.simps(2))
      (simp add: t1(1) t2(1) path t3(1) t5(1,2) t8(1-3) t9(1) t10(1) t11(1) n(3) ks(3) id K bind_Inr exec_simps Let_def
        del: insert_child.simps)
  moreover have "node_view t11 pid = Inl (Unknown_node pid)" "node_view t11 a = Inr na" "node_view t11 ?b = Inr nb"
    using evolvesD(2) [OF e11] ne gone cached_view [OF t8(5)] cached_view [OF t8(6)] by simp_all
  moreover have "node_view t11 ?r = Inr m"
    using cached_view [OF t9(3)] evolvesD(2) [OF t10(2), of ?r] evolvesD(2) [OF t11(2), of ?r] by simp
  moreover have "inner_node ?r (level n + 1) [a, ?b] (min_of (node_view t) (hd P)) m"
    using m inner_nodeD(5) [OF na] by (simp add: inner_node_def)
  moreover have "on_file t11 a na" "on_file t11 ?b nb" "on_file t11 ?r m"
    using on_file_evolves [OF e11, of a na] on_file_evolves [OF e11, of ?b nb] f8 ne
      on_file_evolves [OF t11(2) _ on_file_evolves [OF t10(2) _ m(6)]] by simp_all
  moreover have "small_node na \<and> small_node nb \<and> small_node m" if "all_small t"
    using that sm v1 m(3,5) by (simp add: all_small_def small_node_def)
  ultimately show ?thesis using E na nb t11(3) by blast
qed

subsection \<open>Splitting a leaf below a full root\<close>

lemma halves_not_empty: "2 \<le> length zs \<Longrightarrow> take (length zs div 2) zs \<noteq> [] \<and> drop (length zs div 2) zs \<noteq> []"
  by auto

lemma split_grow_step:
  fixes t :: tree
  assumes ok: "store_ok t" and pid: "pid = root_id (t_manifest t)"
    and g: "gtree (Suc 0) (node_view t) pid" "node_view t pid = Inr n" "buffer n = []"
    and ks: "kids n = xs @ c # ys" "length (kids n) = MAX_FANOUT"
    and c: "node_view t c = Inr nc" "clean_cut (buffer nc)" "length (buffer nc) < 2 ^ 30"
    and room: "unat (next_id (t_manifest t)) + 5 < 2 ^ 64"
  defines "a \<equiv> next_id (t_manifest t)"
  shows "\<exists>t' m na nb. split_leaf (Suc (Suc fuel)) c [pid, c] t = (Inr (), t') \<and>
    evolves 5 {pid, c, a, a + 1, a + 2, a + 3, a + 4} (rooted (a + 4) t) t' \<and>
    gtree (Suc (Suc 0)) (node_view t') (a + 4) \<and>
    (\<forall>k. lookup (Suc (Suc 0)) (node_view t') (a + 4) k = lookup (Suc 0) (node_view t) pid k) \<and>
    node_view t' pid = Inl (Unknown_node pid) \<and> node_view t' (a + 4) = Inr m \<and> buffer m = [] \<and> kids m = [a + 2, a + 3] \<and>
    node_view t' (a + 2) = Inr na \<and> node_view t' (a + 3) = Inr nb \<and> buffer na = [] \<and> buffer nb = [] \<and>
    kids na @ kids nb = xs @ [a, a + 1] @ ys \<and> settles {} t t' \<and> saved t' \<and> a + 4 \<noteq> 0"
proof -
  let ?b = "a + 1" and ?es = "buffer nc"
  let ?A = "take (length ?es div 2) ?es" and ?B = "drop (length ?es div 2) ?es"
  let ?K = "xs @ [a, ?b] @ ys"
  let ?P = "take (length ?K div 2) ?K" and ?Q = "drop (length ?K div 2) ?K"
  note G = gtree_SucE [OF g(1,2)]
  have gc: "gtree 0 (node_view t) c" using G(5) ks(1) by simp
  then have sc: "sound_node c nc" using c(1) by auto
  then have es: "entries_sorted ?es" by (simp add: sound_node_def node_sane_def)
  note cut = clean_cut_halves [OF c(2) es]
  have "2 \<le> length ?es" "unat (next_id (t_manifest t)) + 2 < 2 ^ 64" using c(2) room by (simp_all add: clean_cut_def)
  from split_leaf_front [OF ok c(1) sc this(1) c(3) this(2), of "Suc (Suc fuel)" "[pid, c]"]
  obtain na nb t1 where run: "split_leaf (Suc (Suc fuel)) c [pid, c] t =
      bind (insert_child (Suc (Suc fuel)) pid c a ?b) (\<lambda>_. bind save_manifest (\<lambda>_. gc_manifest)) t1"
    and t1: "evolves 2 {a, ?b, c} t t1" "node_view t1 c = Inl (Unknown_node c)" "c < a"
    and na: "node_view t1 a = Inr na" "sound_node a na" "level na = 0" "num_children na = 0"
      "\<And>k. newest k (buffer na) = newest k ?A" "min_key (krange na) = key (hd ?A)"
    and nb: "node_view t1 ?b = Inr nb" "sound_node ?b nb" "level nb = 0" "num_children nb = 0"
      "\<And>k. newest k (buffer nb) = newest k ?B" "min_key (krange nb) = key (hd ?B)"
    and fl: "on_file t1 a na" "on_file t1 ?b nb" "small_node nc \<longrightarrow> small_node na \<and> small_node nb"
    unfolding a_def by auto
  have lt: "a < ?b" "?b < a + 2" "a + 2 < a + 3" "a + 3 < a + 4"
    using room by (simp_all add: a_def word_less_nat_alt unat_word_ariths)
  then have ids: "a < a + 2" "a < a + 3" "a < a + 4" "?b < a + 3" "?b < a + 4" "a + 2 < a + 4" by auto
  have below: "x < a" if "x = pid \<or> x \<in> set (kids n)" for x
    using that view_below_next [OF ok] g(2) gtree_node [OF G(5)] unfolding a_def by blast
  have pc: "pid \<noteq> c" using G(2) g(2) gc c(1) by auto
  have out: "x \<notin> {a, ?b, c}" "x \<notin> {a + 2, a + 3, a + 4}" if "x = pid \<or> x \<in> set xs \<union> set ys" for x
    using that below [of x] lt ids pc G(4) ks(1) by auto
  have v1: "node_view t1 x = node_view t x" if "x = pid \<or> x \<in> set xs \<union> set ys" for x
    using evolvesD(2) [OF t1(1) out(1) [OF that]] .
  have vis: "\<forall>x\<in>set ?K. \<exists>m. node_view t1 x = Inr m"
    using v1 na(1) nb(1) gtree_node [OF G(5)] ks(1) by fastforce
  have nx: "next_id (t_manifest t1) = a + 2" using evolvesD(9) [OF t1(1)] lt room
    by (simp add: a_def word_unat_eq_iff unat_word_ariths)
  have room1: "unat (next_id (t_manifest t1)) + 3 < 2 ^ 64" using evolvesD(9) [OF t1(1)] room by simp
  have pid1: "pid = root_id (t_manifest t1)" "node_view t1 pid = Inr n" "c \<notin> set xs"
    using pid evolvesD(8) [OF t1(1)] v1 [of pid] g(2) G(4) ks(1) by auto
  have plus: "a + 2 + 1 = a + 3" "a + 2 + 2 = a + 4" by simp_all
  from insert_child_grow_step [OF evolvesD(1) [OF t1(1)] pid1(1,2) G(1) g(3) ks(1) pid1(3) ks(2) vis room1, of fuel, unfolded nx plus]
  obtain ma mb m t2 where t2: "insert_child (Suc (Suc fuel)) pid c a ?b t1 = (Inr (), t2)"
    "evolves 3 {pid, a + 2, a + 3, a + 4} (rooted (a + 4) t1) t2" "node_view t2 pid = Inl (Unknown_node pid)"
    and ma: "node_view t2 (a + 2) = Inr ma" "inner_node (a + 2) (level n) ?P (min_of (node_view t1) (hd ?P)) ma"
    and mb: "node_view t2 (a + 3) = Inr mb" "inner_node (a + 3) (level n) ?Q (min_of (node_view t1) (hd ?Q)) mb"
    and m: "node_view t2 (a + 4) = Inr m" "inner_node (a + 4) (level n + 1) [a + 2, a + 3] (min_of (node_view t1) (hd ?P)) m"
    and f2: "on_file t2 (a + 2) ma" "on_file t2 (a + 3) mb" "on_file t2 (a + 4) m"
      "all_small t1 \<longrightarrow> small_node ma \<and> small_node mb \<and> small_node m"
    by blast
  from save_step [OF evolvesD(1) [OF t2(2)]] obtain t3 where t3: "save_manifest t2 = (Inr (), t3)" "evolves 0 {} t2 t3"
    "saved t3" by blast
  from gc_step [OF evolvesD(1) [OF t3(2)]] t3(3) obtain t4 where t4: "gc_manifest t3 = (Inr (), t4)" "evolves 0 {} t3 t4"
    "saved t4" by blast
  have e24: "evolves 0 {} t2 t4" using evolves_trans [OF t3(2) t4(2)] by simp
  have v24: "node_view t4 = node_view t2" using evolvesD(2) [OF e24] by auto
  have e14: "evolves 3 {pid, a + 2, a + 3, a + 4} (rooted (a + 4) t1) t4" using evolves_trans [OF t2(2) e24] by simp
  have E: "evolves 5 {pid, c, a, ?b, a + 2, a + 3, a + 4} (rooted (a + 4) t) t4"
    using evolves_trans [OF evolves_rooted [OF t1(1)] e14] by (simp add: insert_commute)
  have keep2: "node_view t4 x = node_view t1 x" if "x \<notin> {pid, a + 2, a + 3, a + 4}" for x
    using evolvesD(2) [OF e14 that] by simp
  have inK: "x \<notin> {pid, a + 2, a + 3, a + 4}" if "x \<in> set ?K" for x
  proof -
    have "x \<noteq> pid" if "x \<in> set xs \<union> set ys" using that G(5) [of x] ks(1) g(2) G(2) gtree_node by force
    then show ?thesis using that lt ids below [of pid] out(2) [of x] by auto
  qed
  have vK: "node_view t4 x = node_view t1 x" if "x \<in> set ?K" for x using keep2 [OF inK [OF that]] .
  have keep: "node_view t4 x = node_view t x" if "x \<in> set xs \<union> set ys" for x
    using vK [of x] v1 [of x] that by auto
  have la: "node_view t4 a = Inr na" "node_view t4 ?b = Inr nb" using vK na(1) nb(1) by simp_all
  have app: "buffer nc = ?A @ ?B" by simp
  note S = split_child_pairs [OF g(1,2) ks(1) c(1) app cut la(1) na(5,6) la(2) nb(5,6) keep]
  have dist: "distinct ?K" using G(4) ks(1) out lt by auto
  have leaves: "gtree 0 (node_view t4) x \<and> low_bound 0 (node_view t4) x" if "x \<in> set ?K" for x
    using that la na(2-4) nb(2-4) keep [of x] G(5) [of x] ks(1) by (auto simp: low_bound_def)
  have lvl: "unat (level n) = Suc 0" "unat (level n + 1) = Suc (Suc 0)"
    using G(2) by (simp_all add: unat_word_ariths)
  have PQ: "?P \<noteq> []" "?Q \<noteq> []" "?P @ ?Q = ?K" using halves_not_empty [of ?K] by (simp_all only: append_take_drop_id) simp_all
  have mins: "min_of (node_view t1) (hd ?P) = min_of (node_view t4) (hd ?P)" "min_of (node_view t1) (hd ?Q) = min_of (node_view t4) (hd ?Q)"
    using vK [OF in_set_takeD [OF hd_in_set [OF PQ(1)]]] vK [OF in_set_dropD [OF hd_in_set [OF PQ(2)]]]
    by (simp_all only: min_of_def the_node_def)
  note T = grow_gtree [OF ma(1) [folded v24] ma(2) [unfolded mins] mb(1) [folded v24] mb(2) [unfolded mins] m(1) [folded v24] m(2)
      lvl PQ(1,2), unfolded PQ(3), OF dist leaves S(1)]
  have T1: "gtree (Suc (Suc 0)) (node_view t4) (a + 4)" using T(1) lt(3) by simp
  have T2: "lookup (Suc (Suc 0)) (node_view t4) (a + 4) k = lookup (Suc 0) (node_view t) pid k" for k
  proof -
    have "chained (child_pairs 0 (node_view t) (kids n))" using G(7) by (simp add: separated_pairs)
    from routed_found [OF this, of k] have "lookup (Suc 0) (node_view t) pid k = Some e \<longleftrightarrow> (\<exists>x\<in>set (kids n). lookup 0 (node_view t) x k = Some e)" for e
      using g(2,3) G(3) by simp
    then have "lookup (Suc (Suc 0)) (node_view t4) (a + 4) k = Some e \<longleftrightarrow> lookup (Suc 0) (node_view t) pid k = Some e" for e
      using T(2) [of k e] S(2) [of k e] lt(3) by simp
    then show ?thesis by (metis not_Some_eq)
  qed
  have gone: "node_view t4 pid = Inl (Unknown_node pid)" "node_view t4 c = Inl (Unknown_node c)"
    using t2(3) v24 keep2 [of c] t1(2) pc less_trans [OF t1(3) ids(1)] less_trans [OF t1(3) ids(2)] less_trans [OF t1(3) ids(3)]
    by auto
  have "settles {} t t4"
  proof (rule settlesI)
    fix j x assume jx: "node_view t4 j = Inr x"
    have small: "small_node na \<and> small_node nb \<and> small_node ma \<and> small_node mb \<and> small_node m" if s: "all_small t"
    proof -
      have nab: "small_node na" "small_node nb" using s c(1) fl(3) by (auto simp: all_small_def)
      have "all_small t1" unfolding all_small_def
      proof (intro allI impI)
        fix x y assume "node_view t1 x = Inr y"
        then show "small_node y"
          using s nab na(1) nb(1) t1(2) evolvesD(2) [OF t1(1), of x] by (cases "x \<in> {a, ?b, c}") (auto simp: all_small_def)
      qed
      with nab f2(4) show ?thesis by blast
    qed
    have f4: "on_file t4 a na" "on_file t4 ?b nb" "on_file t4 (a + 2) ma" "on_file t4 (a + 3) mb" "on_file t4 (a + 4) m"
      using on_file_evolves [OF e14, of a na] on_file_evolves [OF e14, of ?b nb] fl(1,2) inK [of a] inK [of ?b]
        on_file_evolves [OF e24] f2(1-3) by simp_all
    consider "j \<in> {a, ?b}" | "j \<in> {a + 2, a + 3, a + 4}" | "j \<in> {pid, c}" | "j \<notin> {pid, c, a, ?b, a + 2, a + 3, a + 4}" by blast
    then show "j \<notin> {} \<and> node_view t j = Inr x \<and> (on_file t j x \<longrightarrow> on_file t4 j x) \<or>
        sound_node j x \<and> on_file t4 j x \<and> (all_small t \<longrightarrow> small_node x)"
    proof cases
      case 1
      then show ?thesis using jx la na(2) nb(2) f4(1,2) small by (elim insertE emptyE) simp_all
    next
      case 2
      then show ?thesis
        using jx ma(1) mb(1) m(1) v24 f4(3-5) small inner_nodeD(1) [OF ma(2)] inner_nodeD(1) [OF mb(2)] inner_nodeD(1) [OF m(2)]
        by (elim insertE emptyE) simp_all
    next
      case 4
      then show ?thesis using jx evolvesD(2) [OF E 4] on_file_evolves [OF E 4] by simp
    qed (use jx gone in auto)
  qed
  moreover have "split_leaf (Suc (Suc fuel)) c [pid, c] t = (Inr (), t4)" using run t2(1) t3(1) t4(1) by (simp add: bind_Inr)
  moreover have "a + 4 \<noteq> 0" using lt(4) by auto
  moreover have "kids ma @ kids mb = ?K" using inner_nodeD(4) [OF ma(2)] inner_nodeD(4) [OF mb(2)] PQ(3) by simp
  ultimately show ?thesis
    using E T1 T2 gone(1) t4(3) ma mb m inner_nodeD [OF m(2)] inner_nodeD(3) [OF ma(2)] inner_nodeD(3) [OF mb(2)] v24
    by (intro exI [of _ t4] exI [of _ m] exI [of _ ma] exI [of _ mb]) (simp del: gtree.simps lookup.simps split_leaf_def)
qed

text \<open>The loop over the children, once the buffer of the parent is empty.\<close>

text \<open>Steps that stay below a root, and steps that may change it.\<close>

definition reroots :: "nat \<Rightarrow> tree \<Rightarrow> tree \<Rightarrow> bool" where
  "reroots l t t' \<longleftrightarrow> store_ok t' \<and>
     (\<exists>l' m. gtree l' (node_view t') (root_id (t_manifest t')) \<and>
        (\<forall>k. lookup l' (node_view t') (root_id (t_manifest t')) k = lookup l (node_view t) (root_id (t_manifest t)) k) \<and>
        node_view t' (root_id (t_manifest t')) = Inr m \<and> buffer m = []) \<and>
     (saved t \<longrightarrow> saved t') \<and> write_buf t' = write_buf t \<and> seq t' = seq t \<and> opts t' = opts t \<and>
     (root_id (t_manifest t) \<noteq> 0 \<longrightarrow> root_id (t_manifest t') \<noteq> 0)"

lemma rerootsI:
  assumes "store_ok t'" "gtree l' (node_view t') r" "\<And>k. lookup l' (node_view t') r k = lookup l (node_view t) (root_id (t_manifest t)) k"
    "node_view t' r = Inr m" "buffer m = []" "saved t \<Longrightarrow> saved t'" "write_buf t' = write_buf t" "seq t' = seq t" "opts t' = opts t"
    "root_id (t_manifest t') = r" "root_id (t_manifest t) \<noteq> 0 \<Longrightarrow> r \<noteq> 0"
  shows "reroots l t t'"
  using assms unfolding reroots_def by blast

lemma reroots_trans:
  assumes "store_ok t1" "\<And>k. lookup l (node_view t1) (root_id (t_manifest t1)) k = lookup l (node_view t) (root_id (t_manifest t)) k"
    "saved t \<Longrightarrow> saved t1" "write_buf t1 = write_buf t" "seq t1 = seq t" "opts t1 = opts t"
    "root_id (t_manifest t1) = root_id (t_manifest t)" "reroots l t1 t2"
  shows "reroots l t t2"
  using assms unfolding reroots_def by auto

lemma overflow_loop:
  assumes "store_ok t" "pid = root_id (t_manifest t)" "gtree (Suc 0) (node_view t) pid" "node_view t pid = Inr n" "buffer n = []"
    "set is \<subseteq> set (kids n)" "distinct is"
    "\<forall>x\<in>set is. \<exists>c. map_of (cache t) x = Some c \<and> (buffer_full c \<longrightarrow> clean_cut (buffer c) \<and> length (buffer c) < 2 ^ 30)"
    "length (kids n) + length (filter (\<lambda>x. buffer_full (the_node (node_view t) x)) is) \<le> MAX_FANOUT + 1"
    "unat (next_id (t_manifest t)) + 2 * length is + 3 < 2 ^ 64"
  shows "\<exists>t'. check_overflow (\<lambda>cid. split_leaf (Suc (Suc fuel)) cid [pid, cid]) down is t = (Inr (), t') \<and>
    reroots (Suc 0) t t' \<and> settles {} t t'"
  using assms
proof (induction "is" arbitrary: t n)
  case Nil
  have "reroots (Suc 0) t t" using Nil by (intro rerootsI [of t "Suc 0" pid]) simp_all
  then show ?case using settles_refl by (auto simp: exec_simps)
next
  case (Cons x xs)
  let ?v = "node_view t"
  obtain c where c: "map_of (cache t) x = Some c" "buffer_full c \<Longrightarrow> clean_cut (buffer c) \<and> length (buffer c) < 2 ^ 30"
    using Cons.prems(8) by auto
  have vc: "?v x = Inr c" by (rule cached_view [OF c(1)])
  have gx: "gtree 0 ?v x" using gtree_SucE(5) [OF Cons.prems(3,4)] Cons.prems(6) by simp
  then have leaf: "is_leaf c" "num_children c = 0" using vc by (auto simp: is_leaf_def)
  have sn: "sound_node pid n" by (rule gtree_SucE(1) [OF Cons.prems(3,4)])
  then have fan: "length (kids n) \<le> MAX_FANOUT" by (simp add: sound_node_def kids_def)
  have room0: "unat (next_id (t_manifest t)) + 5 < 2 ^ 64" using Cons.prems(10) by simp
  show ?case
  proof (cases "buffer_full c")
    case False
    have "\<exists>t'. check_overflow (\<lambda>cid. split_leaf (Suc (Suc fuel)) cid [pid, cid]) down xs t = (Inr (), t') \<and>
        reroots (Suc 0) t t' \<and> settles {} t t'"
      using Cons.prems(6-10) vc False by (intro Cons.IH [OF Cons.prems(1-5)]) auto
    then show ?thesis using False c(1) by (simp add: bind_def)
  next
    case True
    let ?a = "next_id (t_manifest t)"
    obtain ls rs where ks: "kids n = ls @ x # rs" using Cons.prems(6) by (metis list.set_intros(1) split_list subsetD)
    have cc: "clean_cut (buffer c)" "length (buffer c) < 2 ^ 30" using c(2) [OF True] by simp_all
    have below: "y < ?a \<and> y \<noteq> pid \<and> y \<noteq> x" if y: "y \<in> set xs" for y
    proof -
      have yk: "y \<in> set (kids n)" "y \<noteq> x" using y Cons.prems(6,7) by auto
      then have gy: "gtree 0 ?v y" using gtree_SucE(5) [OF Cons.prems(3,4)] by blast
      then have "y \<noteq> pid" using gtree_SucE(2) [OF Cons.prems(3,4)] Cons.prems(4) by auto
      then show ?thesis using yk(2) gtree_node [OF gy] view_below_next [OF Cons.prems(1)] by blast
    qed
    show ?thesis
    proof (cases "length (kids n) < MAX_FANOUT")
      case small: True
      have "unat ?a + 2 < 2 ^ 64" using room0 by simp
      from split_child_step [OF Cons.prems(1,3-5) ks small vc cc this, of "Suc fuel"] obtain t1 n1 where
        t1: "split_leaf (Suc (Suc fuel)) x [pid, x] t = (Inr (), t1)" "evolves 2 {pid, x, ?a, ?a + 1} t t1"
        "gtree (Suc 0) (node_view t1) pid" "\<forall>k. lookup (Suc 0) (node_view t1) pid k = lookup (Suc 0) ?v pid k"
        "node_view t1 pid = Inr n1" "kids n1 = ls @ [?a, ?a + 1] @ rs" "buffer n1 = []" "settles {} t t1" "saved t1" by blast
      note E = evolvesD [OF t1(2)]
      have "?a < ?a + 1" using room0 by (simp add: word_less_nat_alt unat_word_ariths)
      then have out: "y \<notin> {pid, x, ?a, ?a + 1}" if "y \<in> set xs" for y using below [OF that] by auto
      have sub: "set xs \<subseteq> set (kids n1)" using Cons.prems(6,7) ks t1(6) by auto
      have full: "\<forall>y\<in>set xs. \<exists>c. map_of (cache t1) y = Some c \<and> (buffer_full c \<longrightarrow> clean_cut (buffer c) \<and> length (buffer c) < 2 ^ 30)"
        using Cons.prems(8) E(4) [OF out] by (metis list.set_intros(2))
      have "filter (\<lambda>y. buffer_full (the_node (node_view t1) y)) xs = filter (\<lambda>y. buffer_full (the_node ?v y)) xs"
        using E(2) [OF out] by (intro filter_cong refl) (simp add: the_node_def)
      then have cnt: "length (kids n1) + length (filter (\<lambda>y. buffer_full (the_node (node_view t1) y)) xs) \<le> MAX_FANOUT + 1"
        using Cons.prems(9) True vc ks t1(6) by simp
      have room: "unat (next_id (t_manifest t1)) + 2 * length xs + 3 < 2 ^ 64" using Cons.prems(10) E(9) by simp
      have pid1: "pid = root_id (t_manifest t1)" and dist: "distinct xs" using Cons.prems(2,7) E(8) by simp_all
      from Cons.IH [OF E(1) pid1 t1(3,5,7) sub dist full cnt room] obtain t' where
        t': "check_overflow (\<lambda>cid. split_leaf (Suc (Suc fuel)) cid [pid, cid]) down xs t1 = (Inr (), t')"
          "reroots (Suc 0) t1 t'" "settles {} t1 t'" by blast
      have "check_overflow (\<lambda>cid. split_leaf (Suc (Suc fuel)) cid [pid, cid]) down (x # xs) t = (Inr (), t')"
        using True leaf c(1) t1(1) t'(1) by (simp add: bind_def)
      moreover have "reroots (Suc 0) t t'"
        using t1(4,9) E(1,5-8) Cons.prems(2) by (intro reroots_trans [OF _ _ _ _ _ _ _ t'(2)]) simp_all
      ultimately show ?thesis using settles_trans [OF t1(8) t'(3)] by blast
    next
      case False
      then have len: "length (kids n) = MAX_FANOUT" using fan by simp
      from split_grow_step [OF Cons.prems(1-5) ks len vc cc room0, of fuel] obtain t1 m where
        t1: "split_leaf (Suc (Suc fuel)) x [pid, x] t = (Inr (), t1)"
        "evolves 5 {pid, x, ?a, ?a + 1, ?a + 2, ?a + 3, ?a + 4} (rooted (?a + 4) t) t1" "gtree (Suc (Suc 0)) (node_view t1) (?a + 4)"
        "\<forall>k. lookup (Suc (Suc 0)) (node_view t1) (?a + 4) k = lookup (Suc 0) ?v pid k"
        "node_view t1 (?a + 4) = Inr m" "buffer m = []" "settles {} t t1" "saved t1" "?a + 4 \<noteq> 0" by blast
      note E = evolvesD [OF t1(2)]
      have "?a < ?a + 1" "?a < ?a + 2" "?a < ?a + 3" "?a < ?a + 4" using room0 by (simp_all add: word_less_nat_alt unat_word_ariths)
      then have out: "y \<notin> {pid, x, ?a, ?a + 1, ?a + 2, ?a + 3, ?a + 4}" if "y \<in> set xs" for y using below [OF that] by auto
      have "filter (\<lambda>y. buffer_full (the_node ?v y)) xs = []" using Cons.prems(9) True vc len by simp
      then have "\<not> buffer_full (the_node ?v y)" if "y \<in> set xs" for y using that by (simp add: filter_empty_conv)
      moreover have "\<exists>d. map_of (cache t) y = Some d" if "y \<in> set xs" for y using Cons.prems(8) that by auto
      ultimately have "\<forall>y\<in>set xs. \<exists>d. map_of (cache t1) y = Some d \<and> \<not> buffer_full d"
        using E(4) [OF out] cached_view by (metis rooted_sel(1) the_node_Inr)
      from check_overflow_quiet [OF this] have "check_overflow (\<lambda>cid. split_leaf (Suc (Suc fuel)) cid [pid, cid]) down (x # xs) t = (Inr (), t1)"
        using True leaf c(1) t1(1) by (simp add: bind_def)
      moreover have "reroots (Suc 0) t t1"
        using t1(4,8,9) E(5-8) Cons.prems(2) by (intro rerootsI [OF E(1) t1(3) _ t1(5,6)]) simp_all
      ultimately show ?thesis using t1(7) by blast
    qed
  qed
qed

subsection \<open>A flush that fills its children\<close>

text \<open>
  The flushes of a root whose end is known: none of the parts fills a child, or the children are leaves,
  each full one can be cut between two keys, and the root has room for the halves of all of them but one.
  \<open>calm_flush\<close> can be evaluated on a given state.
\<close>

definition overfull :: "view \<Rightarrow> sst_node \<Rightarrow> nat \<Rightarrow> bool" where
  "overfull v n j \<longleftrightarrow> BUFFER_THRESHOLD \<le> sum_list (map entry_bytes (buffer_after v n j))"

definition calm_flush :: "view \<Rightarrow> sst_node \<Rightarrow> bool" where
  "calm_flush v n \<longleftrightarrow> no_overflow v n \<or>
     level n = 1 \<and> modest v n \<and> (\<forall>j < length (kids n). overfull v n j \<longrightarrow> clean_cut (buffer_after v n j)) \<and>
     length (kids n) + length (filter (overfull v n) [0..<length (kids n)]) \<le> MAX_FANOUT + 1"

lemma same_count:
  assumes "map P xs = map Q ys"
  shows "length (filter P xs) = length (filter Q ys)"
proof -
  have "length (filter R zs) = length (filter id (map R zs))" for R :: "'c \<Rightarrow> bool" and zs by (induction zs) simp_all
  then show ?thesis using assms by metis
qed

text \<open>
  The state in front of the loop, when the children are leaves: \<open>cs\<close> are their new ids, each leaf holds what
  \<open>buffer_after\<close> says.
\<close>

definition handed_down :: "tree \<Rightarrow> node_id \<Rightarrow> sst_node \<Rightarrow> tree \<Rightarrow> node_id list \<Rightarrow> sst_node \<Rightarrow> bool" where
  "handed_down t pid n t1 cs n' \<longleftrightarrow> store_ok t1 \<and> gtree (Suc 0) (node_view t1) pid \<and>
     (\<forall>k. lookup (Suc 0) (node_view t1) pid k = lookup (Suc 0) (node_view t) pid k) \<and>
     node_view t1 pid = Inr n' \<and> buffer n' = [] \<and> kids n' = cs \<and> distinct cs \<and> length cs = length (kids n) \<and>
     (\<forall>j < length cs. \<exists>c. map_of (cache t1) (cs ! j) = Some c \<and> buffer c = buffer_after (node_view t) n j) \<and>
     unat (next_id (t_manifest t1)) \<le> unat (next_id (t_manifest t)) + MAX_FANOUT \<and> settles {pid} t t1 \<and> saved t1 \<and>
     write_buf t1 = write_buf t \<and> seq t1 = seq t \<and> opts t1 = opts t \<and> root_id (t_manifest t1) = root_id (t_manifest t)"

lemma handed_downD:
  assumes "handed_down t pid n t1 cs n'"
  shows "store_ok t1" "gtree (Suc 0) (node_view t1) pid"
    "\<And>k. lookup (Suc 0) (node_view t1) pid k = lookup (Suc 0) (node_view t) pid k"
    "node_view t1 pid = Inr n'" "buffer n' = []" "kids n' = cs" "distinct cs" "length cs = length (kids n)"
    "\<And>j. j < length cs \<Longrightarrow> \<exists>c. map_of (cache t1) (cs ! j) = Some c \<and> buffer c = buffer_after (node_view t) n j"
    "unat (next_id (t_manifest t1)) \<le> unat (next_id (t_manifest t)) + MAX_FANOUT" "settles {pid} t t1" "saved t1"
    "write_buf t1 = write_buf t" "seq t1 = seq t" "opts t1 = opts t" "root_id (t_manifest t1) = root_id (t_manifest t)"
  using assms unfolding handed_down_def by (simp_all del: lookup.simps gtree.simps)

lemma flush_to_leaves:
  assumes ok: "store_ok t" and tree: "gtree (Suc 0) (node_view t) pid" "node_view t pid = Inr n"
    and fits: "modest (node_view t) n" and room: "unat (next_id (t_manifest t)) + MAX_FANOUT < 2 ^ 64"
  shows "\<exists>t1 cs n'. do_flush (Suc fuel) pid t =
      check_overflow (\<lambda>cid. split_leaf fuel cid [pid, cid]) (do_flush fuel) cs t1 \<and> handed_down t pid n t1 cs n'"
proof -
  let ?v = "node_view t"
  from do_flush_prefix [OF ok tree fits room, of fuel] obtain t1 cs' cs'' n' where
    run: "do_flush (Suc fuel) pid t = check_overflow (\<lambda>cid. split_leaf fuel cid [pid, cid]) (do_flush fuel) (map nid cs') t1"
    and pd: "pushed_down 0 t pid n t1 cs' cs'' n'" "saved t1" by blast
  from pushed_downD [OF pd(1)] obtain t3 k where al: "after_local 0 t pid n t3 cs'" and k: "k \<le> MAX_FANOUT"
    and E: "evolves k (insert pid (set (olds ?v n) \<union> nid ` set cs')) t t1" by blast
  note P = pushed_down_parts [OF pd(1)] and D = after_localD [OF al]
  have child: "\<exists>c. map_of (cache t1) (map nid cs' ! j) = Some c \<and> buffer c = buffer_after ?v n j" if "j < length (map nid cs')" for j
  proof -
    have j: "j < length (kids n)" using that D(5) by simp
    have "gtree 0 ?v (kids n ! j)" using gtree_SucE(5) [OF tree, of "kids n ! j"] j by simp
    then have "kids (the_node ?v (kids n ! j)) = []" by (auto simp: kids_def)
    with pushed_down_buffer [OF pd(1) j] that show ?thesis by auto
  qed
  have "handed_down t pid n t1 (map nid cs') n'"
    unfolding handed_down_def
    using evolvesD(1,5-9) [OF E] pushed_down_gtree [OF pd(1)] cached_view [OF P(3)] P(5,7) D(5,6) child k
      pushed_down_settles [OF pd(1)] pd(2)
    by (simp del: lookup.simps gtree.simps)
  with run show ?thesis by blast
qed

lemma handed_down_full:
  assumes h: "handed_down t pid n t1 cs n'" and fits: "modest (node_view t) n"
    and cut: "\<And>j. j < length (kids n) \<Longrightarrow> overfull (node_view t) n j \<Longrightarrow> clean_cut (buffer_after (node_view t) n j)"
  shows "\<forall>x\<in>set cs. \<exists>c. map_of (cache t1) x = Some c \<and> (buffer_full c \<longrightarrow> clean_cut (buffer c) \<and> length (buffer c) < 2 ^ 30)"
    "length (filter (\<lambda>x. buffer_full (the_node (node_view t1) x)) cs) = length (filter (overfull (node_view t) n) [0..<length (kids n)])"
proof -
  note H = handed_downD [OF h]
  show "\<forall>x\<in>set cs. \<exists>c. map_of (cache t1) x = Some c \<and> (buffer_full c \<longrightarrow> clean_cut (buffer c) \<and> length (buffer c) < 2 ^ 30)"
  proof
    fix x assume "x \<in> set cs"
    then obtain j where j: "j < length cs" "x = cs ! j" by (metis in_set_conv_nth)
    from H(9) [OF j(1)] obtain c where c: "map_of (cache t1) x = Some c" "buffer c = buffer_after (node_view t) n j" using j(2) by blast
    then show "\<exists>c. map_of (cache t1) x = Some c \<and> (buffer_full c \<longrightarrow> clean_cut (buffer c) \<and> length (buffer c) < 2 ^ 30)"
      using fits cut [of j] j(1) H(8) by (simp add: buffer_full_def buffer_size_bytes_sum overfull_def modest_def)
  qed
  have "buffer_full (the_node (node_view t1) (cs ! j)) \<longleftrightarrow> overfull (node_view t) n j" if j: "j < length cs" for j
  proof -
    from H(9) [OF j] obtain c where c: "map_of (cache t1) (cs ! j) = Some c" "buffer c = buffer_after (node_view t) n j" by blast
    have "the_node (node_view t1) (cs ! j) = c" using cached_view [OF c(1)] by simp
    then show ?thesis using c(2) by (simp add: buffer_full_def buffer_size_bytes_sum overfull_def)
  qed
  then have "map (\<lambda>x. buffer_full (the_node (node_view t1) x)) cs = map (overfull (node_view t) n) [0..<length (kids n)]"
    using H(8) by (intro nth_equalityI) simp_all
  then show "length (filter (\<lambda>x. buffer_full (the_node (node_view t1) x)) cs) = length (filter (overfull (node_view t) n) [0..<length (kids n)])"
    by (rule same_count)
qed

lemma do_flush_calm:
  assumes ok: "store_ok t" and pid: "pid = root_id (t_manifest t)"
    and tree: "gtree (Suc l) (node_view t) pid" "node_view t pid = Inr n"
    and calm: "calm_flush (node_view t) n" and room: "unat (next_id (t_manifest t)) + 4 * MAX_FANOUT < 2 ^ 64"
  shows "\<exists>t'. do_flush (Suc (Suc (Suc fuel))) pid t = (Inr (), t') \<and> reroots (Suc l) t t' \<and> settles {pid} t t' \<and> saved t'"
proof (cases "no_overflow (node_view t) n")
  case True
  have "unat (next_id (t_manifest t)) + MAX_FANOUT < 2 ^ 64" using room by simp
  from do_flush_step [OF ok tree True this, of "Suc (Suc fuel)"] obtain t' m where
    t': "do_flush (Suc (Suc (Suc fuel))) pid t = (Inr (), t')" "store_ok t'" "gtree (Suc l) (node_view t') pid"
    "\<forall>k. lookup (Suc l) (node_view t') pid k = lookup (Suc l) (node_view t) pid k"
    "settles {pid} t t'" "saved t'" "node_view t' pid = Inr m" "buffer m = []"
    "write_buf t' = write_buf t" "seq t' = seq t" "opts t' = opts t" "root_id (t_manifest t') = root_id (t_manifest t)"
    by blast
  then have "reroots (Suc l) t t'" using pid by (intro rerootsI [OF t'(2,3) _ t'(7,8)]) simp_all
  with t'(1,5,6) show ?thesis by blast
next
  case False
  let ?v = "node_view t"
  have calm': "level n = 1" "modest ?v n" "\<And>j. j < length (kids n) \<Longrightarrow> overfull ?v n j \<Longrightarrow> clean_cut (buffer_after ?v n j)"
    "length (kids n) + length (filter (overfull ?v n) [0..<length (kids n)]) \<le> MAX_FANOUT + 1"
    using calm False by (auto simp: calm_flush_def)
  have l: "l = 0" using gtree_SucE(2) [OF tree] calm'(1) by simp
  have "unat (next_id (t_manifest t)) + MAX_FANOUT < 2 ^ 64" using room by simp
  from flush_to_leaves [OF ok tree [unfolded l] calm'(2) this, of "Suc (Suc fuel)"] obtain t1 cs n' where
    run: "do_flush (Suc (Suc (Suc fuel))) pid t =
      check_overflow (\<lambda>cid. split_leaf (Suc (Suc fuel)) cid [pid, cid]) (do_flush (Suc (Suc fuel))) cs t1"
    and h: "handed_down t pid n t1 cs n'" by blast
  note H = handed_downD [OF h]
  note F = handed_down_full [OF h calm'(2,3)]
  have "length (kids n) \<le> MAX_FANOUT" using gtree_SucE(1) [OF tree] by (simp add: sound_node_def kids_def)
  then have room1: "unat (next_id (t_manifest t1)) + 2 * length cs + 3 < 2 ^ 64" using H(8,10) room by (simp add: MAX_FANOUT_def)
  have pid1: "pid = root_id (t_manifest t1)" using pid H(16) by simp
  have fan: "length (kids n') + length (filter (\<lambda>x. buffer_full (the_node (node_view t1) x)) cs) \<le> MAX_FANOUT + 1"
    using calm'(4) H(6,8) F(2) by simp
  from overflow_loop [OF H(1) pid1 H(2,4,5) eq_refl [OF arg_cong [OF H(6) [symmetric], of set]] H(7) F(1) fan room1, of fuel]
  obtain t' where
    t': "check_overflow (\<lambda>cid. split_leaf (Suc (Suc fuel)) cid [pid, cid]) (do_flush (Suc (Suc fuel))) cs t1 = (Inr (), t')"
      "reroots (Suc 0) t1 t'" "settles {} t1 t'" by blast
  have "reroots (Suc l) t t'" unfolding l
    by (rule reroots_trans [OF H(1) _ _ _ _ _ _ t'(2)]) (use H(3,12-16) pid in \<open>simp_all del: lookup.simps\<close>)
  moreover have "saved t'" using t'(2) H(12) by (simp add: reroots_def)
  ultimately show ?thesis using run t'(1) settles_trans [OF H(11) t'(3)]
    by (intro exI [of _ t'] conjI) (simp_all del: do_flush.simps)
qed

end
