(* ===== verification/Tree_Rounds.thy ===== *)
theory Tree_Rounds
  imports Tree_Grow
begin

text \<open>
  Rounds of the flush thread as operations on the store: draining the buffer, merging it into the
  root, and restructuring the tree when the root is full. \<open>gt_inv\<close> is the invariant of the whole
  store; every operation keeps it, so any sequence of calls and rounds behaves like a map.
\<close>

subsection \<open>New entries in the root\<close>

definition newer_than :: "entry list \<Rightarrow> (bytes \<Rightarrow> entry option) \<Rightarrow> bool" where
  "newer_than es f \<longleftrightarrow> (\<forall>e\<in>set es. \<forall>x. f (key e) = Some x \<longrightarrow> seq_no x < seq_no e)"

lemma newer_than_newest:
  assumes "newer_than es f" "newest k es = Some e" "f k = Some x"
  shows "seq_no x < seq_no e"
  using assms newest_SomeD(1,2) [OF assms(2)] by (auto simp: newer_than_def)

lemma push_root_gtree:
  assumes t: "gtree l v i" "v i = Inr n" and n': "sound_node i n'" "level n' = level n"
    "num_children n' = num_children n" "kids n' = kids n"
    "\<And>k. newest k (buffer n') = newest k (buffer n @ es)"
    and es: "newer_than es (lookup l v i)"
  shows "gtree l (v(i := Inr n')) i"
    "lookup l (v(i := Inr n')) i k = (case newest k es of Some e \<Rightarrow> Some e | None \<Rightarrow> lookup l v i k)"
proof -
  let ?v = "v(i := Inr n')"
  have lay: "layered (\<lambda>k. newest k es) (lookup l v i)"
    unfolding layered_def using newer_than_newest [OF es] by (auto intro: less_imp_le)
  have new: "newest k (buffer n') = newer (newest k es) (newest k (buffer n))" for k
  proof (cases "newest k es"; cases "newest k (buffer n)")
    fix e f assume ef: "newest k es = Some e" "newest k (buffer n) = Some f"
    then have "lookup l v i k = Some f" using t(2) by (simp add: lookup_below)
    from newer_than_newest [OF es ef(1) this] ef n'(5) [of k] show ?thesis by (simp add: newest_append)
  qed (simp_all add: n'(5) newest_append)
  have agree: "?v j = v j" if j: "0 < l" "g \<in> set (kids n)" "j \<in> ids_of (l - 1) v g" for g j
  proof -
    obtain l' where l: "l = Suc l'" using j(1) by (cases l) auto
    have "gtree (l - 1) v g" using gtree_SucE(5) [OF t(1) [unfolded l] t(2) j(2)] l by simp
    from ids_level [OF this j(3)] obtain m where "v j = Inr m" "unat (level m) < l" using l by auto
    then show ?thesis using gtree_SucE(2) [OF t(1) [unfolded l] t(2)] t(2) l by auto
  qed
  have vi: "?v i = Inr n'" by simp
  show "gtree l ?v i" by (rule child_flushed(1) [OF t vi n'(1-4) new lay agree])
  show "lookup l ?v i k = (case newest k es of Some e \<Rightarrow> Some e | None \<Rightarrow> lookup l v i k)"
    by (rule child_flushed(2) [OF t vi n'(1-4) new lay agree])
qed

subsection \<open>The invariant of the store\<close>

text \<open>
  On top of \<open>tree_inv\<close>: the tree is one of height \<open>l\<close> in the sense of \<open>gtree\<close>, the buffered entries
  are newer than anything a search finds in it, no key is empty, and there are no more entries in
  buffer and root than sequence numbers given out. At most \<open>2 ^ 30\<close> of them are, so that no filter
  grows past the 32-bit length field of a node file.
\<close>

definition gt_inv :: "nat \<Rightarrow> tree \<Rightarrow> bool" where
  "gt_inv l t \<longleftrightarrow> tree_inv t \<and> store_ok t \<and> gtree l (node_view t) (root_id (t_manifest t)) \<and>
     newer_than (sl_entries (write_buf t)) (lookup l (node_view t) (root_id (t_manifest t))) \<and>
     (\<forall>k f. lookup l (node_view t) (root_id (t_manifest t)) k = Some f \<longrightarrow> seq_no f < seq t) \<and>
     [] \<notin> key ` set (sl_entries (write_buf t)) \<and>
     length (sl_entries (write_buf t)) + length (buffer (the_node (node_view t) (root_id (t_manifest t)))) < unat (seq t) \<and>
     unat (seq t) \<le> 2 ^ 30"

text \<open>
  \<open>durable\<close>: what is on disk. Every node but possibly the root is on file, the root too when it buffers
  nothing, and is known to the manifest in any case; the manifest is saved; everything fits the format. After a flush the root is on file as well.
\<close>

definition durable :: "tree \<Rightarrow> bool" where
  "durable t \<longleftrightarrow> list_all entry_fits (sl_entries (write_buf t)) \<and> all_small t \<and> saved t \<and>
     root_id (t_manifest t) \<noteq> 0 \<and> filed {root_id (t_manifest t)} t \<and>
     (\<forall>m. node_view t (root_id (t_manifest t)) = Inr m \<longrightarrow> live (t_manifest t) (root_id (t_manifest t)) \<noteq> None \<and>
        (buffer m = [] \<longrightarrow> on_file t (root_id (t_manifest t)) m))"

lemma durableD:
  assumes "durable t"
  shows "list_all entry_fits (sl_entries (write_buf t))" "all_small t" "saved t" "filed {root_id (t_manifest t)} t"
    "\<And>m. node_view t (root_id (t_manifest t)) = Inr m \<Longrightarrow> buffer m = [] \<Longrightarrow> on_file t (root_id (t_manifest t)) m"
    "root_id (t_manifest t) \<noteq> 0"
    "\<And>m. node_view t (root_id (t_manifest t)) = Inr m \<Longrightarrow> live (t_manifest t) (root_id (t_manifest t)) \<noteq> None"
  using assms unfolding durable_def by blast+

lemma durableI:
  assumes "sl_entries (write_buf t) = []" "all_small t" "saved t" "filed {} t" "root_id (t_manifest t) \<noteq> 0"
  shows "durable t"
  using assms by (auto simp: durable_def filed_def on_file_def)

text \<open>What is on disk depends on manifest, disk and view only.\<close>

lemma on_file_cong:
  assumes "t_manifest t' = t_manifest t" "tdisk t' = tdisk t" "opts t' = opts t"
  shows "on_file t' = on_file t" "saved t' = saved t"
    "node_view t' = node_view t \<Longrightarrow> filed S t' = filed S t" "node_view t' = node_view t \<Longrightarrow> all_small t' = all_small t"
  using assms by (simp_all add: on_file_def saved_def filed_def all_small_def fun_eq_iff)

lemma durable_cong:
  assumes "t_manifest t' = t_manifest t" "tdisk t' = tdisk t" "opts t' = opts t" "node_view t' = node_view t"
    "sl_entries (write_buf t') = sl_entries (write_buf t)"
  shows "durable t' = durable t"
  using on_file_cong [OF assms(1-3)] assms by (simp add: durable_def)

lemma gt_invD:
  assumes "gt_inv l t"
  shows "tree_inv t" "store_ok t" "gtree l (node_view t) (root_id (t_manifest t))"
    "newer_than (sl_entries (write_buf t)) (lookup l (node_view t) (root_id (t_manifest t)))"
    "\<And>k f. lookup l (node_view t) (root_id (t_manifest t)) k = Some f \<Longrightarrow> seq_no f < seq t"
    "[] \<notin> key ` set (sl_entries (write_buf t))"
    "length (sl_entries (write_buf t)) + length (buffer (the_node (node_view t) (root_id (t_manifest t)))) < unat (seq t)"
    "unat (seq t) \<le> 2 ^ 30"
  using assms unfolding gt_inv_def by blast+

lemma gt_contents:
  assumes "gtree l (node_view t) (root_id (t_manifest t))"
  shows "contents t k =
    Option.bind (case newest k (sl_entries (write_buf t)) of Some e \<Rightarrow> Some e
       | None \<Rightarrow> lookup l (node_view t) (root_id (t_manifest t)) k) visible"
  using gtree_disk_get [OF assms, of k] by (simp add: contents_def view_get_def split: option.split)

text \<open>
  The invariant after an operation that emptied the buffer: what it takes to establish it from the new
  tree, with the contents that follow.
\<close>

lemma gt_inv_drained:
  assumes inv: "gt_inv l t" and t': "store_ok t'" "sl_wf (write_buf t')" "sl_entries (write_buf t') = []"
    "seq t' = seq t" "gtree l' (node_view t') (root_id (t_manifest t'))"
    and look: "\<And>k. lookup l' (node_view t') (root_id (t_manifest t')) k =
      (case newest k (sl_entries (write_buf t)) of Some e \<Rightarrow> Some e
        | None \<Rightarrow> lookup l (node_view t) (root_id (t_manifest t)) k)"
    and sane: "\<And>j m. node_view t' j = Inr m \<Longrightarrow> node_view t j = Inr m \<or> node_sane m"
    and root: "node_view t' (root_id (t_manifest t')) = Inr m" "\<forall>f\<in>set (buffer m). seq_no f < seq t"
      "length (buffer m) < unat (seq t)"
  shows "gt_inv l' t'" "contents t' = contents t"
proof -
  note D = gt_invD [OF inv]
  have "seq_no f < seq t'" if "lookup l' (node_view t') (root_id (t_manifest t')) k = Some f" for k f
  proof (cases "newest k (sl_entries (write_buf t))")
    case None
    then show ?thesis using that look [of k] D(5) t'(4) by simp
  next
    case (Some e)
    then have "f = e" "e \<in> set (sl_entries (write_buf t))" using that look [of k] newest_SomeD(1) by auto
    then show ?thesis using D(1) t'(4) by (auto simp: tree_inv_def fresh_seq_def)
  qed
  moreover have "node_sane x" if "node_view t' j = Inr x" for j x
    using sane [OF that] D(1) by (auto simp: tree_inv_def)
  moreover obtain m' where "node_view t' (root_id (t_manifest t')) = Inr m'" "sound_node (root_id (t_manifest t')) m'"
    using gtree_node [OF t'(5)] by blast
  ultimately show "gt_inv l' t'"
    using t' root D(8) store_ok_std [OF t'(1)] gtree_subtree [OF t'(5)]
    by (auto simp: gt_inv_def tree_inv_def fresh_seq_def newer_than_def sound_node_def)
  show "contents t' = contents t"
    by (rule ext) (simp add: gt_contents [OF t'(5)] gt_contents [OF D(3)] look t'(3))
qed

subsection \<open>Writing and reading\<close>

lemma lookup_root_newest:
  assumes "v i = Inr n" "newest k (buffer n) = Some e"
  shows "lookup l v i k = Some e"
  using assms by (simp add: lookup_below)

lemma length_insert_stable [simp]: "length (insert_stable lt x xs) = Suc (length xs)"
  by (induction xs) auto

lemma gt_inv_write:
  assumes inv: "gt_inv l t" and k: "k \<noteq> []" and room: "unat (seq t) < 2 ^ 30"
  shows "\<exists>t'. buffer_write k x del t = (Inr (), t') \<and> gt_inv l t' \<and>
    contents t' = (contents t)(k := (if del then None else Some x)) \<and> unat (seq t') = unat (seq t) + 1 \<and>
    t_manifest t' = t_manifest t \<and> opts t' = opts t \<and> (durable t \<and> short k \<and> short x \<longrightarrow> durable t')"
proof -
  let ?e = "\<lparr>key = k, val = x, seq_no = seq t, deleted = del\<rparr>"
  note D = gt_invD [OF inv]
  have "seq t \<noteq> - 1" using room by (auto simp: unsigned_minus_1_eq_mask mask_eq_exp_minus_1)
  from tree_inv_write [OF D(1) this, of k x del] obtain t' where t': "buffer_write k x del t = (Inr (), t')"
    "tree_inv t'" "seq t' = seq t + 1" "contents t' = (contents t)(k := (if del then None else Some x))" by blast
  from buffer_write_ok [of t k x del] t'(1) D(1) have w:
    "sl_entries (write_buf t') = insert_stable entry_less ?e (sl_entries (write_buf t))"
    "opts t' = opts t" "t_manifest t' = t_manifest t" "tdisk t' = tdisk t" "cache t' = cache t"
    by (auto simp: tree_inv_def)
  have view: "node_view t' = node_view t" using w by (intro node_view_cong) simp_all
  have seq: "unat (seq t') = unat (seq t) + 1" using room t'(3) by (simp add: unat_word_ariths)
  have "store_ok t'" using D(2) w by (simp add: store_ok_def)
  moreover have "newer_than (sl_entries (write_buf t')) (lookup l (node_view t) (root_id (t_manifest t)))"
    using D(4,5) unfolding newer_than_def w(1) by auto
  moreover have "seq_no f < seq t'" if "lookup l (node_view t) (root_id (t_manifest t)) j = Some f" for j f
    using D(5) [OF that] seq by (simp add: word_less_nat_alt)
  moreover have "length (sl_entries (write_buf t')) = Suc (length (sl_entries (write_buf t)))"
    by (simp add: w(1))
  moreover have "[] \<notin> key ` set (sl_entries (write_buf t'))" using D(6) k by (auto simp: w(1))
  ultimately have "gt_inv l t'" using t'(2) D(3,7) room seq unfolding gt_inv_def by (auto simp: view w(3))
  moreover have "durable t'" if "durable t" "short k" "short x"
    using that on_file_cong [OF w(3,4,2)] view w(1,3) by (auto simp: durable_def list_all_iff entry_fits_def)
  ultimately show ?thesis using t'(1,4) seq w(2,3) by blast
qed

lemma store_ok_cache:
  assumes "store_ok t" "same_but_cache t t'"
  shows "store_ok t'"
proof -
  note sel = same_but_cache_sel [OF assms(2)]
  have "i < next_id (t_manifest t)" if "i \<in> fst ` set (cache t')" for i
  proof -
    have "map_of (cache t') i \<noteq> None" using that by (simp add: map_of_eq_None_iff)
    then obtain m where "node_view t' i = Inr m" using cached_view by blast
    then show ?thesis using view_below_next [OF assms(1)] sel(4) by simp
  qed
  with assms(1) sel show ?thesis unfolding store_ok_def by auto
qed

lemma gt_inv_cache: "gt_inv l t \<Longrightarrow> same_but_cache t t' \<Longrightarrow> gt_inv l t'"
  using tree_inv_cache [of t t'] store_ok_cache [of t t'] same_but_cache_sel [of t t']
  by (simp add: gt_inv_def)

subsection \<open>Merging and flushing under the invariant\<close>

lemma merge_step:
  assumes ok: "store_ok t" and n: "node_view t (root_id (t_manifest t)) = Inr n"
  defines "rid \<equiv> root_id (t_manifest t)"
  shows "\<exists>t'. merge_into_root pending t = (Inr (push_pending pending n), t') \<and> evolves 0 {rid} t t' \<and>
    map_of (cache t') rid = Some (push_pending pending n) \<and>
    node_view t' = (node_view t)(rid := Inr (push_pending pending n)) \<and>
    t_manifest t' = t_manifest t \<and> tdisk t' = tdisk t"
proof -
  let ?n = "push_pending pending n"
  from get_node_step [OF ok n] obtain t1 where t1: "get_node rid t = (Inr n, t1)" "evolves 0 {} t t1"
    "map_of (cache t1) rid = Some n" "t_manifest t1 = t_manifest t" "tdisk t1 = tdisk t" unfolding rid_def by blast
  from upd_step [OF evolvesD(1) [OF t1(2)] t1(3), of "push_pending pending"] obtain t2 where
    t2: "upd_node rid (push_pending pending) t1 = (Inr (), t2)" "evolves 0 {rid} t1 t2"
    "map_of (cache t2) rid = Some ?n" "t_manifest t2 = t_manifest t1" "tdisk t2 = tdisk t1" by blast
  have e: "evolves 0 {rid} t t2" using evolves_trans [OF t1(2) t2(2)] by simp
  have "merge_into_root pending t = (Inr ?n, t2)"
    using t1(1) t2(1) get_node_hit [OF t2(3)] by (simp add: merge_into_root_def bind_Inr rid_def)
  moreover have "node_view t2 = (node_view t)(rid := Inr ?n)"
    using evolvesD(2) [OF e] cached_view [OF t2(3)] by (intro ext) simp
  ultimately show ?thesis using e t1(4,5) t2(3-5) by simp
qed

lemma push_pending_sound:
  assumes "sound_node i n" "[] \<notin> key ` set pending"
  shows "sound_node i (push_pending pending n)" "kids (push_pending pending n) = kids n"
    "level (push_pending pending n) = level n" "num_children (push_pending pending n) = num_children n"
  using assms root_holds_push [of n pending]
  by (auto simp: sound_node_def node_sane_def push_pending_def kids_def)

text \<open>The root of a store that satisfies the invariant, after the buffered entries were pushed into it.\<close>

lemma gt_inv_push:
  fixes t l
  assumes inv: "gt_inv l t" and n: "node_view t (root_id (t_manifest t)) = Inr n"
    and n': "sound_node (root_id (t_manifest t)) n'" "root_holds n (sl_entries (write_buf t)) n'"
    and v': "v' = (node_view t)(root_id (t_manifest t) := Inr n')"
  shows "gtree l v' (root_id (t_manifest t))"
    "lookup l v' (root_id (t_manifest t)) k = (case newest k (sl_entries (write_buf t)) of Some e \<Rightarrow> Some e
       | None \<Rightarrow> lookup l (node_view t) (root_id (t_manifest t)) k)"
    "\<forall>f\<in>set (buffer n'). seq_no f < seq t"
proof -
  note D = gt_invD [OF inv]
  have h: "level n' = level n" "num_children n' = num_children n" "kids n' = kids n"
    "\<And>k. newest k (buffer n') = newest k (buffer n @ sl_entries (write_buf t))"
    "set (buffer n') \<subseteq> set (buffer n @ sl_entries (write_buf t))"
    using n'(2) by (simp_all add: root_holds_def kids_def)
  note P = push_root_gtree [OF D(3) n n'(1) h(1-4) D(4)]
  show "gtree l v' (root_id (t_manifest t))" unfolding v' by (rule P(1))
  show "lookup l v' (root_id (t_manifest t)) k = (case newest k (sl_entries (write_buf t)) of Some e \<Rightarrow> Some e
       | None \<Rightarrow> lookup l (node_view t) (root_id (t_manifest t)) k)" unfolding v' by (rule P(2))
  show "\<forall>f\<in>set (buffer n'). seq_no f < seq t"
    using h(5) D(1) n by (auto simp: tree_inv_def fresh_seq_def)
qed

lemma gt_inv_root:
  assumes "gt_inv l t"
  obtains n where "node_view t (root_id (t_manifest t)) = Inr n" "sound_node (root_id (t_manifest t)) n"
    "unat (level n) = l" "length (buffer n) + length (sl_entries (write_buf t)) < unat (seq t)"
    "unat (seq t) \<le> 2 ^ 30"
  using gtree_node [OF gt_invD(3) [OF assms]] gt_invD(7,8) [OF assms] by auto

text \<open>What is on disk after the merge, and after an operation that put the root on file.\<close>

lemma durable_merged:
  assumes d: "durable t" and n: "node_view t (root_id (t_manifest t)) = Inr n"
    and len: "length (buffer n) + length (sl_entries (write_buf t)) < 2 ^ 32"
    and t': "t_manifest t' = t_manifest t" "tdisk t' = tdisk t" "opts t' = opts t"
      "node_view t' = (node_view t)(root_id (t_manifest t) := Inr (push_pending (sl_entries (write_buf t)) n))"
  shows "all_small t'" "saved t'" "filed {root_id (t_manifest t)} t'"
    "buffer (push_pending (sl_entries (write_buf t)) n) = [] \<Longrightarrow> filed {} t'"
proof -
  let ?n = "push_pending (sl_entries (write_buf t)) n"
  note D = durableD [OF d] and C = on_file_cong [OF t'(1-3)]
  have "small_node n" using D(2) n by (auto simp: all_small_def)
  then have "small_node ?n" using D(1) len by (auto simp: small_node_def push_pending_def list_all_iff)
  then show "all_small t'" using D(2) t'(4) by (simp add: all_small_def)
  show "saved t'" using D(3) C(2) by simp
  show F: "filed {root_id (t_manifest t)} t'" using D(4) t'(4) C(1) by (auto simp: filed_def)
  assume "buffer ?n = []"
  then have "buffer n = []" "sl_entries (write_buf t) = []" by (simp_all add: push_pending_def)
  then have "?n = n" by (simp add: push_pending_def)
  then have "on_file t' (root_id (t_manifest t)) ?n" using D(5) [OF n] \<open>buffer n = []\<close> C(1) by simp
  with F t'(4) show "filed {} t'" by (auto simp: filed_def)
qed

lemma durable_written:
  assumes "evolves k {i} t t'" "filed {i} t" "all_small t" "node_view t' i = Inr n" "on_file t' i n" "small_node n"
  shows "filed {} t'" "all_small t'"
proof -
  show "filed {} t'" unfolding filed_def
  proof (intro allI impI)
    fix j m assume "node_view t' j = Inr m"
    then show "on_file t' j m"
      using assms(2,4,5) evolvesD(2) [OF assms(1), of j] on_file_evolves [OF assms(1), of j m]
      by (cases "j = i") (auto simp: filed_def)
  qed
  show "all_small t'" unfolding all_small_def
  proof (intro allI impI)
    fix j m assume "node_view t' j = Inr m"
    then show "small_node m"
      using assms(3,4,6) evolvesD(2) [OF assms(1), of j] by (cases "j = i") (auto simp: all_small_def)
  qed
qed

lemma gt_inv_flush:
  assumes inv: "gt_inv l t"
  shows "\<exists>t'. tree_flush t = (Inr (), t') \<and> gt_inv l t' \<and> contents t' = contents t \<and>
    sl_entries (write_buf t') = [] \<and> seq t' = seq t \<and> opts t' = opts t \<and>
    next_id (t_manifest t') = next_id (t_manifest t) \<and> root_id (t_manifest t') = root_id (t_manifest t) \<and>
    (durable t \<longrightarrow> all_small t' \<and> saved t' \<and> filed {} t')"
proof -
  let ?rid = "root_id (t_manifest t)" and ?buf = "sl_entries (write_buf t)"
  note D = gt_invD [OF inv]
  obtain n where n: "node_view t ?rid = Inr n" "sound_node ?rid n" "length (buffer n) + length ?buf < unat (seq t)"
    using gt_inv_root [OF inv] by metis
  from drain_ok [of t] D(1) obtain sl where sl: "drain_write_buf t = (Inr ?buf, t\<lparr>write_buf := sl\<rparr>)"
    "sl_wf sl" "sl_entries sl = []" by (auto simp: tree_inv_def)
  let ?t0 = "t\<lparr>write_buf := sl\<rparr>" and ?n1 = "push_pending ?buf n"
  have v0: "node_view ?t0 = node_view t" by (rule node_view_cong) simp_all
  have ok0: "store_ok ?t0" using D(2) by (simp add: store_ok_def)
  from merge_step [OF ok0] n(1) v0 obtain t1 where t1: "merge_into_root ?buf ?t0 = (Inr ?n1, t1)"
    "evolves 0 {?rid} ?t0 t1" "map_of (cache t1) ?rid = Some ?n1" "node_view t1 = (node_view t)(?rid := Inr ?n1)"
    "t_manifest t1 = t_manifest t" "tdisk t1 = tdisk t" by fastforce
  note S1 = push_pending_sound [OF n(2) D(6)]
  have len32: "length (buffer n) + length ?buf < 2 ^ 32" using n(3) D(8) by simp
  have id1: "nid ?n1 = ?rid" and len1: "length (buffer ?n1) = length (buffer n) + length ?buf"
    using S1(1) by (simp_all add: sound_node_def push_pending_def)
  have r1: "root_id (t_manifest t1) = ?rid" "opts t1 = opts t" using evolvesD(7,8) [OF t1(2)] by simp_all
  have "\<exists>n' t'. tree_flush t = (Inr (), t') \<and> evolves 0 {?rid} ?t0 t' \<and> node_view t' ?rid = Inr n' \<and>
      sound_node ?rid n' \<and> root_holds n ?buf n' \<and> length (buffer n') \<le> length (buffer ?n1) \<and>
      (durable t \<longrightarrow> all_small t' \<and> saved t' \<and> filed {} t')"
  proof (cases "buffer ?n1 = []")
    case True
    then have "tree_flush t = (Inr (), t1)" by (simp add: tree_flush_def persist_root_def bind_Inr sl(1) t1(1))
    with t1 S1(1) root_holds_push durable_merged [OF _ n(1) len32 t1(5,6) r1(2) t1(4)] True show ?thesis by auto
  next
    case False
    from run_flush_step [OF evolvesD(1) [OF t1(2)] t1(3) id1] r1 obtain n' t2 where
      t2: "run_on ?rid (flush_to_disk (data_dir (opts t))) t1 = (Inr (node_path_in (data_dir (opts t)) ?rid), t2)"
        "evolves 0 {?rid} t1 t2" "map_of (cache t2) ?rid = Some n'"
        "files (tdisk t2) (node_path_in (data_dir (opts t)) ?rid) = Some (node_image n')"
      and n': "written ?n1 n'" by auto
    have e2: "evolves 0 {?rid} ?t0 t2" using evolves_trans [OF t1(2) t2(2)] by simp
    have "?rid < next_id (t_manifest t2)" by (rule store_ok_cached [OF evolvesD(1) [OF t2(2)] t2(3)])
    from register_step [OF evolvesD(1) [OF e2] this refl, of "level ?n1"] evolvesD(7) [OF e2] obtain t3 where
      t3: "on_manifest (register_node ?rid (level ?n1) (node_path_in (data_dir (opts t)) ?rid)) t2 = (Inr (), t3)"
        "evolves 0 {?rid} t2 t3" "cache t3 = cache t2" "tdisk t3 = tdisk t2" "live (t_manifest t3) ?rid \<noteq> None" by auto
    from save_step [OF evolvesD(1) [OF t3(2)]] obtain t4 where
      t4: "save_manifest t3 = (Inr (), t4)" "evolves 0 {} t3 t4" "cache t4 = cache t3" "saved t4" by blast
    have r2: "root_id (t_manifest t2) = ?rid" using evolvesD(8) [OF t2(2)] r1 by simp
    have "tree_flush t = (Inr (), t4)"
      using False t2(1) t3(1) t4(1) r1 r2
      by (simp add: tree_flush_def persist_root_def bind_Inr sl(1) t1(1))
    moreover have "evolves 0 {?rid} ?t0 t4"
      using evolves_trans [OF evolves_trans [OF e2 t3(2)] t4(2)] by simp
    moreover have v4: "node_view t4 ?rid = Inr n'" using t2(3) t3(3) t4(3) by (intro cached_view) simp
    have "on_file t3 ?rid n'" using t2(4) t3(4,5) evolvesD(7) [OF e2] evolvesD(7) [OF t3(2)] by (simp add: on_file_def)
    then have f4: "on_file t4 ?rid n'" by (rule on_file_evolves [OF t4(2), rotated]) simp
    have e14: "evolves 0 {?rid} t1 t4" using evolves_trans [OF evolves_trans [OF t2(2) t3(2)] t4(2)] by simp
    have "all_small t4 \<and> saved t4 \<and> filed {} t4" if d: "durable t"
    proof -
      note M = durable_merged [OF d n(1) len32 t1(5,6) r1(2) t1(4)]
      have "small_node ?n1" using M(1) cached_view [OF t1(3)] unfolding all_small_def by blast
      then have "small_node n'" by (rule written_small [OF n'])
      then show ?thesis using durable_written [OF e14 M(3,1) v4 f4] t4(4) by simp
    qed
    moreover note v4
    moreover have b': "buffer n' = sort_entries (buffer ?n1)" using n' by (simp add: written_def)
    have "length (buffer n') \<le> length (buffer ?n1)" unfolding b' by (rule length_sort_entries)
    moreover from this have "sound_node ?rid n'"
      using n' S1(1) len1 n(3) D(8) set_sort_entries [of "buffer ?n1"]
      by (auto simp: sound_node_def written_def node_sane_def keys_strict_sorted bloom_covers_def keys_sort_entries)
    moreover have "root_holds ?n1 [] n'"
      using n' False set_sort_entries [of "buffer ?n1"]
      by (auto simp: root_holds_def written_def keys_strict_sorted)
    then have "root_holds n ?buf n'" by (rule root_holds_trans [OF root_holds_push _ False])
    ultimately show ?thesis by blast
  qed
  then obtain n' t' where t': "tree_flush t = (Inr (), t')" "evolves 0 {?rid} ?t0 t'" "node_view t' ?rid = Inr n'"
    "sound_node ?rid n'" "root_holds n ?buf n'" "length (buffer n') \<le> length (buffer ?n1)"
    "durable t \<longrightarrow> all_small t' \<and> saved t' \<and> filed {} t'" by blast
  note E = evolvesD [OF t'(2)]
  have v': "node_view t' = (node_view t)(?rid := Inr n')" using E(2) t'(3) v0 by (intro ext) simp
  note P = gt_inv_push [OF inv n(1) t'(4,5) v']
  have "gt_inv l t'" "contents t' = contents t"
    by (rule gt_inv_drained [OF inv, of t' l n'];
        use E sl P t'(3,4,6) v' len1 n(3) in \<open>auto simp: sound_node_def split: if_splits\<close>)+
  moreover have "next_id (t_manifest t') = next_id (t_manifest t)" using E(9) by (simp add: word_unat_eq_iff)
  ultimately show ?thesis using t'(1,7) E(5-8) sl by auto
qed

subsection \<open>A round of the flush thread\<close>

text \<open>
  The body of the loop of \<^verbatim>\<open>flush_thread_fn\<close> behind its wait, run without interruption: drain the write
  buffer, merge and restructure under the cache lock, swallow an exception, reset the flags.
\<close>

definition thread_round :: "nat \<Rightarrow> tree \<Rightarrow> tree" where
  "thread_round fuel t =
     (snd (bind drain_write_buf (flush_round fuel) (t\<lparr>flush_in_progress := True\<rparr>)))
       \<lparr>flush_requested := False, flush_in_progress := False\<rparr>"

text \<open>
  The rounds covered here: a full root leaf is cut between two keys, and a full inner root hands its
  parts down in a flush that \<open>calm_flush\<close> covers: no child fills, or the full ones are leaves that are
  split, the last of them under a full root if need be, so that the tree grows. \<open>quiet_round\<close> can be
  evaluated on a given state.
\<close>

definition quiet_round :: "tree \<Rightarrow> bool" where
  "quiet_round t \<longleftrightarrow>
     (let rid = root_id (t_manifest t);
          n = push_pending (sl_entries (write_buf t)) (the_node (node_view t) rid)
      in unat (next_id (t_manifest t)) + 4 * MAX_FANOUT < 2 ^ 64 \<and>
         (buffer_full n \<longrightarrow>
            (if num_children n = 0 then clean_cut (buffer n)
             else calm_flush ((node_view t)(rid := Inr n)) n)))"

lemma find_path_leaf:
  assumes "map_of (cache t) (root_id (t_manifest t)) = Some n" "is_leaf n"
  shows "find_path (Suc fuel) k t = (Inr [root_id (t_manifest t)], t)"
  using get_node_hit [OF assms(1)] assms(2) by (simp add: find_path_def bind_Inr exec_simps)

lemma gtree_leaf_level:
  assumes "gtree l v i" "v i = Inr n"
  shows "num_children n = 0 \<longleftrightarrow> l = 0" "is_leaf n \<longleftrightarrow> l = 0"
proof -
  show "num_children n = 0 \<longleftrightarrow> l = 0"
    using assms by (cases l) (auto simp: kids_def)
  show "is_leaf n \<longleftrightarrow> l = 0"
    using gtree_node [OF assms(1)] assms(2) by (auto simp: is_leaf_def word_unat_eq_iff)
qed

text \<open>Restructuring a store whose root holds everything.\<close>

lemma restructure_step:
  assumes ok: "store_ok t" and g: "gtree l (node_view t) rid" "map_of (cache t) rid = Some n"
    and rid: "rid = root_id (t_manifest t)" and len: "length (buffer n) < 2 ^ 30"
    and room: "unat (next_id (t_manifest t)) + 4 * MAX_FANOUT < 2 ^ 64"
    and quiet: "buffer_full n \<Longrightarrow> if num_children n = 0 then clean_cut (buffer n) else calm_flush (node_view t) n"
  shows "\<exists>l' t' m. (if buffer_full n then
              (if is_leaf n \<and> num_children n = 0 then
                 bind (find_path (Suc (Suc (Suc fuel))) (if buffer n = [] then [] else key (hd (buffer n)))) (split_leaf (Suc (Suc (Suc fuel))) rid)
               else if num_children n > 0 then do_flush (Suc (Suc (Suc fuel))) rid else ret ())
            else ret ()) t = (Inr (), t') \<and>
    store_ok t' \<and> gtree l' (node_view t') (root_id (t_manifest t')) \<and>
    (\<forall>k. lookup l' (node_view t') (root_id (t_manifest t')) k = lookup l (node_view t) rid k) \<and>
    node_view t' (root_id (t_manifest t')) = Inr m \<and>
    (t' = t \<and> m = n \<or> settles {rid} t t' \<and> saved t' \<and> buffer m = [] \<and> (rid \<noteq> 0 \<longrightarrow> root_id (t_manifest t') \<noteq> 0)) \<and>
    write_buf t' = write_buf t \<and> seq t' = seq t \<and> opts t' = opts t"
proof -
  have n: "node_view t rid = Inr n" by (rule cached_view [OF g(2)])
  note leaf = gtree_leaf_level [OF g(1) n]
  show ?thesis
  proof (cases "buffer_full n")
    case False
    with ok g(1) n rid show ?thesis by (intro exI [of _ l] exI [of _ t] exI [of _ n]) (simp add: exec_simps)
  next
    case full: True
    show ?thesis
    proof (cases l)
      case 0
      have cut: "clean_cut (buffer n)" using quiet full leaf 0 by simp
      have "unat (next_id (t_manifest t)) + 3 < 2 ^ 64" using room by (simp add: MAX_FANOUT_def)
      from split_root_step [OF ok g(1) [unfolded 0] n cut len this, of "Suc (Suc (Suc fuel))"] obtain t' m where
        t': "split_leaf (Suc (Suc (Suc fuel))) rid [rid] t = (Inr (), t')" "store_ok t'" "gtree 1 (node_view t') (root_id (t_manifest t'))"
        "\<forall>k. lookup 1 (node_view t') (root_id (t_manifest t')) k = newest k (buffer n)"
        "settles {rid} t t'" "saved t'" "root_id (t_manifest t') \<noteq> 0"
        "node_view t' (root_id (t_manifest t')) = Inr m" "buffer m = []"
        "write_buf t' = write_buf t" "seq t' = seq t" "opts t' = opts t" by blast
      have "lookup l (node_view t) rid k = newest k (buffer n)" for k using 0 n by simp
      then show ?thesis
        using full leaf 0 t' find_path_leaf [of t n "Suc (Suc fuel)"] g(2) rid
        by (intro exI [of _ 1] exI [of _ t'] exI [of _ m]) (simp add: bind_Inr)
    next
      case (Suc l')
      have fit: "calm_flush (node_view t) n" using quiet full leaf Suc by simp
      from do_flush_calm [OF ok rid g(1) [unfolded Suc] n fit room, of fuel] obtain t' where
        t': "do_flush (Suc (Suc (Suc fuel))) rid t = (Inr (), t')" "reroots l t t'" "settles {rid} t t'" "saved t'"
        unfolding Suc by blast
      then obtain l'' m where r: "store_ok t'" "gtree l'' (node_view t') (root_id (t_manifest t'))"
        "\<forall>k. lookup l'' (node_view t') (root_id (t_manifest t')) k = lookup l (node_view t) rid k"
        "node_view t' (root_id (t_manifest t')) = Inr m" "buffer m = []" "write_buf t' = write_buf t" "seq t' = seq t"
        "opts t' = opts t" "rid \<noteq> 0 \<longrightarrow> root_id (t_manifest t') \<noteq> 0" unfolding reroots_def rid by blast
      have "num_children n > 0" using leaf(1) Suc by (simp add: word_neq_0_conv)
      then show ?thesis
        using full leaf Suc t' r by (intro exI [of _ l''] exI [of _ t'] exI [of _ m]) simp
    qed
  qed
qed

lemma gt_inv_round:
  assumes inv: "gt_inv l t" and quiet: "quiet_round t"
  shows "\<exists>l'. gt_inv l' (thread_round (Suc (Suc (Suc fuel))) t) \<and> contents (thread_round (Suc (Suc (Suc fuel))) t) = contents t \<and>
    seq (thread_round (Suc (Suc (Suc fuel))) t) = seq t \<and> opts (thread_round (Suc (Suc (Suc fuel))) t) = opts t \<and>
    sl_entries (write_buf (thread_round (Suc (Suc (Suc fuel))) t)) = [] \<and>
    (durable t \<longrightarrow> durable (thread_round (Suc (Suc (Suc fuel))) t))"
proof -
  let ?rid = "root_id (t_manifest t)" and ?buf = "sl_entries (write_buf t)"
  note D = gt_invD [OF inv]
  obtain n where n: "node_view t ?rid = Inr n" "sound_node ?rid n" "length (buffer n) + length ?buf < unat (seq t)"
    using gt_inv_root [OF inv] by metis
  let ?t0 = "t\<lparr>flush_in_progress := True\<rparr>" and ?n1 = "push_pending ?buf n"
  from drain_ok [of ?t0] D(1) obtain sl where sl: "drain_write_buf ?t0 = (Inr ?buf, ?t0\<lparr>write_buf := sl\<rparr>)"
    "sl_wf sl" "sl_entries sl = []" by (auto simp: tree_inv_def)
  let ?t1 = "?t0\<lparr>write_buf := sl\<rparr>"
  have v1: "node_view ?t1 = node_view t" by (rule node_view_cong) simp_all
  have ok1: "store_ok ?t1" using D(2) by (simp add: store_ok_def)
  from merge_step [OF ok1] n(1) v1 obtain t2 where t2: "merge_into_root ?buf ?t1 = (Inr ?n1, t2)"
    "evolves 0 {?rid} ?t1 t2" "map_of (cache t2) ?rid = Some ?n1" "node_view t2 = (node_view t)(?rid := Inr ?n1)"
    "t_manifest t2 = t_manifest t" "tdisk t2 = tdisk t" by fastforce
  note E2 = evolvesD [OF t2(2)]
  note S1 = push_pending_sound [OF n(2) D(6)]
  note P = gt_inv_push [OF inv n(1) S1(1) root_holds_push t2(4)]
  have len: "length (buffer ?n1) < unat (seq t)" using n(3) by (simp add: push_pending_def)
  have nx: "next_id (t_manifest t2) = next_id (t_manifest t)" using E2(9) by (simp add: word_unat_eq_iff)
  have room: "unat (next_id (t_manifest t2)) + 4 * MAX_FANOUT < 2 ^ 64"
    and q: "buffer_full ?n1 \<Longrightarrow> if num_children ?n1 = 0 then clean_cut (buffer ?n1) else calm_flush (node_view t2) ?n1"
    using quiet n(1) nx t2(4) by (auto simp: quiet_round_def Let_def)
  have len2: "length (buffer ?n1) < 2 ^ 30" and rid2: "?rid = root_id (t_manifest t2)" using len D(8) E2(8) by simp_all
  from restructure_step [OF E2(1) P(1) t2(3) rid2 len2 room q, of fuel] obtain l' t3 m where t3: "(if buffer_full ?n1 then
              (if is_leaf ?n1 \<and> num_children ?n1 = 0 then
                 bind (find_path (Suc (Suc (Suc fuel))) (if buffer ?n1 = [] then [] else key (hd (buffer ?n1)))) (split_leaf (Suc (Suc (Suc fuel))) ?rid)
               else if num_children ?n1 > 0 then do_flush (Suc (Suc (Suc fuel))) ?rid else ret ())
            else ret ()) t2 = (Inr (), t3)"
    "store_ok t3" "gtree l' (node_view t3) (root_id (t_manifest t3))"
    "\<forall>k. lookup l' (node_view t3) (root_id (t_manifest t3)) k = lookup l (node_view t2) ?rid k"
    "node_view t3 (root_id (t_manifest t3)) = Inr m"
    "t3 = t2 \<and> m = ?n1 \<or>
       settles {?rid} t2 t3 \<and> saved t3 \<and> buffer m = [] \<and> (?rid \<noteq> 0 \<longrightarrow> root_id (t_manifest t3) \<noteq> 0)"
    "write_buf t3 = write_buf t2" "seq t3 = seq t2" "opts t3 = opts t2" by blast
  let ?t' = "t3\<lparr>root_buf_bytes := sl_bytes (write_buf t3), flush_requested := False, flush_in_progress := False\<rparr>"
  have run: "thread_round (Suc (Suc (Suc fuel))) t = ?t'"
    using sl(1) t2(1) t3(1) by (simp add: thread_round_def flush_round_def Let_def bind_Inr modify_def)
  have v': "node_view ?t' = node_view t3" by (rule node_view_cong) simp_all
  have "store_ok ?t'" using t3(2) by (simp add: store_ok_def)
  moreover have "length (buffer m) < unat (seq t)" "\<forall>f\<in>set (buffer m). seq_no f < seq t"
    using t3(6) len P(3) by auto
  moreover have "node_view t j = Inr x \<or> node_sane x" if x: "node_view t3 j = Inr x" for j x
  proof -
    have "node_view t2 j = Inr x \<or> sound_node j x" using t3(6) x settlesD(1) [of _ t2 t3] by blast
    then show ?thesis using t2(4) S1(1) by (auto simp: sound_node_def split: if_splits)
  qed
  ultimately have "gt_inv l' ?t'" "contents ?t' = contents t"
    by (intro gt_inv_drained [OF inv, of ?t' l' m]; use sl t3 E2 P(2) v' in simp)+
  moreover have "durable ?t'" if d: "durable t"
  proof -
    have "length (buffer n) + length ?buf < 2 ^ 32" using n(3) D(8) by simp
    from durable_merged [OF d n(1) this t2(5,6) _ t2(4)] E2(7)
    have M: "all_small t2" "saved t2" "filed {?rid} t2" "buffer ?n1 = [] \<Longrightarrow> filed {} t2" by simp_all
    have "durable t3" using t3(6)
    proof
      assume "t3 = t2 \<and> m = ?n1"
      then show ?thesis
        using M t2(4,5) E2(5) sl(3) durableD(6) [OF d] durableD(7) [OF d n(1)] by (cases "buffer ?n1 = []") (simp_all add: durable_def filed_def)
    next
      assume "settles {?rid} t2 t3 \<and> saved t3 \<and> buffer m = [] \<and> (?rid \<noteq> 0 \<longrightarrow> root_id (t_manifest t3) \<noteq> 0)"
      then show ?thesis
        using settlesD(2,3) [of _ t2 t3] M t3(7) E2(5) sl(3) durableD(6) [OF d] by (intro durableI) auto
    qed
    then show ?thesis using durable_cong [of ?t' t3] v' by simp
  qed
  ultimately show ?thesis unfolding run using t3(7-9) E2(5-7) sl by auto
qed

end
