(* ===== verification/Store_Runs.thy ===== *)
theory Store_Runs
  imports Tree_Rounds
begin

text \<open>
  Runs of a store: the calls of a client and the rounds of the flush thread in any order, from an
  empty directory on. The states a run can reach are an inductive relation that carries the map the
  calls describe; by rule induction every reachable state satisfies \<open>gt_inv\<close> and answers like the map,
  through splits of the root and flushes down the tree.
\<close>

subsection \<open>Opening\<close>

lemma gt_inv_open:
  assumes "files d (data_dir os @ lit ''/manifest'') = None" "\<forall>p. openable d p"
  shows "\<exists>n t. tree_open os d = (Inr (), t) \<and> gt_inv 0 t \<and> durable t \<and> contents t = Map.empty \<and> seq t = 1 \<and>
    opts t = os \<and> sl_entries (write_buf t) = [] \<and> node_view t (root_id (t_manifest t)) = Inr n \<and>
    buffer n = [] \<and> num_children n = 0 \<and> next_id (t_manifest t) = 2"
proof -
  from tree_open_fresh [OF assms] obtain t where
    t: "tree_open os d = (Inr (), t)" "tree_inv t" "contents t = Map.empty" by blast
  from tree_open_state [OF assms] t(1) obtain n where
    m: "t_manifest t = set_root 1 (register_node 1 0 (node_path_in (data_dir os) 1) ((new_manifest (data_dir os))\<lparr>next_id := 2\<rparr>))"
      "opts t = os" "cache t = [(1, n)]" "write_buf t = sl_new" "seq t = 1" "\<forall>p. openable (tdisk t) p"
    and n: "nid n = 1" "level n = 0" "buffer n = []" "num_children n = 0" "length (child_ids n) = MAX_FANOUT"
      "entries_loaded n" "bloom_covers n" "pred_option bloom_fits (bloom_of n)" "krange n = buffer_range []"
      "files (tdisk t) (node_path_in (data_dir os) 1) = Some (node_image n)"
      "files (tdisk t) (manifest_path (t_manifest t)) = Some (manifest_text (t_manifest t))" by auto
  have r: "root_id (t_manifest t) = 1" by (simp add: m(1) set_root_def)
  have v: "node_view t 1 = Inr n" by (simp add: node_view_def m(3))
  have "store_ok t"
    using m by (simp add: store_ok_def manifest_wf_def set_root_def register_node_def new_manifest_def)
  moreover have "gtree 0 (node_view t) 1"
    using v n by (auto simp: sound_node_def node_sane_def bloom_covers_def)
  moreover have "sl_entries (write_buf t) = []" using skip_buffer.inv_fresh by (simp add: m(4))
  moreover have only: "j = 1 \<and> x = n" if "node_view t j = Inr x" for j x
    using that v by (cases "j = 1") (auto simp: node_view_def m(1,3) set_root_def node_path_def register_node_def new_manifest_def)
  have "live (t_manifest t) 1 \<noteq> None" by (simp add: m(1) live_def set_root_def register_node_def new_manifest_def)
  then have "filed {} t" "all_small t"
    using only n(3,9,10) m(2) by (auto simp: filed_def on_file_def all_small_def small_node_def buffer_range_def)
  moreover have "saved t"
    using n(11) \<open>store_ok t\<close> store_okD(1-3) [of t] unfolding saved_def by (intro exI [of _ "t_manifest t"]) simp
  ultimately have "gt_inv 0 t" "durable t"
    using t(2) r v n(3) m(5) by (simp_all add: gt_inv_def newer_than_def durableI)
  moreover have "next_id (t_manifest t) = 2" by (simp add: m(1) set_root_def register_node_def)
  ultimately show ?thesis using t(1,3) m(2,5) n r v \<open>sl_entries (write_buf t) = []\<close> by auto
qed

subsection \<open>Reachable states\<close>

text \<open>Keys are not empty, and keys and values fit the 32-bit length fields of the file format.\<close>

fun valid_command :: "command \<Rightarrow> bool" where
  "valid_command (Put k v) = (k \<noteq> [] \<and> short k \<and> short v)"
| "valid_command (Del k) = (k \<noteq> [] \<and> short k)"
| "valid_command (Get k) = True"
| "valid_command Flush = True"

inductive reaches :: "options \<Rightarrow> disk \<Rightarrow> tree \<Rightarrow> (bytes \<rightharpoonup> bytes) \<Rightarrow> bool" for os d where
  opened: "tree_open os d = (Inr (), t) \<Longrightarrow> reaches os d t Map.empty"
| called: "reaches os d t s \<Longrightarrow> valid_command c \<Longrightarrow> unat (seq t) < 2 ^ 30 \<Longrightarrow>
    reaches os d (run_command c t) (apply_command c s)"
| flushed: "reaches os d t s \<Longrightarrow> quiet_round t \<Longrightarrow> reaches os d (thread_round FUEL t) s"

lemma gt_inv_command:
  assumes inv: "gt_inv l t" and c: "valid_command c" "unat (seq t) < 2 ^ 30"
  shows "gt_inv l (run_command c t) \<and> contents (run_command c t) = apply_command c (contents t) \<and>
    opts (run_command c t) = opts t \<and> (durable t \<longrightarrow> durable (run_command c t))"
proof (cases c)
  case (Put k v)
  with c gt_inv_write [OF inv, of k v False] show ?thesis by (auto simp: tree_insert_def)
next
  case (Del k)
  with c gt_inv_write [OF inv, of k "[]" True] show ?thesis by (auto simp: tree_remove_def)
next
  case (Get k)
  from tree_get_contents [OF gt_invD(1) [OF inv], of k] obtain t' where
    t': "tree_get FUEL k t = (Inr (contents t k), t')" "same_but_cache t t'" by blast
  note sel = same_but_cache_sel [OF t'(2)]
  have "durable t' = durable t" by (rule durable_cong) (use sel in simp_all)
  with gt_inv_cache [OF inv t'(2)] tree_inv_cache [OF gt_invD(1) [OF inv] t'(2)] Get t'(1) sel
  show ?thesis by simp
next
  case Flush
  with gt_inv_flush [OF inv] durableD(6) [of t] show ?thesis by (auto intro: durableI)
qed

lemma FUEL_Suc: "FUEL = Suc (FUEL - 1)" and FUEL_Suc3: "FUEL = Suc (Suc (Suc (FUEL - 3)))"
  by (simp_all add: FUEL_def)

lemma reaches_inv:
  assumes "reaches os d t s" "files d (data_dir os @ lit ''/manifest'') = None" "\<forall>p. openable d p"
  shows "\<exists>l. gt_inv l t \<and> durable t \<and> contents t = s \<and> opts t = os"
  using assms(1)
proof induction
  case (opened t)
  with gt_inv_open [OF assms(2,3)] show ?case by auto
next
  case (called t s c)
  then show ?case using gt_inv_command by blast
next
  case (flushed t s)
  then show ?case using gt_inv_round [of _ t "FUEL - 3"] FUEL_Suc3 by auto
qed

subsection \<open>Two writes, and the round that splits the root\<close>

lemma two_more_writes:
  fixes v1 v2 :: bytes
  assumes t: "reaches os d t s" "gt_inv l t" "sl_entries (write_buf t) = []" "unat (seq t) + 1 < 2 ^ 30"
    and k: "k1 \<noteq> []" "k2 \<noteq> []" "short k1" "short k2" "short v1" "short v2"
  defines "e1 \<equiv> \<lparr>key = k1, val = v1, seq_no = seq t, deleted = False\<rparr> :: entry"
    and "e2 \<equiv> \<lparr>key = k2, val = v2, seq_no = seq t + 1, deleted = False\<rparr> :: entry"
  shows "\<exists>t2. reaches os d t2 (s(k1 \<mapsto> v1, k2 \<mapsto> v2)) \<and> gt_inv l t2 \<and> contents t2 = (contents t)(k1 \<mapsto> v1, k2 \<mapsto> v2) \<and>
    sl_entries (write_buf t2) = insert_stable entry_less e2 [e1] \<and> t_manifest t2 = t_manifest t \<and>
    unat (seq t2) = unat (seq t) + 2 \<and> node_view t2 = node_view t"
proof -
  from gt_inv_write [OF t(2) k(1), of v1 False] t(4) obtain t1 where
    t1: "buffer_write k1 v1 False t = (Inr (), t1)" "gt_inv l t1" "contents t1 = (contents t)(k1 \<mapsto> v1)"
      "unat (seq t1) = unat (seq t) + 1" by auto
  from gt_inv_write [OF t1(2) k(2), of v2 False] t(4) t1(3,4) obtain t2 where
    t2: "buffer_write k2 v2 False t1 = (Inr (), t2)" "gt_inv l t2" "contents t2 = (contents t)(k1 \<mapsto> v1, k2 \<mapsto> v2)"
      "unat (seq t2) = unat (seq t) + 2" by auto
  have "seq t1 = seq t + 1" using t1(4) t(4) by (simp add: word_unat_eq_iff unat_word_ariths)
  moreover have wf: "sl_wf (write_buf t)" "sl_wf (write_buf t1)"
    using gt_invD(1) [OF t(2)] gt_invD(1) [OF t1(2)] by (simp_all add: tree_inv_def)
  ultimately have w: "sl_entries (write_buf t2) = insert_stable entry_less e2 [e1]"
    "t_manifest t2 = t_manifest t" "tdisk t2 = tdisk t" "cache t2 = cache t"
    using buffer_write_ok [OF wf(1), of k1 v1 False] buffer_write_ok [OF wf(2), of k2 v2 False] t(3) t1(1) t2(1)
    by (auto simp: e1_def e2_def)
  have "reaches os d t1 (s(k1 \<mapsto> v1))"
    using called [OF t(1), of "Put k1 v1"] k(1,3,5) t(4) t1(1) by (simp add: tree_insert_def)
  from called [OF this, of "Put k2 v2"] k(2,4,6) t(4) t1(4) t2(1)
  have "reaches os d t2 (s(k1 \<mapsto> v1, k2 \<mapsto> v2))" by (simp add: tree_insert_def)
  moreover have "node_view t2 = node_view t" using w by (intro node_view_cong) simp_all
  ultimately show ?thesis using t2(2-4) w by (intro exI [of _ t2]) simp
qed

lemma two_writes_reach:
  fixes v1 v2 :: bytes
  assumes "files d (data_dir os @ lit ''/manifest'') = None" "\<forall>p. openable d p" "k1 \<noteq> []" "k2 \<noteq> []"
    "short k1" "short k2" "short v1" "short v2"
  defines "e1 \<equiv> \<lparr>key = k1, val = v1, seq_no = 1, deleted = False\<rparr> :: entry"
    and "e2 \<equiv> \<lparr>key = k2, val = v2, seq_no = 2, deleted = False\<rparr> :: entry"
  shows "\<exists>n t. reaches os d t [k1 \<mapsto> v1, k2 \<mapsto> v2] \<and> gt_inv 0 t \<and> contents t = [k1 \<mapsto> v1, k2 \<mapsto> v2] \<and>
    sl_entries (write_buf t) = insert_stable entry_less e2 [e1] \<and>
    node_view t (root_id (t_manifest t)) = Inr n \<and> buffer n = [] \<and> num_children n = 0 \<and>
    next_id (t_manifest t) = 2 \<and> seq t = 3"
proof -
  obtain n t where t: "tree_open os d = (Inr (), t)" "gt_inv 0 t" "contents t = Map.empty" "seq t = 1"
    "sl_entries (write_buf t) = []" "node_view t (root_id (t_manifest t)) = Inr n" "buffer n = []"
    "num_children n = 0" "next_id (t_manifest t) = 2"
    using gt_inv_open [OF assms(1,2)] by auto
  from two_more_writes [OF opened [OF t(1)] t(2,5) _ assms(3-8)] t(3,4) obtain t2 where
    t2: "reaches os d t2 [k1 \<mapsto> v1, k2 \<mapsto> v2]" "gt_inv 0 t2" "contents t2 = [k1 \<mapsto> v1, k2 \<mapsto> v2]"
      "sl_entries (write_buf t2) = insert_stable entry_less e2 [e1]" "t_manifest t2 = t_manifest t"
      "unat (seq t2) = 3" "node_view t2 = node_view t"
    by (auto simp: e1_def e2_def)
  have "seq t2 = 3" using t2(6) by (simp add: word_unat_eq_iff)
  then show ?thesis using t(6-9) t2 by (intro exI [of _ n] exI [of _ t2]) simp
qed

text \<open>The round of a store whose root leaf is full, whether or not the cut is clean.\<close>

lemma leaf_round:
  fixes t :: tree
  assumes inv: "gt_inv 0 t" and n: "node_view t (root_id (t_manifest t)) = Inr n"
    and room: "unat (next_id (t_manifest t)) + MAX_FANOUT < 2 ^ 64"
  defines "es \<equiv> buffer (push_pending (sl_entries (write_buf t)) n)"
  assumes full: "buffer_full (push_pending (sl_entries (write_buf t)) n)" "2 \<le> length es"
  shows "\<exists>a b t'. thread_round FUEL t = t' \<and> sl_wf (write_buf t') \<and> sl_entries (write_buf t') = [] \<and>
    seq t' = seq t \<and> unat (next_id (t_manifest t')) = unat (next_id (t_manifest t)) + 3 \<and>
    split_nodes (node_view t') (root_id (t_manifest t')) a b (take (length es div 2) es) (drop (length es div 2) es)"
proof -
  let ?rid = "root_id (t_manifest t)" and ?buf = "sl_entries (write_buf t)"
  let ?t0 = "t\<lparr>flush_in_progress := True\<rparr>" and ?n = "push_pending ?buf n"
  note D = gt_invD [OF inv]
  have sn: "sound_node ?rid n" "level n = 0" "num_children n = 0" using D(3) n by auto
  from drain_ok [of ?t0] D(1) obtain sl where
    sl: "drain_write_buf ?t0 = (Inr ?buf, ?t0\<lparr>write_buf := sl\<rparr>)" "sl_wf sl" "sl_entries sl = []"
    by (auto simp: tree_inv_def)
  let ?t1 = "?t0\<lparr>write_buf := sl\<rparr>"
  have ok1: "store_ok ?t1" using D(2) by (simp add: store_ok_def)
  have v1: "node_view ?t1 = node_view t" by (rule node_view_cong) simp_all
  from merge_step [OF ok1, of n ?buf] n v1 obtain t2 where
    t2: "merge_into_root ?buf ?t1 = (Inr ?n, t2)" "evolves 0 {?rid} ?t1 t2" "map_of (cache t2) ?rid = Some ?n"
    by auto
  note E = evolvesD [OF t2(2)] and S = push_pending_sound [OF sn(1) D(6)]
  have n2: "node_view t2 ?rid = Inr ?n" "gtree 0 (node_view t2) ?rid"
    using cached_view [OF t2(3)] S sn(2,3) by auto
  have r2: "root_id (t_manifest t2) = ?rid" "unat (next_id (t_manifest t2)) + 3 < 2 ^ 64"
    using E(8,9) room by (simp_all add: MAX_FANOUT_def)
  have "length es < 2 ^ 30" using D(7,8) n by (simp add: es_def push_pending_def)
  from split_root_nodes [OF E(1) n2(2,1) full(2) [unfolded es_def] this [unfolded es_def] r2(2), of FUEL] obtain a b t3 where
    t3: "split_leaf FUEL ?rid [?rid] t2 = (Inr (), t3)" "write_buf t3 = write_buf t2"
      "seq t3 = seq t2" "unat (next_id (t_manifest t3)) = unat (next_id (t_manifest t2)) + 3"
      "split_nodes (node_view t3) (root_id (t_manifest t3)) a b (take (length es div 2) es) (drop (length es div 2) es)"
    unfolding es_def by blast
  let ?t' = "t3\<lparr>root_buf_bytes := sl_bytes (write_buf t3), flush_requested := False, flush_in_progress := False\<rparr>"
  have "is_leaf ?n" "num_children ?n = 0" using S(3,4) sn(2,3) by (simp_all add: is_leaf_def)
  then have "thread_round FUEL t = ?t'"
    using sl(1) t2(1,3) t3(1) full(1) r2(1) find_path_leaf [of t2 ?n "FUEL - 1"] FUEL_Suc
    by (simp add: thread_round_def flush_round_def Let_def bind_Inr modify_def)
  moreover have "node_view ?t' = node_view t3" by (rule node_view_cong) simp_all
  ultimately show ?thesis using t3(2-5) E(5,6,9) sl by (intro exI [of _ a] exI [of _ b] exI [of _ ?t']) simp
qed

subsection \<open>Properties\<close>

text \<open>
  C1. The store is a map. In every state reached from an empty directory by valid calls and quiet
  rounds of the flush thread, in any order, the nodes form a search tree and \<^verbatim>\<open>get\<close> returns for
  every key what the calls leave in a map.
\<close>

theorem store_runs_implement_map:
  assumes "files d (data_dir os @ lit ''/manifest'') = None" and "\<forall>p. openable d p"
    and "reaches os d t s"
  shows "(\<exists>l. gtree l (node_view t) (root_id (t_manifest t))) \<and> (\<exists>t'. tree_get FUEL k t = (Inr (s k), t'))"
proof -
  from reaches_inv [OF assms(3,1,2)] obtain l where l: "gt_inv l t" "contents t = s" by blast
  from tree_get_contents [OF gt_invD(1) [OF l(1)], of k] gt_invD(3) [OF l(1)] l(2) show ?thesis by auto
qed

text \<open>Two values of two megabytes each fill the root; the round splits it between their keys.\<close>

definition half_full :: bytes where
  "half_full = replicate (2 ^ 21) 7"

definition put_of :: "bytes \<Rightarrow> 64 word \<Rightarrow> entry" where
  "put_of k s = \<lparr>key = k, val = half_full, seq_no = s, deleted = False\<rparr>"

lemma put_of_sel [simp]: "key (put_of k s) = k" "val (put_of k s) = half_full" "deleted (put_of k s) = False"
  by (simp_all add: put_of_def)

lemma two_puts_merged:
  assumes "buffer n = []"
  shows "buffer (push_pending [put_of [1] i, put_of [2] j] n) = [put_of [1] i, put_of [2] j]"
    "buffer_full (push_pending [put_of [1] i, put_of [2] j] n)"
proof -
  have "entry_less (put_of [1] i) (put_of [2] j)" "\<not> entry_less (put_of [2] j) (put_of [1] i)"
    by (simp_all add: entry_less_def)
  then show b: "buffer (push_pending [put_of [1] i, put_of [2] j] n) = [put_of [1] i, put_of [2] j]"
    using assms by (simp add: push_pending_def)
  then show "buffer_full (push_pending [put_of [1] i, put_of [2] j] n)"
    by (simp add: buffer_full_def buffer_size_bytes_def BUFFER_THRESHOLD_def half_full_def)
qed

lemma two_puts_state:
  "\<exists>t n. reaches demo_options demo_disk t [[1] \<mapsto> half_full, [2] \<mapsto> half_full] \<and> quiet_round t \<and> gt_inv 0 t \<and>
     node_view t (root_id (t_manifest t)) = Inr n \<and> buffer n = [] \<and>
     sl_entries (write_buf t) = [put_of [1] 1, put_of [2] 2] \<and> next_id (t_manifest t) = 2 \<and> seq t = 3"
proof -
  have "entry_less (put_of [1] 1) (put_of [2] 2)" "\<not> entry_less (put_of [2] 2) (put_of [1] 1)"
    by (simp_all add: entry_less_def)
  with two_writes_reach [of demo_disk demo_options "[1]" "[2]" half_full half_full]
  obtain n t where t: "reaches demo_options demo_disk t [[1] \<mapsto> half_full, [2] \<mapsto> half_full]" "gt_inv 0 t"
    "sl_entries (write_buf t) = [put_of [1] 1, put_of [2] 2]" "node_view t (root_id (t_manifest t)) = Inr n"
    "buffer n = []" "num_children n = 0" "next_id (t_manifest t) = 2" "seq t = 3"
    by (auto simp: half_full_def put_of_def)
  have "quiet_round t"
    using t(3-7) two_puts_merged(1) [OF t(5)] by (simp add: quiet_round_def push_pending_def clean_cut_def MAX_FANOUT_def)
  then show ?thesis using t by blast
qed

lemma two_puts_reach:
  "\<exists>t. reaches demo_options demo_disk t [[1] \<mapsto> half_full, [2] \<mapsto> half_full] \<and> quiet_round t \<and>
     (\<exists>n. gt_inv 0 t \<and> node_view t (root_id (t_manifest t)) = Inr n \<and>
        buffer_full (push_pending (sl_entries (write_buf t)) n))"
  using two_puts_state two_puts_merged(2) by metis

lemma split_puts_state:
  "\<exists>t l a b. reaches demo_options demo_disk t [[1] \<mapsto> half_full, [2] \<mapsto> half_full] \<and> gt_inv l t \<and>
     sl_entries (write_buf t) = [] \<and> seq t = 3 \<and> unat (next_id (t_manifest t)) = 5 \<and>
     split_nodes (node_view t) (root_id (t_manifest t)) a b [put_of [1] 1] [put_of [2] 2]"
proof -
  from two_puts_state obtain t n where t: "reaches demo_options demo_disk t [[1] \<mapsto> half_full, [2] \<mapsto> half_full]"
    "quiet_round t" "gt_inv 0 t" "node_view t (root_id (t_manifest t)) = Inr n" "buffer n = []"
    "sl_entries (write_buf t) = [put_of [1] 1, put_of [2] 2]" "next_id (t_manifest t) = 2" "seq t = 3" by blast
  note r = flushed [OF t(1,2)]
  from leaf_round [OF t(3,4)] two_puts_merged [OF t(5), of 1 2] t(6-8) obtain a b where
    s: "sl_entries (write_buf (thread_round FUEL t)) = []" "seq (thread_round FUEL t) = 3"
      "unat (next_id (t_manifest (thread_round FUEL t))) = 5"
      "split_nodes (node_view (thread_round FUEL t)) (root_id (t_manifest (thread_round FUEL t))) a b [put_of [1] 1] [put_of [2] 2]"
    by (auto simp: MAX_FANOUT_def)
  from gt_inv_round [OF t(3,2), of "FUEL - 3"] FUEL_Suc3 obtain l where "gt_inv l (thread_round FUEL t)" by auto
  with r s show ?thesis by blast
qed

theorem store_runs_implement_map_witness:
  "\<exists>t t'. reaches demo_options demo_disk t [[1] \<mapsto> half_full, [2] \<mapsto> half_full] \<and>
     tree_get FUEL [1] t = (Inr (Some half_full), t')"
proof -
  from two_puts_reach obtain t where t: "reaches demo_options demo_disk t [[1] \<mapsto> half_full, [2] \<mapsto> half_full]"
    "quiet_round t" by blast
  note r = flushed [OF t]
  from store_runs_implement_map [OF _ _ r, of "[1]"] r show ?thesis by auto
qed

text \<open>
  C4. A quiet round of the flush thread, on a store that satisfies the invariant: it empties the write
  buffer, resets its flags, keeps the invariant (growing the tree when the root was a full leaf) and
  changes the answer of no \<^verbatim>\<open>get\<close>.
\<close>

theorem round_preserves_contents:
  assumes "gt_inv l t" and "quiet_round t"
  shows "\<exists>l'. gt_inv l' (thread_round FUEL t) \<and> sl_entries (write_buf (thread_round FUEL t)) = [] \<and>
    \<not> flush_requested (thread_round FUEL t) \<and> \<not> flush_in_progress (thread_round FUEL t) \<and>
    (\<forall>k. fst (tree_get FUEL k (thread_round FUEL t)) = fst (tree_get FUEL k t))"
proof -
  from gt_inv_round [OF assms, of "FUEL - 3"] FUEL_Suc3 obtain l' where
    l': "gt_inv l' (thread_round FUEL t)" "contents (thread_round FUEL t) = contents t"
    "sl_entries (write_buf (thread_round FUEL t)) = []" by auto
  have "fst (tree_get FUEL k (thread_round FUEL t)) = fst (tree_get FUEL k t)" for k
    using tree_get_contents [OF gt_invD(1) [OF l'(1)], of k] tree_get_contents [OF gt_invD(1) [OF assms(1)], of k]
      l'(2) by auto
  with l'(1,3) show ?thesis by (auto simp: thread_round_def)
qed

theorem round_preserves_contents_witness:
  "\<exists>t l. reaches demo_options demo_disk t [[1] \<mapsto> half_full, [2] \<mapsto> half_full] \<and> gt_inv l (thread_round FUEL t)"
  using two_puts_reach round_preserves_contents [of 0] by blast

text \<open>
  C28. A split can bring back an old value. Two writes of one key that together fill the root: the cut
  falls between the two versions, the search for the key goes to the right leaf, and after the round
  \<^verbatim>\<open>get\<close> returns the first value instead of the second.
\<close>

theorem split_returns_stale_value:
  assumes "files d (data_dir os @ lit ''/manifest'') = None" and "\<forall>p. openable d p"
    and "k \<noteq> []" and "short k" and "short v1" and "short v2"
    and "2 * length k + length v1 + length v2 + 18 \<ge> BUFFER_THRESHOLD"
  shows "\<exists>t. reaches os d t [k \<mapsto> v2] \<and> fst (tree_get FUEL k t) = Inr (Some v2) \<and>
    fst (tree_get FUEL k (thread_round FUEL t)) = Inr (Some v1)"
proof -
  let ?e1 = "\<lparr>key = k, val = v1, seq_no = 1, deleted = False\<rparr> :: entry"
  let ?e2 = "\<lparr>key = k, val = v2, seq_no = 2, deleted = False\<rparr> :: entry"
  have less: "entry_less ?e2 ?e1" "\<not> entry_less ?e1 ?e2" by (simp_all add: entry_less_def)
  obtain n t where t: "reaches os d t [k \<mapsto> v2]" "gt_inv 0 t" "contents t = [k \<mapsto> v2]"
    "sl_entries (write_buf t) = [?e2, ?e1]" "node_view t (root_id (t_manifest t)) = Inr n" "buffer n = []"
    "next_id (t_manifest t) = 2"
    using two_writes_reach [OF assms(1,2,3,3,4,4-6)] less by auto
  have b: "buffer (push_pending [?e2, ?e1] n) = [?e2, ?e1]" using less t(6) by (simp add: push_pending_def)
  then have "buffer_full (push_pending [?e2, ?e1] n)"
    using assms(7) by (simp add: buffer_full_def buffer_size_bytes_def)
  then obtain a c t' where t': "thread_round FUEL t = t'" "sl_wf (write_buf t')" "sl_entries (write_buf t') = []"
    "split_nodes (node_view t') (root_id (t_manifest t')) a c [?e2] [?e1]"
    using leaf_round [OF t(2,5)] b t(4,7) by (auto simp: MAX_FANOUT_def)
  obtain f where f: "FUEL = Suc (Suc f)" by (rule that [of "FUEL - 2"]) (simp add: FUEL_def)
  from split_straddle_get [OF t'(4), of k f]
  have "disk_get FUEL (node_view t') (root_id (t_manifest t')) k = Inr (Some v1)"
    unfolding f by (simp add: visible_def)
  then have "fst (tree_get FUEL k t') = Inr (Some v1)"
    using tree_get_view [OF t'(2), of FUEL k] t'(3) by (auto simp: view_get_def)
  moreover have "fst (tree_get FUEL k t) = Inr (Some v2)"
    using tree_get_contents [OF gt_invD(1) [OF t(2)], of k] t(3) by auto
  ultimately show ?thesis using t(1) t'(1) by auto
qed

theorem split_returns_stale_value_witness:
  "\<exists>t. reaches demo_options demo_disk t [[1] \<mapsto> replicate (2 ^ 21) 8] \<and>
     fst (tree_get FUEL [1] (thread_round FUEL t)) = Inr (Some half_full)"
  using split_returns_stale_value [of demo_disk demo_options "[1]" half_full "replicate (2 ^ 21) 8"]
  by (auto simp: half_full_def BUFFER_THRESHOLD_def)

end
