(* ===== verification/Store_Reopen.thy ===== *)
theory Store_Reopen
  imports Store_Runs
begin

text \<open>
  Durability: what a second process finds. A node file holds everything of a node but the path it was
  loaded from and the place of its sparse index, so the tree of nodes read back from disk searches like
  the tree in memory. With the invariant \<open>durable\<close> of \<open>Tree_Rounds\<close> this gives that a store that was
  flushed or closed and opened again answers like the map the calls describe.
\<close>

subsection \<open>A tree read back from its files\<close>

definition reloaded :: "bytes \<Rightarrow> node_id \<Rightarrow> sst_node \<Rightarrow> sst_node" where
  "reloaded dir i n = stored_node (node_path_in dir i) True n"

lemma reloaded_sel [simp]:
  "nid (reloaded dir i n) = nid n" "level (reloaded dir i n) = level n" "buffer (reloaded dir i n) = buffer n"
  "num_children (reloaded dir i n) = num_children n" "child_ids (reloaded dir i n) = child_ids n"
  "krange (reloaded dir i n) = krange n" "bloom_of (reloaded dir i n) = bloom_of n"
  "entries_loaded (reloaded dir i n)" "kids (reloaded dir i n) = kids n"
  by (simp_all add: reloaded_def stored_node_def kids_def)

lemma reloaded_sound: "sound_node j n \<Longrightarrow> sound_node j (reloaded dir i n)"
  by (auto simp: sound_node_def node_sane_def bloom_covers_def)

definition reload_view :: "bytes \<Rightarrow> view \<Rightarrow> view" where
  "reload_view dir v j = (case v j of Inl e \<Rightarrow> Inl e | Inr n \<Rightarrow> Inr (reloaded dir j n))"

lemma reload_view_node [simp]:
  "buffer (the_node (reload_view dir v) j) = buffer (the_node v j)"
  "kids (the_node (reload_view dir v) j) = kids (the_node v j)"
  "min_of (reload_view dir v) = min_of v"
  by (simp_all add: the_node_def reload_view_def min_of_def fun_eq_iff split: sum.split)

lemma reload_view_route [simp]: "route (reload_view dir v) cs k = route v cs k"
  by (simp add: route_def)

lemma reload_view_lookup [simp]: "lookup l (reload_view dir v) i k = lookup l v i k"
  by (induction l arbitrary: i) (simp_all split: option.split)

lemma gtree_reload_view: "gtree l v i \<Longrightarrow> gtree l (reload_view dir v) i"
proof (induction l arbitrary: i)
  case 0
  then show ?case by (auto simp: reload_view_def reloaded_sound)
next
  case (Suc l)
  then obtain n where n: "v i = Inr n" by auto
  note t = gtree_SucE [OF Suc.prems n]
  have "low_bound l (reload_view dir v) c" if "c \<in> set (kids n)" for c
    using t(6) [OF that] by (simp add: low_bound_def)
  moreover have "reload_view dir v i = Inr (reloaded dir i n)" by (simp add: reload_view_def n)
  moreover have "(\<lambda>j. lookup l (reload_view dir v) (kids n ! j)) = (\<lambda>j. lookup l v (kids n ! j))" by (intro ext) simp
  ultimately show ?case using t reloaded_sound [OF t(1)] Suc.IH by simp
qed

lemma ids_sound: "gtree l v i \<Longrightarrow> j \<in> ids_of l v i \<Longrightarrow> \<exists>m. v j = Inr m \<and> sound_node j m"
proof (induction l arbitrary: i)
  case 0
  then show ?case using gtree_node [of 0 v i] by auto
next
  case (Suc l)
  then obtain n where n: "v i = Inr n" "sound_node i n" by auto
  show ?case
  proof (cases "j = i")
    case False
    then obtain c where "c \<in> set (kids n)" "j \<in> ids_of l v c" using Suc.prems(2) n by auto
    with Suc.IH gtree_SucE(5) [OF Suc.prems(1) n(1)] show ?thesis by blast
  qed (use n in simp)
qed

lemma ids_of_reload_view [simp]: "ids_of l (reload_view dir v) i = ids_of l v i"
  by (induction l arbitrary: i) simp_all

lemma load_image:
  assumes "node_fits n" "files d p = Some (node_image n)"
  shows "bind_res (load_header d p) (load_entries d) = Inr (stored_node p True n)"
proof -
  have "load_header d p = Inr (stored_node p False n)"
    using read_file_image [OF assms] by (simp add: load_header_def)
  moreover have "load_entries d (stored_node p False n) = Inr (stored_node p True n)"
    using read_file_image [OF assms, of True] by (simp add: load_entries_def stored_node_def)
  ultimately show ?thesis by simp
qed

subsection \<open>Opening\<close>

lemma node_path_no_blank:
  assumes "\<forall>b\<in>set dir. \<not> is_space b"
  shows "\<forall>b\<in>set (node_path_in dir i). \<not> is_space b"
  using assms dec_string_digits digit_not_space
  by (auto simp: node_path_in_def to_string_def lit_def is_space_def)

text \<open>The manifest a store has saved, read back from any disk that has the same manifest file.\<close>

lemma saved_load:
  assumes ok: "store_ok t" and sv: "saved t" and dir: "\<forall>b\<in>set (data_dir (opts t)). \<not> is_space b"
    and d: "files d (data_dir (opts t) @ lit ''/manifest'') = files (tdisk t) (data_dir (opts t) @ lit ''/manifest'')"
  obtains m where "manifest_load (new_manifest (data_dir (opts t))) d = Inr m" "root_id m = root_id (t_manifest t)"
    "live m = live (t_manifest t)" "m_dir m = data_dir (opts t)"
proof -
  let ?dir = "data_dir (opts t)"
  from sv obtain m where m: "files (tdisk t) (manifest_path (t_manifest t)) = Some (manifest_text m)" "manifest_wf m"
    "m_dir m = m_dir (t_manifest t)" "\<forall>(i, meta)\<in>set (m_nodes m). m_path meta = node_path_in (m_dir m) i"
    "root_id m = root_id (t_manifest t)" "live m = live (t_manifest t)" unfolding saved_def by blast
  have mdir: "m_dir m = ?dir" using m(3) store_okD(2) [OF ok] by simp
  have "\<forall>(i, meta)\<in>set (m_nodes m). \<forall>b\<in>set (m_path meta). \<not> is_space b"
    using m(4) node_path_no_blank [OF dir] by (fastforce simp: mdir)
  moreover have "files d (manifest_path m) = Some (manifest_text m)"
    using m(1,3) d mdir by (simp add: manifest_path_def)
  ultimately have "manifest_load (new_manifest ?dir) d = Inr m" using manifest_load_text [OF m(2)] mdir by simp
  with that m(5,6) mdir show ?thesis by blast
qed

text \<open>
  A store whose nodes are all on file and whose manifest is saved is found again, with the same
  answers, by \<^verbatim>\<open>open\<close>.
\<close>

lemma reopen_step:
  assumes ok: "store_ok t" and g: "gtree l (node_view t) (root_id (t_manifest t))" "root_id (t_manifest t) \<noteq> 0"
    and disk: "all_small t" "saved t" "filed {} t" and dir: "\<forall>b\<in>set (data_dir (opts t)). \<not> is_space b"
  shows "\<exists>t'. tree_open (opts t) (tdisk t) = (Inr (), t') \<and> sl_wf (write_buf t') \<and> sl_entries (write_buf t') = [] \<and>
    seq t' = 1 \<and> opts t' = opts t \<and> std_paths t' \<and> openable (tdisk t') = openable (tdisk t) \<and> gtree l (node_view t') (root_id (t_manifest t')) \<and>
    (\<forall>k. lookup l (node_view t') (root_id (t_manifest t')) k = lookup l (node_view t) (root_id (t_manifest t)) k)"
proof -
  let ?dir = "data_dir (opts t)" and ?d = "tdisk t" and ?rid = "root_id (t_manifest t)" and ?v = "node_view t"
  from saved_load [OF ok disk(2) dir refl] obtain m where load: "manifest_load (new_manifest ?dir) ?d = Inr m"
    and m: "root_id m = ?rid" "live m = live (t_manifest t)" "m_dir m = ?dir" .
  have read: "bind_res (node_path m j) (\<lambda>p. bind_res (load_header ?d p) (load_entries ?d)) = Inr (reloaded ?dir j n)"
    if "?v j = Inr n" "sound_node j n" for j n
  proof -
    have on: "on_file t j n" "small_node n" using disk(1,3) that(1) by (auto simp: filed_def all_small_def)
    obtain lvl p where p: "live (t_manifest t) j = Some (lvl, p)" using on(1) by (auto simp: on_file_def)
    then have "node_path m j = Inr (node_path_in ?dir j)"
      using store_ok_live(1) [OF ok p] by (simp add: node_path_live m(2))
    then show ?thesis
      using load_image [OF small_node_fits [OF that(2) on(2)]] on(1) by (simp add: on_file_def reloaded_def)
  qed
  obtain r where r: "?v ?rid = Inr r" "sound_node ?rid r" using gtree_node [OF g(1)] by blast
  let ?r = "reloaded ?dir ?rid r"
  let ?t = "(new_tree (opts t) ?d)\<lparr>t_manifest := m, root_buf_bytes := buffer_size_bytes ?r, cache := [(?rid, ?r)]\<rparr>"
  have nid: "nid r = ?rid" using r(2) by (simp add: sound_node_def)
  have "tree_open (opts t) ?d = (Inr (), ?t)"
    using load g(2) m(1) read [OF r] nid
    by (simp add: tree_open_def ensure_root_def new_tree_def Let_def INVALID_NODE_ID_def del: bind_res_eq_Inr)
  moreover have view: "node_view ?t j = reload_view ?dir ?v j" if "j \<in> ids_of l (reload_view ?dir ?v) ?rid" for j
  proof -
    obtain n where n: "?v j = Inr n" "sound_node j n" using ids_sound [OF g(1)] \<open>j \<in> _\<close> by auto
    show ?thesis
    proof (cases "j = ?rid")
      case False
      then show ?thesis
        using read [OF n] n(1) by (simp add: node_view_def reload_view_def new_tree_def del: bind_res_eq_Inr)
    qed (use r n in \<open>simp add: node_view_def reload_view_def\<close>)
  qed
  moreover note gtree_cong [OF gtree_reload_view [OF g(1)] view]
  moreover have "std_paths ?t"
    using m(2,3) store_ok_live(1) [OF ok] by (auto simp: std_paths_def node_path_live new_tree_def split: option.splits)
  ultimately show ?thesis
    using m(1) skip_buffer.inv_fresh by (intro exI [of _ ?t]) (simp add: new_tree_def fun_eq_iff)
qed

lemma reopen_answers:
  assumes inv: "gt_inv l t" "sl_entries (write_buf t) = []" "root_id (t_manifest t) \<noteq> 0"
    and disk: "all_small t" "saved t" "filed {} t" and dir: "\<forall>b\<in>set (data_dir (opts t)). \<not> is_space b"
  shows "\<exists>t'. tree_open (opts t) (tdisk t) = (Inr (), t') \<and> (\<forall>k. fst (tree_get FUEL k t') = Inr (contents t k)) \<and>
    sl_wf (write_buf t') \<and> gtree l (node_view t') (root_id (t_manifest t'))"
proof -
  note D = gt_invD [OF inv(1)]
  from reopen_step [OF D(2,3) inv(3) disk dir] obtain t' where t': "tree_open (opts t) (tdisk t) = (Inr (), t')"
    "sl_wf (write_buf t')" "sl_entries (write_buf t') = []" "gtree l (node_view t') (root_id (t_manifest t'))"
    "\<forall>k. lookup l (node_view t') (root_id (t_manifest t')) k = lookup l (node_view t) (root_id (t_manifest t)) k" by blast
  have "fst (tree_get FUEL k t') = Inr (contents t k)" for k
    using tree_get_view [OF t'(2), of FUEL k] gtree_disk_get [OF t'(4), of k] gt_contents [OF D(3), of k] t'(3,5) inv(2)
    by (auto simp: view_get_def)
  with t' show ?thesis by blast
qed

lemma close_is_flush:
  assumes "gt_inv l t" "root_id (t_manifest t) \<noteq> 0"
  shows "tree_close t = snd (tree_flush (t\<lparr>stopped := True\<rparr>))"
proof -
  let ?t = "t\<lparr>stopped := True\<rparr>"
  from drain_ok [of ?t] gt_invD(1) [OF assms(1)] obtain sl where
    "drain_write_buf ?t = (Inr (sl_entries (write_buf t)), ?t\<lparr>write_buf := sl\<rparr>)" by (auto simp: tree_inv_def)
  then show ?thesis using assms(2) by (simp add: tree_close_def tree_flush_def bind_Inr INVALID_NODE_ID_def)
qed

lemma gt_inv_stopped:
  fixes t :: tree
  defines "t' \<equiv> t\<lparr>stopped := True\<rparr>"
  shows "gt_inv l t' = gt_inv l t" "durable t' = durable t" "contents t' = contents t"
proof -
  have v: "node_view t' = node_view t" unfolding t'_def by (rule node_view_cong) simp_all
  show "durable t' = durable t" using v by (intro durable_cong) (simp_all add: t'_def)
  show "contents t' = contents t" using v by (intro ext) (simp add: t'_def contents_def)
  show "gt_inv l t' = gt_inv l t"
    using v by (simp add: gt_inv_def tree_inv_def store_ok_def std_paths_def t'_def fresh_seq_def)
qed

lemma synced_reopen:
  assumes t: "gt_inv l t" "durable t" and dir: "\<forall>b\<in>set (data_dir (opts t)). \<not> is_space b"
    and t': "t' = snd (tree_flush t) \<or> t' = tree_close t"
  shows "\<exists>t2. tree_open (opts t) (tdisk t') = (Inr (), t2) \<and> (\<forall>k. fst (tree_get FUEL k t2) = Inr (contents t k)) \<and>
    sl_wf (write_buf t2) \<and> gtree l (node_view t2) (root_id (t_manifest t2))"
proof -
  have r: "root_id (t_manifest t) \<noteq> 0" by (rule durableD(6) [OF t(2)])
  obtain t0 where t0: "t' = snd (tree_flush t0)" "gt_inv l t0" "durable t0" "contents t0 = contents t" "opts t0 = opts t"
    "root_id (t_manifest t0) \<noteq> 0"
    using t' t r close_is_flush [OF t(1) r] gt_inv_stopped(1) [of l t] gt_inv_stopped(2,3) [of t] by auto
  from gt_inv_flush [OF t0(2)] t0(1,3-6) have f: "gt_inv l t'" "contents t' = contents t" "sl_entries (write_buf t') = []"
    "opts t' = opts t" "root_id (t_manifest t') \<noteq> 0" "all_small t'" "saved t'" "filed {} t'" by auto
  from reopen_answers [OF f(1,3,5-8)] f(2,4) dir show ?thesis by auto
qed

subsection \<open>An old version wins\<close>

text \<open>
  A write to a store whose root is a leaf with a version of the key that has a sequence number at least as
  high: the new value is visible until the write buffer is flushed and then the old version is back.
\<close>

lemma old_version_wins:
  assumes wf: "sl_wf (write_buf t)" "sl_entries (write_buf t) = []" and s: "seq t = 1" and std: "std_paths t"
    and n: "node_view t (root_id (t_manifest t)) = Inr n" "sound_node (root_id (t_manifest t)) n" "is_leaf n"
    and op: "\<forall>p. openable (tdisk t) p" and f: "newest k (buffer n) = Some f" "1 \<le> seq_no f"
  shows "\<exists>t1 t2. tree_insert k w t = (Inr (), t1) \<and> fst (tree_get FUEL k t1) = Inr (Some w) \<and>
    tree_flush t1 = (Inr (), t2) \<and> fst (tree_get FUEL k t2) = Inr (visible f)"
proof -
  let ?rid = "root_id (t_manifest t)" and ?e = "\<lparr>key = k, val = w, seq_no = seq t, deleted = False\<rparr>"
  from buffer_write_ok [OF wf(1), of k w False] wf(2) obtain t1 where t1:
    "buffer_write k w False t = (Inr (), t1)" "sl_wf (write_buf t1)" "sl_entries (write_buf t1) = [?e]"
    "opts t1 = opts t" "t_manifest t1 = t_manifest t" "tdisk t1 = tdisk t" "cache t1 = cache t" by auto
  have view1: "node_view t1 = node_view t" using t1 by (intro node_view_cong) simp_all
  have "fresh_seq t" using wf(2) by (simp add: fresh_seq_def)
  from buffer_write_get [OF wf(1) this, of k w False FUEL] t1(1) have get1: "fst (tree_get FUEL k t1) = Inr (Some w)" by auto
  have "std_paths t1" using std t1 by (simp add: std_paths_def)
  from tree_flush_view [OF t1(2) this] n op t1(6) obtain t2 n' where t2:
    "tree_flush t1 = (Inr (), t2)" "node_view t2 = (node_view t)(?rid := Inr n')" "root_holds n [?e] n'"
    "root_id (t_manifest t2) = ?rid" "sl_wf (write_buf t2)" "sl_entries (write_buf t2) = []"
    unfolding view1 t1(3,5) by (auto simp: sound_node_def)
  have "newest k (buffer n @ [?e]) = Some f" using f s by (simp add: newest_append)
  from leaf_root_answers [OF n(3) _ t2(3) this] n(2) have "disk_get FUEL (node_view t2) ?rid k = Inr (visible f)"
    unfolding t2(2) by (simp add: sound_node_def)
  then have "fst (tree_get FUEL k t2) = Inr (visible f)"
    using tree_get_view [OF t2(5), of FUEL k] by (auto simp: view_get_def t2(4,6))
  then show ?thesis using t1(1) get1 t2(1) by (auto simp: tree_insert_def)
qed

text \<open>A fresh store after one insert and \<^verbatim>\<open>close\<close>: the entry is in the root, with sequence number 1.\<close>

lemma first_write_closed:
  assumes "files d (data_dir os @ lit ''/manifest'') = None" "\<forall>p. openable d p" "k \<noteq> []" "short k" "short v"
  shows "\<exists>t0 t1 tc nc f. tree_open os d = (Inr (), t0) \<and> tree_insert k v t0 = (Inr (), t1) \<and> tree_close t1 = tc \<and>
    gt_inv 0 tc \<and> opts tc = os \<and> root_id (t_manifest tc) \<noteq> 0 \<and> all_small tc \<and> saved tc \<and> filed {} tc \<and>
    node_view tc (root_id (t_manifest tc)) = Inr nc \<and> newest k (buffer nc) = Some f \<and> visible f = Some v \<and> seq_no f = 1"
proof -
  let ?e = "\<lparr>key = k, val = v, seq_no = 1, deleted = False\<rparr>"
  from gt_inv_open [OF assms(1,2)] obtain n t0 where t0: "tree_open os d = (Inr (), t0)" "gt_inv 0 t0" "durable t0" "seq t0 = 1"
    "opts t0 = os" "sl_entries (write_buf t0) = []" "node_view t0 (root_id (t_manifest t0)) = Inr n" "buffer n = []" by blast
  from gt_inv_write [OF t0(2) assms(3), of v False] t0(3-5) assms(4,5) obtain t1 where t1:
    "buffer_write k v False t0 = (Inr (), t1)" "gt_inv 0 t1" "t_manifest t1 = t_manifest t0" "opts t1 = os" "durable t1" by auto
  have "sl_wf (write_buf t0)" using gt_invD(1) [OF t0(2)] by (simp add: tree_inv_def)
  from buffer_write_ok [OF this, of k v False] t1(1) t0(4,6) have w: "sl_entries (write_buf t1) = [?e]"
    "tdisk t1 = tdisk t0" "cache t1 = cache t0" by auto
  let ?t = "t1\<lparr>stopped := True\<rparr>"
  have inv: "gt_inv 0 ?t" "durable ?t" using gt_inv_stopped(1) [of 0 t1] gt_inv_stopped(2) [of t1] t1(2,5) by simp_all
  have v: "node_view ?t = node_view t0" using w t1(3,4) t0(5) by (intro node_view_cong) simp_all
  have id: "nid n = root_id (t_manifest t0)" "std_paths ?t" "sl_wf (write_buf ?t)"
    using gt_invD(1) [OF t0(2)] gt_invD(1) [OF inv(1)] t0(7) by (auto simp: tree_inv_def)
  from tree_flush_view [OF id(3,2)] id(1) t0(7) t1(3) v obtain r tc nc where tc: "tree_flush ?t = (r, tc)"
    "node_view tc (root_id (t_manifest tc)) = Inr nc" "root_holds n (sl_entries (write_buf t1)) nc" by fastforce
  from gt_inv_flush [OF inv(1)] inv(2) tc(1) durableD(6) [OF inv(2)] t1(4) have F: "gt_inv 0 tc" "opts tc = os"
    "root_id (t_manifest tc) \<noteq> 0" "all_small tc" "saved tc" "filed {} tc" by auto
  have "tree_close t1 = tc" using close_is_flush [OF t1(2)] durableD(6) [OF t1(5)] tc(1) by simp
  moreover have "newest k (buffer nc) = Some ?e" using tc(3) t0(8) by (simp add: root_holds_def w)
  ultimately show ?thesis using t0(1) t1(1) F tc(2)
    by (intro exI [of _ t0] exI [of _ t1] exI [of _ tc] exI [of _ nc] exI [of _ ?e]) (simp add: tree_insert_def visible_def)
qed

subsection \<open>Properties\<close>

text \<open>
  C2. Durability. A store reached from an empty directory by valid calls and quiet rounds, in any order,
  is flushed (or closed): opening the directory again succeeds, and \<^verbatim>\<open>get\<close> on the new store
  returns for every key what the calls left in the map. The directory's name must contain no white
  space.
\<close>

theorem reopen_restores_contents:
  assumes "files d (data_dir os @ lit ''/manifest'') = None" and "\<forall>p. openable d p"
    and "\<forall>b\<in>set (data_dir os). \<not> is_space b" and "reaches os d t s"
    and "t' = snd (tree_flush t) \<or> t' = tree_close t"
  shows "\<exists>t2. tree_open os (tdisk t') = (Inr (), t2) \<and> (\<forall>k. fst (tree_get FUEL k t2) = Inr (s k)) \<and>
    (\<exists>l. gtree l (node_view t2) (root_id (t_manifest t2)))"
proof -
  from reaches_inv [OF assms(4,1,2)] obtain l where t: "gt_inv l t" "durable t" "contents t = s" "opts t = os" by blast
  from synced_reopen [OF t(1,2) _ assms(5)] assms(3) t(3,4) show ?thesis by blast
qed

theorem reopen_restores_contents_witness:
  "\<exists>t t2. reaches demo_options demo_disk t [[1] \<mapsto> half_full, [2] \<mapsto> half_full] \<and>
     tree_open demo_options (tdisk (tree_close t)) = (Inr (), t2) \<and> fst (tree_get FUEL [2] t2) = Inr (Some half_full)"
proof -
  from two_puts_reach obtain t where t: "reaches demo_options demo_disk t [[1] \<mapsto> half_full, [2] \<mapsto> half_full]"
    "quiet_round t" by blast
  note r = flushed [OF t]
  have "\<forall>b\<in>set (data_dir demo_options). \<not> is_space b" by (simp add: demo_options_def lit_def is_space_def)
  from reopen_restores_contents [OF _ _ this r, of "tree_close (thread_round FUEL t)"] r show ?thesis by fastforce
qed

text \<open>
  C34. Sequence numbers restart at 1 in every session, so a write to a reopened store can lose. On a fresh
  directory, for every key and all values: insert, close, open again and insert another value. Until the
  next \<^verbatim>\<open>flush\<close> the new value is found, and after it the old one is back.
\<close>

theorem reopened_write_lost:
  assumes "files d (data_dir os @ lit ''/manifest'') = None" and "\<forall>p. openable d p"
    and "\<forall>b\<in>set (data_dir os). \<not> is_space b" and "k \<noteq> []" and "short k" and "short v"
  shows "\<exists>t0 t1 t2 t3 t4. tree_open os d = (Inr (), t0) \<and> tree_insert k v t0 = (Inr (), t1) \<and>
    tree_open os (tdisk (tree_close t1)) = (Inr (), t2) \<and> tree_insert k w t2 = (Inr (), t3) \<and>
    fst (tree_get FUEL k t3) = Inr (Some w) \<and> tree_flush t3 = (Inr (), t4) \<and> fst (tree_get FUEL k t4) = Inr (Some v)"
proof -
  from first_write_closed [OF assms(1,2,4-6)] obtain t0 t1 tc nc f where t: "tree_open os d = (Inr (), t0)"
      "tree_insert k v t0 = (Inr (), t1)" "tree_close t1 = tc"
    and c: "gt_inv 0 tc" "opts tc = os" "root_id (t_manifest tc) \<noteq> 0" "all_small tc" "saved tc" "filed {} tc"
      "node_view tc (root_id (t_manifest tc)) = Inr nc" "newest k (buffer nc) = Some f" "visible f = Some v" "seq_no f = 1"
    by blast
  note D = gt_invD [OF c(1)]
  from reopen_step [OF D(2,3) c(3-6)] assms(3) c(2,7,8) obtain t2 where t2: "tree_open os (tdisk tc) = (Inr (), t2)"
    "sl_wf (write_buf t2)" "sl_entries (write_buf t2) = []" "seq t2 = 1" "std_paths t2" "openable (tdisk t2) = openable (tdisk tc)"
    "gtree 0 (node_view t2) (root_id (t_manifest t2))" "lookup 0 (node_view t2) (root_id (t_manifest t2)) k = Some f" by auto
  have op: "\<forall>p. openable (tdisk t2) p" using t2(6) store_okD(5) [OF D(2)] by simp
  from old_version_wins [OF t2(2-5) _ _ _ op, of _ k f w] t2(7,8) c(9,10) obtain t3 t4 where
    "tree_insert k w t2 = (Inr (), t3)" "fst (tree_get FUEL k t3) = Inr (Some w)" "tree_flush t3 = (Inr (), t4)"
    "fst (tree_get FUEL k t4) = Inr (Some v)" by (auto simp: sound_node_def is_leaf_def word_unat_eq_iff)
  with t t2(1) show ?thesis by blast
qed

theorem reopened_write_lost_witness:
  "\<exists>t0 t1 t2 t3 t4. tree_open demo_options demo_disk = (Inr (), t0) \<and> tree_insert [5] [7] t0 = (Inr (), t1) \<and>
     tree_open demo_options (tdisk (tree_close t1)) = (Inr (), t2) \<and> tree_insert [5] [8] t2 = (Inr (), t3) \<and>
     tree_flush t3 = (Inr (), t4) \<and> fst (tree_get FUEL [5] t4) = Inr (Some [7])"
proof -
  have "\<forall>b\<in>set (data_dir demo_options). \<not> is_space b" by (simp add: demo_options_def lit_def is_space_def)
  from reopened_write_lost [OF _ _ this, of demo_disk "[5]" "[7]" "[8]"] show ?thesis by auto
qed

end
