(* ===== verification/Bench_Keys.thy ===== *)
theory Bench_Keys
  imports Byte_Codec Mersenne_Twister Sst_Node
begin

text \<open>
  The keys and values the programs under \<^verbatim>\<open>src/bench\<close> write. \<^verbatim>\<open>verify_bench.cpp\<close>,
  \<^verbatim>\<open>latency_bench.cpp\<close> and \<^verbatim>\<open>wa_bench.cpp\<close> number their keys and pad the numerals with zeros;
  \<^verbatim>\<open>bench.cpp\<close> draws letters and digits from \<^verbatim>\<open>std::mt19937\<close>.
\<close>

definition padded_key :: "u64 \<Rightarrow> nat \<Rightarrow> bytes" where
  "padded_key i w = (let s = to_string i in replicate (w - min w (length s)) 48 @ s)"

definition make_value :: "nat \<Rightarrow> bytes" where
  "make_value sz = replicate sz 120"

definition alpha :: bytes where
  "alpha = lit ''abcdefghijklmnopqrstuvwxyz0123456789''"

fun rand_chars :: "nat \<Rightarrow> mt_state \<Rightarrow> bytes \<times> mt_state" where
  "rand_chars 0 rng = ([], rng)"
| "rand_chars (Suc n) rng =
     (case mt_next rng of (x, rng1) \<Rightarrow>
      case rand_chars n rng1 of (s, rng2) \<Rightarrow> (alpha ! (unat x mod length alpha) # s, rng2))"

definition rand_key :: "mt_state \<Rightarrow> nat \<Rightarrow> bytes \<times> mt_state" where
  "rand_key rng len = rand_chars len rng"

subsection \<open>Decimal numerals of one length\<close>

lemma dec_value_append: "dec_value (xs @ ys) = dec_value xs * 10 ^ length ys + dec_value ys"
proof (induction ys rule: rev_induct)
  case Nil
  then show ?case by (simp add: dec_value_def)
next
  case (snoc y ys)
  have "dec_value (xs @ ys @ [y]) = dec_value (xs @ ys) * 10 + (unat y - 48)"
    using dec_value_snoc [of "xs @ ys" y] by simp
  with snoc show ?case by (simp add: dec_value_snoc algebra_simps)
qed

lemma dec_value_zeros: "dec_value (replicate n 48 @ s) = dec_value s"
proof -
  have "dec_value (replicate n 48) = 0" by (induction n) (simp_all add: dec_value_def)
  then show ?thesis by (simp add: dec_value_append)
qed

lemma dec_value_bound: "\<forall>b\<in>set s. is_digit b \<Longrightarrow> dec_value s < 10 ^ length s"
proof (induction s rule: rev_induct)
  case (snoc b s)
  then have "unat b \<le> 57" by (auto simp: is_digit_def word_le_nat_alt)
  with snoc show ?case by (auto simp: dec_value_snoc)
qed (simp add: dec_value_def)

lemma dec_value_Cons: "dec_value (b # s) = (unat b - 48) * 10 ^ length s + dec_value s"
  using dec_value_append [of "[b]" s] by (simp add: dec_value_def)

text \<open>Numerals of one length are ordered as bytes as they are as numbers.\<close>

lemma digits_less:
  assumes "length xs = length ys" "\<forall>b\<in>set xs. is_digit b" "\<forall>b\<in>set ys. is_digit b"
  shows "xs < ys \<longleftrightarrow> dec_value xs < dec_value ys"
  using assms
proof (induction xs ys rule: list_induct2)
  case (Cons x xs y ys)
  have b: "dec_value xs < 10 ^ length xs" "dec_value ys < 10 ^ length xs"
    using dec_value_bound [of xs] dec_value_bound [of ys] Cons.prems Cons.hyps by auto
  have d: "48 \<le> unat x" "48 \<le> unat y" using Cons.prems by (auto simp: is_digit_def word_le_nat_alt)
  have less: "a * p + u < c * p + v" if "a < c" "u < p" for a c p u v :: nat
  proof -
    have "Suc a * p \<le> c * p" using that by (intro mult_right_mono) auto
    with that show ?thesis by simp
  qed
  consider "x < y" | "x = y" | "y < x" by fastforce
  then show ?case
  proof cases
    case 1
    then have "unat x - 48 < unat y - 48" using d by (simp add: word_less_nat_alt)
    from less [OF this b(1)] 1 Cons.hyps show ?thesis by (simp add: dec_value_Cons)
  next
    case 2
    with Cons show ?thesis by (simp add: dec_value_Cons)
  next
    case 3
    then have "unat y - 48 < unat x - 48" using d by (simp add: word_less_nat_alt)
    from less [OF this b(2), of "dec_value xs"] 3 Cons.hyps show ?thesis by (auto simp: dec_value_Cons)
  qed
qed simp

lemma dec_string_length: "n < 10 ^ Suc w \<Longrightarrow> length (dec_string n) \<le> Suc w"
proof (induction w arbitrary: n)
  case 0
  then show ?case by (subst dec_string.simps) simp
next
  case (Suc w)
  show ?case
  proof (cases "n < 10")
    case False
    have "n div 10 < 10 ^ Suc w" using Suc.prems by (simp add: less_mult_imp_div_less mult.commute)
    from Suc.IH [OF this] False show ?thesis by (subst dec_string.simps) simp
  qed (subst dec_string.simps, simp)
qed

lemma padded_key_shape:
  "length (padded_key i 20) = 20" "\<forall>b\<in>set (padded_key i 20). is_digit b" "dec_value (padded_key i 20) = unat i"
proof -
  have "unat i < 10 ^ Suc 19" using unsigned_less [of i, where ?'a = nat] by simp
  from dec_string_length [OF this] show "length (padded_key i 20) = 20" by (simp add: padded_key_def Let_def to_string_def)
  show "\<forall>b\<in>set (padded_key i 20). is_digit b"
    using dec_string_digits [of _ "unat i"] by (auto simp: padded_key_def Let_def to_string_def is_digit_def)
  show "dec_value (padded_key i 20) = unat i" by (simp add: padded_key_def Let_def to_string_def dec_value_zeros)
qed

lemma padded_key_inj: "padded_key i 20 = padded_key j 20 \<longleftrightarrow> i = j"
  using padded_key_shape(3) [of i] padded_key_shape(3) [of j] by (metis word_unat_eq_iff)

lemma padded_key_valid [simp]: "padded_key i 20 \<noteq> []" "length (padded_key i 20) = 20"
  using padded_key_shape(1) [of i] by auto

lemma length_make_value [simp]: "length (make_value n) = n"
  by (simp add: make_value_def)

subsection \<open>Properties\<close>

text \<open>
  Padding keeps the order: of two 64-bit numbers the smaller has the smaller padded key, in the
  byte order the store sorts by, so a sequential workload writes its keys in ascending order and no
  two of them are equal.
\<close>

lemma padded_key_order:
  "length (padded_key i 20) = 20 \<and> (padded_key i 20 < padded_key j 20 \<longleftrightarrow> i < j) \<and>
   (padded_key i 20 = padded_key j 20 \<longleftrightarrow> i = j)"
  using digits_less [of "padded_key i 20" "padded_key j 20"] padded_key_shape [of i] padded_key_shape [of j]
    padded_key_inj [of i j]
  by (simp add: word_less_nat_alt)

end
