(* ===== verification/Bench_Workloads.thy ===== *)
theory Bench_Workloads
  imports Store_Reopen Bench_Keys
begin

text \<open>
  The workloads of \<^verbatim>\<open>latency_bench.cpp\<close> and \<^verbatim>\<open>bench.cpp\<close>. \<^verbatim>\<open>latency_bench.cpp\<close> has each workload
  twice, once for GravTree and once, line for line the same, for RocksDB; here a workload is one
  definition over an \<open>engine\<close>. GravTree is an engine, its operations those of \<open>Grav_Tree\<close>; RocksDB
  is code of its own and stays a parameter.

  The flush thread runs beside the workload: the state of the GravTree engine carries a schedule, whose
  i-th part says how many rounds the thread runs before the i-th call; that may depend on the store. The
  rounds are those of \<^verbatim>\<open>flush_thread_fn\<close>, without any restriction. A schedule places whole rounds
  between the calls: runs in which a round overlaps a call are those of \<open>Flush_Thread\<close>, and what can go
  wrong in them is in \<open>Thread_Races\<close>. \<open>quiet_schedule\<close>, the hypothesis of the theorems below, says that the
  rounds a schedule asks for are quiet in the sense of \<open>Tree_Rounds\<close>. The clock is a parameter as well: \<open>clk i\<close> is the time in nanoseconds that
  the i-th call of \<^verbatim>\<open>Clock::now\<close> returns. What \<^verbatim>\<open>get\<close> returns is discarded by the programs; \<open>answers\<close>
  keeps it so that it can be talked about.
\<close>

subsection \<open>Engines\<close>

record 'db engine =
  eng_open :: "bytes \<Rightarrow> disk \<Rightarrow> 'db res"
  eng_close :: "'db \<Rightarrow> disk"
  eng_put :: "bytes \<Rightarrow> bytes \<Rightarrow> ('db, unit) exec"
  eng_get :: "bytes \<Rightarrow> ('db, bytes option) exec"
  eng_sync :: "('db, unit) exec"

text \<open>\<^verbatim>\<open>fs::remove_all\<close>.\<close>

definition remove_all :: "bytes \<Rightarrow> disk \<Rightarrow> disk" where
  "remove_all dir d = d\<lparr>files := (\<lambda>p. if p = dir \<or> take (length dir + 1) p = dir @ lit ''/'' then None else files d p)\<rparr>"

definition bench_options :: "bytes \<Rightarrow> options" where
  "bench_options dir = \<lparr>data_dir = dir, buffer_threshold = 4 * 1024 * 1024, hard_limit_factor = FD 2 0, fanout = 8,
     max_height = 6, bloom_fpr = FD 0x147AE147AE147B (- 59)\<rparr>"

definition open_gravtree :: "bytes \<Rightarrow> disk \<Rightarrow> (error + unit) \<times> tree" where
  "open_gravtree dir d = tree_open (bench_options dir) (remove_all dir d)"

type_synonym schedule = "(tree \<Rightarrow> nat) list"
type_synonym scheduled = "tree \<times> schedule"

fun rounds :: "nat \<Rightarrow> tree \<Rightarrow> tree" where
  "rounds 0 t = t"
| "rounds (Suc m) t = rounds m (thread_round FUEL t)"

fun quiet_rounds :: "nat \<Rightarrow> tree \<Rightarrow> bool" where
  "quiet_rounds 0 t = True"
| "quiet_rounds (Suc m) t = (quiet_round t \<and> quiet_rounds m (thread_round FUEL t))"

definition quiet_schedule :: "schedule \<Rightarrow> bool" where
  "quiet_schedule sched \<longleftrightarrow> (\<forall>f\<in>set sched. \<forall>t. quiet_rounds (f t) t)"

text \<open>For instance the thread that runs a round whenever a flush is requested and the round is quiet.\<close>

definition when_quiet :: "tree \<Rightarrow> nat" where
  "when_quiet t = (if flush_requested t \<and> quiet_round t then 1 else 0)"

lemma quiet_when_quiet: "set sched \<subseteq> {\<lambda>t. 0, when_quiet} \<Longrightarrow> quiet_schedule sched"
  by (auto simp: quiet_schedule_def when_quiet_def)

definition gt_call :: "'a action \<Rightarrow> (scheduled, 'a) exec" where
  "gt_call f = (\<lambda>(t, sched).
     case f (case sched of [] \<Rightarrow> t | m # _ \<Rightarrow> rounds (m t) t) of (r, t') \<Rightarrow> (r, (t', tl sched)))"

definition gravtree :: "schedule \<Rightarrow> scheduled engine" where
  "gravtree sched = \<lparr>
     eng_open = (\<lambda>dir d. case open_gravtree dir d of (Inl e, _) \<Rightarrow> Inl e | (Inr _, t) \<Rightarrow> Inr (t, sched)),
     eng_close = (\<lambda>(t, _). tdisk (tree_close t)),
     eng_put = (\<lambda>k v. gt_call (tree_insert k v)),
     eng_get = (\<lambda>k. gt_call (tree_get FUEL k)),
     eng_sync = gt_call tree_flush\<rparr>"

text \<open>
  RocksDB: what the programs call of it. \<^verbatim>\<open>open_rocksdb\<close> only asserts that opening succeeded; in a
  release build the workload then goes on with a null pointer.
\<close>

record 'db rocks_api =
  rk_open :: "bytes \<Rightarrow> disk \<Rightarrow> 'db option"
  rk_close :: "'db \<Rightarrow> disk"
  rk_put :: "bytes \<Rightarrow> bytes \<Rightarrow> 'db \<Rightarrow> 'db"
  rk_get :: "bytes \<Rightarrow> 'db \<Rightarrow> bytes option"
  rk_flush :: "'db \<Rightarrow> 'db"

definition open_rocksdb :: "'db rocks_api \<Rightarrow> bytes \<Rightarrow> disk \<Rightarrow> 'db res" where
  "open_rocksdb api dir d =
     (case rk_open api dir (remove_all dir d) of None \<Rightarrow> Inl Undefined_behaviour | Some s \<Rightarrow> Inr s)"

definition rocksdb :: "'db rocks_api \<Rightarrow> 'db engine" where
  "rocksdb api = \<lparr>
     eng_open = open_rocksdb api,
     eng_close = rk_close api,
     eng_put = (\<lambda>k v s. (Inr (), rk_put api k v s)),
     eng_get = (\<lambda>k s. (Inr (rk_get api k s), s)),
     eng_sync = (\<lambda>s. (Inr (), rk_flush api s))\<rparr>"

subsection \<open>Measuring\<close>

record 'db bench =
  db :: 'db
  ticks :: nat
  answers :: "bytes option list"

type_synonym clock = "nat \<Rightarrow> int"
type_synonym bench_result = "u64 list \<times> fdouble"

definition clock_now :: "clock \<Rightarrow> ('db bench, int) exec" where
  "clock_now clk s = (Inr (clk (ticks s)), s\<lparr>ticks := ticks s + 1\<rparr>)"

definition on_db :: "('db, 'a) exec \<Rightarrow> ('db bench, 'a) exec" where
  "on_db f s = (case f (db s) of (r, d) \<Rightarrow> (r, s\<lparr>db := d\<rparr>))"

definition look_up :: "'db engine \<Rightarrow> bytes \<Rightarrow> ('db bench, unit) exec" where
  "look_up eng k = bind (on_db (eng_get eng k)) (\<lambda>v. modify (\<lambda>s. s\<lparr>answers := answers s @ [v]\<rparr>))"

text \<open>\<^verbatim>\<open>std::chrono::duration<double>\<close> of a number of nanoseconds.\<close>

definition to_seconds :: "int \<Rightarrow> fdouble" where
  "to_seconds ns =
     (let q = fd_div (fd_of_nat (nat (abs ns))) (fd_of_nat 1000000000)
      in if ns < 0 then FD (- fd_mant q) (fd_exp q) else q)"

fun timed_loop :: "clock \<Rightarrow> ('i \<Rightarrow> 'r \<Rightarrow> ('db bench, 'r) exec) \<Rightarrow> 'i list \<Rightarrow> 'r \<Rightarrow> ('db bench, u64 list) exec" where
  "timed_loop clk op [] r = ret []"
| "timed_loop clk op (i # is) r =
     bind (clock_now clk) (\<lambda>t0.
     bind (op i r) (\<lambda>r'.
     bind (clock_now clk) (\<lambda>t1.
     bind (timed_loop clk op is r') (\<lambda>lats. ret (of_int (t1 - t0) # lats)))))"

definition with_wall :: "clock \<Rightarrow> ('db bench, u64 list) exec \<Rightarrow> ('db bench, bench_result) exec" where
  "with_wall clk body =
     bind (clock_now clk) (\<lambda>wall0.
     bind body (\<lambda>lats.
     bind (clock_now clk) (\<lambda>wall1. ret (lats, to_seconds (wall1 - wall0)))))"

text \<open>\<^verbatim>\<open>rng() % m\<close>; the remainder by zero is undefined.\<close>

definition draw :: "u64 \<Rightarrow> mt64_state \<Rightarrow> (u64 \<times> mt64_state) res" where
  "draw m rng = (if m = 0 then Inl Undefined_behaviour else case mt64_next rng of (x, rng') \<Rightarrow> Inr (x mod m, rng'))"

subsection \<open>The workloads\<close>

definition fill_keys :: "'db engine \<Rightarrow> nat \<Rightarrow> ('db bench, unit) exec" where
  "fill_keys eng n = for_each [0..<n] (\<lambda>i. on_db (eng_put eng (padded_key (of_nat i) 20) (make_value 100)))"

definition seq_write :: "'db engine \<Rightarrow> clock \<Rightarrow> nat \<Rightarrow> ('db bench, bench_result) exec" where
  "seq_write eng clk n = with_wall clk
     (bind (timed_loop clk (\<lambda>i _. on_db (eng_put eng (padded_key (of_nat i) 20) (make_value 100))) [0..<n] ()) (\<lambda>lats.
      bind (on_db (eng_sync eng)) (\<lambda>_. ret lats)))"

definition rand_write :: "'db engine \<Rightarrow> clock \<Rightarrow> nat \<Rightarrow> ('db bench, bench_result) exec" where
  "rand_write eng clk n = with_wall clk
     (bind (timed_loop clk (\<lambda>i rng.
        bind (lift_res (draw (of_nat (n * 2)) rng)) (\<lambda>(x, rng').
        bind (on_db (eng_put eng (padded_key x 20) (make_value 100))) (\<lambda>_. ret rng'))) [0..<n] (mt64_seed 42)) (\<lambda>lats.
      bind (on_db (eng_sync eng)) (\<lambda>_. ret lats)))"

text \<open>The key of a read is drawn before the clock is read, which makes no difference: drawing does not look at the clock.\<close>

definition point_read :: "'db engine \<Rightarrow> clock \<Rightarrow> nat \<Rightarrow> nat \<Rightarrow> ('db bench, bench_result) exec" where
  "point_read eng clk filled n =
     bind (fill_keys eng filled) (\<lambda>_.
     bind (on_db (eng_sync eng)) (\<lambda>_.
     with_wall clk (timed_loop clk (\<lambda>i rng.
        bind (lift_res (draw (of_nat filled) rng)) (\<lambda>(x, rng').
        bind (look_up eng (padded_key x 20)) (\<lambda>_. ret rng'))) [0..<n] (mt64_seed 7))))"

definition mixed_op :: "'db engine \<Rightarrow> nat \<Rightarrow> mt64_state \<times> u64 \<Rightarrow> ('db bench, mt64_state \<times> u64) exec" where
  "mixed_op eng n = (\<lambda>(rng, wc).
     bind (lift_res (draw 2 rng)) (\<lambda>(b, rng1).
       if b = 0 then bind (on_db (eng_put eng (padded_key wc 20) (make_value 100))) (\<lambda>_. ret (rng1, wc + 1))
       else bind (lift_res (draw (of_nat (n div 2)) rng1)) (\<lambda>(x, rng2).
         bind (look_up eng (padded_key x 20)) (\<lambda>_. ret (rng2, wc)))))"

definition mixed :: "'db engine \<Rightarrow> clock \<Rightarrow> nat \<Rightarrow> ('db bench, bench_result) exec" where
  "mixed eng clk n =
     bind (fill_keys eng (n div 2)) (\<lambda>_.
     with_wall clk
       (bind (timed_loop clk (\<lambda>i. mixed_op eng n) [0..<n] (mt64_seed 99, of_nat (n div 2))) (\<lambda>lats.
        bind (on_db (eng_sync eng)) (\<lambda>_. ret lats))))"

text \<open>
  The frame of every workload: open the engine on a fresh directory, run, close, remove the directory.
  The result has the latencies, what the reads returned, and the disk.
\<close>

definition bench_run ::
  "'db engine \<Rightarrow> ('db bench, bench_result) exec \<Rightarrow> bytes \<Rightarrow> disk \<Rightarrow> (bench_result \<times> bytes option list \<times> disk) res" where
  "bench_run eng body dir d =
     bind_res (eng_open eng dir d) (\<lambda>s0.
       case body \<lparr>db = s0, ticks = 0, answers = []\<rparr> of
         (Inl e, _) \<Rightarrow> Inl e
       | (Inr x, s) \<Rightarrow> Inr (x, answers s, remove_all dir (eng_close eng (db s))))"

definition gt_seq_write where "gt_seq_write sched clk n = bench_run (gravtree sched) (seq_write (gravtree sched) clk n)"
definition gt_rand_write where "gt_rand_write sched clk n = bench_run (gravtree sched) (rand_write (gravtree sched) clk n)"
definition gt_point_read where
  "gt_point_read sched clk filled n = bench_run (gravtree sched) (point_read (gravtree sched) clk filled n)"
definition gt_mixed where "gt_mixed sched clk n = bench_run (gravtree sched) (mixed (gravtree sched) clk n)"

definition rdb_seq_write where "rdb_seq_write api clk n = bench_run (rocksdb api) (seq_write (rocksdb api) clk n)"
definition rdb_rand_write where "rdb_rand_write api clk n = bench_run (rocksdb api) (rand_write (rocksdb api) clk n)"
definition rdb_point_read where
  "rdb_point_read api clk filled n = bench_run (rocksdb api) (point_read (rocksdb api) clk filled n)"
definition rdb_mixed where "rdb_mixed api clk n = bench_run (rocksdb api) (mixed (rocksdb api) clk n)"

subsection \<open>bench.cpp\<close>

text \<open>
  The workloads of \<^verbatim>\<open>bench.cpp\<close>, for the number of iterations the benchmark library asks for; its
  timing is not part of the program.
\<close>

definition open_tree :: "bytes \<Rightarrow> nat \<Rightarrow> disk \<Rightarrow> (error + unit) \<times> tree" where
  "open_tree dir buf d = tree_open ((bench_options dir)\<lparr>buffer_threshold := buf\<rparr>) (remove_all dir d)"

fun repeat_op :: "nat \<Rightarrow> ('r \<Rightarrow> ('s, 'r) exec) \<Rightarrow> 'r \<Rightarrow> ('s, 'r) exec" where
  "repeat_op 0 op r = ret r"
| "repeat_op (Suc n) op r = bind (op r) (repeat_op n op)"

definition payload :: bytes where
  "payload = lit ''value_payload_xxxxxxxxxxxxxxxxxx''"

definition BM_SequentialWrite :: "'db engine \<Rightarrow> nat \<Rightarrow> ('db bench, unit) exec" where
  "BM_SequentialWrite eng iters =
     for_each [0..<iters] (\<lambda>i. on_db (eng_put eng (lit ''key_'' @ to_string (of_nat i)) payload))"

definition BM_RandomWrite :: "'db engine \<Rightarrow> nat \<Rightarrow> ('db bench, unit) exec" where
  "BM_RandomWrite eng iters = bind (repeat_op iters (\<lambda>rng. case rand_key rng 16 of (k, rng') \<Rightarrow>
      bind (on_db (eng_put eng k payload)) (\<lambda>_. ret rng')) (mt_seed 42)) (\<lambda>_. ret ())"

definition fill_numbered :: "'db engine \<Rightarrow> bytes \<Rightarrow> nat \<Rightarrow> ('db bench, unit) exec" where
  "fill_numbered eng prefix n =
     for_each [0..<n] (\<lambda>i. on_db (eng_put eng (prefix @ dec_string i) (lit ''v'' @ dec_string i)))"

definition BM_PointRead :: "'db engine \<Rightarrow> nat \<Rightarrow> ('db bench, unit) exec" where
  "BM_PointRead eng iters =
     bind (fill_numbered eng (lit ''rkey_'') 10000) (\<lambda>_.
     bind (repeat_op iters (\<lambda>rng. case mt_next rng of (x, rng') \<Rightarrow>
        bind (look_up eng (lit ''rkey_'' @ dec_string (unat x mod 10000))) (\<lambda>_. ret rng')) (mt_seed 7)) (\<lambda>_. ret ()))"

definition BM_Mixed :: "'db engine \<Rightarrow> nat \<Rightarrow> ('db bench, unit) exec" where
  "BM_Mixed eng iters =
     bind (fill_numbered eng (lit ''mkey_'') 5000) (\<lambda>_.
     bind (repeat_op iters (\<lambda>(rng, wc). case mt_next rng of (b, rng1) \<Rightarrow>
        if unat b mod 2 = 0 then
          bind (on_db (eng_put eng (lit ''mkey_'' @ to_string wc) (lit ''new_value''))) (\<lambda>_. ret (rng1, wc + 1))
        else case mt_next rng1 of (x, rng2) \<Rightarrow>
          bind (look_up eng (lit ''mkey_'' @ dec_string (unat x mod 5000))) (\<lambda>_. ret (rng2, wc)))
        (mt_seed 99, 5000)) (\<lambda>_. ret ()))"

definition bm_run ::
  "schedule \<Rightarrow> (scheduled bench, unit) exec \<Rightarrow> bytes \<Rightarrow> disk \<Rightarrow> (bytes option list \<times> disk) res" where
  "bm_run sched body dir d =
     (case open_tree dir BUFFER_THRESHOLD d of
        (Inl e, _) \<Rightarrow> Inl e
      | (Inr _, t) \<Rightarrow>
          (case body \<lparr>db = (t, sched), ticks = 0, answers = []\<rparr> of
             (Inl e, _) \<Rightarrow> Inl e
           | (Inr _, s) \<Rightarrow> Inr (answers s, tdisk (tree_close (fst (db s))))))"

subsection \<open>Loops\<close>

lemma for_each_rule:
  assumes step: "\<And>x xs s. P (x # xs) s \<Longrightarrow> \<exists>s'. f x s = (Inr (), s') \<and> P xs s'" and "P xs s"
  shows "\<exists>s'. for_each xs f s = (Inr (), s') \<and> P [] s'"
  using assms(2)
proof (induction xs arbitrary: s)
  case (Cons x xs)
  from step [OF Cons.prems] obtain s1 where "f x s = (Inr (), s1)" "P xs s1" by blast
  with Cons.IH [OF this(2)] show ?case by (auto simp: bind_Inr)
qed (simp add: exec_simps)

lemma repeat_rule:
  assumes step: "\<And>n r s. P (Suc n) r s \<Longrightarrow> \<exists>r' s'. op r s = (Inr r', s') \<and> P n r' s'" and "P n r s"
  shows "\<exists>r' s'. repeat_op n op r s = (Inr r', s') \<and> P 0 r' s'"
  using assms(2)
proof (induction n arbitrary: r s)
  case (Suc n)
  from step [OF Suc.prems] obtain r1 s1 where "op r s = (Inr r1, s1)" "P n r1 s1" by blast
  with Suc.IH [OF this(2)] show ?case by (auto simp: bind_Inr)
qed (simp add: exec_simps)

lemma timed_rule:
  assumes step: "\<And>i n r s. P (Suc n) r s \<Longrightarrow> \<exists>r' s'. op i r s = (Inr r', s') \<and> P n r' s'"
    and clk: "\<And>n r s c. P n r (s\<lparr>ticks := c\<rparr>) = P n r s" and "P (length is) r s"
  shows "\<exists>lats r' s'. timed_loop clk op is r s = (Inr lats, s') \<and> length lats = length is \<and> P 0 r' s'"
  using assms(3)
proof (induction "is" arbitrary: r s)
  case (Cons i xs)
  have "P (Suc (length xs)) r (s\<lparr>ticks := ticks s + 1\<rparr>)" using Cons.prems by (simp add: clk)
  from step [OF this, of i] obtain r1 s1 where
    s1: "op i r (s\<lparr>ticks := ticks s + 1\<rparr>) = (Inr r1, s1)" "P (length xs) r1 s1" by blast
  have "P (length xs) r1 (s1\<lparr>ticks := ticks s1 + 1\<rparr>)" using s1(2) by (simp add: clk)
  from Cons.IH [OF this] obtain lats r' s' where
    "timed_loop clk op xs r1 (s1\<lparr>ticks := ticks s1 + 1\<rparr>) = (Inr lats, s')" "length lats = length xs" "P 0 r' s'" by blast
  with s1(1) show ?case by (auto simp: bind_def clock_now_def ret_def)
qed (auto simp: exec_simps)

subsection \<open>Engines that behave like a map\<close>

text \<open>
  The contract of an engine: in the states of its invariant \<open>put\<close> changes one key of a map, \<open>get\<close> reads the
  map, \<open>sync\<close> leaves it; \<open>room\<close> bounds the writes to come. The workloads are proved against it.
\<close>

locale map_engine =
  fixes eng :: "'db engine"
    and inv :: "'db \<Rightarrow> bool"
    and kv :: "'db \<Rightarrow> bytes \<rightharpoonup> bytes"
    and room :: "'db \<Rightarrow> nat"
  assumes put_ok: "inv s \<Longrightarrow> 0 < room s \<Longrightarrow> k \<noteq> [] \<Longrightarrow> short k \<Longrightarrow> short v \<Longrightarrow>
      \<exists>s'. eng_put eng k v s = (Inr (), s') \<and> inv s' \<and> kv s' = (kv s)(k \<mapsto> v) \<and> room s \<le> Suc (room s')"
    and get_ok: "inv s \<Longrightarrow> \<exists>s'. eng_get eng k s = (Inr (kv s k), s') \<and> inv s' \<and> kv s' = kv s \<and> room s' = room s"
    and sync_ok: "inv s \<Longrightarrow> \<exists>s'. eng_sync eng s = (Inr (), s') \<and> inv s' \<and> kv s' = kv s \<and> room s' = room s"
begin

lemma on_put:
  assumes "inv (db s)" "n < room (db s)" "k \<noteq> []" "short k" "short v"
  shows "\<exists>d. on_db (eng_put eng k v) s = (Inr (), s\<lparr>db := d\<rparr>) \<and> inv d \<and> kv d = (kv (db s))(k \<mapsto> v) \<and> n \<le> room d"
proof -
  have "0 < room (db s)" using assms(2) by simp
  from put_ok [OF assms(1) this assms(3-5)] assms(2) show ?thesis by (auto simp: on_db_def)
qed

lemma on_sync:
  assumes "inv (db s)"
  shows "\<exists>d. on_db (eng_sync eng) s = (Inr (), s\<lparr>db := d\<rparr>) \<and> inv d \<and> kv d = kv (db s) \<and> room d = room (db s)"
  using sync_ok [OF assms] by (auto simp: on_db_def)

lemma look_up_ok:
  assumes "inv (db s)"
  shows "\<exists>d. look_up eng k s = (Inr (), s\<lparr>db := d, answers := answers s @ [kv (db s) k]\<rparr>) \<and> inv d \<and> kv d = kv (db s) \<and>
    room d = room (db s)"
  using get_ok [OF assms, of k] by (auto simp: look_up_def bind_def on_db_def modify_def)

text \<open>Filling: afterwards every key written is there, with its value when the keys differ.\<close>

lemma fill_ok:
  assumes "inv (db s)" "n + m \<le> room (db s)" "\<And>i. i < n \<Longrightarrow> f i \<noteq> [] \<and> short (f i) \<and> short (g i)" "inj_on f {..<n}"
  shows "\<exists>d. for_each [0..<n] (\<lambda>i. on_db (eng_put eng (f i) (g i))) s = (Inr (), s\<lparr>db := d\<rparr>) \<and> inv d \<and> m \<le> room d \<and>
    (\<forall>i<n. kv d (f i) = Some (g i))"
proof -
  define P where "P xs s' \<longleftrightarrow> (\<exists>d j. s' = s\<lparr>db := d\<rparr> \<and> inv d \<and> j \<le> n \<and> xs = [j..<n] \<and> n - j + m \<le> room d \<and>
    (\<forall>i<j. kv d (f i) = Some (g i)))" for xs s'
  have step: "\<exists>s2. on_db (eng_put eng (f x) (g x)) s1 = (Inr (), s2) \<and> P xs s2" if pre: "P (x # xs) s1" for x xs s1
  proof -
    from pre obtain d j where d: "s1 = s\<lparr>db := d\<rparr>" "inv d" "j \<le> n" "x # xs = [j..<n]" "n - j + m \<le> room d"
      "\<forall>i<j. kv d (f i) = Some (g i)" unfolding P_def by blast
    have x: "x = j" "j < n" "xs = [Suc j..<n]" using d(4) [symmetric] by (auto simp: upt_eq_Cons_conv)
    have "n - Suc j + m < room (db s1)" using d(1,5) x(2) by simp
    from on_put [OF _ this, of "f x" "g x"] d(1,2) assms(3) [OF x(2)] x(1) obtain d' where
      d': "on_db (eng_put eng (f x) (g x)) s1 = (Inr (), s1\<lparr>db := d'\<rparr>)" "inv d'" "kv d' = (kv d)(f x \<mapsto> g x)"
      "n - Suc j + m \<le> room d'" by auto
    have "kv d' (f i) = Some (g i)" if "i < Suc j" for i
      using that d(6) d'(3) inj_onD [OF assms(4), of i j] x by (cases "i = j") auto
    then have "P xs (s\<lparr>db := d'\<rparr>)" unfolding P_def using d' x by (intro exI [of _ d'] exI [of _ "Suc j"]) auto
    with d'(1) d(1) show ?thesis by auto
  qed
  have "P [0..<n] s" unfolding P_def using assms(1,2) by (intro exI [of _ "db s"] exI [of _ 0]) auto
  from for_each_rule [of P "\<lambda>i. on_db (eng_put eng (f i) (g i))", OF step this] obtain s' where s': "for_each [0..<n] (\<lambda>i. on_db (eng_put eng (f i) (g i))) s = (Inr (), s')" "P [] s'"
    by blast
  from s'(2) obtain d j where "s' = s\<lparr>db := d\<rparr>" "inv d" "j \<le> n" "[] = [j..<n]" "n - j + m \<le> room d"
    "\<forall>i<j. kv d (f i) = Some (g i)" unfolding P_def by blast
  moreover from \<open>[] = [j..<n]\<close> have "n \<le> j" by (metis diff_is_0_eq length_upt list.size(3))
  ultimately show ?thesis using s'(1) by auto
qed

text \<open>One read or write of a loop keeps what the loop needs.\<close>

lemma draw_ok: "m \<noteq> 0 \<Longrightarrow> \<exists>x rng'. draw m rng = Inr (x, rng') \<and> x < m"
  by (cases "mt64_next rng") (simp add: draw_def word_mod_less_divisor word_neq_0_conv)

definition filled_with :: "nat \<Rightarrow> 'db \<Rightarrow> bool" where
  "filled_with n d \<longleftrightarrow> (\<forall>i<n. kv d (padded_key (of_nat i) 20) = Some (make_value 100))"

lemma filled_get:
  assumes "filled_with n d" "x < of_nat n"
  shows "kv d (padded_key x 20) = Some (make_value 100)"
proof -
  have "unat (of_nat n :: u64) \<le> n" by (simp add: unat_of_nat)
  then have "unat x < n" using assms(2) by (simp add: word_less_nat_alt)
  then show ?thesis using assms(1) unfolding filled_with_def using spec [of _ "unat x"] by fastforce
qed

definition loop_inv :: "nat \<Rightarrow> nat \<Rightarrow> 'db bench \<Rightarrow> bool" where
  "loop_inv m n s \<longleftrightarrow> inv (db s) \<and> n \<le> room (db s) \<and> filled_with m (db s) \<and> set (answers s) \<subseteq> {Some (make_value 100)}"

lemma loop_inv_ticks [simp]: "loop_inv m n (s\<lparr>ticks := c\<rparr>) = loop_inv m n s"
  by (simp add: loop_inv_def)

lemma loop_put:
  assumes "loop_inv m (Suc n) s"
  shows "\<exists>d. on_db (eng_put eng (padded_key x 20) (make_value 100)) s = (Inr (), s\<lparr>db := d\<rparr>) \<and> loop_inv m n (s\<lparr>db := d\<rparr>)"
proof -
  have "n < room (db s)" using assms by (simp add: loop_inv_def)
  from on_put [OF _ this, of "padded_key x 20" "make_value 100"] assms obtain d where
    "on_db (eng_put eng (padded_key x 20) (make_value 100)) s = (Inr (), s\<lparr>db := d\<rparr>)" "inv d" "n \<le> room d"
    "kv d = (kv (db s))(padded_key x 20 \<mapsto> make_value 100)" by (auto simp: loop_inv_def)
  with assms show ?thesis by (auto simp: loop_inv_def filled_with_def)
qed

lemma loop_get:
  assumes "loop_inv m (Suc n) s" "x < of_nat m"
  shows "\<exists>d. look_up eng (padded_key x 20) s = (Inr (), s\<lparr>db := d, answers := answers s @ [Some (make_value 100)]\<rparr>) \<and>
    loop_inv m n (s\<lparr>db := d, answers := answers s @ [Some (make_value 100)]\<rparr>)"
proof -
  from assms(1) have s: "inv (db s)" "Suc n \<le> room (db s)" "filled_with m (db s)" "set (answers s) \<subseteq> {Some (make_value 100)}"
    by (simp_all add: loop_inv_def)
  from look_up_ok [OF s(1), of "padded_key x 20"] filled_get [OF s(3) assms(2)] obtain d where
    "look_up eng (padded_key x 20) s = (Inr (), s\<lparr>db := d, answers := answers s @ [Some (make_value 100)]\<rparr>)"
    "inv d" "kv d = kv (db s)" "room d = room (db s)" by auto
  with s show ?thesis by (auto simp: loop_inv_def filled_with_def)
qed

lemma fill_keys_ok:
  assumes "inv (db s)" "n + m \<le> room (db s)" "n \<le> 2 ^ 64" "answers s = []"
  shows "\<exists>d. fill_keys eng n s = (Inr (), s\<lparr>db := d\<rparr>) \<and> loop_inv n m (s\<lparr>db := d\<rparr>)"
proof -
  have "inj_on (\<lambda>i. padded_key (of_nat i) 20) {..<n}"
    using assms(3) unsigned_of_nat by (intro inj_onI) (auto simp: padded_key_inj of_nat_inverse word_unat_eq_iff unat_of_nat take_bit_nat_eq_self)
  from fill_ok [OF assms(1,2) _ this, of "\<lambda>_. make_value 100"] assms(4)
  show ?thesis by (auto simp: fill_keys_def loop_inv_def filled_with_def)
qed

lemma with_wall_ok:
  assumes "\<And>c. \<exists>lats s'. body (s\<lparr>ticks := c\<rparr>) = (Inr lats, s') \<and> Q lats s'" "\<And>l s' c. Q l (s'\<lparr>ticks := c\<rparr>) = Q l s'"
  shows "\<exists>lats el s'. with_wall clk body s = (Inr (lats, el), s') \<and> Q lats s'"
proof -
  from assms(1) [of "ticks s + 1"] obtain lats s' where "body (s\<lparr>ticks := ticks s + 1\<rparr>) = (Inr lats, s')" "Q lats s'" by blast
  with assms(2) show ?thesis by (auto simp: with_wall_def bind_def clock_now_def ret_def)
qed

text \<open>The four workloads: every operation succeeds, every read hits.\<close>

lemma writes_then_sync:
  assumes op: "\<And>i n r s. loop_inv 0 (Suc n) s \<Longrightarrow> \<exists>r' s'. op i r s = (Inr r', s') \<and> loop_inv 0 n s' \<and> answers s' = answers s"
    and "inv (db s)" "n \<le> room (db s)" "answers s = []"
  shows "\<exists>lats el s'. with_wall clk (bind (timed_loop clk op [0..<n] r) (\<lambda>lats. bind (on_db (eng_sync eng)) (\<lambda>_. ret lats))) s =
    (Inr (lats, el), s') \<and> length lats = n \<and> answers s' = []"
proof (rule with_wall_ok)
  fix c
  define P where "P n (r :: 'a) s' \<longleftrightarrow> loop_inv 0 n s' \<and> answers s' = []" for n r and s' :: "'db bench"
  have "\<exists>r' s'. op i r s = (Inr r', s') \<and> P n r' s'" if "P (Suc n) r s" for i n r s
    using op [of n s i r] that unfolding P_def by auto
  moreover have "P (length [0..<n]) r (s\<lparr>ticks := c\<rparr>)"
    using assms(2-4) by (simp add: P_def loop_inv_def filled_with_def)
  moreover have "P n r (s'\<lparr>ticks := c\<rparr>) = P n r s'" for n r s' c by (simp add: P_def)
  ultimately obtain lats r' s' where l: "timed_loop clk op [0..<n] r (s\<lparr>ticks := c\<rparr>) = (Inr lats, s')"
    "length lats = n" "P 0 r' s'" using timed_rule [of P op "[0..<n]" r "s\<lparr>ticks := c\<rparr>" clk] by auto
  from l(3) on_sync [of s'] show "\<exists>lats s'. bind (timed_loop clk op [0..<n] r) (\<lambda>lats. bind (on_db (eng_sync eng)) (\<lambda>_. ret lats))
      (s\<lparr>ticks := c\<rparr>) = (Inr lats, s') \<and> length lats = n \<and> answers s' = []"
    by (auto simp: bind_def l(1,2) P_def loop_inv_def ret_def)
qed simp

lemma seq_write_ok:
  assumes "inv (db s)" "n \<le> room (db s)" "answers s = []"
  shows "\<exists>lats el s'. seq_write eng clk n s = (Inr (lats, el), s') \<and> length lats = n \<and> answers s' = []"
  unfolding seq_write_def by (rule writes_then_sync [OF _ assms]) (use loop_put in fastforce)

lemma rand_write_ok:
  assumes "inv (db s)" "n \<le> room (db s)" "answers s = []" "n * 2 < 2 ^ 64"
  shows "\<exists>lats el s'. rand_write eng clk n s = (Inr (lats, el), s') \<and> length lats = n \<and> answers s' = []"
proof (cases "n = 0")
  case True
  then show ?thesis
    using on_sync [of "s\<lparr>ticks := ticks s + 1\<rparr>"] assms(1,3)
    by (auto simp: rand_write_def with_wall_def clock_now_def bind_def ret_def)
next
  case False
  have nz: "(of_nat (n * 2) :: u64) \<noteq> 0"
    using assms(4) False by (simp add: word_unat_eq_iff unat_of_nat take_bit_nat_eq_self del: of_nat_mult)
  show ?thesis unfolding rand_write_def
  proof (rule writes_then_sync [OF _ assms(1-3)])
    fix i k rng and s :: "'db bench" assume s: "loop_inv 0 (Suc k) s"
    from draw_ok [OF nz, of rng] obtain x rng' where "draw (of_nat (n * 2)) rng = Inr (x, rng')" by blast
    with loop_put [OF s, of x]
    show "\<exists>r' s'. bind (lift_res (draw (of_nat (n * 2)) rng)) (\<lambda>(x, rng').
        bind (on_db (eng_put eng (padded_key x 20) (make_value 100))) (\<lambda>_. ret rng')) s = (Inr r', s') \<and>
        loop_inv 0 k s' \<and> answers s' = answers s"
      by (auto simp: bind_def lift_res_def ret_def simp del: of_nat_mult)
  qed
qed

lemma point_read_ok:
  assumes "inv (db s)" "m + n \<le> room (db s)" "answers s = []" "0 < m" "m < 2 ^ 64"
  shows "\<exists>lats el s'. point_read eng clk m n s = (Inr (lats, el), s') \<and> length lats = n \<and>
    answers s' = replicate n (Some (make_value 100))"
proof -
  from fill_keys_ok [OF assms(1,2) _ assms(3)] assms(5) obtain d where
    d: "fill_keys eng m s = (Inr (), s\<lparr>db := d\<rparr>)" "loop_inv m n (s\<lparr>db := d\<rparr>)" by auto
  then have "inv (db (s\<lparr>db := d\<rparr>))" by (simp add: loop_inv_def)
  from on_sync [OF this] obtain d1 where d1: "on_db (eng_sync eng) (s\<lparr>db := d\<rparr>) = (Inr (), s\<lparr>db := d1\<rparr>)" "inv d1"
    "kv d1 = kv d" "room d1 = room d" by auto
  let ?s = "s\<lparr>db := d1\<rparr>"
  have s1: "loop_inv m n ?s" using d(2) d1 by (simp add: loop_inv_def filled_with_def)
  have nz: "(of_nat m :: u64) \<noteq> 0"
    using assms(4,5) by (simp add: word_unat_eq_iff unat_of_nat take_bit_nat_eq_self)
  let ?op = "\<lambda>i rng. bind (lift_res (draw (of_nat m) rng)) (\<lambda>(x, rng'). bind (look_up eng (padded_key x 20)) (\<lambda>_. ret rng'))"
  define P where "P k (rng :: mt64_state) s' \<longleftrightarrow> loop_inv m k s' \<and> length (answers s') + k = n" for k rng and s' :: "'db bench"
  have step: "\<exists>r' s'. ?op i rng s = (Inr r', s') \<and> P k r' s'" if "P (Suc k) rng s" for i :: nat and k rng s
  proof -
    from draw_ok [OF nz, of rng] obtain x rng' where x: "draw (of_nat m) rng = Inr (x, rng')" "x < of_nat m" by blast
    from that have "loop_inv m (Suc k) s" by (simp add: P_def)
    from loop_get [OF this x(2)] x(1) that show ?thesis by (auto simp: bind_def lift_res_def ret_def P_def)
  qed
  have "\<exists>lats s'. timed_loop clk ?op [0..<n] (mt64_seed 7) (?s\<lparr>ticks := c\<rparr>) = (Inr lats, s') \<and> length lats = n \<and>
      answers s' = replicate n (Some (make_value 100))" for c
  proof -
    have "P (length [0..<n]) (mt64_seed 7) (?s\<lparr>ticks := c\<rparr>)" using s1 assms(3) by (simp add: P_def)
    from timed_rule [of P ?op, OF step _ this, of clk] obtain lats r' s' where
      "timed_loop clk ?op [0..<n] (mt64_seed 7) (?s\<lparr>ticks := c\<rparr>) = (Inr lats, s')" "length lats = n" "P 0 r' s'"
      by (auto simp: P_def)
    moreover from \<open>P 0 r' s'\<close> have "answers s' = replicate n (Some (make_value 100))"
      using replicate_eqI [of "answers s'" n "Some (make_value 100)"] by (auto simp: P_def loop_inv_def)
    ultimately show ?thesis by blast
  qed
  from with_wall_ok [of "timed_loop clk ?op [0..<n] (mt64_seed 7)" ?s "\<lambda>l s'. length l = n \<and> answers s' = replicate n (Some (make_value 100))" clk, OF this]
  show ?thesis using d(1) d1(1) by (simp add: point_read_def bind_Inr)
qed

lemma mixed_op_ok:
  assumes "loop_inv m (Suc k) s" "m = n div 2" "0 < m" "m < 2 ^ 64"
  shows "\<exists>r' s'. mixed_op eng n r s = (Inr r', s') \<and> loop_inv m k s'"
proof -
  obtain rng wc where r: "r = (rng, wc)" by fastforce
  have nz: "(of_nat m :: u64) \<noteq> 0" using assms(3,4) by (simp add: word_unat_eq_iff unat_of_nat take_bit_nat_eq_self)
  from draw_ok [of 2 rng] obtain b rng1 where b: "draw 2 rng = Inr (b, rng1)" by auto
  show ?thesis
  proof (cases "b = 0")
    case True
    then show ?thesis using b loop_put [OF assms(1), of wc] by (auto simp: mixed_op_def r bind_def lift_res_def ret_def)
  next
    case False
    from draw_ok [OF nz, of rng1] obtain x rng2 where x: "draw (of_nat m) rng1 = Inr (x, rng2)" "x < of_nat m" by blast
    with b False loop_get [OF assms(1) x(2)] assms(2) show ?thesis
      by (auto simp: mixed_op_def r bind_def lift_res_def ret_def)
  qed
qed

lemma mixed_ok:
  assumes "inv (db s)" "n div 2 + n \<le> room (db s)" "answers s = []" "2 \<le> n" "n < 2 ^ 64"
  shows "\<exists>lats el s'. mixed eng clk n s = (Inr (lats, el), s') \<and> length lats = n \<and> set (answers s') \<subseteq> {Some (make_value 100)}"
proof -
  have m: "0 < n div 2" "n div 2 < 2 ^ 64" using assms(4,5) by auto
  from fill_keys_ok [OF assms(1,2) less_imp_le [OF m(2)] assms(3)] obtain d where
    d: "fill_keys eng (n div 2) s = (Inr (), s\<lparr>db := d\<rparr>)" "loop_inv (n div 2) n (s\<lparr>db := d\<rparr>)" by auto
  let ?body = "bind (timed_loop clk (\<lambda>i. mixed_op eng n) [0..<n] (mt64_seed 99, of_nat (n div 2)))
      (\<lambda>lats. bind (on_db (eng_sync eng)) (\<lambda>_. ret lats))"
  have "\<exists>lats s'. ?body (s\<lparr>db := d, ticks := c\<rparr>) = (Inr lats, s') \<and> length lats = n \<and>
      set (answers s') \<subseteq> {Some (make_value 100)}" for c
  proof -
    have "loop_inv (n div 2) (length [0..<n]) (s\<lparr>db := d, ticks := c\<rparr>)" using d(2) by simp
    with timed_rule [of "\<lambda>k r. loop_inv (n div 2) k" "\<lambda>i. mixed_op eng n" "[0..<n]" "(mt64_seed 99, of_nat (n div 2))"
        "s\<lparr>db := d, ticks := c\<rparr>" clk] mixed_op_ok [OF _ refl m]
    obtain lats s' where l: "timed_loop clk (\<lambda>i. mixed_op eng n) [0..<n] (mt64_seed 99, of_nat (n div 2))
        (s\<lparr>db := d, ticks := c\<rparr>) = (Inr lats, s')" "length lats = n" "loop_inv (n div 2) 0 s'" by auto
    from on_sync [of s'] l(3) show ?thesis by (auto simp: bind_def l(1,2) loop_inv_def ret_def)
  qed
  from with_wall_ok [of ?body "s\<lparr>db := d\<rparr>" "\<lambda>l s'. length l = n \<and> set (answers s') \<subseteq> {Some (make_value 100)}" clk, OF this]
  show ?thesis using d(1) by (simp add: mixed_def bind_Inr)
qed

end
subsection \<open>The workloads of bench.cpp\<close>

context map_engine
begin

lemma fill_numbered_ok:
  assumes "inv (db s)" "n + m \<le> room (db s)" "n \<le> 10 ^ 8" "length prefix < 100"
  shows "\<exists>d. fill_numbered eng prefix n s = (Inr (), s\<lparr>db := d\<rparr>) \<and> inv d \<and> m \<le> room d \<and>
    (\<forall>i<n. kv d (prefix @ dec_string i) = Some (lit ''v'' @ dec_string i))"
proof -
  have "prefix @ dec_string i \<noteq> [] \<and> short (prefix @ dec_string i) \<and> short (lit ''v'' @ dec_string i)" if "i < n" for i
  proof -
    have "length (dec_string i) \<le> Suc 8" by (rule dec_string_length) (use that assms(3) in simp)
    with assms(4) show ?thesis by (simp add: lit_def)
  qed
  moreover have "inj_on (\<lambda>i. prefix @ dec_string i) {..<n}" by (intro inj_onI) (auto dest: inj_dec_string)
  ultimately show ?thesis unfolding fill_numbered_def by (rule fill_ok [OF assms(1,2)])
qed

lemma BM_PointRead_ok:
  assumes "inv (db s)" "10000 \<le> room (db s)" "answers s = []"
  shows "\<exists>s'. BM_PointRead eng iters s = (Inr (), s') \<and> length (answers s') = iters \<and>
    set (answers s') \<subseteq> {Some (lit ''v'' @ dec_string i) |i. i < 10000}"
proof -
  from fill_numbered_ok [of s 10000 0 "lit ''rkey_''"] assms(1,2) obtain d where
    d: "fill_numbered eng (lit ''rkey_'') 10000 s = (Inr (), s\<lparr>db := d\<rparr>)" "inv d"
    "\<forall>i<10000. kv d (lit ''rkey_'' @ dec_string i) = Some (lit ''v'' @ dec_string i)" by (auto simp: lit_def)
  define P where "P k (rng :: mt_state) s' \<longleftrightarrow> inv (db s') \<and> kv (db s') = kv d \<and> length (answers s') + k = iters \<and>
    set (answers s') \<subseteq> {Some (lit ''v'' @ dec_string i) |i. i < 10000}" for k rng and s' :: "'db bench"
  let ?op = "\<lambda>rng. case mt_next rng of (x, rng') \<Rightarrow>
        bind (look_up eng (lit ''rkey_'' @ dec_string (unat x mod 10000))) (\<lambda>_. ret rng')"
  have step: "\<exists>r' s2. ?op rng s1 = (Inr r', s2) \<and> P k r' s2" if p: "P (Suc k) rng s1" for k rng s1
  proof -
    obtain x rng' where x: "mt_next rng = (x, rng')" by fastforce
    have i: "unat x mod 10000 < 10000" by simp
    then have hit: "kv d (lit ''rkey_'' @ dec_string (unat x mod 10000)) = Some (lit ''v'' @ dec_string (unat x mod 10000))"
      using d(3) by blast
    from look_up_ok [of s1 "lit ''rkey_'' @ dec_string (unat x mod 10000)"] p hit obtain d2 where
      "look_up eng (lit ''rkey_'' @ dec_string (unat x mod 10000)) s1 =
        (Inr (), s1\<lparr>db := d2, answers := answers s1 @ [Some (lit ''v'' @ dec_string (unat x mod 10000))]\<rparr>)"
      "inv d2" "kv d2 = kv d" by (auto simp: P_def)
    with p x i show ?thesis by (auto simp: bind_def ret_def P_def)
  qed
  have "P iters (mt_seed 7) (s\<lparr>db := d\<rparr>)" using d(2) assms(3) by (simp add: P_def)
  from repeat_rule [of P ?op, OF step this] obtain r' s' where
    "repeat_op iters ?op (mt_seed 7) (s\<lparr>db := d\<rparr>) = (Inr r', s')" "P 0 r' s'" by blast
  then show ?thesis using d(1) by (auto simp: BM_PointRead_def bind_def ret_def P_def)
qed

lemma BM_Mixed_ok:
  assumes "inv (db s)" "5000 + iters \<le> room (db s)" "answers s = []"
  shows "\<exists>s'. BM_Mixed eng iters s = (Inr (), s') \<and> None \<notin> set (answers s')"
proof -
  from fill_numbered_ok [of s 5000 iters "lit ''mkey_''"] assms(1,2) obtain d where
    d: "fill_numbered eng (lit ''mkey_'') 5000 s = (Inr (), s\<lparr>db := d\<rparr>)" "inv d" "iters \<le> room d"
    "\<forall>i<5000. kv d (lit ''mkey_'' @ dec_string i) = Some (lit ''v'' @ dec_string i)" by (auto simp: lit_def)
  define P where "P k (r :: mt_state \<times> u64) s' \<longleftrightarrow> inv (db s') \<and> k \<le> room (db s') \<and> None \<notin> set (answers s') \<and>
    (\<forall>i<5000. kv (db s') (lit ''mkey_'' @ dec_string i) \<noteq> None)" for k r and s' :: "'db bench"
  let ?op = "\<lambda>(rng, wc). case mt_next rng of (b, rng1) \<Rightarrow>
        if unat b mod 2 = 0 then
          bind (on_db (eng_put eng (lit ''mkey_'' @ to_string wc) (lit ''new_value''))) (\<lambda>_. ret (rng1, wc + 1))
        else case mt_next rng1 of (x, rng2) \<Rightarrow>
          bind (look_up eng (lit ''mkey_'' @ dec_string (unat x mod 5000))) (\<lambda>_. ret (rng2, wc))"
  have step: "\<exists>r' s2. ?op r s1 = (Inr r', s2) \<and> P k r' s2" if p: "P (Suc k) r s1" for k r s1
  proof -
    obtain rng wc b rng1 x rng2 where x: "r = (rng, wc)" "mt_next rng = (b, rng1)" "mt_next rng1 = (x, rng2)"
      by (metis surj_pair)
    show ?thesis
    proof (cases "unat b mod 2 = 0")
      case True
      have "k < room (db s1)" using p by (simp add: P_def)
      moreover have "unat wc < 10 ^ Suc 19" using unsigned_less [of wc, where ?'a = nat] by simp
      from dec_string_length [OF this] have "short (lit ''mkey_'' @ to_string wc)" by (simp add: lit_def to_string_def)
      moreover have "lit ''mkey_'' @ to_string wc \<noteq> []" "short (lit ''new_value'')" by (simp_all add: lit_def)
      ultimately obtain d' where "on_db (eng_put eng (lit ''mkey_'' @ to_string wc) (lit ''new_value'')) s1 = (Inr (), s1\<lparr>db := d'\<rparr>)"
        "inv d'" "kv d' = (kv (db s1))(lit ''mkey_'' @ to_string wc \<mapsto> lit ''new_value'')" "k \<le> room d'"
        using on_put [of s1 k] p unfolding P_def by blast
      with p x True show ?thesis by (auto simp: bind_def ret_def P_def)
    next
      case False
      have i: "unat x mod 5000 < 5000" by simp
      from look_up_ok [of s1 "lit ''mkey_'' @ dec_string (unat x mod 5000)"] p obtain d2 where
        "look_up eng (lit ''mkey_'' @ dec_string (unat x mod 5000)) s1 =
          (Inr (), s1\<lparr>db := d2, answers := answers s1 @ [kv (db s1) (lit ''mkey_'' @ dec_string (unat x mod 5000))]\<rparr>)"
        "inv d2" "kv d2 = kv (db s1)" "room d2 = room (db s1)" by (auto simp: P_def)
      moreover obtain v where "kv (db s1) (lit ''mkey_'' @ dec_string (unat x mod 5000)) = Some v" using p i unfolding P_def by blast
      ultimately show ?thesis using p x False by (auto simp: bind_def ret_def P_def)
    qed
  qed
  have "P iters (mt_seed 99, 5000) (s\<lparr>db := d\<rparr>)" using d(2-4) assms(3) by (simp add: P_def)
  from repeat_rule [of P ?op, OF step this] obtain r' s' where
    "repeat_op iters ?op (mt_seed 99, 5000) (s\<lparr>db := d\<rparr>) = (Inr r', s')" "P 0 r' s'" by blast
  then show ?thesis using d(1) by (auto simp: BM_Mixed_def bind_def ret_def P_def)
qed

end

subsection \<open>GravTree as an engine\<close>

definition gt_engine_inv :: "options \<Rightarrow> scheduled \<Rightarrow> bool" where
  "gt_engine_inv os s \<longleftrightarrow> (\<exists>l. gt_inv l (fst s)) \<and> durable (fst s) \<and> opts (fst s) = os \<and> quiet_schedule (snd s)"

definition writes_left :: "scheduled \<Rightarrow> nat" where
  "writes_left s = 2 ^ 30 - unat (seq (fst s))"

lemma rounds_inv:
  assumes "gt_inv l t" "durable t" "quiet_rounds m t"
  shows "\<exists>l'. gt_inv l' (rounds m t) \<and> durable (rounds m t) \<and> contents (rounds m t) = contents t \<and>
    seq (rounds m t) = seq t \<and> opts (rounds m t) = opts t"
  using assms
proof (induction m arbitrary: l t)
  case (Suc m)
  from Suc.prems(3) have quiet: "quiet_round t" "quiet_rounds m (thread_round FUEL t)" by simp_all
  from gt_inv_round [OF Suc.prems(1) quiet(1), of "FUEL - 3"] FUEL_Suc3 Suc.prems(2) obtain l' where
    "gt_inv l' (thread_round FUEL t)" "contents (thread_round FUEL t) = contents t" "seq (thread_round FUEL t) = seq t"
    "opts (thread_round FUEL t) = opts t" "durable (thread_round FUEL t)" by auto
  with Suc.IH [of l' "thread_round FUEL t"] quiet(2) show ?case by simp
qed auto

lemma gt_call_start:
  assumes "gt_engine_inv os (t, sched)"
  obtains t1 l where "gt_call f (t, sched) = (case f t1 of (r, t') \<Rightarrow> (r, (t', tl sched)))" "gt_inv l t1" "durable t1"
    "contents t1 = contents t" "seq t1 = seq t" "opts t1 = os" "quiet_schedule (tl sched)"
proof -
  from assms obtain l where l: "gt_inv l t" "durable t" "opts t = os" "quiet_schedule sched" by (auto simp: gt_engine_inv_def)
  show ?thesis
  proof (cases sched)
    case Nil
    then show ?thesis using that l by (simp add: gt_call_def)
  next
    case (Cons m ms)
    then have "quiet_rounds (m t) t" "quiet_schedule ms" using l(4) by (simp_all add: quiet_schedule_def)
    then show ?thesis using Cons that rounds_inv [OF l(1,2), of "m t"] l(3) by (auto simp: gt_call_def)
  qed
qed

interpretation gt: map_engine "gravtree sched" "gt_engine_inv os" "\<lambda>s. contents (fst s)" writes_left for sched os
proof
  fix s :: scheduled and k v :: bytes
  assume s: "gt_engine_inv os s" "0 < writes_left s" and k: "k \<noteq> []" "short k" "short v"
  obtain t sc where sc: "s = (t, sc)" by fastforce
  from gt_call_start [OF s(1) [unfolded sc], of "tree_insert k v"] obtain t1 l where
    t1: "gt_call (tree_insert k v) s = (case tree_insert k v t1 of (r, t') \<Rightarrow> (r, (t', tl sc)))" "gt_inv l t1" "durable t1"
    "contents t1 = contents t" "seq t1 = seq t" "opts t1 = os" "quiet_schedule (tl sc)" unfolding sc by metis
  have room: "unat (seq t1) < 2 ^ 30" using s(2) t1(5) sc by (simp add: writes_left_def)
  from gt_inv_write [OF t1(2) k(1) room, of v False] t1(3,6) k obtain t' where
    "tree_insert k v t1 = (Inr (), t')" "gt_inv l t'" "contents t' = (contents t1)(k \<mapsto> v)" "unat (seq t') = unat (seq t1) + 1"
    "opts t' = os" "durable t'" by (auto simp: tree_insert_def)
  with t1 sc show "\<exists>s'. eng_put (gravtree sched) k v s = (Inr (), s') \<and> gt_engine_inv os s' \<and>
      contents (fst s') = (contents (fst s))(k \<mapsto> v) \<and> writes_left s \<le> Suc (writes_left s')"
    by (auto simp: gravtree_def gt_engine_inv_def writes_left_def)
next
  fix s :: scheduled and k :: bytes
  assume s: "gt_engine_inv os s"
  obtain t sc where sc: "s = (t, sc)" by fastforce
  from gt_call_start [OF s [unfolded sc], of "tree_get FUEL k"] obtain t1 l where
    t1: "gt_call (tree_get FUEL k) s = (case tree_get FUEL k t1 of (r, t') \<Rightarrow> (r, (t', tl sc)))" "gt_inv l t1" "durable t1"
    "contents t1 = contents t" "seq t1 = seq t" "opts t1 = os" "quiet_schedule (tl sc)" unfolding sc by metis
  from tree_get_contents [OF gt_invD(1) [OF t1(2)], of k] obtain t' where
    t': "tree_get FUEL k t1 = (Inr (contents t1 k), t')" "same_but_cache t1 t'" by blast
  note sel = same_but_cache_sel [OF t'(2)]
  have "durable t' = durable t1" by (rule durable_cong) (use sel in simp_all)
  with gt_inv_cache [OF t1(2) t'(2)] tree_inv_cache [OF gt_invD(1) [OF t1(2)] t'(2)] t'(1) sel t1 sc
  show "\<exists>s'. eng_get (gravtree sched) k s = (Inr (contents (fst s) k), s') \<and> gt_engine_inv os s' \<and>
      contents (fst s') = contents (fst s) \<and> writes_left s' = writes_left s"
    by (auto simp: gravtree_def gt_engine_inv_def writes_left_def)
next
  fix s :: scheduled
  assume s: "gt_engine_inv os s"
  obtain t sc where sc: "s = (t, sc)" by fastforce
  from gt_call_start [OF s [unfolded sc], of tree_flush] obtain t1 l where
    t1: "gt_call tree_flush s = (case tree_flush t1 of (r, t') \<Rightarrow> (r, (t', tl sc)))" "gt_inv l t1" "durable t1"
    "contents t1 = contents t" "seq t1 = seq t" "opts t1 = os" "quiet_schedule (tl sc)" unfolding sc by metis
  from gt_inv_flush [OF t1(2)] t1(3) obtain t' where t': "tree_flush t1 = (Inr (), t')" "gt_inv l t'"
    "contents t' = contents t1" "sl_entries (write_buf t') = []" "seq t' = seq t1" "opts t' = opts t1"
    "root_id (t_manifest t') = root_id (t_manifest t1)" "all_small t'" "saved t'" "filed {} t'" by blast
  have "durable t'" using t' durableD(6) [OF t1(3)] by (intro durableI) simp_all
  with t' t1 sc show "\<exists>s'. eng_sync (gravtree sched) s = (Inr (), s') \<and> gt_engine_inv os s' \<and>
      contents (fst s') = contents (fst s) \<and> writes_left s' = writes_left s"
    by (auto simp: gravtree_def gt_engine_inv_def writes_left_def)
qed

lemma fresh_opens:
  assumes "\<forall>p. openable d p" "quiet_schedule sched"
  shows "\<exists>t. tree_open os (remove_all (data_dir os) d) = (Inr (), t) \<and> gt_engine_inv os (t, sched) \<and>
    writes_left (t, sched) = 2 ^ 30 - 1"
proof -
  have "files (remove_all (data_dir os) d) (data_dir os @ lit ''/manifest'') = None" by (simp add: remove_all_def lit_def)
  from gt_inv_open [OF this] assms show ?thesis by (fastforce simp: gt_engine_inv_def writes_left_def remove_all_def)
qed

lemma gravtree_opens:
  assumes "\<forall>p. openable d p" "quiet_schedule sched"
  shows "\<exists>t. open_gravtree dir d = (Inr (), t) \<and> gt_engine_inv (bench_options dir) (t, sched) \<and>
    writes_left (t, sched) = 2 ^ 30 - 1"
  using fresh_opens [OF assms, of "bench_options dir"] by (simp add: open_gravtree_def bench_options_def)

lemma gt_bench_run:
  assumes "\<forall>p. openable d p" "quiet_schedule sched"
    and body: "\<And>t. gt_engine_inv (bench_options dir) (t, sched) \<Longrightarrow> writes_left (t, sched) = 2 ^ 30 - 1 \<Longrightarrow>
      \<exists>lats el s'. body \<lparr>db = (t, sched), ticks = 0, answers = []\<rparr> = (Inr (lats, el), s') \<and> Q lats (answers s')"
  shows "\<exists>lats el as d'. bench_run (gravtree sched) body dir d = Inr ((lats, el), as, d') \<and> Q lats as"
proof -
  from gravtree_opens [OF assms(1,2)] obtain t where t: "open_gravtree dir d = (Inr (), t)"
    "gt_engine_inv (bench_options dir) (t, sched)" "writes_left (t, sched) = 2 ^ 30 - 1" by blast
  from body [OF t(2,3)] t(1) show ?thesis by (auto simp: bench_run_def gravtree_def)
qed

text \<open>The reads of \<^verbatim>\<open>bench.cpp\<close> hit as well.\<close>

lemma bm_reads_hit:
  assumes "\<forall>p. openable d p" "iters < 2 ^ 29" "quiet_schedule sched"
  shows "\<exists>as d'. bm_run sched (BM_PointRead (gravtree sched) iters) dir d = Inr (as, d') \<and> length as = iters \<and>
      set as \<subseteq> {Some (lit ''v'' @ dec_string i) |i. i < 10000}"
    "\<exists>as d'. bm_run sched (BM_Mixed (gravtree sched) iters) dir d = Inr (as, d') \<and> None \<notin> set as"
proof -
  let ?os = "(bench_options dir)\<lparr>buffer_threshold := BUFFER_THRESHOLD\<rparr>"
  from fresh_opens [OF assms(1,3), of ?os] obtain t where t: "open_tree dir BUFFER_THRESHOLD d = (Inr (), t)"
    "gt_engine_inv ?os (t, sched)" "writes_left (t, sched) = 2 ^ 30 - 1" by (auto simp: open_tree_def bench_options_def)
  let ?s = "\<lparr>db = (t, sched), ticks = 0, answers = []\<rparr>"
  from gt.BM_PointRead_ok [of ?os ?s sched iters] t
  show "\<exists>as d'. bm_run sched (BM_PointRead (gravtree sched) iters) dir d = Inr (as, d') \<and> length as = iters \<and>
      set as \<subseteq> {Some (lit ''v'' @ dec_string i) |i. i < 10000}" by (auto simp: bm_run_def)
  from gt.BM_Mixed_ok [of ?os ?s iters sched] t assms(2)
  show "\<exists>as d'. bm_run sched (BM_Mixed (gravtree sched) iters) dir d = Inr (as, d') \<and> None \<notin> set as"
    by (auto simp: bm_run_def)
qed

lemma point_read_nothing:
  assumes "on_db (eng_sync eng) s = (Inr (), s1)" "0 < n"
  shows "\<exists>s'. point_read eng clk 0 n s = (Inl Undefined_behaviour, s')"
proof -
  let ?op = "\<lambda>i rng. bind (lift_res (draw 0 rng)) (\<lambda>(x, rng'). bind (look_up eng (padded_key x 20)) (\<lambda>_. ret rng'))"
  let ?s = "s1\<lparr>ticks := ticks s1 + 1\<rparr>"
  have "\<exists>s'. timed_loop clk ?op (i # is) (mt64_seed 7) ?s = (Inl Undefined_behaviour, s')" for i :: nat and "is"
    by (simp add: bind_def clock_now_def lift_res_def draw_def)
  moreover obtain i "is" where "[0..<n] = i # is" using assms(2) by (metis upt_conv_Cons)
  ultimately obtain s' where "timed_loop clk ?op [0..<n] (mt64_seed 7) ?s = (Inl Undefined_behaviour, s')" by fastforce
  with assms(1) show ?thesis
    by (auto simp: point_read_def fill_keys_def bind_def ret_def with_wall_def clock_now_def)
qed

subsection \<open>Properties\<close>

text \<open>
  C13. The workloads measure what they mean to when the flush thread does not get in their way: on a
  directory that can be written, with any clock, in every run in which the rounds of the flush thread fall
  between the calls of the program and are quiet, each workload runs to its end with one latency per
  operation, every read of the point-read workload and of the mixed workload hits, and nothing is read
  by the write workloads. A read that overlaps a round can miss, which \<open>Thread_Races\<close> shows.
\<close>

theorem workloads_complete:
  assumes "\<forall>p. openable d p" and "2 \<le> n" and "n < 2 ^ 29" and "0 < m" and "m < 2 ^ 29" and "quiet_schedule sched"
  shows "(\<exists>lats el d'. gt_seq_write sched clk n dir d = Inr ((lats, el), [], d') \<and> length lats = n) \<and>
    (\<exists>lats el d'. gt_rand_write sched clk n dir d = Inr ((lats, el), [], d') \<and> length lats = n) \<and>
    (\<exists>lats el d'. gt_point_read sched clk m n dir d = Inr ((lats, el), replicate n (Some (make_value 100)), d') \<and>
       length lats = n) \<and>
    (\<exists>lats el as d'. gt_mixed sched clk n dir d = Inr ((lats, el), as, d') \<and> length lats = n \<and>
       set as \<subseteq> {Some (make_value 100)})"
proof (intro conjI)
  show "\<exists>lats el d'. gt_seq_write sched clk n dir d = Inr ((lats, el), [], d') \<and> length lats = n"
    using gt_bench_run [of d sched dir "seq_write (gravtree sched) clk n" "\<lambda>l as. length l = n \<and> as = []", OF assms(1,6)]
      gt.seq_write_ok assms(3) unfolding gt_seq_write_def by fastforce
  show "\<exists>lats el d'. gt_rand_write sched clk n dir d = Inr ((lats, el), [], d') \<and> length lats = n"
    using gt_bench_run [of d sched dir "rand_write (gravtree sched) clk n" "\<lambda>l as. length l = n \<and> as = []", OF assms(1,6)]
      gt.rand_write_ok assms(3) unfolding gt_rand_write_def by fastforce
  show "\<exists>lats el d'. gt_point_read sched clk m n dir d = Inr ((lats, el), replicate n (Some (make_value 100)), d') \<and>
       length lats = n"
    using gt_bench_run [of d sched dir "point_read (gravtree sched) clk m n"
        "\<lambda>l as. length l = n \<and> as = replicate n (Some (make_value 100))", OF assms(1,6)]
      gt.point_read_ok assms(3-5) unfolding gt_point_read_def by fastforce
  show "\<exists>lats el as d'. gt_mixed sched clk n dir d = Inr ((lats, el), as, d') \<and> length lats = n \<and>
       set as \<subseteq> {Some (make_value 100)}"
    using gt_bench_run [of d sched dir "mixed (gravtree sched) clk n"
        "\<lambda>l as. length l = n \<and> set as \<subseteq> {Some (make_value 100)}", OF assms(1,6)]
      gt.mixed_ok assms(2,3) unfolding gt_mixed_def by fastforce
qed

theorem workloads_complete_witness:
  "(\<exists>lats el d'. gt_point_read [\<lambda>t. 0, when_quiet, when_quiet] int 1 2 (lit ''d'') demo_disk =
      Inr ((lats, el), [Some (make_value 100), Some (make_value 100)], d') \<and> length lats = 2)"
proof -
  have "replicate 2 x = [x, x]" for x :: "bytes option" by (simp add: numeral_2_eq_2)
  with workloads_complete [of demo_disk 2 1 "[\<lambda>t. 0, when_quiet, when_quiet]" int "lit ''d''"] show ?thesis
    by (simp add: quiet_when_quiet)
qed

text \<open>
  The point-read workload divides by zero when it has nothing to read: \<^verbatim>\<open>main\<close> fills \<^verbatim>\<open>N/10\<close> keys, so
  every \<^verbatim>\<open>N\<close> from 1 to 9 makes \<^verbatim>\<open>rng() % fill\<close> a remainder by zero, on either engine.
\<close>

lemma empty_point_read_undefined:
  assumes "\<forall>p. openable d p" and "0 < n" and "quiet_schedule sched" and "rk_open api dir (remove_all dir d) = Some s0"
  shows "gt_point_read sched clk 0 n dir d = Inl Undefined_behaviour \<and>
    rdb_point_read api clk 0 n dir d = Inl Undefined_behaviour"
proof -
  from gravtree_opens [OF assms(1,3)] obtain t where t: "open_gravtree dir d = (Inr (), t)"
    "gt_engine_inv (bench_options dir) (t, sched)" by blast
  let ?s = "\<lparr>db = (t, sched), ticks = 0, answers = []\<rparr>" and ?r = "\<lparr>db = s0, ticks = 0, answers = []\<rparr>"
  from gt.on_sync [of "bench_options dir" ?s sched] t(2) obtain s1 where
    s1: "on_db (eng_sync (gravtree sched)) ?s = (Inr (), s1)" by auto
  have "eng_open (gravtree sched) dir d = Inr (t, sched)" using t(1) by (simp add: gravtree_def)
  with point_read_nothing [OF s1 assms(2), of clk] have "gt_point_read sched clk 0 n dir d = Inl Undefined_behaviour"
    by (auto simp: gt_point_read_def bench_run_def)
  moreover have "on_db (eng_sync (rocksdb api)) ?r = (Inr (), ?r\<lparr>db := rk_flush api s0\<rparr>)"
    by (simp add: on_db_def rocksdb_def)
  moreover have "eng_open (rocksdb api) dir d = Inr s0" using assms(4) by (simp add: rocksdb_def open_rocksdb_def)
  ultimately show ?thesis
    using point_read_nothing [OF _ assms(2), of "rocksdb api" ?r _ clk] by (auto simp: rdb_point_read_def bench_run_def)
qed

end
