(* ===== verification/Bench_Verify.thy ===== *)
theory Bench_Verify
  imports Bench_Workloads
begin

text \<open>
  \<^verbatim>\<open>verify_bench.cpp\<close>, the program that checks the store end to end: write N keys, flush, read all of
  them back, close, open again, read all of them again. The report has the two pairs of counters the
  program prints and the statistics; the number and size of the files, which it prints too, are left out.
\<close>

fun check_keys :: "'db engine \<Rightarrow> bytes \<Rightarrow> nat list \<Rightarrow> nat \<times> nat \<Rightarrow> ('db, nat \<times> nat) exec" where
  "check_keys eng expected [] c = ret c"
| "check_keys eng expected (i # is) (missing, mismatched) =
     bind (eng_get eng (padded_key (of_nat i) 20)) (\<lambda>v.
       check_keys eng expected is
         (case v of None \<Rightarrow> (missing + 1, mismatched)
          | Some x \<Rightarrow> if x \<noteq> expected then (missing, mismatched + 1) else (missing, mismatched)))"

definition check_all :: "'db engine \<Rightarrow> nat \<Rightarrow> bytes \<Rightarrow> ('db, nat \<times> nat) exec" where
  "check_all eng N expected = check_keys eng expected [0..<N] (0, 0)"

record verify_report =
  fresh_counts :: "nat \<times> nat"
  fresh_stats :: tree_stats
  reopen_counts :: "nat \<times> nat"

definition verify_dir :: bytes where
  "verify_dir = lit ''/tmp/gt_verify''"

definition reopen_gravtree :: "bytes \<Rightarrow> disk \<Rightarrow> (error + unit) \<times> tree" where
  "reopen_gravtree dir d = tree_open (bench_options dir) d"

text \<open>
  The first block of \<^verbatim>\<open>main\<close>, up to the end of the first store, and the second. After reopening nothing
  is written, so the flush thread is never woken.
\<close>

definition verify_fresh :: "schedule \<Rightarrow> nat \<Rightarrow> disk \<Rightarrow> ((nat \<times> nat) \<times> tree_stats \<times> disk) res" where
  "verify_fresh sched N d =
     (let eng = gravtree sched in
      bind_res (eng_open eng verify_dir d) (\<lambda>s0.
        case bind (fill_keys eng N) (\<lambda>_. bind (on_db (eng_sync eng)) (\<lambda>_. on_db (check_all eng N (make_value 100))))
            \<lparr>db = s0, ticks = 0, answers = []\<rparr> of
          (Inl e, _) \<Rightarrow> Inl e
        | (Inr counts, s) \<Rightarrow> Inr (counts, stats (fst (db s)), eng_close eng (db s))))"

definition verify_reopened :: "nat \<Rightarrow> disk \<Rightarrow> (nat \<times> nat) res" where
  "verify_reopened N d =
     (case reopen_gravtree verify_dir d of
        (Inl e, _) \<Rightarrow> Inl e
      | (Inr _, t) \<Rightarrow> fst (check_all (gravtree []) N (make_value 100) (t, [])))"

definition verify_main :: "schedule \<Rightarrow> nat \<Rightarrow> disk \<Rightarrow> verify_report res" where
  "verify_main sched N d =
     bind_res (verify_fresh sched N d) (\<lambda>(counts, st, d1).
     bind_res (verify_reopened N d1) (\<lambda>counts2.
       Inr \<lparr>fresh_counts = counts, fresh_stats = st, reopen_counts = counts2\<rparr>))"

subsection \<open>Reading back\<close>

lemma check_keys_clean:
  assumes step: "\<And>i s. i \<in> set is \<Longrightarrow> P s \<Longrightarrow> \<exists>s'. eng_get eng (padded_key (of_nat i) 20) s = (Inr (Some v), s') \<and> P s'"
    and "P s"
  shows "\<exists>s'. check_keys eng v is c s = (Inr c, s') \<and> P s'"
  using assms
proof (induction "is" arbitrary: s)
  case Nil
  then show ?case by (simp add: exec_simps)
next
  case (Cons i xs)
  from Cons.prems(1) [of i s] Cons.prems(2) obtain s1 where
    s1: "eng_get eng (padded_key (of_nat i) 20) s = (Inr (Some v), s1)" "P s1" by auto
  from Cons.IH [OF _ s1(2)] Cons.prems(1) obtain s' where "check_keys eng v xs c s1 = (Inr c, s')" "P s'" by fastforce
  with s1(1) show ?case by (cases c) (simp add: bind_Inr)
qed

text \<open>\<^verbatim>\<open>get\<close> does not change the answers of later calls.\<close>

lemma get_keeps_answers:
  assumes "sl_wf (write_buf t)" "tree_get FUEL k t = (r, t')"
  shows "sl_wf (write_buf t')" "fst (tree_get FUEL j t') = fst (tree_get FUEL j t)"
proof -
  from tree_get_view [OF assms(1), of FUEL k] assms(2) have s: "same_but_cache t t'" by auto
  note sel = same_but_cache_sel [OF s]
  show wf: "sl_wf (write_buf t')" using assms(1) sel by simp
  show "fst (tree_get FUEL j t') = fst (tree_get FUEL j t)"
    using tree_get_view [OF assms(1), of FUEL j] tree_get_view [OF wf, of FUEL j] sel by auto
qed

lemma verify_fresh_ok:
  assumes "\<forall>p. openable d p" "N < 2 ^ 30" "quiet_schedule sched"
  shows "\<exists>st t l. verify_fresh sched N d = Inr ((0, 0), st, tdisk (tree_close t)) \<and> gt_inv l t \<and> durable t \<and>
    opts t = bench_options verify_dir \<and> (\<forall>i<N. contents t (padded_key (of_nat i) 20) = Some (make_value 100))"
proof -
  let ?os = "bench_options verify_dir" and ?eng = "gravtree sched"
  from gravtree_opens [OF assms(1,3)] obtain t where t: "open_gravtree verify_dir d = (Inr (), t)"
    "gt_engine_inv ?os (t, sched)" "writes_left (t, sched) = 2 ^ 30 - 1" by blast
  let ?s = "\<lparr>db = (t, sched), ticks = 0, answers = []\<rparr>"
  from gt.fill_keys_ok [of ?os ?s N 0 sched] t(2,3) assms(2) obtain d1 where d1: "fill_keys ?eng N ?s = (Inr (), ?s\<lparr>db := d1\<rparr>)"
    "gt.loop_inv ?os N 0 (?s\<lparr>db := d1\<rparr>)" by auto
  then have "gt_engine_inv ?os (db (?s\<lparr>db := d1\<rparr>))" by (simp add: gt.loop_inv_def)
  from gt.on_sync [OF this, of sched] obtain d2 where d2: "on_db (eng_sync ?eng) (?s\<lparr>db := d1\<rparr>) = (Inr (), ?s\<lparr>db := d2\<rparr>)"
    "gt_engine_inv ?os d2" "contents (fst d2) = contents (fst d1)" by auto
  let ?P = "\<lambda>s. gt_engine_inv ?os s \<and> contents (fst s) = contents (fst d1)"
  have full: "contents (fst d1) (padded_key (of_nat i) 20) = Some (make_value 100)" if "i < N" for i
    using d1(2) that by (simp add: gt.loop_inv_def gt.filled_with_def)
  have "\<exists>s'. check_keys ?eng (make_value 100) [0..<N] (0, 0) d2 = (Inr (0, 0), s') \<and> ?P s'"
  proof (rule check_keys_clean)
    fix i s assume "i \<in> set [0..<N]" "?P s"
    with gt.get_ok [of ?os s sched "padded_key (of_nat i) 20"] full [of i]
    show "\<exists>s'. eng_get ?eng (padded_key (of_nat i) 20) s = (Inr (Some (make_value 100)), s') \<and> ?P s'" by auto
  qed (use d2 in simp)
  then obtain t3 sc where t3: "check_keys ?eng (make_value 100) [0..<N] (0, 0) d2 = (Inr (0, 0), (t3, sc))" "?P (t3, sc)" by force
  have "verify_fresh sched N d = Inr ((0, 0), stats t3, tdisk (tree_close t3))"
    using t(1) d1(1) d2(1) t3(1) unfolding verify_fresh_def Let_def
    by (simp add: gravtree_def [of sched] bind_Inr on_db_def check_all_def)
  with t3(2) full show ?thesis by (auto simp: gt_engine_inv_def)
qed

subsection \<open>Properties\<close>

text \<open>
  C3. The end-to-end check succeeds when the flush thread does not get in its way: on a file system that
  can be written, for any N below \<open>2 ^ 30\<close>, in every run in which the rounds of the flush thread fall between
  the calls of the program and are quiet, the program reports no missing and no mismatched key, neither
  before closing the store nor after opening it again. Without the condition this is false: the round that
  its \<^verbatim>\<open>flush\<close> wakes can hold the entries while they are read, which \<open>Thread_Races\<close> shows.
\<close>

theorem verify_bench_passes:
  assumes "\<forall>p. openable d p" and "N < 2 ^ 30" and "quiet_schedule sched"
  shows "\<exists>st. verify_main sched N d = Inr \<lparr>fresh_counts = (0, 0), fresh_stats = st, reopen_counts = (0, 0)\<rparr>"
proof -
  from verify_fresh_ok [OF assms] obtain st t l where
    f: "verify_fresh sched N d = Inr ((0, 0), st, tdisk (tree_close t))" "gt_inv l t" "durable t"
    "opts t = bench_options verify_dir" "\<forall>i<N. contents t (padded_key (of_nat i) 20) = Some (make_value 100)" by blast
  have "\<forall>b\<in>set (data_dir (opts t)). \<not> is_space b" by (simp add: f(4) bench_options_def verify_dir_def lit_def is_space_def)
  from synced_reopen [OF f(2,3) this, of "tree_close t"] f(4) obtain t2 where
    t2: "reopen_gravtree verify_dir (tdisk (tree_close t)) = (Inr (), t2)" "\<forall>k. fst (tree_get FUEL k t2) = Inr (contents t k)"
    "sl_wf (write_buf t2)" by (auto simp: reopen_gravtree_def)
  let ?P = "\<lambda>s. snd s = [] \<and> sl_wf (write_buf (fst s)) \<and> (\<forall>k. fst (tree_get FUEL k (fst s)) = Inr (contents t k))"
  have "\<exists>s'. check_keys (gravtree []) (make_value 100) [0..<N] (0, 0) (t2, []) = (Inr (0, 0), s') \<and> ?P s'"
  proof (rule check_keys_clean)
    fix i and s :: scheduled assume i: "i \<in> set [0..<N]" and s: "?P s"
    obtain r t' where g: "tree_get FUEL (padded_key (of_nat i) 20) (fst s) = (r, t')" by fastforce
    then have "r = Inr (Some (make_value 100))" using s i f(5) by (metis atLeastLessThan_iff fst_conv set_upt)
    with g s get_keeps_answers [OF _ g]
    show "\<exists>s'. eng_get (gravtree []) (padded_key (of_nat i) 20) s = (Inr (Some (make_value 100)), s') \<and> ?P s'"
      by (cases s) (simp add: gravtree_def gt_call_def)
  qed (use t2 in simp)
  then have "verify_reopened N (tdisk (tree_close t)) = Inr (0, 0)"
    using t2(1) by (auto simp: verify_reopened_def check_all_def)
  with f(1) show ?thesis by (auto simp: verify_main_def)
qed

theorem verify_bench_passes_witness:
  "\<exists>st. verify_main [\<lambda>t. 0, when_quiet, when_quiet] 1000 demo_disk = Inr \<lparr>fresh_counts = (0, 0), fresh_stats = st, reopen_counts = (0, 0)\<rparr>"
  using verify_bench_passes [of demo_disk 1000 "[\<lambda>t. 0, when_quiet, when_quiet]"] by (simp add: quiet_when_quiet)

end
