(* ===== verification/Bench_Stats.thy ===== *)
theory Bench_Stats
  imports Bench_Workloads
begin

text \<open>
  The evaluation half of \<^verbatim>\<open>latency_bench.cpp\<close>: percentiles, histogram and time series of the measured
  latencies, and \<^verbatim>\<open>compare\<close>, which prints them for both engines. What is printed is the value of the
  definitions here; the layout of the text is not modelled. A double converted to an \<^verbatim>\<open>int\<close> it does not
  fit is undefined.
\<close>

subsection \<open>Percentiles\<close>

record lat_stats =
  p50 :: fdouble
  p90 :: fdouble
  p99 :: fdouble
  p999 :: fdouble
  p9999 :: fdouble
  mean :: fdouble
  max_v :: fdouble
  count :: nat
  throughput_mops :: fdouble

definition PCT_50 :: fdouble where "PCT_50 = FD 0x10000000000000 (- 53)"
definition PCT_90 :: fdouble where "PCT_90 = FD 0x1CCCCCCCCCCCCD (- 53)"
definition PCT_99 :: fdouble where "PCT_99 = FD 0x1FAE147AE147AE (- 53)"
definition PCT_999 :: fdouble where "PCT_999 = FD 0x1FF7CED916872B (- 53)"
definition PCT_9999 :: fdouble where "PCT_9999 = FD 0x1FFF2E48E8A71E (- 53)"

definition rank_of :: "fdouble \<Rightarrow> nat \<Rightarrow> nat" where
  "rank_of pct n = min (fd_trunc (fd_mul pct (fd_of_nat n))) (n - 1)"

definition pct_of :: "u64 list \<Rightarrow> fdouble \<Rightarrow> fdouble" where
  "pct_of v pct = fd_of_nat (unat (v ! rank_of pct (length v)))"

text \<open>
  \<^verbatim>\<open>compute\<close> takes the vector by reference and leaves it sorted; the result has the statistics and the
  vector. On an empty vector \<^verbatim>\<open>v.back()\<close> is undefined.
\<close>

definition compute :: "u64 list \<Rightarrow> fdouble \<Rightarrow> (lat_stats \<times> u64 list) res" where
  "compute v0 elapsed_sec =
     (let v = sort v0; n = length v in
      if n = 0 then Inl Undefined_behaviour
      else
        let total = foldl (\<lambda>acc x. fd_add acc (fd_of_nat (unat x))) (FD 0 0) v;
            tput = (if fd_mant elapsed_sec > 0 then fd_div (fd_div (fd_of_nat n) elapsed_sec) (fd_of_nat 1000000) else FD 0 0)
        in Inr (\<lparr>p50 = pct_of v PCT_50, p90 = pct_of v PCT_90, p99 = pct_of v PCT_99, p999 = pct_of v PCT_999,
                 p9999 = pct_of v PCT_9999, mean = fd_div total (fd_of_nat n), max_v = fd_of_nat (unat (last v)),
                 count = n, throughput_mops = tput\<rparr>, v))"

subsection \<open>Histogram\<close>

definition hist_bounds :: "u64 list" where
  "hist_bounds = [1000, 10000, 100000, 1000000, 10000000]"

fun bucket_from :: "nat \<Rightarrow> u64 list \<Rightarrow> u64 \<Rightarrow> nat" where
  "bucket_from i [] x = i"
| "bucket_from i (b # bs) x = (if x < b then i else bucket_from (Suc i) bs x)"

definition hist_counts :: "u64 list \<Rightarrow> nat list" where
  "hist_counts v = foldl (\<lambda>cnt x. let b = bucket_from 0 hist_bounds x in cnt[b := cnt ! b + 1]) (replicate 6 0) v"

definition to_int32 :: "fdouble \<Rightarrow> nat res" where
  "to_int32 d = (if fd_trunc d < 2 ^ 31 then Inr (fd_trunc d) else Inl Undefined_behaviour)"

definition hist_pct :: "nat \<Rightarrow> nat \<Rightarrow> fdouble" where
  "hist_pct c n = fd_div (fd_mul (fd_of_nat 100) (fd_of_nat c)) (fd_of_nat n)"

definition map_res :: "('a \<Rightarrow> 'b res) \<Rightarrow> 'a list \<Rightarrow> 'b list res" where
  "map_res f xs = foldr (\<lambda>x acc. bind_res (f x) (\<lambda>y. bind_res acc (\<lambda>ys. Inr (y # ys)))) xs (Inr [])"

definition print_histogram :: "u64 list \<Rightarrow> (nat \<times> fdouble) list res" where
  "print_histogram v = map_res (\<lambda>c.
     let pct = hist_pct c (length v) in bind_res (to_int32 (fd_div pct (fd_of_nat 2))) (\<lambda>bar. Inr (bar, pct))) (hist_counts v)"

subsection \<open>Time series\<close>

record series_row =
  at_op :: nat
  peak :: u64
  peak_us :: fdouble
  bar_len :: nat

definition series_row_of :: "nat \<Rightarrow> u64 list \<Rightarrow> series_row res" where
  "series_row_of i w =
     (let mx = fold max (tl w) (hd w); us = fd_div (fd_of_nat (unat mx)) (fd_of_nat 1000)
      in bind_res (to_int32 (fd_div us (fd_of_nat 50))) (\<lambda>b.
         Inr \<lparr>at_op = i, peak = mx, peak_us = us, bar_len = min b 60\<rparr>))"

function windows :: "nat \<Rightarrow> nat \<Rightarrow> u64 list \<Rightarrow> (nat \<times> u64 list) list" where
  "windows window i v = (if i < length v \<and> 0 < window then (i, take window (drop i v)) # windows window (i + window) v else [])"
  by pat_completeness auto
termination
  by (relation "measure (\<lambda>(w, i, v). length v - i)") auto

declare windows.simps [simp del]

definition print_timeseries :: "u64 list \<Rightarrow> nat \<Rightarrow> series_row list res" where
  "print_timeseries v window = map_res (\<lambda>(i, w). series_row_of i w) (windows window 0 v)"

subsection \<open>The comparison\<close>

definition fd_le :: "fdouble \<Rightarrow> fdouble \<Rightarrow> bool" where
  "fd_le a b = (let e = min (fd_exp a) (fd_exp b) in
     fd_mant a * 2 ^ nat (fd_exp a - e) \<le> fd_mant b * 2 ^ nat (fd_exp b - e))"

text \<open>Whether GravTree is the faster one, and by which factor; \<open>None\<close> for a division by zero.\<close>

definition ratio :: "fdouble \<Rightarrow> fdouble \<Rightarrow> bool \<times> fdouble option" where
  "ratio a b =
     (let q = (\<lambda>x y. if fd_mant y = 0 then None else Some (fd_div x y))
      in if fd_le a b then (True, q b a) else (False, q a b))"

record comparison =
  gt_stats :: lat_stats
  rdb_stats :: lat_stats
  ratios :: "(bool \<times> fdouble option) list"
  gt_hist :: "(nat \<times> fdouble) list"
  rdb_hist :: "(nat \<times> fdouble) list"
  gt_series :: "series_row list"
  rdb_series :: "series_row list"

definition compare :: "bench_result \<Rightarrow> bench_result \<Rightarrow> comparison res" where
  "compare = (\<lambda>(gt_lats, gt_elapsed) (rdb_lats, rdb_elapsed).
     bind_res (compute gt_lats gt_elapsed) (\<lambda>(gt_s, gt_lats1).
     bind_res (compute rdb_lats rdb_elapsed) (\<lambda>(rdb_s, rdb_lats1).
     bind_res (print_histogram gt_lats1) (\<lambda>gh.
     bind_res (print_histogram rdb_lats1) (\<lambda>rh.
       let window = max (length gt_lats1 div 500) 1000 in
     bind_res (print_timeseries gt_lats1 window) (\<lambda>gs.
     bind_res (print_timeseries rdb_lats1 window) (\<lambda>rs.
       Inr \<lparr>gt_stats = gt_s, rdb_stats = rdb_s,
            ratios = [ratio (p99 gt_s) (p99 rdb_s), ratio (p999 gt_s) (p999 rdb_s), ratio (max_v gt_s) (max_v rdb_s)],
            gt_hist = gh, rdb_hist = rh, gt_series = gs, rdb_series = rs\<rparr>)))))))"

text \<open>
  \<^verbatim>\<open>main\<close>: the four workloads on both engines, each in a directory, with a schedule and a clock of its own.
\<close>

definition bench_base :: bytes where
  "bench_base = lit ''/tmp/gt_bench''"

definition latency_main ::
  "'db rocks_api \<Rightarrow> (nat \<Rightarrow> schedule) \<Rightarrow> (nat \<Rightarrow> clock) \<Rightarrow> nat \<Rightarrow> disk \<Rightarrow> comparison list res" where
  "latency_main api sched clk N d =
     bind_res (gt_seq_write (sched 0) (clk 0) N (bench_base @ lit ''/gt_seqw'') d) (\<lambda>(g0, _, d0).
     bind_res (rdb_seq_write api (clk 1) N (bench_base @ lit ''/rdb_seqw'') d0) (\<lambda>(r0, _, d1).
     bind_res (compare g0 r0) (\<lambda>c0.
     bind_res (gt_rand_write (sched 1) (clk 2) N (bench_base @ lit ''/gt_randw'') d1) (\<lambda>(g1, _, d2).
     bind_res (rdb_rand_write api (clk 3) N (bench_base @ lit ''/rdb_randw'') d2) (\<lambda>(r1, _, d3).
     bind_res (compare g1 r1) (\<lambda>c1.
     bind_res (gt_point_read (sched 2) (clk 4) (N div 10) N (bench_base @ lit ''/gt_read'') d3) (\<lambda>(g2, _, d4).
     bind_res (rdb_point_read api (clk 5) (N div 10) N (bench_base @ lit ''/rdb_read'') d4) (\<lambda>(r2, _, d5).
     bind_res (compare g2 r2) (\<lambda>c2.
     bind_res (gt_mixed (sched 3) (clk 6) N (bench_base @ lit ''/gt_mixed'') d5) (\<lambda>(g3, _, d6).
     bind_res (rdb_mixed api (clk 7) N (bench_base @ lit ''/rdb_mixed'') d6) (\<lambda>(r3, _, _).
     bind_res (compare g3 r3) (\<lambda>c3. Inr [c0, c1, c2, c3]))))))))))))"

subsection \<open>Ranks\<close>

lemma rank_mono:
  assumes "0 \<le> a" "a \<le> b"
  shows "rank_of (FD a e) n \<le> rank_of (FD b e) n"
proof -
  obtain c j where c: "fd_of_nat n = FD c j" by (cases "fd_of_nat n")
  have "0 \<le> c" using fd_round_mant [of "int n" False 0] c by (simp add: fd_of_nat_def)
  then have ab: "0 \<le> a * c" "a * c \<le> b * c" using assms by (simp_all add: mult_right_mono)
  have "0 \<le> fd_mant (fd_round (a * c) False (e + j))" by (rule fd_round_mant [OF ab(1)])
  moreover have "fd_val (fd_round (a * c) False (e + j)) \<le> fd_val (fd_round (b * c) False (e + j))"
    unfolding fd_round_val using rounded_mono [OF ab] by (intro mult_right_mono) simp_all
  ultimately have "fd_trunc (fd_mul (FD a e) (fd_of_nat n)) \<le> fd_trunc (fd_mul (FD b e) (fd_of_nat n))"
    unfolding c fd_mul.simps by (rule fd_trunc_mono)
  then show ?thesis by (simp add: rank_of_def min_def)
qed

lemma rank_bound: "0 < n \<Longrightarrow> rank_of pct n < n"
  unfolding rank_of_def by linarith

subsection \<open>Histogram\<close>

lemma bucket_bound: "bucket_from i bs x \<le> i + length bs"
proof (induction bs arbitrary: i)
  case (Cons b bs)
  then show ?case using Cons.IH [of "Suc i"] by simp
qed simp

lemma hist_counts_from:
  assumes "length c = 6"
  shows "foldl (\<lambda>cnt x. let b = bucket_from 0 hist_bounds x in cnt[b := cnt ! b + 1]) c v =
    map (\<lambda>b. c ! b + length (filter (\<lambda>x. bucket_from 0 hist_bounds x = b) v)) [0..<6]"
  using assms
proof (induction v arbitrary: c)
  case Nil
  then show ?case using map_nth [of c] by simp
next
  case (Cons x v)
  have "bucket_from 0 hist_bounds x < 6" using bucket_bound [of 0 hist_bounds x] by (simp add: hist_bounds_def)
  with Cons show ?case by (auto simp: Let_def nth_list_update)
qed

lemma hist_counts_eq: "hist_counts v = map (\<lambda>b. length (filter (\<lambda>x. bucket_from 0 hist_bounds x = b) v)) [0..<6]"
  using hist_counts_from [of "replicate 6 0" v] by (simp add: hist_counts_def)

subsection \<open>Time series\<close>

lemma map_res_Inr: "map_res f xs = Inr ys \<longleftrightarrow> list_all2 (\<lambda>x y. f x = Inr y) xs ys"
proof (induction xs arbitrary: ys)
  case Nil
  then show ?case by (auto simp: map_res_def)
next
  case (Cons x xs)
  have "map_res f (x # xs) = bind_res (f x) (\<lambda>y. bind_res (map_res f xs) (\<lambda>ys. Inr (y # ys)))" by (simp add: map_res_def)
  with Cons show ?case by (auto simp: list_all2_Cons1)
qed

lemma fold_max_in: "fold max xs x \<in> insert x (set xs)" for x :: "'a::linorder"
  by (induction xs arbitrary: x) (auto simp: max_def split: if_splits)

lemma fold_max_ge: "y \<in> insert x (set xs) \<Longrightarrow> y \<le> fold max xs x" for x :: "'a::linorder"
proof (induction xs arbitrary: x y)
  case (Cons z xs)
  have "max z x \<le> fold max xs (max z x)" by (rule Cons.IH) simp
  with Cons show ?case by auto
qed simp

lemma windows_sub: "(j, w) \<in> set (windows window i v) \<Longrightarrow> w \<noteq> [] \<and> set w \<subseteq> set (drop i v)"
proof (induction window i v rule: windows.induct)
  case (1 window i v)
  have run: "i < length v" "0 < window" using "1.prems" by (auto simp: windows.simps [of window i v] split: if_splits)
  then consider "w = take window (drop i v)" | "(j, w) \<in> set (windows window (i + window) v)"
    using "1.prems" by (auto simp: windows.simps [of window i v])
  then show ?case
  proof cases
    case 1
    then show ?thesis using run set_take_subset [of window "drop i v"] by simp
  next
    case 2
    have "set (drop (i + window) v) \<subseteq> set (drop i v)" by (rule set_drop_subset_set_drop) simp
    with "1.IH" run 2 show ?thesis by blast
  qed
qed

lemma windows_ascend:
  "sorted v \<Longrightarrow> sorted_wrt (\<lambda>a b. \<forall>x\<in>set (snd a). \<forall>y\<in>set (snd b). x \<le> y) (windows window i v)"
proof (induction window i v rule: windows.induct)
  case (1 window i v)
  show ?case
  proof (cases "i < length v \<and> 0 < window")
    case True
    have "x \<le> y" if xy: "x \<in> set (take window (drop i v))" "(j, w) \<in> set (windows window (i + window) v)" "y \<in> set w" for x y j w
    proof -
      have "sorted (take window (drop i v) @ drop window (drop i v))" using "1.prems" by (simp only: append_take_drop_id sorted_wrt_drop)
      moreover have "y \<in> set (drop window (drop i v))" using windows_sub [OF xy(2)] xy(3) by (auto simp: add.commute)
      ultimately show ?thesis using xy(1) unfolding sorted_append by blast
    qed
    with 1 True show ?thesis by (subst windows.simps) fastforce
  next
    case False
    then have "windows window i v = []" by (subst windows.simps) simp
    then show ?thesis by simp
  qed
qed

lemma row_peak: "series_row_of i w = Inr row \<Longrightarrow> w \<noteq> [] \<Longrightarrow> peak row \<in> set w"
  using fold_max_in [of "tl w" "hd w"] by (cases w) (auto simp: series_row_of_def Let_def)

lemma series_ascend:
  assumes "sorted v" "print_timeseries v window = Inr rows"
  shows "sorted (map peak rows)"
proof -
  let ?ws = "windows window 0 v"
  have rows: "list_all2 (\<lambda>x y. (case x of (i, w) \<Rightarrow> series_row_of i w) = Inr y) ?ws rows"
    using assms(2) by (simp add: print_timeseries_def map_res_Inr)
  have mem: "peak (rows ! j) \<in> set (snd (?ws ! j))" if j: "j < length rows" for j
  proof -
    obtain i w where w: "?ws ! j = (i, w)" by fastforce
    have "w \<noteq> []" using windows_sub [of i w window 0 v] w j list_all2_lengthD [OF rows] by (metis nth_mem)
    moreover have "series_row_of i w = Inr (rows ! j)" using list_all2_nthD2 [OF rows j] w by simp
    ultimately show ?thesis using w row_peak by simp
  qed
  have "peak (rows ! i) \<le> peak (rows ! j)" if "i < j" "j < length rows" for i j
    using sorted_wrt_nth_less [OF windows_ascend [OF assms(1), of window 0], of i j] mem [of i] mem [of j] that
      list_all2_lengthD [OF rows] by auto
  then show ?thesis by (simp add: sorted_wrt_iff_nth_less)
qed

lemma sort_Nil: "sort v = [] \<longleftrightarrow> v = []"
  by (metis length_0_conv length_sort)

lemma last_sorted: "sorted v \<Longrightarrow> v \<noteq> [] \<Longrightarrow> last v = Max (set v)" for v :: "'a::linorder list"
proof (induction v rule: rev_induct)
  case (snoc x v)
  then show ?case by (intro Max_eqI [symmetric]) (auto simp: sorted_append)
qed simp

lemma compute_sorts: "compute v el = Inr (st, v') \<Longrightarrow> v' = sort v"
  by (auto simp: compute_def Let_def split: if_splits)

lemma compute_order_blind: "mset v = mset w \<Longrightarrow> compute v el = compute w el"
  using properties_for_sort [of "sort w" v] by (simp add: compute_def)

subsection \<open>Latencies below nine hours are reported\<close>

lemma to_int32_ok: "0 \<le> fd_mant d \<Longrightarrow> fd_val d < 2 ^ 31 \<Longrightarrow> \<exists>b. to_int32 d = Inr b"
  using fd_trunc_upper [of d] by (simp add: to_int32_def)

lemma map_res_ok: "(\<And>x. x \<in> set xs \<Longrightarrow> \<exists>y. f x = Inr y) \<Longrightarrow> \<exists>ys. map_res f xs = Inr ys"
  by (induction xs) (auto simp: map_res_def)

lemma histogram_ok:
  assumes "v \<noteq> []"
  shows "\<exists>rows. print_histogram v = Inr rows"
  unfolding print_histogram_def
proof (rule map_res_ok)
  fix c assume "c \<in> set (hist_counts v)"
  then have c: "c \<le> length v" unfolding hist_counts_eq by auto
  let ?n = "length v" and ?a = "fd_mul (fd_of_nat 100) (fd_of_nat c)"
  have n: "0 < ?n" using assms by simp
  obtain m e k f where ab: "fd_of_nat 100 = FD m e" "fd_of_nat c = FD k f" by (metis fdouble.exhaust)
  have "0 \<le> m * k" using fd_of_nat_range(1) [of 100] fd_of_nat_range(1) [of c] ab by simp
  then have a: "0 \<le> fd_mant ?a" unfolding ab fd_mul.simps by (rule fd_round_mant)
  have "fd_val ?a \<le> 11 / 10 * (fd_val (fd_of_nat 100) * fd_val (fd_of_nat c))"
    by (rule fd_mul_upper) (rule fd_of_nat_range(1))+
  also have "fd_val (fd_of_nat 100) * fd_val (fd_of_nat c) \<le> 110 * (11 / 10 * real c)"
    using fd_of_nat_range(2,3) [of 100] fd_of_nat_range(2,3) [of c] by (intro mult_mono) (auto intro: order_trans [rotated])
  also have "\<dots> \<le> 110 * (11 / 10 * real ?n)" using c by simp
  finally have "fd_val ?a \<le> 1000 * real ?n" by simp
  from fd_div_range [OF a this n] n have p: "0 \<le> fd_mant (hist_pct c ?n)" "fd_val (hist_pct c ?n) \<le> 2000"
    by (simp_all add: hist_pct_def)
  from fd_div_range [OF p, of 2] to_int32_ok [of "fd_div (hist_pct c ?n) (fd_of_nat 2)"]
  show "\<exists>y. (let pct = hist_pct c ?n in bind_res (to_int32 (fd_div pct (fd_of_nat 2))) (\<lambda>bar. Inr (bar, pct))) = Inr y"
    by auto
qed

lemma timeseries_ok:
  assumes "\<forall>x\<in>set v. unat x < 2 ^ 45"
  shows "\<exists>rows. print_timeseries v window = Inr rows"
  unfolding print_timeseries_def
proof (rule map_res_ok)
  fix iw assume iw: "iw \<in> set (windows window 0 v)"
  obtain i w where w: "iw = (i, w)" by fastforce
  let ?mx = "fold max (tl w) (hd w)"
  have "?mx \<in> set w" using windows_sub [of i w window 0 v] iw w fold_max_in [of "tl w" "hd w"] by (cases w) auto
  then have "unat ?mx < 2 ^ 45" using windows_sub [of i w window 0 v] iw w assms by auto
  then have "real (unat ?mx) \<le> 2 ^ 45" by (metis less_imp_le of_nat_le_numeral_power_cancel_iff)
  then have x: "fd_val (fd_of_nat (unat ?mx)) \<le> 11 / 10 * 2 ^ 45" using fd_of_nat_range(2) [of "unat ?mx"] by simp
  let ?us = "fd_div (fd_of_nat (unat ?mx)) (fd_of_nat 1000)"
  note us = fd_div_range [OF fd_of_nat_range(1) x, of 1000]
  have "fd_val (fd_div ?us (fd_of_nat 50)) < 2 ^ 31" "0 \<le> fd_mant (fd_div ?us (fd_of_nat 50))"
    using fd_div_range [OF us, of 50] by simp_all
  from to_int32_ok [OF this(2,1)] show "\<exists>y. (case iw of (i, w) \<Rightarrow> series_row_of i w) = Inr y"
    by (auto simp: w series_row_of_def Let_def)
qed

lemma compare_total:
  assumes "fst g \<noteq> []" "fst r \<noteq> []" "\<forall>x\<in>set (fst g) \<union> set (fst r). unat x < 2 ^ 45"
  shows "\<exists>c. compare g r = Inr c"
proof -
  obtain gl ge rl re where gr: "g = (gl, ge)" "r = (rl, re)" by fastforce
  obtain gs rs where "compute gl ge = Inr (gs, sort gl)" "compute rl re = Inr (rs, sort rl)"
    using assms(1,2) gr by (simp add: compute_def Let_def sort_Nil)
  moreover obtain gh rh where "print_histogram (sort gl) = Inr gh" "print_histogram (sort rl) = Inr rh"
    using histogram_ok [of "sort gl"] histogram_ok [of "sort rl"] assms(1,2) gr by (auto simp: sort_Nil)
  moreover have "\<exists>rows. print_timeseries (sort gl) w = Inr rows" "\<exists>rows. print_timeseries (sort rl) w = Inr rows" for w
    using timeseries_ok [of "sort gl" w] timeseries_ok [of "sort rl" w] assms(3) gr by auto
  ultimately show ?thesis unfolding gr compare_def by (simp add: Let_def) blast
qed

subsection \<open>Properties\<close>

text \<open>
  C30. The time series does not show time. \<^verbatim>\<open>compute\<close> sorts the latencies in place, and \<^verbatim>\<open>compare\<close> prints the
  time series from the sorted vector: the peaks ascend on both engines, so the slowest operation is always
  shown in the last window, and the report is the same for every order in which the latencies were
  measured.
\<close>

theorem timeseries_loses_time:
  assumes "compare g r = Inr c"
  shows "sorted (map peak (gt_series c)) \<and> sorted (map peak (rdb_series c)) \<and>
    (\<forall>g' r'. mset (fst g') = mset (fst g) \<and> snd g' = snd g \<and> mset (fst r') = mset (fst r) \<and> snd r' = snd r \<longrightarrow>
       compare g' r' = Inr c)"
proof (intro conjI allI impI)
  obtain gl ge rl re where gr: "g = (gl, ge)" "r = (rl, re)" by fastforce
  from assms obtain gs rs gl1 rl1 w where c: "compute gl ge = Inr (gs, gl1)" "compute rl re = Inr (rs, rl1)"
    "print_timeseries gl1 w = Inr (gt_series c)" "print_timeseries rl1 w = Inr (rdb_series c)"
    unfolding gr compare_def by (auto simp: Let_def)
  show "sorted (map peak (gt_series c))" using series_ascend [OF _ c(3)] compute_sorts [OF c(1)] by simp
  show "sorted (map peak (rdb_series c))" using series_ascend [OF _ c(4)] compute_sorts [OF c(2)] by simp
  fix g' r'
  assume "mset (fst g') = mset (fst g) \<and> snd g' = snd g \<and> mset (fst r') = mset (fst r) \<and> snd r' = snd r"
  then have "compare g' r' = compare g r"
    using compute_order_blind [of "fst g'" "fst g" "snd g"] compute_order_blind [of "fst r'" "fst r" "snd r"]
    by (simp add: compare_def case_prod_unfold)
  then show "compare g' r' = Inr c" using assms by simp
qed

theorem timeseries_loses_time_witness:
  "\<exists>c. compare ([3000, 1000], FD 0 0) ([5000], FD 0 0) = Inr c \<and> compare ([1000, 3000], FD 0 0) ([5000], FD 0 0) = Inr c"
proof -
  obtain c where c: "compare ([3000, 1000], FD 0 0) ([5000], FD 0 0) = Inr c"
    using compare_total [of "([3000, 1000], FD 0 0)" "([5000], FD 0 0)"] by auto
  have "mset [1000, 3000 :: u64] = mset [3000, 1000]" by simp
  with timeseries_loses_time [OF c] c show ?thesis by (metis fst_conv snd_conv)
qed

text \<open>
  C40. The percentiles \<^verbatim>\<open>compute\<close> reports are latencies that were measured, in ascending order from the median
  to p99.99, none above the reported maximum, which is the greatest latency; an empty vector is
  undefined.
\<close>

theorem percentiles_ordered:
  assumes ne: "v \<noteq> []"
  shows "compute [] el = Inl Undefined_behaviour \<and> (\<exists>st a b c d e. compute v el = Inr (st, sort v) \<and>
      p50 st = fd_of_nat (unat a) \<and> p90 st = fd_of_nat (unat b) \<and> p99 st = fd_of_nat (unat c) \<and>
      p999 st = fd_of_nat (unat d) \<and> p9999 st = fd_of_nat (unat e) \<and> max_v st = fd_of_nat (unat (Max (set v))) \<and>
      a \<le> b \<and> b \<le> c \<and> c \<le> d \<and> d \<le> e \<and> e \<le> Max (set v) \<and> {a, b, c, d, e} \<subseteq> set v \<and> count st = length v)"
proof
  show "compute [] el = Inl Undefined_behaviour" by (simp add: compute_def)
  obtain st where c: "compute v el = Inr (st, sort v)" using ne by (simp add: compute_def Let_def sort_Nil)
  let ?r = "\<lambda>pct. sort v ! rank_of pct (length v)"
  have len: "rank_of pct (length v) < length v" for pct using ne by (intro rank_bound) simp
  have step: "?r (FD a e) \<le> ?r (FD b e)" if "0 \<le> a" "a \<le> b" for a b e
    using rank_mono [OF that, of e "length v"] len [of "FD b e"] by (intro sorted_nth_mono) simp_all
  have last: "last (sort v) = Max (set v)" using last_sorted [of "sort v"] ne by (simp add: sort_Nil)
  show "\<exists>st a b c d e. compute v el = Inr (st, sort v) \<and>
      p50 st = fd_of_nat (unat a) \<and> p90 st = fd_of_nat (unat b) \<and> p99 st = fd_of_nat (unat c) \<and>
      p999 st = fd_of_nat (unat d) \<and> p9999 st = fd_of_nat (unat e) \<and> max_v st = fd_of_nat (unat (Max (set v))) \<and>
      a \<le> b \<and> b \<le> c \<and> c \<le> d \<and> d \<le> e \<and> e \<le> Max (set v) \<and> {a, b, c, d, e} \<subseteq> set v \<and> count st = length v"
  proof (intro exI conjI)
    show "compute v el = Inr (st, sort v)" by (rule c)
    show "p50 st = fd_of_nat (unat (?r PCT_50))" "p90 st = fd_of_nat (unat (?r PCT_90))" "p99 st = fd_of_nat (unat (?r PCT_99))"
      "p999 st = fd_of_nat (unat (?r PCT_999))" "p9999 st = fd_of_nat (unat (?r PCT_9999))" "count st = length v"
      "max_v st = fd_of_nat (unat (Max (set v)))"
      using c last by (auto simp: compute_def Let_def pct_of_def split: if_splits)
    show "?r PCT_50 \<le> ?r PCT_90" "?r PCT_90 \<le> ?r PCT_99" "?r PCT_99 \<le> ?r PCT_999" "?r PCT_999 \<le> ?r PCT_9999"
      unfolding PCT_50_def PCT_90_def PCT_99_def PCT_999_def PCT_9999_def by (rule step; simp)+
    have mem: "?r pct \<in> set v" for pct using len [of pct] nth_mem [of "rank_of pct (length v)" "sort v"] by simp
    then show "{?r PCT_50, ?r PCT_90, ?r PCT_99, ?r PCT_999, ?r PCT_9999} \<subseteq> set v" by simp
    show "?r PCT_9999 \<le> Max (set v)" using mem by simp
  qed
qed

theorem percentiles_ordered_witness:
  "\<exists>st. compute [500, 20, 7] (FD 1 0) = Inr (st, [7, 20, 500]) \<and> max_v st = fd_of_nat (unat (500 :: u64)) \<and> count st = 3"
proof -
  from percentiles_ordered [of "[500, 20, 7]" "FD 1 0"] obtain st where
    "compute [500, 20, 7] (FD 1 0) = Inr (st, sort [500, 20, 7])" "max_v st = fd_of_nat (unat (Max (set [500, 20, 7 :: u64])))"
    "count st = length [500, 20, 7 :: u64]" by blast
  then show ?thesis by (intro exI [of _ st]) simp
qed

text \<open>
  The histogram is a partition of the latencies: each count is the number of latencies in its range,
  and the counts add up to the number of operations.
\<close>

lemma histogram_counts:
  "hist_counts v = [length (filter (\<lambda>x. x < 1000) v), length (filter (\<lambda>x. 1000 \<le> x \<and> x < 10000) v),
     length (filter (\<lambda>x. 10000 \<le> x \<and> x < 100000) v), length (filter (\<lambda>x. 100000 \<le> x \<and> x < 1000000) v),
     length (filter (\<lambda>x. 1000000 \<le> x \<and> x < 10000000) v), length (filter (\<lambda>x. 10000000 \<le> x) v)] \<and>
   sum_list (hist_counts v) = length v"
proof
  have b: "bucket_from 0 hist_bounds x = (if x < 1000 then 0 else if x < 10000 then 1 else if x < 100000 then 2
      else if x < 1000000 then 3 else if x < 10000000 then 4 else 5)" for x by (simp add: hist_bounds_def)
  show "sum_list (hist_counts v) = length v" unfolding hist_counts_eq
  proof (induction v)
    case (Cons x v)
    then show ?case by (auto simp: b upt_rec)
  qed (simp add: upt_rec)
  have f: "filter (\<lambda>x. bucket_from 0 hist_bounds x = j) v = filter P v" if "\<And>x. bucket_from 0 hist_bounds x = j \<longleftrightarrow> P x" for j P
    using that by simp
  have six: "[0..<6] = [0, 1, 2, 3, 4, 5 :: nat]" by (simp add: upt_rec)
  show "hist_counts v = [length (filter (\<lambda>x. x < 1000) v), length (filter (\<lambda>x. 1000 \<le> x \<and> x < 10000) v),
     length (filter (\<lambda>x. 10000 \<le> x \<and> x < 100000) v), length (filter (\<lambda>x. 100000 \<le> x \<and> x < 1000000) v),
     length (filter (\<lambda>x. 1000000 \<le> x \<and> x < 10000000) v), length (filter (\<lambda>x. 10000000 \<le> x) v)]"
    unfolding hist_counts_eq six list.map
    by (intro arg_cong2 [where f = Cons] arg_cong [where f = length] f refl; simp add: b word_less_nat_alt word_le_nat_alt; linarith)
qed

end
