(* ===== verification/Bench_Amplification.thy ===== *)
theory Bench_Amplification
  imports Bench_Stats
begin

text \<open>
  \<^verbatim>\<open>wa_bench.cpp\<close>: one workload on one engine, with the bytes the process has read and written taken from
  \<^verbatim>\<open>/proc/self/io\<close> before and after. The two texts read from there and the size of the directory at the
  end are parameters, and so is RocksDB.
\<close>

record io_counters =
  rchar :: u64
  wchar :: u64
  read_bytes :: u64
  write_bytes :: u64

definition set_counter :: "bytes \<Rightarrow> u64 \<Rightarrow> io_counters \<Rightarrow> io_counters" where
  "set_counter k v c =
     (if k = lit ''rchar:'' then c\<lparr>rchar := v\<rparr> else if k = lit ''wchar:'' then c\<lparr>wchar := v\<rparr>
      else if k = lit ''read_bytes:'' then c\<lparr>read_bytes := v\<rparr>
      else if k = lit ''write_bytes:'' then c\<lparr>write_bytes := v\<rparr> else c)"

function read_io_loop :: "istream \<Rightarrow> io_counters \<Rightarrow> io_counters" where
  "read_io_loop st c =
     (case in_word st of
        (None, _) \<Rightarrow> c
      | (Some k, st1) \<Rightarrow>
          (case in_u64 st1 of
             (None, _) \<Rightarrow> c
           | (Some v, st2) \<Rightarrow> if failed st2 then c else read_io_loop st2 (set_counter k v c)))"
  by pat_completeness auto

lemma in_word_shorter:
  assumes "in_word st = (Some k, st1)"
  shows "length (unread st1) < length (unread st)"
proof -
  let ?r = "dropWhile is_space (unread st)"
  have r: "?r \<noteq> []" "unread st1 = dropWhile (\<lambda>b. \<not> is_space b) ?r"
    using assms by (auto simp: in_word_def in_sentry_def Let_def split: if_splits)
  have "\<not> is_space (hd ?r)" using r(1) by (rule hd_dropWhile)
  then have "dropWhile (\<lambda>b. \<not> is_space b) ?r = dropWhile (\<lambda>b. \<not> is_space b) (tl ?r)" using r(1) by (cases ?r) auto
  also have "length \<dots> \<le> length (tl ?r)" by (rule length_dropWhile_le)
  also have "\<dots> < length ?r" using r(1) by simp
  also have "\<dots> \<le> length (unread st)" by (rule length_dropWhile_le)
  finally show ?thesis by (simp add: r(2))
qed

lemma in_u64_shorter:
  assumes "in_u64 st = (v, st1)"
  shows "length (unread st1) \<le> length (unread st)"
proof -
  have d: "length rest \<le> length r" if "in_digits r = (neg, ds, rest)" for r neg ds rest
    using that length_dropWhile_le [of is_digit r] length_dropWhile_le [of is_digit "tl r"]
    by (auto simp: in_digits_def Let_def split: if_splits)
  show ?thesis
  proof (cases "in_sentry st")
    case None
    then show ?thesis using assms by (auto simp: in_u64_def in_unsigned_def)
  next
    case (Some r)
    then have "length r \<le> length (unread st)"
      using length_dropWhile_le [of is_space "unread st"] by (auto simp: in_sentry_def Let_def split: if_splits)
    moreover obtain neg ds rest where "in_digits r = (neg, ds, rest)" by (metis surj_pair)
    ultimately show ?thesis
      using assms Some d [of r neg ds rest] by (auto simp: in_u64_def in_unsigned_def split: if_splits)
  qed
qed

termination read_io_loop
  by (relation "measure (\<lambda>(st, c). length (unread st))")
    (auto dest!: in_word_shorter [OF sym] in_u64_shorter [OF sym])

declare read_io_loop.simps [simp del]

definition read_io :: "bytes \<Rightarrow> io_counters" where
  "read_io text = read_io_loop \<lparr>unread = text, failed = False\<rparr> \<lparr>rchar = 0, wchar = 0, read_bytes = 0, write_bytes = 0\<rparr>"

subsection \<open>The program\<close>

definition key_at :: "bytes \<Rightarrow> nat \<Rightarrow> nat \<Rightarrow> mt64_state \<Rightarrow> (bytes \<times> mt64_state) res" where
  "key_at mode N i rng =
     (if mode = lit ''rand'' then bind_res (draw (of_nat (N * 2)) rng) (\<lambda>(x, rng'). Inr (padded_key x 20, rng'))
      else Inr (padded_key (of_nat i) 20, rng))"

fun wa_writes :: "'db engine \<Rightarrow> bytes \<Rightarrow> nat \<Rightarrow> nat list \<Rightarrow> mt64_state \<Rightarrow> ('db, unit) exec" where
  "wa_writes eng mode N [] rng = ret ()"
| "wa_writes eng mode N (i # is) rng =
     bind (lift_res (key_at mode N i rng)) (\<lambda>(k, rng').
     bind (eng_put eng k (make_value 100)) (\<lambda>_. wa_writes eng mode N is rng'))"

record wa_report =
  logical_bytes :: nat
  d_wchar :: nat
  d_write_bytes :: nat
  d_rchar :: nat
  wa_live_bytes :: nat
  wa_ratio :: "fdouble option"
  ra_ratio :: "fdouble option"

text \<open>The subtraction of counters wraps; a division by zero prints no number.\<close>

definition wa_report_of :: "nat \<Rightarrow> io_counters \<Rightarrow> io_counters \<Rightarrow> nat \<Rightarrow> wa_report" where
  "wa_report_of N before after dir_bytes =
     (let logical = fd_mul (fd_of_nat N) (fd_of_nat (20 + 100));
          w = fd_of_nat (unat (wchar after - wchar before));
          r = fd_of_nat (unat (rchar after - rchar before));
          wb = fd_of_nat (unat (write_bytes after - write_bytes before));
          q = (\<lambda>x. if fd_mant logical = 0 then None else Some (fd_div x logical))
      in \<lparr>logical_bytes = fd_trunc logical, d_wchar = fd_trunc w, d_write_bytes = fd_trunc wb, d_rchar = fd_trunc r,
          wa_live_bytes = dir_bytes, wa_ratio = q w, ra_ratio = q r\<rparr>)"

definition wa_engine :: "'db engine \<Rightarrow> bytes \<Rightarrow> nat \<Rightarrow> bytes \<Rightarrow> disk \<Rightarrow> 'db res" where
  "wa_engine eng mode N dir d =
     bind_res (eng_open eng dir d) (\<lambda>s0.
       case bind (wa_writes eng mode N [0..<N] (mt64_seed 42)) (\<lambda>_. eng_sync eng) s0 of
         (Inl e, _) \<Rightarrow> Inl e
       | (Inr _, s) \<Rightarrow> Inr s)"

text \<open>
  \<^verbatim>\<open>main\<close>: the exit code, the statistics of GravTree and the report. For RocksDB, \<open>rk_flush\<close> stands for
  \<^verbatim>\<open>Flush\<close> and \<^verbatim>\<open>WaitForCompact\<close>. Both factories of the other programs clear the directory first, as
  \<^verbatim>\<open>main\<close> does here. A RocksDB that cannot be opened gives exit code 1, missing arguments give 2.
\<close>

definition wa_main ::
  "'db rocks_api \<Rightarrow> schedule \<Rightarrow> (bytes \<times> bytes) option \<Rightarrow> nat \<Rightarrow> bytes \<Rightarrow> bytes \<Rightarrow> nat \<Rightarrow> disk \<Rightarrow>
    (nat \<times> tree_stats option \<times> wa_report option) res" where
  "wa_main api sched args N io0 io1 dir_bytes d =
     (case args of
        None \<Rightarrow> Inr (2, None, None)
      | Some (engine, mode) \<Rightarrow>
          let dir = lit ''/tmp/gt_wa/'' @ engine @ lit ''_'' @ mode;
              rep = wa_report_of N (read_io io0) (read_io io1) dir_bytes
          in if engine = lit ''gt'' then bind_res (wa_engine (gravtree sched) mode N dir d) (\<lambda>s. Inr (0, Some (stats (fst s)), Some rep))
             else (case rk_open api dir (remove_all dir d) of
                 None \<Rightarrow> Inr (1, None, None)
               | Some _ \<Rightarrow> bind_res (wa_engine (rocksdb api) mode N dir d) (\<lambda>_. Inr (0, None, Some rep))))"

subsection \<open>Counters\<close>

text \<open>A line of \<^verbatim>\<open>/proc/self/io\<close>.\<close>

definition io_line :: "bytes \<times> u64 \<Rightarrow> bytes" where
  "io_line = (\<lambda>(k, v). k @ [BLANK] @ to_string v @ [NEWLINE])"

lemma in_sentry_newline: "in_sentry \<lparr>unread = NEWLINE # r, failed = False\<rparr> = in_sentry \<lparr>unread = r, failed = False\<rparr>"
  by (simp add: in_sentry_def NEWLINE_def is_space_def)

lemma in_word_newline: "in_word \<lparr>unread = NEWLINE # r, failed = False\<rparr> =
    (if in_sentry \<lparr>unread = r, failed = False\<rparr> = None then (None, \<lparr>unread = NEWLINE # r, failed = True\<rparr>)
     else in_word \<lparr>unread = r, failed = False\<rparr>)"
  by (auto simp: in_word_def in_sentry_newline split: option.split)

lemma read_io_lines:
  assumes "\<forall>(k, v)\<in>set kvs. k \<noteq> [] \<and> (\<forall>b\<in>set k. \<not> is_space b)" "pre = [] \<or> pre = [NEWLINE]"
  shows "read_io_loop \<lparr>unread = pre @ concat (map io_line kvs), failed = False\<rparr> c = fold (\<lambda>(k, v). set_counter k v) kvs c"
  using assms
proof (induction kvs arbitrary: c pre)
  case Nil
  then have "in_word \<lparr>unread = pre, failed = False\<rparr> = (None, \<lparr>unread = pre, failed = True\<rparr>)"
    by (auto simp: in_word_def in_sentry_def NEWLINE_def is_space_def)
  then show ?case by (subst read_io_loop.simps) simp
next
  case (Cons kv kvs)
  obtain k v where kv: "kv = (k, v)" by fastforce
  let ?rest = "NEWLINE # concat (map io_line kvs)"
  let ?line = "k @ BLANK # to_string v @ ?rest"
  have k: "k \<noteq> []" "\<forall>b\<in>set k. \<not> is_space b" using Cons.prems(1) kv by auto
  have w: "in_word \<lparr>unread = ?line, failed = False\<rparr> = (Some k, \<lparr>unread = BLANK # to_string v @ ?rest, failed = False\<rparr>)"
    by (rule in_word_token [OF k]) (simp add: is_space_def BLANK_def)
  moreover have "in_sentry \<lparr>unread = ?line, failed = False\<rparr> \<noteq> None" using w by (auto simp: in_word_def split: option.splits)
  ultimately have "in_word \<lparr>unread = pre @ ?line, failed = False\<rparr> = (Some k, \<lparr>unread = BLANK # to_string v @ ?rest, failed = False\<rparr>)"
    using Cons.prems(2) by (auto simp: in_word_newline)
  moreover have "in_u64 \<lparr>unread = BLANK # to_string v @ ?rest, failed = False\<rparr> = (Some v, \<lparr>unread = ?rest, failed = False\<rparr>)"
    by (rule in_u64_dec) (simp add: NEWLINE_def is_digit_def)
  moreover have "read_io_loop \<lparr>unread = ?rest, failed = False\<rparr> (set_counter k v c) =
      fold (\<lambda>(k, v). set_counter k v) kvs (set_counter k v c)"
    using Cons.IH [of "[NEWLINE]" "set_counter k v c"] Cons.prems(1) by simp
  ultimately show ?case by (subst read_io_loop.simps) (simp add: kv io_line_def)
qed

subsection \<open>The workload on GravTree\<close>

lemma wa_writes_ok:
  assumes "gt_engine_inv os s" "length is \<le> writes_left s" "is \<noteq> [] \<longrightarrow> (of_nat (N * 2) :: u64) \<noteq> 0"
  shows "\<exists>s'. wa_writes (gravtree sched) mode N is rng s = (Inr (), s') \<and> gt_engine_inv os s'"
  using assms
proof (induction "is" arbitrary: s rng)
  case Nil
  then show ?case by (simp add: exec_simps)
next
  case (Cons i xs)
  have nz: "(of_nat (N * 2) :: u64) \<noteq> 0" using Cons.prems(3) by simp
  have "\<exists>x rng'. key_at mode N i rng = Inr (padded_key x 20, rng')"
    using gt.draw_ok [OF nz, of rng] by (auto simp: key_at_def simp del: of_nat_mult)
  then obtain x rng' where k: "key_at mode N i rng = Inr (padded_key x 20, rng')" by blast
  have "0 < writes_left s" using Cons.prems(2) by auto
  from gt.put_ok [OF Cons.prems(1) this, of "padded_key x 20" "make_value 100" sched] obtain s1 where
    s1: "eng_put (gravtree sched) (padded_key x 20) (make_value 100) s = (Inr (), s1)" "gt_engine_inv os s1"
    "writes_left s \<le> Suc (writes_left s1)" by auto
  have "length xs \<le> writes_left s1" using Cons.prems(2) s1(3) by simp
  from Cons.IH [OF s1(2) this, of rng'] nz k s1(1) show ?case by (auto simp: bind_def lift_res_def simp del: of_nat_mult)
qed

subsection \<open>The report\<close>

text \<open>
  On GravTree the program ends with exit code 0 and a report of the numbers it means: the counters are
  those the two texts of \<^verbatim>\<open>/proc/self/io\<close> give, the payload is 120 bytes for each of the N writes, with no
  rounding, for any mode, when the rounds of the flush thread fall between the calls and are quiet.
\<close>

lemma wa_report_exact:
  assumes "\<forall>p. openable d p" and "N < 2 ^ 30"
    and "\<forall>(k, v)\<in>set kvs0 \<union> set kvs1. k \<noteq> [] \<and> (\<forall>b\<in>set k. \<not> is_space b)" and "quiet_schedule sched"
  shows "\<exists>st rep. wa_main api sched (Some (lit ''gt'', mode)) N (concat (map io_line kvs0)) (concat (map io_line kvs1)) sz d =
      Inr (0, Some st, Some rep) \<and> logical_bytes rep = 120 * N \<and>
    rep = wa_report_of N (fold (\<lambda>(k, v). set_counter k v) kvs0 \<lparr>rchar = 0, wchar = 0, read_bytes = 0, write_bytes = 0\<rparr>)
      (fold (\<lambda>(k, v). set_counter k v) kvs1 \<lparr>rchar = 0, wchar = 0, read_bytes = 0, write_bytes = 0\<rparr>) sz"
proof -
  let ?dir = "lit ''/tmp/gt_wa/'' @ lit ''gt'' @ lit ''_'' @ mode"
  from gravtree_opens [OF assms(1,4)] obtain t where t: "open_gravtree ?dir d = (Inr (), t)"
    "gt_engine_inv (bench_options ?dir) (t, sched)" "writes_left (t, sched) = 2 ^ 30 - 1" by blast
  have "unat (of_nat (N * 2) :: u64) = N * 2"
    using assms(2) by (simp add: unat_of_nat take_bit_nat_eq_self del: of_nat_mult)
  then have "[0..<N] \<noteq> [] \<longrightarrow> (of_nat (N * 2) :: u64) \<noteq> 0" by (auto simp: word_unat_eq_iff simp del: of_nat_mult)
  from wa_writes_ok [OF t(2) _ this, of sched mode "mt64_seed 42"] t(3) assms(2) obtain s1 where
    s1: "wa_writes (gravtree sched) mode N [0..<N] (mt64_seed 42) (t, sched) = (Inr (), s1)" "gt_engine_inv (bench_options ?dir) s1"
    by auto
  from gt.sync_ok [OF s1(2), of sched] obtain s2 where "eng_sync (gravtree sched) s1 = (Inr (), s2)" by blast
  moreover have "eng_open (gravtree sched) ?dir d = Inr (t, sched)" using t(1) by (simp add: gravtree_def)
  ultimately have "wa_engine (gravtree sched) mode N ?dir d = Inr s2" using s1(1) by (simp add: wa_engine_def bind_Inr)
  moreover have "logical_bytes (wa_report_of N b a sz) = 120 * N" for a b
  proof -
    have "fd_of_nat N = FD (int N) 0" "fd_of_nat 120 = FD 120 0"
      using fd_exact [of N 0] fd_exact [of 120 0] assms(2) by (simp_all add: fd_of_nat_def)
    then have "fd_mul (fd_of_nat N) (fd_of_nat 120) = FD (int (N * 120)) 0"
      using fd_exact [of "N * 120" 0] assms(2) by simp
    then show ?thesis by (simp add: wa_report_of_def Let_def nat_mult_distrib)
  qed
  moreover have "read_io (concat (map io_line kvs)) =
      fold (\<lambda>(k, v). set_counter k v) kvs \<lparr>rchar = 0, wchar = 0, read_bytes = 0, write_bytes = 0\<rparr>"
    if "set kvs \<subseteq> set kvs0 \<union> set kvs1" for kvs
    unfolding read_io_def using read_io_lines [of kvs "[]"] assms(3) that by fastforce
  ultimately show ?thesis by (simp add: wa_main_def Let_def lit_def)
qed

end
