(* ===== verification/Crash_Recovery.thy ===== *)
theory Crash_Recovery
  imports Store_Reopen
begin

text \<open>
  A process that dies in the middle of a flush. \<^verbatim>\<open>do_flush\<close> writes the new children, then the parent in
  place, and only then the manifest. Between the last two steps the files do not fit together: the
  parent on disk names children the manifest on disk does not know.
\<close>

subsection \<open>The manifest file is written by save alone\<close>

definition manifest_file :: "tree \<Rightarrow> options \<times> bytes option" where
  "manifest_file t = (opts t, files (tdisk t) (data_dir (opts t) @ lit ''/manifest''))"

lemma path_not_manifest:
  "node_path_in dir i \<noteq> d @ lit ''/manifest''" "node_path_in dir i @ lit ''.tmp'' \<noteq> d @ lit ''/manifest''"
proof -
  have "rev (node_path_in dir i) \<noteq> rev (d @ lit ''/manifest'')" by (simp add: node_path_in_def lit_def)
  then show "node_path_in dir i \<noteq> d @ lit ''/manifest''" by metis
  have "rev (node_path_in dir i @ lit ''.tmp'') \<noteq> rev (d @ lit ''/manifest'')" by (simp add: lit_def)
  then show "node_path_in dir i @ lit ''.tmp'' \<noteq> d @ lit ''/manifest''" by metis
qed

abbreviation keeps_file :: "bytes \<Rightarrow> (disk, 'a) exec \<Rightarrow> bool" where
  "keeps_file p \<equiv> keeps (\<lambda>d. files d p)"

lemma keeps_write_file [keeps_intros]: "keeps_file (d @ lit ''/manifest'') (write_file dir n)"
  using path_not_manifest [of dir "nid n" d, symmetric] by (simp add: keeps_def write_file_def Let_def)

lemma keeps_create_node [keeps_intros]: "keeps_file (d @ lit ''/manifest'') (create_node i lvl es cs dir)"
  unfolding create_node_def Let_def by (intro keeps_intros)

lemma flush_to_disk_manifest:
  "flush_to_disk dir (n, d) = (r, (n', d')) \<Longrightarrow> files d' (p @ lit ''/manifest'') = files d (p @ lit ''/manifest'')"
  using keepsD [OF keeps_write_file, where s = d]
  by (auto simp: flush_to_disk_def Let_def split: sum.splits prod.splits) (metis snd_conv)+

lemma keeps_flush_child [keeps_intros]:
  "keeps (\<lambda>st. files (fl_disk st) (p @ lit ''/manifest'')) (flush_child dir i part res)"
  unfolding keeps_def
proof
  fix st :: flush_state
  have c: "files (snd (create_node j lvl es cs dir (fl_disk st))) (p @ lit ''/manifest'') = files (fl_disk st) (p @ lit ''/manifest'')"
    for j lvl es cs by (rule keepsD [OF keeps_create_node])
  show "files (fl_disk (snd (flush_child dir i part res st))) (p @ lit ''/manifest'') = files (fl_disk st) (p @ lit ''/manifest'')"
    using c by (auto simp: flush_child_def Let_def split: sum.split prod.split) (metis snd_conv)+
qed

lemma keeps_flush_children [keeps_intros]:
  "keeps (\<lambda>st. files (fl_disk st) (p @ lit ''/manifest'')) (flush_children dir i ps res)"
  by (induction ps arbitrary: i res) (simp_all add: keeps_intros)

lemma local_flush_manifest:
  "files (fl_disk (snd (local_flush dir st))) (p @ lit ''/manifest'') = files (fl_disk st) (p @ lit ''/manifest'')"
proof -
  let ?st = "st\<lparr>fl_parent := (fl_parent st)\<lparr>buffer := stable_sort entry_less (buffer (fl_parent st))\<rparr>\<rparr>"
  have "keeps (\<lambda>st. files (fl_disk st) (p @ lit ''/manifest'')) (bind (lift_res (partition_entries (buffer (fl_parent ?st)) (fl_children ?st)))
      (\<lambda>parts. flush_children dir 0 parts \<lparr>new_child_ids = [], old_child_ids = []\<rparr>))" by (intro keeps_intros)
  from keepsD [OF this, of ?st] show ?thesis by (simp add: local_flush_def Let_def)
qed

abbreviation keeps_manifest :: "'a action \<Rightarrow> bool" where
  "keeps_manifest \<equiv> keeps manifest_file"

lemma keeps_manifest_simple [keeps_intros]:
  "keeps_manifest (on_manifest f)" "keeps_manifest (put_node i n)" "keeps_manifest (erase_node i)"
  "keeps_manifest (get_node i)" "keeps_manifest (upd_node i u)" "keeps_manifest (modify (\<lambda>t. t\<lparr>flush_ops := g t\<rparr>))"
  by (simp_all add: keeps_def manifest_file_def on_manifest_def modify_def put_node_def erase_node_def get_node_def
      run_on_def upd_node_def split: option.split sum.split)

lemma keeps_manifest_flush [keeps_intros]:
  "keeps_manifest (run_on i (flush_to_disk dir))" "keeps_manifest (flush_local n)"
  using flush_to_disk_manifest
  by (auto simp: keeps_def manifest_file_def run_on_def flush_local_def split: option.split sum.split prod.split)

lemma keeps_manifest_register [keeps_intros]: "keeps_manifest (flush_and_register i)"
proof -
  have "keeps_manifest (\<lambda>t. case map_of (cache t) i of None \<Rightarrow> (Inl Undefined_behaviour, t)
      | Some n \<Rightarrow> on_manifest (register_node (nid n) (level n) (file_path n)) t)"
    by (simp add: keeps_def on_manifest_def modify_def manifest_file_def split: option.split)
  then show ?thesis by (intro keeps_state [OF flush_and_register_def] keeps_intros)
qed

lemma keeps_manifest_load [keeps_intros]:
  "keeps_manifest (run_on c (\<lambda>(n, d). case load_entries d n of Inl e \<Rightarrow> (Inl e, (n, d)) | Inr n' \<Rightarrow> (Inr n', (n', d))))"
  by (simp add: keeps_def manifest_file_def run_on_def split: option.split sum.split)

lemma keeps_manifest_local [keeps_intros]: "keeps_manifest (run_local_flush i ns)"
  using local_flush_manifest
  by (auto simp: keeps_def manifest_file_def run_local_flush_def split: option.split prod.split) (metis flush_state.select_convs(4) snd_conv)

lemma keeps_manifest_loops [keeps_intros]: "keeps_manifest (copy_children cs)"
  by (induction cs) (simp_all add: keeps_intros)

lemma keeps_manifest_refresh [keeps_intros]: "keeps_manifest (refresh_children j res cs)"
proof (induction cs arbitrary: j)
  case (Cons c cs)
  have "keeps_manifest (refresh_child j res c)" unfolding refresh_child_def span_of_def by (intro keeps_intros)
  with Cons show ?case by (simp add: keeps_intros)
qed (simp add: keeps_intros)

lemma keeps_manifest_push: "keeps_manifest (push_to_children i)"
proof -
  have "keeps_manifest (finish_parent i)" unfolding finish_parent_def span_of_def by (intro keeps_intros)
  then show ?thesis unfolding push_to_children_def by (intro keeps_intros)
qed

subsection \<open>Opening what is left\<close>

text \<open>A store opened on a root whose first child the manifest does not know answers nothing.\<close>

lemma unknown_child_get:
  assumes "sl_wf (write_buf t)" "sl_entries (write_buf t) = []" "node_view t (root_id (t_manifest t)) = Inr n"
    and "level n \<noteq> 0" "kids n = c # cs" "unat (num_children n) \<le> MAX_FANOUT" "node_view t c = Inl e"
  shows "fst (tree_get FUEL k t) = Inl e"
proof -
  obtain f where f: "FUEL = Suc f" by (rule that [of "FUEL - 1"]) (simp add: FUEL_def)
  have "path_view FUEL (node_view t) k (root_id (t_manifest t)) [] = Inl e"
    using assms(3-7) children_of_kids [OF assms(6)] by (simp add: f is_leaf_def)
  then show ?thesis using tree_get_view [OF assms(1), of FUEL k] assms(2) by (auto simp: view_get_def disk_get_def)
qed

lemma crash_step:
  assumes ok: "store_ok t" and rid: "rid = root_id (t_manifest t)" "rid \<noteq> 0" and tree: "gtree (Suc l) (node_view t) rid"
    and n: "node_view t rid = Inr n" "modest (node_view t) n" "part_of (node_view t) n 0 \<noteq> []"
    and room: "unat (next_id (t_manifest t)) + MAX_FANOUT < 2 ^ 64"
    and disk: "all_small t" "saved t" "live (t_manifest t) rid \<noteq> None" and dir: "\<forall>b\<in>set (data_dir (opts t)). \<not> is_space b"
  shows "\<exists>res t1 t2. push_to_children rid t = (Inr res, t1) \<and> tree_open (opts t) (tdisk t1) = (Inr (), t2) \<and>
    (\<forall>k. fst (tree_get FUEL k t2) = Inl (Unknown_node (hd (new_child_ids res))))"
proof -
  let ?dir = "data_dir (opts t)" and ?c = "\<lambda>cs. nid (hd cs)"
  from push_to_children_step [OF ok tree n(1,2) room] obtain t1 cs' cs'' n' where
    t1: "push_to_children rid t = (Inr \<lparr>new_child_ids = map nid cs', old_child_ids = olds (node_view t) n\<rparr>, t1)"
    and pd: "pushed_down l t rid n t1 cs' cs'' n'" by blast
  note P = pushed_down_parts [OF pd]
  from pushed_downD [OF pd] obtain t3 k where al: "after_local l t rid n t3 cs'"
    and E: "evolves k (insert rid (set (olds (node_view t) n) \<union> nid ` set cs')) t t1" by blast
  have ne: "kids n \<noteq> []" by (rule gtree_SucE(3) [OF tree n(1)])
  then have len: "0 < length (kids n)" "cs' \<noteq> []" using after_localD(5) [OF al] by auto
  have new: "next_id (t_manifest t) \<le> ?c cs'" using after_local_child(3) [OF al len(1)] n(3) len(2) by (simp add: hd_conv_nth)
  have mf: "manifest_file t1 = manifest_file t" using keepsD [OF keeps_manifest_push, of rid t] t1 by simp
  then have same: "opts t1 = opts t" "files (tdisk t1) (?dir @ lit ''/manifest'') = files (tdisk t) (?dir @ lit ''/manifest'')"
    by (auto simp: manifest_file_def)
  from saved_load [OF ok disk(2) dir same(2)] obtain m where
    m: "manifest_load (new_manifest ?dir) (tdisk t1) = Inr m" "root_id m = rid" "live m = live (t_manifest t)"
    unfolding rid(1) .
  have path: "node_path m rid = Inr (node_path_in ?dir rid)"
    using disk(3) store_ok_live(1) [OF ok] by (auto simp: node_path_live m(3) split: option.split)
  have "files (tdisk t1) (node_path_in ?dir rid) = Some (node_image n')" using P(9) same(1) by (simp add: on_file_def)
  from load_image [OF small_node_fits [OF P(4) P(11) [OF disk(1)]] this]
  have read: "bind_res (load_header (tdisk t1) (node_path_in ?dir rid)) (load_entries (tdisk t1)) = Inr (reloaded ?dir rid n')"
    by (simp add: reloaded_def)
  have id: "nid (reloaded ?dir rid n') = rid" using P(4) by (simp add: sound_node_def)
  let ?t = "(new_tree (opts t) (tdisk t1))\<lparr>t_manifest := m\<rparr>"
  let ?t2 = "?t\<lparr>root_buf_bytes := buffer_size_bytes (reloaded ?dir rid n'), cache := [(rid, reloaded ?dir rid n')]\<rparr>"
  have "ensure_root ?t = (Inr (), ?t2)"
    using rid(2) m(2) path read id by (simp add: ensure_root_def new_tree_def INVALID_NODE_ID_def del: bind_res_eq_Inr)
  then have open2: "tree_open (opts t) (tdisk t1) = (Inr (), ?t2)"
    using m(1) by (simp add: tree_open_def new_tree_def Let_def)
  have "live (t_manifest t) (?c cs') = None"
    using new store_ok_live(2) [OF ok] by (metis not_None_eq not_less surj_pair)
  moreover have "?c cs' \<noteq> rid" using after_local_pid(2) [OF al] len(2) by auto
  ultimately have child: "node_view ?t2 (?c cs') = Inl (Unknown_node (?c cs'))"
    by (intro unseen) (simp_all add: m(3))
  have "fst (tree_get FUEL k ?t2) = Inl (Unknown_node (?c cs'))" for k
  proof (rule unknown_child_get)
    show "sl_wf (write_buf ?t2)" "sl_entries (write_buf ?t2) = []" using skip_buffer.inv_fresh by (simp_all add: new_tree_def)
    show "node_view ?t2 (root_id (t_manifest ?t2)) = Inr (reloaded ?dir rid n')" by (simp add: node_view_def m(2))
    show "level (reloaded ?dir rid n') \<noteq> 0" using gtree_SucE(2) [OF tree n(1)] P(6) by auto
    show "kids (reloaded ?dir rid n') = ?c cs' # map nid (tl cs')" using P(5) len(2) by (cases cs') auto
    show "unat (num_children (reloaded ?dir rid n')) \<le> MAX_FANOUT" using P(4) by (simp add: sound_node_def)
    show "node_view ?t2 (?c cs') = Inl (Unknown_node (?c cs'))" by (rule child)
  qed
  then show ?thesis using t1 open2 len(2) by (auto simp: hd_map)
qed

text \<open>
  A round of the flush thread up to the point in \<^verbatim>\<open>do_flush\<close> where the parent has been rewritten and the
  manifest not yet saved; \<open>None\<close> when the round does not get there, because the root is not full or has no
  children. \<open>interrupted_rest\<close> is what the round would still have done.
\<close>

definition interrupted_round :: "flush_result option action" where
  "interrupted_round = bind drain_write_buf (\<lambda>pending. bind (merge_into_root pending) (\<lambda>rt.
     if buffer_full rt then
       (if is_leaf rt \<and> num_children rt = 0 then ret None
        else if num_children rt > 0 then bind (\<lambda>t. push_to_children (root_id (t_manifest t)) t) (\<lambda>res. ret (Some res))
        else ret None)
     else ret None))"

definition interrupted_rest :: "nat \<Rightarrow> node_id \<Rightarrow> flush_result \<Rightarrow> unit action" where
  "interrupted_rest fuel rid res = bind save_manifest (\<lambda>_. bind gc_manifest (\<lambda>_. bind
     (check_overflow (\<lambda>cid. split_leaf fuel cid [rid, cid]) (do_flush fuel) (new_child_ids res))
     (\<lambda>_. modify (\<lambda>t. t\<lparr>root_buf_bytes := sl_bytes (write_buf t)\<rparr>))))"

lemma interrupted_round_prefix:
  assumes "merge_into_root pending t = (Inr rt, t1)" "root_id (t_manifest t1) = root_id (t_manifest t)"
    "buffer_full rt" "\<not> is_leaf rt" "num_children rt > 0" "push_to_children (root_id (t_manifest t)) t1 = (Inr res, t2)"
  shows "flush_round (Suc fuel) pending t = interrupted_rest fuel (root_id (t_manifest t)) res t2"
  using assms by (simp add: flush_round_def interrupted_rest_def Let_def bind_Inr bind_assoc)

subsection \<open>Properties\<close>

text \<open>
  C27. A crash in the middle of a flush destroys the store. Take a store reached from an empty directory by
  calls and quiet rounds whose root has children and hands something down to the first of them. When the
  process dies in the next round after the root file was rewritten and before the manifest was saved (the
  whole round would have gone on with \<open>interrupted_rest\<close>), the directory still opens, but \<^verbatim>\<open>get\<close> throws for every key, also for those a \<^verbatim>\<open>flush\<close> had written before.
\<close>

theorem crash_in_flush_loses_store:
  assumes "files d (data_dir os @ lit ''/manifest'') = None" and "\<forall>p. openable d p"
    and "\<forall>b\<in>set (data_dir os). \<not> is_space b" and "reaches os d t s"
    and "unat (next_id (t_manifest t)) + MAX_FANOUT < 2 ^ 64"
    and "n = push_pending (sl_entries (write_buf t)) (the_node (node_view t) (root_id (t_manifest t)))"
    and "v = (node_view t)(root_id (t_manifest t) := Inr n)" and "0 < num_children n" and "modest v n" and "part_of v n 0 \<noteq> []"
    and "buffer_full n"
  shows "\<exists>res t1 t2. interrupted_round t = (Inr (Some res), t1) \<and>
    bind drain_write_buf (flush_round FUEL) t = interrupted_rest (FUEL - 1) (root_id (t_manifest t)) res t1 \<and> tree_open os (tdisk t1) = (Inr (), t2) \<and>
    (\<forall>k. fst (tree_get FUEL k t2) = Inl (Unknown_node (hd (new_child_ids res))))"
proof -
  let ?rid = "root_id (t_manifest t)" and ?buf = "sl_entries (write_buf t)"
  from reaches_inv [OF assms(4,1,2)] obtain l where t: "gt_inv l t" "durable t" "opts t = os" by blast
  note D = gt_invD [OF t(1)] and U = durableD [OF t(2)]
  obtain r where r: "node_view t ?rid = Inr r" "sound_node ?rid r" "length (buffer r) + length ?buf < unat (seq t)"
    using gt_inv_root [OF t(1)] by metis
  have n: "n = push_pending ?buf r" using assms(6) r(1) by simp
  from drain_ok [of t] D(1) obtain sl where sl: "drain_write_buf t = (Inr ?buf, t\<lparr>write_buf := sl\<rparr>)" by (auto simp: tree_inv_def)
  let ?t0 = "t\<lparr>write_buf := sl\<rparr>"
  have v0: "node_view ?t0 = node_view t" by (rule node_view_cong) simp_all
  have ok0: "store_ok ?t0" using D(2) by (simp add: store_ok_def)
  from merge_step [OF ok0] r(1) v0 n obtain t1 where t1: "merge_into_root ?buf ?t0 = (Inr n, t1)"
    "evolves 0 {?rid} ?t0 t1" "node_view t1 = v" "t_manifest t1 = t_manifest t" "tdisk t1 = tdisk t"
    unfolding assms(7) by fastforce
  note S = push_pending_sound [OF r(2) D(6)]
  have "gtree l v ?rid" using gt_inv_push(1) [OF t(1) r(1) S(1) root_holds_push assms(7) [unfolded n]] .
  moreover have "l \<noteq> 0" using calculation gtree_leaf_level(1) [of l v ?rid n] assms(7,8) by auto
  ultimately obtain l' where g: "gtree (Suc l') (node_view t1) ?rid" unfolding t1(3) by (cases l) auto
  have notleaf: "\<not> is_leaf n" using gtree_SucE(2) [OF g, of n] t1(3) assms(7) by (auto simp: is_leaf_def)
  have o1: "opts t1 = opts t" using evolvesD(7) [OF t1(2)] by simp
  have "length (buffer r) + length ?buf < 2 ^ 32" using r(3) D(8) by simp
  note M = durable_merged [OF t(2) r(1) this t1(4,5) o1 t1(3) [unfolded assms(7) n]]
  have "live (t_manifest t1) ?rid \<noteq> None" using U(7) [OF r(1)] t1(4) by simp
  from crash_step [OF evolvesD(1) [OF t1(2)], of ?rid l' n] g assms(3,5,7,9,10) U(6) t1(3,4) M(1,2) this o1 t(3)
  obtain res t2 t3 where "push_to_children ?rid t1 = (Inr res, t2)" "tree_open os (tdisk t2) = (Inr (), t3)"
    "\<forall>k. fst (tree_get FUEL k t3) = Inl (Unknown_node (hd (new_child_ids res)))" by auto
  moreover from this(1) have "flush_round FUEL ?buf ?t0 = interrupted_rest (FUEL - 1) ?rid res t2"
    using interrupted_round_prefix [of ?buf ?t0 n t1 res t2 "FUEL - 1"] t1(1,4) assms(8,11) FUEL_Suc notleaf by auto
  ultimately show ?thesis using sl t1(1,4) assms(8,11) notleaf by (auto simp: interrupted_round_def bind_Inr exec_simps)
qed

text \<open>
  The instance: two puts fill the root, a round splits it, two more puts fill it again; the process dies
  in the next round.
\<close>

lemma length_sort_entries_keys: "length (sort_entries es) = card (key ` set es)"
  using sort_entries_strict [of es] keys_sort_entries [of es] strict_sorted_iff
  by (metis distinct_card image_set length_map)

lemma refilled_state:
  "\<exists>t s n v. reaches demo_options demo_disk t s \<and> s [1] = Some half_full \<and> unat (next_id (t_manifest t)) = 5 \<and>
     n = push_pending (sl_entries (write_buf t)) (the_node (node_view t) (root_id (t_manifest t))) \<and>
     v = (node_view t)(root_id (t_manifest t) := Inr n) \<and> 0 < num_children n \<and> modest v n \<and> part_of v n 0 \<noteq> [] \<and> buffer_full n"
proof -
  from split_puts_state obtain t0 l a b where t0: "reaches demo_options demo_disk t0 [[1] \<mapsto> half_full, [2] \<mapsto> half_full]"
    "gt_inv l t0" "sl_entries (write_buf t0) = []" "seq t0 = 3" "unat (next_id (t_manifest t0)) = 5"
    "split_nodes (node_view t0) (root_id (t_manifest t0)) a b [put_of [1] 1] [put_of [2] 2]" by blast
  let ?r = "root_id (t_manifest t0)"
  have less: "entry_less (put_of [1] 3) (put_of [2] 4)" "\<not> entry_less (put_of [2] 4) (put_of [1] 3)"
    by (simp_all add: entry_less_def)
  from two_more_writes [OF t0(1-3), of "[1]" "[2]" half_full half_full] t0(4) less obtain t s where
    t: "reaches demo_options demo_disk t s" "s [1] = Some half_full" "sl_entries (write_buf t) = [put_of [1] 3, put_of [2] 4]"
      "t_manifest t = t_manifest t0" "node_view t = node_view t0"
    by (auto simp: half_full_def put_of_def)
  from t0(6) obtain m na nb where m: "node_view t0 ?r = Inr m" "level m = 1" "buffer m = []" "kids m = [a, b]"
    and na: "node_view t0 a = Inr na" "level na = 0" "\<And>k. newest k (buffer na) = newest k [put_of [1] 1]" "min_key (krange na) = [1]"
    and nb: "node_view t0 b = Inr nb" "level nb = 0" "\<And>k. newest k (buffer nb) = newest k [put_of [2] 2]" "min_key (krange nb) = [2]"
    unfolding split_nodes_def by auto
  define n where "n = push_pending (sl_entries (write_buf t)) m"
  define v where "v = (node_view t)(?r := Inr n)"
  note B = two_puts_merged [OF m(3), of 3 4]
  have n: "buffer n = [put_of [1] 3, put_of [2] 4]" "buffer_full n" "kids n = [a, b]" "num_children n = num_children m"
    using B m(4) t(3) by (simp_all add: n_def push_pending_def kids_def)
  have v: "v a = Inr na" "v b = Inr nb" using m(1,2) na(1,2) nb(1,2) t(5) by (auto simp: v_def)
  then have p: "part_of v n 0 = [put_of [1] 3]" "part_of v n 1 = [put_of [2] 4]"
    using na(4) nb(4) n(1,3) by (simp_all add: part_of_def route_def min_of_def numeral_2_eq_2)
  have "k \<in> key ` set (buffer na) \<longleftrightarrow> k = [1]" "k \<in> key ` set (buffer nb) \<longleftrightarrow> k = [2]" for k
    using newest_None_iff [of k "buffer na"] newest_None_iff [of k "buffer nb"]
      newest_None_iff [of k "[put_of [1] 1]"] newest_None_iff [of k "[put_of [2] 2]"] na(3) nb(3) by auto
  then have keys: "key ` set (buffer na) = {[1]}" "key ` set (buffer nb) = {[2]}" by blast+
  have "length (buffer_after v n j) = 1" if "j < length (kids n)" for j
    using that n(3) p v keys by (auto simp: buffer_after_def Let_def length_sort_entries_keys keys_merge less_Suc_eq)
  then have "modest v n" by (simp add: modest_def)
  moreover have "num_children n \<noteq> 0" using n(3) by (auto simp: kids_def)
  ultimately show ?thesis using t n(2) p(1) m(1) t0(5) unfolding n_def v_def
    by (intro exI [of _ t] exI [of _ s] exI [of _ n] exI [of _ v]) (auto simp: n_def v_def word_neq_0_conv)
qed

theorem crash_in_flush_loses_store_witness:
  "\<exists>t s res t1 t2. reaches demo_options demo_disk t s \<and> s [1] = Some half_full \<and> interrupted_round t = (Inr (Some res), t1) \<and>
     tree_open demo_options (tdisk t1) = (Inr (), t2) \<and>
     fst (tree_get FUEL [1] t2) = Inl (Unknown_node (hd (new_child_ids res)))"
proof -
  from refilled_state obtain t s n v where t: "reaches demo_options demo_disk t s" "s [1] = Some half_full"
    "unat (next_id (t_manifest t)) = 5"
    and n: "n = push_pending (sl_entries (write_buf t)) (the_node (node_view t) (root_id (t_manifest t)))"
      "v = (node_view t)(root_id (t_manifest t) := Inr n)" "0 < num_children n" "modest v n" "part_of v n 0 \<noteq> []" "buffer_full n"
    by blast
  from t(3) have "unat (next_id (t_manifest t)) + MAX_FANOUT < 2 ^ 64" by (simp add: MAX_FANOUT_def)
  moreover have "\<forall>b\<in>set (data_dir demo_options). \<not> is_space b" by (simp add: demo_options_def lit_def is_space_def)
  ultimately obtain res t1 t2 where
    "interrupted_round t = (Inr (Some res), t1)"
    "tree_open demo_options (tdisk t1) = (Inr (), t2)"
    "fst (tree_get FUEL [1] t2) = Inl (Unknown_node (hd (new_child_ids res)))"
    using crash_in_flush_loses_store [OF _ _ _ t(1) _ n] by auto
  with t(1,2) show ?thesis by blast
qed

end
