(* ===== verification/Fanout_Overflow.thy ===== *)
theory Fanout_Overflow
  imports Tree_Grow
begin

text \<open>
  A flush that fills more leaves than the root has room for. The first leaf too many splits the root and
  replaces it; the loop at the end of \<^verbatim>\<open>do_flush\<close> goes on with the id of the old root. The next full leaf is
  taken out of the registry before \<^verbatim>\<open>insert_child\<close> looks the old root up and throws: the leaf is gone, the
  tree still points to it, and every key it held is lost to \<^verbatim>\<open>get\<close>.
\<close>

subsection \<open>Searching a tree with a missing leaf\<close>

lemma scan_view_missing:
  "(\<And>c. c \<in> set ps \<Longrightarrow> \<exists>m. v c = Inr m \<and> min_key (krange m) \<le> k) \<Longrightarrow> v y = Inl e \<Longrightarrow> scan_view v k (ps @ y # qs) d = Inl e"
proof (induction ps arbitrary: d)
  case (Cons c ps)
  then obtain m where "v c = Inr m" "min_key (krange m) \<le> k" by auto
  with Cons show ?case by simp
qed simp

lemma scan_view_same:
  "(\<And>c. c \<in> set cs \<Longrightarrow> v' c = v c) \<Longrightarrow> scan_view v' k cs d = scan_view v k cs d"
proof (induction cs arbitrary: d)
  case (Cons c cs)
  then show ?case by (cases "v c") simp_all
qed simp

lemma missing_leaf_get:
  assumes g: "gtree (Suc (Suc 0)) v R" "v R = Inr m" and x: "x \<in> set (kids m)" "v x = Inr nx" "buffer nx = []"
    and y: "y \<in> set (kids nx)" "lookup 0 v y k \<noteq> None" "v' y = Inl e"
    and same: "\<And>z. z \<in> insert R (set (kids m) \<union> set (kids nx)) \<Longrightarrow> z \<noteq> y \<Longrightarrow> v' z = v z"
  shows "disk_get (Suc (Suc (Suc f))) v' R k = Inl e"
proof -
  note G = gtree_SucE [OF g]
  have gx: "gtree (Suc 0) v x" by (rule G(5) [OF x(1)])
  note X = gtree_SucE [OF gx x(2)]
  have gy: "gtree 0 v y" by (rule X(5) [OF y(1)])
  have ny: "y \<noteq> R" "y \<notin> set (kids m)"
  proof -
    show "y \<noteq> R" using gy g(2) G(2) by auto
    show "y \<notin> set (kids m)" using gy G(5) [of y] gtree_node by fastforce
  qed
  have v': "v' R = Inr m" "v' x = Inr nx" "\<And>c. c \<in> set (kids m) \<Longrightarrow> v' c = v c"
    using same [of R] same [of x] same g(2) ny x(1,2) by (simp, metis Un_iff insertCI, metis Un_iff insertCI)
  obtain e0 where "lookup 0 v y k = Some e0" using y(2) by blast
  with routed_found [OF X(7) [unfolded separated_pairs] X(3), of k e0] y(1) x(2,3) have fx: "lookup (Suc 0) v x k \<noteq> None" by auto
  obtain j where j: "j < length (kids m)" "kids m ! j = x" using x(1) by (metis in_set_conv_nth)
  have "route v (kids m) k = j" using separated_route [OF G(7), of j k] j fx by (simp add: route_def)
  then have "scan_view v k (kids m) (kids m ! 0) = Inr x"
    using scan_view_route [of "kids m" v k] separatedD(1) [OF G(7)] G(3) gtree_node [OF G(5)] j(2) by blast
  then have top: "scan_view v' k (kids m) (child_ids m ! 0) = Inr x"
    using scan_view_same [of "kids m" v' v k] v'(3) hd_kids [OF G(3)] by simp
  obtain ps qs where ks: "kids nx = ps @ y # qs" using y(1) by (metis split_list)
  have "\<exists>n. v' c = Inr n \<and> min_key (krange n) \<le> k" if c: "c \<in> set ps" for c
  proof -
    obtain i where i: "i < length ps" "ps ! i = c" using c by (metis in_set_conv_nth)
    have "c \<noteq> y" "c \<in> set (kids nx)" using X(4) ks c by auto
    then obtain n where n: "v' c = Inr n" "v c = Inr n" using same [of c] gtree_node [OF X(5)] by fastforce
    have "map (min_of v) (kids nx) ! i \<le> map (min_of v) (kids nx) ! length ps"
      using sorted_nth_mono [OF separatedD(1) [OF X(7)], of i "length ps"] i(1) ks by simp
    also have "\<dots> \<le> k" using separatedD(3) [OF X(7), of "length ps" k] y(2) ks by simp
    finally show ?thesis using n i ks by (simp add: nth_append min_of_def)
  qed
  then have bot: "scan_view v' k (kids nx) d = Inl e" for d unfolding ks by (intro scan_view_missing y(3))
  have "\<not> is_leaf m" "\<not> is_leaf nx" using G(2) X(2) by (auto simp: is_leaf_def)
  then show ?thesis
    using v'(1,2) top bot G(1) X(1) by (simp add: disk_get_def sound_node_def children_of_kids del: bind_res_eq_Inr)
qed

subsection \<open>The loop after the root was replaced\<close>

lemma get_node_unknown: "node_view t i = Inl e \<Longrightarrow> get_node i t = (Inl e, t)"
  by (auto simp: get_node_def node_view_def split: option.splits sum.splits simp del: bind_res_eq_Inr)

lemma stale_split_step:
  fixes t :: tree
  assumes ok: "store_ok t" and gone: "node_view t pid = Inl (Unknown_node pid)" "pid < next_id (t_manifest t)"
    and y: "node_view t y = Inr d" "sound_node y d" "clean_cut (buffer d)" "length (buffer d) < 2 ^ 30"
    and room: "unat (next_id (t_manifest t)) + 2 < 2 ^ 64"
  defines "a \<equiv> next_id (t_manifest t)"
  shows "\<exists>t'. split_leaf (Suc fuel) y [pid, y] t = (Inl (Unknown_node pid), t') \<and> evolves 2 {a, a + 1, y} t t' \<and>
    node_view t' y = Inl (Unknown_node y)"
proof -
  have "2 \<le> length (buffer d)" using y(3) by (simp add: clean_cut_def)
  from split_leaf_front [OF ok y(1,2) this y(4) room, of "Suc fuel" "[pid, y]"] obtain t1 where
    t1: "split_leaf (Suc fuel) y [pid, y] t =
      bind (insert_child (Suc fuel) pid y a (a + 1)) (\<lambda>_. bind save_manifest (\<lambda>_. gc_manifest)) t1"
    "evolves 2 {a, a + 1, y} t t1" "node_view t1 y = Inl (Unknown_node y)" unfolding a_def by auto
  have "a < a + 1" using room by (simp add: a_def word_less_nat_alt unat_word_ariths)
  then have "pid \<notin> {a, a + 1, y}" using gone y(1) by (auto simp: a_def)
  then have "node_view t1 pid = Inl (Unknown_node pid)" using evolvesD(2) [OF t1(2)] gone(1) by simp
  from get_node_unknown [OF this] have "insert_child (Suc fuel) pid y a (a + 1) t1 = (Inl (Unknown_node pid), t1)"
    by (simp add: bind_def)
  then show ?thesis using t1 by (simp add: bind_def)
qed

text \<open>The leaves of a list, each in the cache, the full ones cut between two keys.\<close>

definition ready_leaves :: "tree \<Rightarrow> node_id list \<Rightarrow> bool" where
  "ready_leaves t is \<longleftrightarrow> (\<forall>x\<in>set is. \<exists>c. map_of (cache t) x = Some c \<and> sound_node x c \<and> is_leaf c \<and> num_children c = 0 \<and>
     (buffer_full c \<longrightarrow> clean_cut (buffer c) \<and> length (buffer c) < 2 ^ 30))"

definition full_in :: "tree \<Rightarrow> node_id \<Rightarrow> bool" where
  "full_in t x \<longleftrightarrow> buffer_full (the_node (node_view t) x)"

lemma stale_loop:
  assumes "store_ok t" "node_view t pid = Inl (Unknown_node pid)" "pid < next_id (t_manifest t)"
    "ready_leaves t is" "\<exists>x\<in>set is. full_in t x" "unat (next_id (t_manifest t)) + 2 < 2 ^ 64"
  defines "a \<equiv> next_id (t_manifest t)"
  shows "\<exists>t' y. check_overflow (\<lambda>cid. split_leaf (Suc fuel) cid [pid, cid]) down is t = (Inl (Unknown_node pid), t') \<and>
    y \<in> set is \<and> full_in t y \<and> evolves 2 {a, a + 1, y} t t' \<and> node_view t' y = Inl (Unknown_node y)"
  using assms(4,5)
proof (induction "is")
  case (Cons x xs)
  obtain c where c: "map_of (cache t) x = Some c" "sound_node x c" "is_leaf c" "num_children c = 0"
    "buffer_full c \<Longrightarrow> clean_cut (buffer c) \<and> length (buffer c) < 2 ^ 30"
    using Cons.prems(1) by (auto simp: ready_leaves_def)
  have v: "node_view t x = Inr c" by (rule cached_view [OF c(1)])
  show ?case
  proof (cases "buffer_full c")
    case True
    from stale_split_step [OF assms(1-3) v c(2) _ _ assms(6)] c(5) [OF True] obtain t' where
      t': "split_leaf (Suc fuel) x [pid, x] t = (Inl (Unknown_node pid), t')" "evolves 2 {a, a + 1, x} t t'"
      "node_view t' x = Inl (Unknown_node x)" unfolding a_def by blast
    then have "check_overflow (\<lambda>cid. split_leaf (Suc fuel) cid [pid, cid]) down (x # xs) t = (Inl (Unknown_node pid), t')"
      using True c(1,3,4) by (simp add: bind_def)
    moreover have "full_in t x" using True v by (simp add: full_in_def)
    ultimately show ?thesis using t'(2,3) by auto
  next
    case False
    then have "\<exists>x\<in>set xs. full_in t x" "ready_leaves t xs" using Cons.prems v by (auto simp: full_in_def ready_leaves_def)
    with Cons.IH obtain t' y where
      "check_overflow (\<lambda>cid. split_leaf (Suc fuel) cid [pid, cid]) down xs t = (Inl (Unknown_node pid), t')"
      "y \<in> set xs" "full_in t y" "evolves 2 {a, a + 1, y} t t'" "node_view t' y = Inl (Unknown_node y)" by blast
    with False c(1) show ?thesis by (intro exI [of _ t'] exI [of _ y]) (simp add: bind_def)
  qed
qed simp

lemma lost_leaf_loop:
  assumes "store_ok t" "pid = root_id (t_manifest t)" "gtree (Suc 0) (node_view t) pid" "node_view t pid = Inr n" "buffer n = []"
    "set is \<subseteq> set (kids n)" "distinct is" "ready_leaves t is"
    "length (kids n) + length (filter (full_in t) is) > MAX_FANOUT + 1"
    "unat (next_id (t_manifest t)) + 2 * length is + 5 < 2 ^ 64"
  shows "\<exists>t' y. check_overflow (\<lambda>cid. split_leaf (Suc (Suc fuel)) cid [pid, cid]) down is t = (Inl (Unknown_node pid), t') \<and>
    y \<in> set is \<and> full_in t y \<and> write_buf t' = write_buf t \<and>
    (\<forall>k. lookup 0 (node_view t) y k \<noteq> None \<longrightarrow>
       disk_get FUEL (node_view t') (root_id (t_manifest t')) k = Inl (Unknown_node y))"
  using assms
proof (induction "is" arbitrary: t n)
  case Nil
  have "length (kids n) \<le> MAX_FANOUT" using gtree_SucE(1) [OF Nil.prems(3,4)] by (simp add: sound_node_def kids_def)
  then show ?case using Nil.prems(9) by simp
next
  case (Cons x xs)
  let ?v = "node_view t" and ?a = "next_id (t_manifest t)"
  obtain c where c: "map_of (cache t) x = Some c" "is_leaf c" "num_children c = 0"
    "buffer_full c \<Longrightarrow> clean_cut (buffer c) \<and> length (buffer c) < 2 ^ 30"
    using Cons.prems(8) by (auto simp: ready_leaves_def)
  have vc: "?v x = Inr c" by (rule cached_view [OF c(1)])
  have rest: "ready_leaves t xs" using Cons.prems(8) by (simp add: ready_leaves_def)
  have fan: "length (kids n) \<le> MAX_FANOUT"
    using gtree_SucE(1) [OF Cons.prems(3,4)] by (simp add: sound_node_def kids_def)
  show ?case
  proof (cases "buffer_full c")
    case False
    then have nf: "\<not> full_in t x" using vc by (simp add: full_in_def)
    have "\<exists>t' y. check_overflow (\<lambda>cid. split_leaf (Suc (Suc fuel)) cid [pid, cid]) down xs t = (Inl (Unknown_node pid), t') \<and>
      y \<in> set xs \<and> full_in t y \<and> write_buf t' = write_buf t \<and> (\<forall>k. lookup 0 ?v y k \<noteq> None \<longrightarrow>
       disk_get FUEL (node_view t') (root_id (t_manifest t')) k = Inl (Unknown_node y))"
      using Cons.prems(6,7,9,10) nf by (intro Cons.IH [OF Cons.prems(1-5) _ _ rest]) auto
    then show ?thesis using False c(1) by (auto simp: bind_def simp del: lookup.simps)
  next
    case True
    note cc = c(4) [OF True]
    have fx: "full_in t x" using True vc by (simp add: full_in_def)
    obtain ls rs where ks: "kids n = ls @ x # rs" using Cons.prems(6) by (metis list.set_intros(1) split_list subsetD)
    have below: "y < ?a \<and> y \<noteq> pid \<and> y \<noteq> x" if y: "y \<in> set xs" for y
    proof -
      have yk: "y \<in> set (kids n)" "y \<noteq> x" using y Cons.prems(6,7) by auto
      then have gy: "gtree 0 ?v y" using gtree_SucE(5) [OF Cons.prems(3,4)] by blast
      then have "y \<noteq> pid" using gtree_SucE(2) [OF Cons.prems(3,4)] Cons.prems(4) by auto
      then show ?thesis using yk(2) gtree_node [OF gy] view_below_next [OF Cons.prems(1)] by blast
    qed
    have kept: "ready_leaves t1 xs \<and> (\<forall>y\<in>set xs. full_in t1 y = full_in t y \<and> lookup 0 (node_view t1) y = lookup 0 ?v y)"
      if e: "evolves m S (rooted r t) t1" and S: "\<And>y. y \<in> set xs \<Longrightarrow> y \<notin> S" for m S r t1
    proof -
      have "\<forall>y\<in>set xs. map_of (cache t1) y = map_of (cache t) y"
        using rest evolvesD(4) [OF e S] by (fastforce simp: ready_leaves_def)
      moreover have "node_view t1 y = ?v y" if "y \<in> set xs" for y using evolvesD(2) [OF e S [OF that]] by simp
      ultimately show ?thesis using rest by (auto simp: ready_leaves_def full_in_def the_node_def fun_eq_iff)
    qed
    have room0: "unat ?a + 5 < 2 ^ 64" using Cons.prems(10) by simp
    have inc: "?a < ?a + 1" "?a < ?a + 2" "?a < ?a + 3" "?a < ?a + 4" using room0 by (simp_all add: word_less_nat_alt unat_word_ariths)
    show ?thesis
    proof (cases "length (kids n) < MAX_FANOUT")
      case small: True
      have "unat ?a + 2 < 2 ^ 64" using room0 by simp
      from split_child_step [OF Cons.prems(1,3-5) ks small vc cc [THEN conjunct1] cc [THEN conjunct2] this, of "Suc fuel"] obtain t1 n1 where
        t1: "split_leaf (Suc (Suc fuel)) x [pid, x] t = (Inr (), t1)" "evolves 2 {pid, x, ?a, ?a + 1} t t1"
        "gtree (Suc 0) (node_view t1) pid" "node_view t1 pid = Inr n1" "kids n1 = ls @ [?a, ?a + 1] @ rs" "buffer n1 = []" by blast
      have e1: "evolves 2 {pid, x, ?a, ?a + 1} (rooted pid t) t1"
        using t1(2) Cons.prems(2) by (simp add: rooted_def set_root_def)
      have out: "y \<notin> {pid, x, ?a, ?a + 1}" if "y \<in> set xs" for y using below [OF that] inc by auto
      note K = kept [OF e1 out]
      have "filter (full_in t1) xs = filter (full_in t) xs" using K by (intro filter_cong) auto
      then have cnt: "length (kids n1) + length (filter (full_in t1) xs) > MAX_FANOUT + 1" using Cons.prems(9) fx ks t1(5) by simp
      have sub: "set xs \<subseteq> set (kids n1)" using Cons.prems(6,7) ks t1(5) by auto
      have room1: "unat (next_id (t_manifest t1)) + 2 * length xs + 5 < 2 ^ 64" using Cons.prems(10) evolvesD(9) [OF t1(2)] by simp
      have pid1: "pid = root_id (t_manifest t1)" and dist: "distinct xs" using Cons.prems(2,7) evolvesD(8) [OF t1(2)] by simp_all
      from Cons.IH [OF evolvesD(1) [OF t1(2)] pid1 t1(3,4,6) sub dist _ cnt room1] K obtain t' y where
        "check_overflow (\<lambda>cid. split_leaf (Suc (Suc fuel)) cid [pid, cid]) down xs t1 = (Inl (Unknown_node pid), t')"
        "y \<in> set xs" "full_in t1 y" "write_buf t' = write_buf t1" "\<forall>k. lookup 0 (node_view t1) y k \<noteq> None \<longrightarrow>
          disk_get FUEL (node_view t') (root_id (t_manifest t')) k = Inl (Unknown_node y)" by blast
      then show ?thesis using True c(1-3) t1(1) K evolvesD(5) [OF t1(2)]
        by (intro exI [of _ t'] exI [of _ y]) (simp add: bind_def del: lookup.simps)
    next
      case False
      then have len: "length (kids n) = MAX_FANOUT" using fan by simp
      from split_grow_step [OF Cons.prems(1-5) ks len vc cc [THEN conjunct1] cc [THEN conjunct2] room0, of fuel] obtain t1 m na nb where
        t1: "split_leaf (Suc (Suc fuel)) x [pid, x] t = (Inr (), t1)"
        "evolves 5 {pid, x, ?a, ?a + 1, ?a + 2, ?a + 3, ?a + 4} (rooted (?a + 4) t) t1" "gtree (Suc (Suc 0)) (node_view t1) (?a + 4)"
        "node_view t1 pid = Inl (Unknown_node pid)" "node_view t1 (?a + 4) = Inr m" "buffer m = []" "kids m = [?a + 2, ?a + 3]"
        and ab: "node_view t1 (?a + 2) = Inr na" "node_view t1 (?a + 3) = Inr nb" "buffer na = []" "buffer nb = []"
          "kids na @ kids nb = ls @ [?a, ?a + 1] @ rs" by blast
      note E = evolvesD [OF t1(2)]
      let ?b = "next_id (t_manifest t1)"
      have out: "y \<notin> {pid, x, ?a, ?a + 1, ?a + 2, ?a + 3, ?a + 4}" if "y \<in> set xs" for y using below [OF that] inc by auto
      note K = kept [OF t1(2) out]
      have "\<exists>y\<in>set xs. full_in t y" using Cons.prems(9) fx len by (auto simp: filter_empty_conv)
      then have ex: "\<exists>y\<in>set xs. full_in t1 y" using K by auto
      have nb: "unat ?b = unat ?a + 5" using E(9) by simp
      have pb: "pid < ?b" using view_below_next [OF Cons.prems(1,4)] nb by (simp add: word_less_nat_alt)
      have "unat ?b + 2 < 2 ^ 64" using nb Cons.prems(10) by simp
      from stale_loop [OF E(1) t1(4) pb _ ex this, of "Suc fuel" down] K obtain t2 y where
        t2: "check_overflow (\<lambda>cid. split_leaf (Suc (Suc fuel)) cid [pid, cid]) down xs t1 = (Inl (Unknown_node pid), t2)"
        "y \<in> set xs" "full_in t1 y" "evolves 2 {?b, ?b + 1, y} t1 t2" "node_view t2 y = Inl (Unknown_node y)" by blast
      have "y \<in> set (kids n) - {x}" using below [OF t2(2)] Cons.prems(6) t2(2) by auto
      then have yK: "y \<in> set (kids na @ kids nb)" unfolding ab(5) ks by auto
      then obtain z nz where z: "z \<in> set (kids m)" "node_view t1 z = Inr nz" "buffer nz = []" "y \<in> set (kids nz)"
        using ab(1-4) t1(7) unfolding set_append by (metis UnE list.set_intros)
      have bb: "?b < ?b + 1" using nb Cons.prems(10) by (simp add: word_less_nat_alt unat_word_ariths)
      have lt: "w < ?b" if "w \<in> insert (?a + 4) (set (kids m) \<union> set (kids nz))" for w
      proof -
        note gR = gtree_SucE(5) [OF t1(3,5)]
        have "\<exists>n. node_view t1 w = Inr n"
          using that t1(5) gtree_node [OF gR] gtree_node [OF gtree_SucE(5) [OF gR [OF z(1)] z(2)]] by blast
        then show ?thesis using view_below_next [OF E(1)] by blast
      qed
      have same: "node_view t2 w = node_view t1 w" if w: "w \<in> insert (?a + 4) (set (kids m) \<union> set (kids nz))" "w \<noteq> y" for w
      proof (rule evolvesD(2) [OF t2(4)])
        show "w \<notin> {?b, ?b + 1, y}" using lt [OF w(1)] less_trans [OF lt [OF w(1)] bb] w(2) by (simp add: less_imp_neq)
      qed
      obtain f where f: "FUEL = Suc (Suc (Suc f))" by (rule that [of "FUEL - 3"]) (simp add: FUEL_def)
      have "disk_get FUEL (node_view t2) (?a + 4) k = Inl (Unknown_node y)" if "lookup 0 (node_view t1) y k \<noteq> None" for k
        unfolding f by (rule missing_leaf_get [OF t1(3,5) z that t2(5) same])
      moreover have "root_id (t_manifest t2) = ?a + 4" using evolvesD(8) [OF t2(4)] E(8) by simp
      moreover have "check_overflow (\<lambda>cid. split_leaf (Suc (Suc fuel)) cid [pid, cid]) down (x # xs) t = (Inl (Unknown_node pid), t2)"
        using True c(1-3) t1(1) t2(1) by (simp add: bind_def)
      ultimately show ?thesis using K t2(2,3) evolvesD(5) [OF t2(4)] E(5)
        by (intro exI [of _ t2] exI [of _ y]) (simp del: lookup.simps)
    qed
  qed
qed

subsection \<open>A root with sixteen leaves\<close>

text \<open>A store for the instances: a root over sixteen leaves with two keys each, entries \<open>es\<close> in its buffer.\<close>

definition wide_ids :: "node_id list" where
  "wide_ids = [1, 2, 3, 4, 5, 6, 7, 8, 9, 10, 11, 12, 13, 14, 15, 16]"

definition second_entry :: "8 word \<Rightarrow> entry" where
  "second_entry i = \<lparr>key = [i, 0], val = [], seq_no = 1, deleted = False\<rparr>"

definition wide_leaf :: "node_id \<Rightarrow> sst_node" where
  "wide_leaf i = demo_leaf i [demo_entry (ucast i) 1, second_entry (ucast i)]"

definition wide_root :: "entry list \<Rightarrow> sst_node" where
  "wide_root es = demo_inner 17 wide_ids es"

definition wide_store :: "entry list \<Rightarrow> tree" where
  "wide_store es = demo_store 17 (map wide_leaf wide_ids @ [wide_root es])"

lemma second_entry_sel [simp]:
  "key (second_entry i) = [i, 0]" "val (second_entry i) = []" "seq_no (second_entry i) = 1" "deleted (second_entry i) = False"
  by (simp_all add: second_entry_def)

lemma wide_nodes:
  "c \<in> set wide_ids \<Longrightarrow> node_view (wide_store es) c = Inr (wide_leaf c)" "node_view (wide_store es) 17 = Inr (wide_root es)"
  "nid (wide_root es) = 17" "level (wide_root es) = 1" "kids (wide_root es) = wide_ids" "buffer (wide_root es) = es"
  "length wide_ids = 16"
proof -
  show sel: "nid (wide_root es) = 17" "level (wide_root es) = 1" "kids (wide_root es) = wide_ids" "buffer (wide_root es) = es"
    "length wide_ids = 16"
    by (simp_all add: wide_root_def demo_inner_def kids_def wide_ids_def)
  show "node_view (wide_store es) 17 = Inr (wide_root es)"
    unfolding wide_store_def by (rule demo_store_view) (simp add: wide_ids_def wide_leaf_def sel)
  show "node_view (wide_store es) c = Inr (wide_leaf c)" if "c \<in> set wide_ids"
    unfolding wide_store_def using that by (intro demo_store_view) (auto simp: wide_ids_def wide_leaf_def)
qed

lemma wide_store_sel:
  "store_ok (wide_store es)" "root_id (t_manifest (wide_store es)) = 17" "sl_wf (write_buf (wide_store es))"
  "sl_entries (write_buf (wide_store es)) = []" "next_id (t_manifest (wide_store es)) = 18"
proof -
  show "store_ok (wide_store es)"
    unfolding wide_store_def by (rule demo_store_ok) (auto simp: wide_ids_def wide_leaf_def wide_nodes)
  show "root_id (t_manifest (wide_store es)) = 17" "sl_wf (write_buf (wide_store es))" "sl_entries (write_buf (wide_store es)) = []"
    using skip_buffer.inv_fresh by (simp_all add: wide_store_def demo_store_def set_root_def new_tree_def)
  show "next_id (t_manifest (wide_store es)) = 18"
    unfolding wide_store_def by (simp add: demo_store_def set_root_def register_node_def wide_ids_def)
qed

lemma wide_mins: "map (min_of (node_view (wide_store es))) wide_ids =
  [[1], [2], [3], [4], [5], [6], [7], [8], [9], [10], [11], [12], [13], [14], [15], [16]]"
proof -
  have "map (min_of (node_view (wide_store es))) wide_ids = map (\<lambda>c. [ucast c]) wide_ids"
    using wide_nodes(1) by (simp add: min_of_def wide_leaf_def)
  then show ?thesis by (simp add: wide_ids_def)
qed

lemma wide_tree:
  assumes "entries_sorted es" "[] \<notin> key ` set es" "\<forall>e\<in>set es. 1 \<le> seq_no e"
  shows "gtree (Suc 0) (node_view (wide_store es)) 17"
proof -
  let ?v = "node_view (wide_store es)"
  have leaf: "sound_node c (wide_leaf c)" for c
    unfolding wide_leaf_def by (rule demo_leaf_sound) (simp_all add: pos_of_def less_eq_sort_pos_def)
  have root: "sound_node 17 (wide_root es)"
    using demo_leaf_sound [OF assms(1,2)]
    by (simp add: wide_root_def wide_ids_def sound_node_def node_sane_def demo_inner_def demo_leaf_def default_node_def MAX_FANOUT_def)
  have pairs: "child_pairs 0 ?v wide_ids =
      map (\<lambda>c. ([ucast c], \<lambda>k. newest k [demo_entry (ucast c) 1, second_entry (ucast c)])) wide_ids"
    using wide_nodes(1) by (simp add: child_pairs_def min_of_def wide_leaf_def fun_eq_iff)
  have "chained (map (\<lambda>c. ([ucast c], \<lambda>k. newest k [demo_entry (ucast c) 1, second_entry (ucast c)])) wide_ids)"
    by (simp add: wide_ids_def newest_None_iff) (intro conjI allI impI; clarsimp)
  then have sep: "separated (map (min_of ?v) wide_ids) (\<lambda>j. lookup 0 ?v (wide_ids ! j))"
    by (simp only: separated_pairs pairs)
  have one: "seq_no f = 1" if "c \<in> set wide_ids" "lookup 0 ?v c k = Some f" for c k f
    using newest_SomeD(1) [of k "buffer (the_node ?v c)" f] that wide_nodes(1) by (auto simp: wide_leaf_def)
  have "layered (\<lambda>k. newest k es) (\<lambda>k. lookup 0 ?v (wide_ids ! route ?v wide_ids k) k)"
    unfolding layered_def
  proof (intro allI impI)
    fix k e f assume e: "newest k es = Some e" and f: "lookup 0 ?v (wide_ids ! route ?v wide_ids k) k = Some f"
    have "wide_ids ! route ?v wide_ids k \<in> set wide_ids"
      by (rule nth_mem [OF route_bound]) (simp add: wide_ids_def)
    then have "seq_no f = 1" using f by (rule one)
    then show "seq_no f \<le> seq_no e" using newest_SomeD(1) [OF e] assms(3) by simp
  qed
  moreover have "wide_ids \<noteq> []" "distinct wide_ids" by (simp_all add: wide_ids_def)
  moreover have "gtree 0 ?v c \<and> low_bound 0 ?v c" if "c \<in> set wide_ids" for c
    using wide_nodes(1) [OF that] leaf [of c] by (simp add: low_bound_def) (simp add: wide_leaf_def)
  ultimately show ?thesis using wide_nodes(2-6) root sep by (simp del: lookup.simps gtree.simps(1))
qed

text \<open>Two values of two megabytes each for the third leaf and for the fifth.\<close>

definition wide_entry :: "bytes \<Rightarrow> seq_number \<Rightarrow> entry" where
  "wide_entry k s = \<lparr>key = k, val = replicate (2 ^ 21) 7, seq_no = s, deleted = False\<rparr>"

definition wide_load :: "entry list" where
  "wide_load = [wide_entry [3, 1] 2, wide_entry [3, 2] 3, wide_entry [5, 1] 4, wide_entry [5, 2] 5]"

lemma wide_entry_sel [simp]:
  "key (wide_entry k s) = k" "seq_no (wide_entry k s) = s" "deleted (wide_entry k s) = False"
  "val (wide_entry k s) = replicate (2 ^ 21) 7" "entry_bytes (wide_entry k s) = length k + 2 ^ 21 + 9"
  by (simp_all add: wide_entry_def entry_bytes_def)

lemma scan_back_numeral:
  "scan_back mins k (numeral v) =
     (if k \<ge> mins ! pred_numeral v then pred_numeral v else scan_back mins k (pred_numeral v))"
  by (simp add: numeral_eq_Suc)

lemma wide_buffers:
  fixes j :: nat
  assumes "j < length wide_ids"
  defines "old \<equiv> \<lambda>i. [demo_entry i 1, second_entry i]"
  shows "buffer_after (node_view (wide_store wide_load)) (wide_root wide_load) j =
    (if j = 2 then old 3 @ [wide_entry [3, 1] 2, wide_entry [3, 2] 3]
     else if j = 4 then old 5 @ [wide_entry [5, 1] 4, wide_entry [5, 2] 5] else old (ucast (wide_ids ! j)))"
proof -
  let ?v = "node_view (wide_store wide_load)"
  have "route ?v wide_ids k = scan_back [[1], [2], [3], [4], [5], [6], [7], [8], [9], [10], [11],
      [12], [13], [14], [15], [16]] k 16" for k
    by (simp only: route_def wide_mins wide_nodes(7))
  then have r: "route ?v wide_ids [3, 1] = 2" "route ?v wide_ids [3, 2] = 2" "route ?v wide_ids [5, 1] = 4" "route ?v wide_ids [5, 2] = 4"
    by (simp_all add: scan_back_numeral)
  have P: "part_of ?v (wide_root wide_load) j =
      (if j = 2 then [wide_entry [3, 1] 2, wide_entry [3, 2] 3] else if j = 4 then [wide_entry [5, 1] 4, wide_entry [5, 2] 5] else [])"
    using r by (simp add: part_of_def wide_nodes wide_load_def)
  have B: "buffer (the_node ?v (wide_ids ! j)) = old (ucast (wide_ids ! j))"
    using wide_nodes(1) [of "wide_ids ! j"] assms(1) by (simp add: wide_leaf_def old_def)
  have S: "sort_entries (merge_sorted_entries [wide_entry [3, 1] 2, wide_entry [3, 2] 3] (old 3)) =
      old 3 @ [wide_entry [3, 1] 2, wide_entry [3, 2] 3]"
    "sort_entries (merge_sorted_entries [wide_entry [5, 1] 4, wide_entry [5, 2] 5] (old 5)) =
      old 5 @ [wide_entry [5, 1] 4, wide_entry [5, 2] 5]"
    by (simp_all add: sort_entries_def entry_less_def old_def)
  have W: "ucast (wide_ids ! 2) = (3 :: 8 word)" "ucast (wide_ids ! 4) = (5 :: 8 word)" by (simp_all add: wide_ids_def)
  show ?thesis
    unfolding buffer_after_def Let_def wide_nodes(5) P B by (cases "j = 2"; cases "j = 4") (simp_all add: S W del: merge_sorted_entries.simps)
qed

lemma wide_overfull:
  "j < length wide_ids \<Longrightarrow> overfull (node_view (wide_store wide_load)) (wide_root wide_load) j \<longleftrightarrow> j = 2 \<or> j = 4"
  by (simp add: overfull_def wide_buffers BUFFER_THRESHOLD_def) (simp add: entry_bytes_def)

subsection \<open>Properties\<close>

text \<open>
  C17. Splitting a leaf below a full root makes the tree grow: \<^verbatim>\<open>insert_child\<close> divides the seventeen children
  between two new inner nodes and puts a new root over them; the result is a search tree one level higher in
  which every key is found as before, the old root is unknown, and the manifest is saved.
\<close>

theorem full_root_split_grows:
  assumes "store_ok t" and "pid = root_id (t_manifest t)" and "gtree (Suc 0) (node_view t) pid" and "node_view t pid = Inr n"
    and "buffer n = []" and "length (kids n) = MAX_FANOUT" and "c \<in> set (kids n)"
    and "node_view t c = Inr nc" and "clean_cut (buffer nc)" and "length (buffer nc) < 2 ^ 30"
    and "unat (next_id (t_manifest t)) + 5 < 2 ^ 64"
  shows "\<exists>t' m. split_leaf (Suc (Suc fuel)) c [pid, c] t = (Inr (), t') \<and> store_ok t' \<and> saved t' \<and>
    gtree 2 (node_view t') (root_id (t_manifest t')) \<and>
    (\<forall>k. lookup 2 (node_view t') (root_id (t_manifest t')) k = lookup 1 (node_view t) pid k) \<and>
    node_view t' (root_id (t_manifest t')) = Inr m \<and> length (kids m) = 2 \<and>
    sum_list (map (\<lambda>x. length (kids (the_node (node_view t') x))) (kids m)) = MAX_FANOUT + 1 \<and>
    node_view t' pid = Inl (Unknown_node pid)"
proof -
  obtain xs ys where ks: "kids n = xs @ c # ys" using assms(7) by (metis split_list)
  from split_grow_step [OF assms(1-5) ks assms(6,8-11), of fuel] obtain t' m na nb where
    t': "split_leaf (Suc (Suc fuel)) c [pid, c] t = (Inr (), t')"
    "evolves 5 {pid, c, next_id (t_manifest t), next_id (t_manifest t) + 1, next_id (t_manifest t) + 2,
       next_id (t_manifest t) + 3, next_id (t_manifest t) + 4} (rooted (next_id (t_manifest t) + 4) t) t'"
    "gtree (Suc (Suc 0)) (node_view t') (next_id (t_manifest t) + 4)"
    "\<And>k. lookup (Suc (Suc 0)) (node_view t') (next_id (t_manifest t) + 4) k = lookup (Suc 0) (node_view t) pid k"
    "node_view t' pid = Inl (Unknown_node pid)" "node_view t' (next_id (t_manifest t) + 4) = Inr m"
    "kids m = [next_id (t_manifest t) + 2, next_id (t_manifest t) + 3]"
    "node_view t' (next_id (t_manifest t) + 2) = Inr na" "node_view t' (next_id (t_manifest t) + 3) = Inr nb"
    "kids na @ kids nb = xs @ [next_id (t_manifest t), next_id (t_manifest t) + 1] @ ys" "saved t'" by blast
  have "length (kids na) + length (kids nb) = MAX_FANOUT + 1"
    using arg_cong [OF t'(10), of length] assms(6) ks by simp
  then show ?thesis
    using t' evolvesD(1,8) [OF t'(2)]
    by (intro exI [of _ t'] exI [of _ m]) (simp add: numeral_2_eq_2 del: lookup.simps gtree.simps)
qed

theorem full_root_split_grows_witness:
  "\<exists>t' m. split_leaf 2 3 [17, 3] (wide_store []) = (Inr (), t') \<and> gtree 2 (node_view t') (root_id (t_manifest t')) \<and>
     lookup 2 (node_view t') (root_id (t_manifest t')) [7] = lookup 1 (node_view (wide_store [])) 17 [7] \<and>
     node_view t' (root_id (t_manifest t')) = Inr m \<and> length (kids m) = 2"
proof -
  have g: "gtree (Suc 0) (node_view (wide_store [])) 17" by (rule wide_tree) simp_all
  have k: "(3 :: node_id) \<in> set (kids (wide_root []))" "length (kids (wide_root [])) = MAX_FANOUT"
    by (simp_all add: wide_nodes(5,7) MAX_FANOUT_def) (simp add: wide_ids_def)
  have c: "clean_cut (buffer (wide_leaf 3))" "length (buffer (wide_leaf 3)) < 2 ^ 30"
    by (simp_all add: wide_leaf_def clean_cut_def)
  have room: "unat (next_id (t_manifest (wide_store []))) + 5 < 2 ^ 64" by (simp add: wide_store_sel)
  from full_root_split_grows [OF wide_store_sel(1) wide_store_sel(2) [of "[]", symmetric] g wide_nodes(2,6) k(2,1)
      wide_nodes(1) [OF k(1) [unfolded wide_nodes(5)]] c room, of 0, folded numeral_2_eq_2]
  show ?thesis by blast
qed

text \<open>
  C26. A flush that fills more leaves than the root has room for loses keys. When at least two halves more
  come out than fit a root over leaves, \<^verbatim>\<open>do_flush\<close> throws on the id of the root it has just replaced,
  and for every key of one of the overfull leaves, which \<^verbatim>\<open>get\<close> answered before, \<^verbatim>\<open>get\<close> throws from then on.
\<close>

theorem overflow_loses_keys:
  assumes "store_ok t" and "pid = root_id (t_manifest t)" and "gtree (Suc 0) (node_view t) pid" and "node_view t pid = Inr n"
    and "modest (node_view t) n"
    and "\<forall>j < length (kids n). overfull (node_view t) n j \<longrightarrow> clean_cut (buffer_after (node_view t) n j)"
    and "length (kids n) + length (filter (overfull (node_view t) n) [0..<length (kids n)]) > MAX_FANOUT + 1"
    and "unat (next_id (t_manifest t)) + 4 * MAX_FANOUT < 2 ^ 64"
    and "sl_wf (write_buf t)" and "sl_entries (write_buf t) = []"
  shows "\<exists>t' j y. do_flush FUEL pid t = (Inl (Unknown_node pid), t') \<and> j < length (kids n) \<and> overfull (node_view t) n j \<and>
    (\<forall>k e. newest k (buffer_after (node_view t) n j) = Some e \<longrightarrow>
       fst (tree_get FUEL k t) = Inr (visible e) \<and> fst (tree_get FUEL k t') = Inl (Unknown_node y))"
proof -
  let ?v = "node_view t"
  obtain f where f: "FUEL = Suc (Suc (Suc f))" by (rule that [of "FUEL - 3"]) (simp add: FUEL_def)
  have "unat (next_id (t_manifest t)) + MAX_FANOUT < 2 ^ 64" using assms(8) by simp
  from flush_to_leaves [OF assms(1,3-5) this, of "Suc (Suc f)"] obtain t1 cs n' where
    run: "do_flush FUEL pid t = check_overflow (\<lambda>cid. split_leaf (Suc (Suc f)) cid [pid, cid]) (do_flush (Suc (Suc f))) cs t1"
    and h: "handed_down t pid n t1 cs n'" unfolding f by blast
  note H = handed_downD [OF h]
  note G = gtree_SucE [OF H(2,4), unfolded H(6)]
  have "\<And>j. j < length (kids n) \<Longrightarrow> overfull ?v n j \<Longrightarrow> clean_cut (buffer_after ?v n j)" using assms(6) by blast
  note F = handed_down_full [OF h assms(5) this]
  have ready: "ready_leaves t1 cs" unfolding ready_leaves_def
  proof
    fix x assume x: "x \<in> set cs"
    with F(1) obtain c where c: "map_of (cache t1) x = Some c" "buffer_full c \<longrightarrow> clean_cut (buffer c) \<and> length (buffer c) < 2 ^ 30"
      by blast
    have "sound_node x c" "is_leaf c" "num_children c = 0"
      using G(5) [OF x] cached_view [OF c(1)] by (auto simp: is_leaf_def)
    with c show "\<exists>c. map_of (cache t1) x = Some c \<and> sound_node x c \<and> is_leaf c \<and> num_children c = 0 \<and>
        (buffer_full c \<longrightarrow> clean_cut (buffer c) \<and> length (buffer c) < 2 ^ 30)" by blast
  qed
  have "length (kids n) \<le> MAX_FANOUT" using gtree_SucE(1) [OF assms(3,4)] by (simp add: sound_node_def kids_def)
  then have room: "unat (next_id (t_manifest t1)) + 2 * length cs + 5 < 2 ^ 64" using H(8,10) assms(8) by (simp add: MAX_FANOUT_def)
  have pid1: "pid = root_id (t_manifest t1)" using assms(2) H(16) by simp
  have "length (kids n') + length (filter (full_in t1) cs) > MAX_FANOUT + 1"
    using assms(7) H(6,8) F(2) by (simp add: full_in_def [abs_def])
  from lost_leaf_loop [OF H(1) pid1 H(2,4,5) eq_refl [OF arg_cong [OF H(6) [symmetric], of set]] H(7) ready this room,
      of f "do_flush (Suc (Suc f))"] obtain t' y where
    t': "check_overflow (\<lambda>cid. split_leaf (Suc (Suc f)) cid [pid, cid]) (do_flush (Suc (Suc f))) cs t1 = (Inl (Unknown_node pid), t')"
      "y \<in> set cs" "full_in t1 y" "write_buf t' = write_buf t1"
      "\<And>k. lookup 0 (node_view t1) y k \<noteq> None \<Longrightarrow> disk_get FUEL (node_view t') (root_id (t_manifest t')) k = Inl (Unknown_node y)"
    by blast
  obtain j where j: "j < length cs" "cs ! j = y" using t'(2) by (metis in_set_conv_nth)
  from H(9) [OF j(1)] obtain c where c: "map_of (cache t1) y = Some c" "buffer c = buffer_after ?v n j" unfolding j(2) by blast
  have vy: "node_view t1 y = Inr c" by (rule cached_view [OF c(1)])
  have over: "overfull ?v n j"
    using t'(3) vy c(2) by (simp add: full_in_def overfull_def buffer_full_def buffer_size_bytes_sum)
  have "fst (tree_get FUEL k t) = Inr (visible e) \<and> fst (tree_get FUEL k t') = Inl (Unknown_node y)"
    if e: "newest k (buffer_after ?v n j) = Some e" for k e
  proof
    have ly: "lookup 0 (node_view t1) y k = Some e" using vy c(2) e by simp
    have "lookup (Suc 0) (node_view t1) pid k = lookup 0 (node_view t1) (cs ! route (node_view t1) cs k) k"
      using H(4,5,6) by simp
    then have "lookup (Suc 0) ?v pid k = Some e"
      using routed_found [OF G(7) [unfolded separated_pairs] G(3), of k e] ly t'(2) H(3) [of k] by auto
    then have "disk_get FUEL ?v (root_id (t_manifest t)) k = Inr (visible e)"
      using gtree_disk_get [OF assms(3), of k] assms(2) by simp
    then show "fst (tree_get FUEL k t) = Inr (visible e)"
      using tree_get_view [OF assms(9), of FUEL k] assms(10) by (auto simp: view_get_def)
    show "fst (tree_get FUEL k t') = Inl (Unknown_node y)"
      using tree_get_view [of t' FUEL k] t'(4) t'(5) [of k] ly assms(9,10) H(13) by (auto simp: view_get_def)
  qed
  then show ?thesis using run t'(1) j(1) H(8) over by (intro exI [of _ t'] exI [of _ j] exI [of _ y]) simp
qed

theorem overflow_loses_keys_witness:
  "\<exists>t' y k. do_flush FUEL 17 (wide_store wide_load) = (Inl (Unknown_node 17), t') \<and> k \<in> {[3], [5]} \<and>
     fst (tree_get FUEL k (wide_store wide_load)) = Inr (Some k) \<and> fst (tree_get FUEL k t') = Inl (Unknown_node y)"
proof -
  let ?t = "wide_store wide_load" and ?n = "wide_root wide_load"
  let ?v = "node_view ?t"
  have g: "gtree (Suc 0) ?v 17" by (rule wide_tree) (simp_all add: wide_load_def pos_of_def less_eq_sort_pos_def)
  have room: "unat (next_id (t_manifest ?t)) + 4 * MAX_FANOUT < 2 ^ 64" by (simp add: wide_store_sel MAX_FANOUT_def)
  have "filter (overfull ?v ?n) [0..<16] = filter (\<lambda>j. j = 2 \<or> j = 4) [0..<16]"
    using wide_overfull by (intro filter_cong) (auto simp: wide_nodes(7))
  then have count: "length (kids ?n) + length (filter (overfull ?v ?n) [0..<length (kids ?n)]) > MAX_FANOUT + 1"
    by (simp add: wide_nodes(5,7) MAX_FANOUT_def upt_rec)
  have modest: "modest ?v ?n" by (simp add: modest_def wide_nodes(5) wide_buffers)
  have cut: "\<forall>j < length (kids ?n). overfull ?v ?n j \<longrightarrow> clean_cut (buffer_after ?v ?n j)"
    using wide_overfull wide_buffers by (auto simp: wide_nodes(5) clean_cut_def)
  from overflow_loses_keys [OF wide_store_sel(1) wide_store_sel(2) [symmetric] g wide_nodes(2) modest cut count room wide_store_sel(3,4)]
  obtain t' j y where
    t': "do_flush FUEL 17 ?t = (Inl (Unknown_node 17), t')" "j < length wide_ids" "overfull ?v ?n j"
    "\<And>k e. newest k (buffer_after ?v ?n j) = Some e \<Longrightarrow>
       fst (tree_get FUEL k ?t) = Inr (visible e) \<and> fst (tree_get FUEL k t') = Inl (Unknown_node y)"
    by (auto simp: wide_nodes(5))
  from wide_overfull [OF t'(2)] t'(3) consider "j = 2" | "j = 4" by blast
  then show ?thesis
  proof cases
    case 1
    then show ?thesis using t'(1) t'(4) [of "[3]" "demo_entry 3 1"] wide_buffers [OF t'(2)]
      by (intro exI [of _ t'] exI [of _ y] exI [of _ "[3]"]) (simp add: newest_Cons visible_def del: do_flush.simps)
  next
    case 2
    then show ?thesis using t'(1) t'(4) [of "[5]" "demo_entry 5 1"] wide_buffers [OF t'(2)]
      by (intro exI [of _ t'] exI [of _ y] exI [of _ "[5]"]) (simp add: newest_Cons visible_def del: do_flush.simps)
  qed
qed

end
