(* ===== verification/Flush_Thread.thy ===== *)
theory Flush_Thread
  imports Store_Runs
begin

text \<open>
  The flush thread of \<^verbatim>\<open>src/tree.cpp\<close> (\<^verbatim>\<open>flush_thread_fn\<close>, \<^verbatim>\<open>signal_flush\<close>,
  \<^verbatim>\<open>wait_for_flush_complete\<close>) and the threads that call the store, interleaved. A step is one locked
  region, one access to a flag, or one stage of a wait on the condition variable; the steps of the flush
  thread, of a caller and of the environment are inductive relations, and \<open>reachable\<close> closes the initial
  state under them. Atomics are sequentially consistent here, and the notification of
  \<^verbatim>\<open>signal_flush\<close> belongs to the step of its exchange.

  The file first shows that everything done under the cache lock leaves the write buffer and the flags
  alone (\<open>inner_only\<close>), then by rule induction that the flags are consistent and that no entry is lost
  between the locks, and that the thread completes a round by its own steps.
\<close>

subsection \<open>What restructuring leaves alone\<close>

text \<open>
  The operations under the cache lock never touch the write buffer, the sequence counter or the
  flags, whether they succeed or throw. \<open>outer\<close> is that part of the state.
\<close>

definition outer :: "tree \<Rightarrow> skiplist \<times> seq_number \<times> options \<times> bool \<times> bool \<times> bool" where
  "outer t = (write_buf t, seq t, opts t, flush_requested t, flush_in_progress t, stopped t)"

abbreviation inner_only :: "'a action \<Rightarrow> bool" where
  "inner_only \<equiv> keeps outer"

lemma inner_simple [keeps_intros]:
  "inner_only (on_manifest f)"
  "inner_only (put_node i n)" "inner_only (erase_node i)" "inner_only gc_manifest" "inner_only alloc_id"
  "inner_only (on_disk g)" "inner_only save_manifest" "inner_only (create_in i lvl es cs)"
  "inner_only (get_node i)" "inner_only (run_on i h)" "inner_only (upd_node i u)" "inner_only (flush_local n)"
  "inner_only (run_local_flush i ns)"
  by (simp_all add: keeps_def outer_def ret_def throw_def lift_res_def on_manifest_def modify_def put_node_def
      erase_node_def gc_manifest_def alloc_id_def on_disk_def save_manifest_def create_in_def get_node_def
      run_on_def upd_node_def flush_local_def run_local_flush_def split: prod.split option.split sum.split)

lemma inner_modify [keeps_intros]:
  "inner_only (modify (\<lambda>t. t\<lparr>split_ops := f t\<rparr>))" "inner_only (modify (\<lambda>t. t\<lparr>flush_ops := g t\<rparr>))"
  "inner_only (modify (\<lambda>t. t\<lparr>root_buf_bytes := h t\<rparr>))"
  by (simp_all add: keeps_def outer_def modify_def)

lemma inner_search [keeps_intros]: "inner_only (search_path k is)"
  by (induction "is") (simp_all add: keeps_intros)

lemma inner_scan [keeps_intros]: "inner_only (scan_children k cs i)"
  by (induction cs arbitrary: i) (simp_all add: keeps_intros)

lemma inner_path_loop [keeps_intros]: "inner_only (find_path_loop fuel k i path)"
  by (induction fuel arbitrary: i path) (simp_all add: keeps_intros)

lemma inner_find_path [keeps_intros]: "inner_only (find_path fuel k)"
  by (rule keeps_state [OF find_path_def]) (intro keeps_intros)

lemma inner_get_on_disk [keeps_intros]: "inner_only (get_on_disk fuel k)"
  unfolding get_on_disk_def by (intro keeps_intros)

lemma inner_flush_register [keeps_intros]: "inner_only (flush_and_register i)"
proof -
  have "inner_only (\<lambda>t. case map_of (cache t) i of None \<Rightarrow> (Inl Undefined_behaviour, t)
      | Some n \<Rightarrow> on_manifest (register_node (nid n) (level n) (file_path n)) t)"
    by (simp add: keeps_def on_manifest_def modify_def outer_def split: option.split)
  then show ?thesis by (intro keeps_state [OF flush_and_register_def] keeps_intros)
qed

lemma inner_parent [keeps_intros]:
  "inner_only (span_of cs)" "inner_only (finish_parent i)" "inner_only (new_root_over lvl a b an bn)"
  "inner_only (create_halves lvl es lk rk)" "inner_only (halve_leaf i xs ys)" "inner_only (refresh_child j res c)"
  unfolding span_of_def finish_parent_def new_root_over_def create_halves_def halve_leaf_def refresh_child_def Let_def
  by (intro keeps_intros)+

lemma inner_search_children [keeps_intros]:
  "(\<And>c p. inner_only (f c p)) \<Longrightarrow> inner_only (search_children f cs path)"
  by (induction cs arbitrary: path) (simp_all add: keeps_intros)

lemma inner_dfs [keeps_intros]: "inner_only (dfs fuel target i path)"
  by (induction fuel arbitrary: i path) (simp_all add: keeps_intros)

lemma inner_path_to [keeps_intros]: "inner_only (path_to fuel target)"
  by (rule keeps_state [OF path_to_def]) (intro keeps_intros)

lemma inner_insert_child [keeps_intros]: "inner_only (insert_child fuel i old l r)"
  by (induction fuel arbitrary: i old l r) (simp_all add: keeps_intros Let_def)

lemma inner_split_leaf [keeps_intros]: "inner_only (split_leaf fuel i path)"
  unfolding split_leaf_def Let_def by (intro keeps_intros)

lemma inner_copy [keeps_intros]: "inner_only (copy_children cs)"
  by (induction cs) (simp_all add: keeps_intros)

lemma inner_refresh [keeps_intros]: "inner_only (refresh_children j res cs)"
  by (induction cs arbitrary: j) (simp_all add: keeps_intros)

lemma inner_overflow [keeps_intros]:
  assumes "\<And>i. inner_only (f i)" "\<And>i. inner_only (g i)"
  shows "inner_only (check_overflow f g cids)"
proof (induction cids)
  case (Cons cid cids)
  have "inner_only (\<lambda>t. case map_of (cache t) cid of None \<Rightarrow> (Inr (), t)
       | Some child \<Rightarrow> if \<not> buffer_full child then (Inr (), t)
           else if is_leaf child \<and> num_children child = 0 then f cid t
           else if num_children child > 0 then g cid t else (Inr (), t))"
    using assms by (simp add: keeps_def split: option.split)
  then show ?case by (simp add: keeps_intros Cons.IH)
qed (simp add: keeps_intros)

lemma inner_push [keeps_intros]: "inner_only (push_to_children i)"
  unfolding push_to_children_def by (intro keeps_intros)

lemma inner_do_flush [keeps_intros]: "inner_only (do_flush fuel i)"
  by (induction fuel arbitrary: i) (simp_all add: keeps_intros)

lemma inner_merge [keeps_intros]: "inner_only (merge_into_root pending)"
  by (rule keeps_state [OF merge_into_root_def]) (intro keeps_intros)

lemma inner_flush_round [keeps_intros]: "inner_only (flush_round fuel pending)"
  by (rule keeps_state [OF flush_round_def [unfolded Let_def]]) (intro keeps_intros)

lemma inner_persist_root [keeps_intros]: "inner_only (persist_root pending)"
proof -
  have run: "inner_only (bind (run_on (root_id (t_manifest t)) (flush_to_disk (data_dir (opts t)))) (\<lambda>path.
       bind (on_manifest (register_node (root_id (t_manifest t)) (level root) path)) (\<lambda>_. save_manifest)))" for root :: sst_node and t :: tree
    by (intro keeps_intros)
  have "inner_only (\<lambda>t. if buffer root \<noteq> [] then
         bind (run_on (root_id (t_manifest t)) (flush_to_disk (data_dir (opts t)))) (\<lambda>path.
           bind (on_manifest (register_node (root_id (t_manifest t)) (level root) path)) (\<lambda>_. save_manifest)) t
       else (Inr (), t))" for root :: sst_node
    using keepsD [OF run] by (simp add: keeps_def)
  then show ?thesis unfolding persist_root_def by (intro keeps_intros)
qed

subsection \<open>Threads\<close>

text \<open>
  A thread in \<^verbatim>\<open>flush_cv_.wait\<close> evaluates its condition (\<open>Checking\<close>), has found it false and is about
  to block (\<open>Deciding\<close>), or is blocked (\<open>Asleep\<close>). Notifications reach only threads that are asleep;
  the notifier does not hold \<^verbatim>\<open>flush_cv_mu_\<close>, so it can run between the two.
\<close>

datatype waiting = Checking | Deciding | Asleep

text \<open>The flush thread, by the statements of \<^verbatim>\<open>flush_thread_fn\<close> it stands in front of.\<close>

datatype phase =
    F_wait waiting
  | F_woken
  | F_begun
  | F_drained "entry list"
  | F_merged
  | F_cleared
  | F_ended

text \<open>A calling thread; \<open>C_wait\<close> carries the call that goes on after \<^verbatim>\<open>wait_for_flush_complete\<close>.\<close>

datatype call = Write_call bytes bytes bool | Flush_call

datatype caller =
    C_idle
  | C_wait waiting call
  | C_write bytes bytes bool
  | C_signal
  | C_search bytes
  | C_done bytes "bytes option"
  | C_drain
  | C_persist "entry list"

text \<open>
  The system: the store, the flush thread, the callers, and as history the entries written so far and
  those handed to a merge into the root, whether that merge succeeds or throws.
\<close>

record sys =
  store :: tree
  flusher :: phase
  callers :: "caller list"
  entered :: "entry list"
  handed :: "entry list"

definition sys_init :: "tree \<Rightarrow> nat \<Rightarrow> sys" where
  "sys_init t n = \<lparr>store = t, flusher = F_wait Checking, callers = replicate n C_idle,
     entered = sl_entries (write_buf t), handed = []\<rparr>"

definition set_caller :: "nat \<Rightarrow> caller \<Rightarrow> sys \<Rightarrow> sys" where
  "set_caller i c s = s\<lparr>callers := (callers s)[i := c]\<rparr>"

abbreviation at_caller :: "sys \<Rightarrow> nat \<Rightarrow> caller \<Rightarrow> bool" where
  "at_caller s i c \<equiv> i < length (callers s) \<and> callers s ! i = c"

fun wake_phase :: "phase \<Rightarrow> phase" where
  "wake_phase (F_wait Asleep) = F_wait Checking"
| "wake_phase p = p"

fun wake_caller :: "caller \<Rightarrow> caller" where
  "wake_caller (C_wait Asleep c) = C_wait Checking c"
| "wake_caller c = c"

definition notify_all :: "sys \<Rightarrow> sys" where
  "notify_all s = s\<lparr>flusher := wake_phase (flusher s), callers := map wake_caller (callers s)\<rparr>"

text \<open>\<^verbatim>\<open>notify_one\<close> wakes one of the sleeping threads, any of them: all wait on one condition variable.\<close>

inductive notify_one :: "sys \<Rightarrow> sys \<Rightarrow> bool" where
  nobody: "flusher s \<noteq> F_wait Asleep \<Longrightarrow> \<forall>c\<in>set (callers s). wake_caller c = c \<Longrightarrow> notify_one s s"
| the_flusher: "flusher s = F_wait Asleep \<Longrightarrow> notify_one s (s\<lparr>flusher := F_wait Checking\<rparr>)"
| a_caller: "at_caller s i (C_wait Asleep c) \<Longrightarrow> notify_one s (set_caller i (C_wait Checking c) s)"

text \<open>\<^verbatim>\<open>signal_flush\<close>: only the exchange that sets the flag notifies.\<close>

inductive signals :: "sys \<Rightarrow> sys \<Rightarrow> bool" where
  already: "flush_requested (store s) \<Longrightarrow> signals s s"
| first: "\<not> flush_requested (store s) \<Longrightarrow> notify_one (s\<lparr>store := signal_flush (store s)\<rparr>) s' \<Longrightarrow> signals s s'"

text \<open>The locked part of \<^verbatim>\<open>insert\<close> and \<^verbatim>\<open>remove\<close>, without the signal that follows it.\<close>

definition new_entry :: "bytes \<Rightarrow> bytes \<Rightarrow> bool \<Rightarrow> tree \<Rightarrow> entry" where
  "new_entry k v del t = \<lparr>key = k, val = v, seq_no = seq t, deleted = del\<rparr>"

definition locked_write :: "bytes \<Rightarrow> bytes \<Rightarrow> bool \<Rightarrow> tree \<Rightarrow> tree option" where
  "locked_write k v del t =
     map_option (\<lambda>sl. t\<lparr>seq := seq t + 1, write_buf := sl\<rparr>) (sl_insert (new_entry k v del t) (write_buf t))"

lemma buffer_write_locked:
  "buffer_write k v del t =
     (case locked_write k v del t of
        None \<Rightarrow> (Inl Undefined_behaviour, t\<lparr>seq := seq t + 1\<rparr>)
      | Some t' \<Rightarrow> (Inr (), if sl_bytes (write_buf t') \<ge> buffer_threshold (opts t') then signal_flush t' else t'))"
  by (simp add: buffer_write_def bind_def next_seq_def locked_write_def new_entry_def Let_def split: option.split)

subsection \<open>The steps\<close>

text \<open>
  One step of the flush thread. The locked regions are single steps; an exception under the cache lock
  is caught, the state it leaves stays.
\<close>

inductive flusher_step :: "sys \<Rightarrow> sys \<Rightarrow> bool" where
  wake: "flusher s = F_wait Checking \<Longrightarrow> flush_requested (store s) \<or> stopped (store s) \<Longrightarrow>
    flusher_step s (s\<lparr>flusher := F_woken\<rparr>)"
| decide: "flusher s = F_wait Checking \<Longrightarrow> \<not> (flush_requested (store s) \<or> stopped (store s)) \<Longrightarrow>
    flusher_step s (s\<lparr>flusher := F_wait Deciding\<rparr>)"
| block: "flusher s = F_wait Deciding \<Longrightarrow> flusher_step s (s\<lparr>flusher := F_wait Asleep\<rparr>)"
| quit: "flusher s = F_woken \<Longrightarrow> stopped (store s) \<Longrightarrow> flusher_step s (s\<lparr>flusher := F_ended\<rparr>)"
| begin_round: "flusher s = F_woken \<Longrightarrow> \<not> stopped (store s) \<Longrightarrow>
    flusher_step s (s\<lparr>store := (store s)\<lparr>flush_in_progress := True\<rparr>, flusher := F_begun\<rparr>)"
| drain: "flusher s = F_begun \<Longrightarrow> drain_write_buf (store s) = (Inr pending, t) \<Longrightarrow>
    flusher_step s (s\<lparr>store := t, flusher := F_drained pending\<rparr>)"
| merge: "flusher s = F_drained pending \<Longrightarrow> flush_round FUEL pending (store s) = (r, t) \<Longrightarrow>
    flusher_step s (s\<lparr>store := t, flusher := F_merged, handed := handed s @ pending\<rparr>)"
| clear_request: "flusher s = F_merged \<Longrightarrow>
    flusher_step s (s\<lparr>store := (store s)\<lparr>flush_requested := False\<rparr>, flusher := F_cleared\<rparr>)"
| finish: "flusher s = F_cleared \<Longrightarrow>
    flusher_step s (notify_all (s\<lparr>store := (store s)\<lparr>flush_in_progress := False\<rparr>, flusher := F_wait Checking\<rparr>))"

text \<open>One step of the calling thread \<open>i\<close> in \<^verbatim>\<open>insert\<close>, \<^verbatim>\<open>remove\<close>, \<^verbatim>\<open>flush\<close> or \<^verbatim>\<open>get\<close>.\<close>

fun resume :: "call \<Rightarrow> caller" where
  "resume (Write_call k v del) = C_write k v del"
| "resume Flush_call = C_drain"

inductive caller_step :: "nat \<Rightarrow> sys \<Rightarrow> sys \<Rightarrow> bool" for i where
  start_write: "at_caller s i C_idle \<Longrightarrow>
    caller_step i s (set_caller i (if sl_bytes (write_buf (store s)) \<ge> hard_limit (store s)
       then C_wait Checking (Write_call k v del) else C_write k v del) s)"
| start_flush: "at_caller s i C_idle \<Longrightarrow> signals s s' \<Longrightarrow> caller_step i s (set_caller i (C_wait Checking Flush_call) s')"
| wait_over: "at_caller s i (C_wait Checking c) \<Longrightarrow> flush_complete (store s) \<Longrightarrow>
    caller_step i s (set_caller i (resume c) s)"
| wait_on: "at_caller s i (C_wait Checking c) \<Longrightarrow> \<not> flush_complete (store s) \<Longrightarrow>
    caller_step i s (set_caller i (C_wait Deciding c) s)"
| sleep: "at_caller s i (C_wait Deciding c) \<Longrightarrow> caller_step i s (set_caller i (C_wait Asleep c) s)"
| put: "at_caller s i (C_write k v del) \<Longrightarrow> locked_write k v del (store s) = Some t \<Longrightarrow>
    caller_step i s (set_caller i C_signal (s\<lparr>store := t, entered := entered s @ [new_entry k v del (store s)]\<rparr>))"
| signal_full: "at_caller s i C_signal \<Longrightarrow> sl_bytes (write_buf (store s)) \<ge> buffer_threshold (opts (store s)) \<Longrightarrow>
    signals s s' \<Longrightarrow> caller_step i s (set_caller i C_idle s')"
| signal_not: "at_caller s i C_signal \<Longrightarrow> \<not> sl_bytes (write_buf (store s)) \<ge> buffer_threshold (opts (store s)) \<Longrightarrow>
    caller_step i s (set_caller i C_idle s)"
| get_hit: "at_caller s i C_idle \<Longrightarrow> get_buffered k (store s) = (Inr (Some e), t) \<Longrightarrow>
    caller_step i s (set_caller i (C_done k (visible e)) (s\<lparr>store := t\<rparr>))"
| get_miss: "at_caller s i C_idle \<Longrightarrow> get_buffered k (store s) = (Inr None, t) \<Longrightarrow>
    caller_step i s (set_caller i (C_search k) (s\<lparr>store := t\<rparr>))"
| search: "at_caller s i (C_search k) \<Longrightarrow> get_on_disk FUEL k (store s) = (Inr r, t) \<Longrightarrow>
    caller_step i s (set_caller i (C_done k r) (s\<lparr>store := t\<rparr>))"
| search_fails: "at_caller s i (C_search k) \<Longrightarrow> get_on_disk FUEL k (store s) = (Inl e, t) \<Longrightarrow>
    caller_step i s (set_caller i C_idle (s\<lparr>store := t\<rparr>))"
| return: "at_caller s i (C_done k r) \<Longrightarrow> caller_step i s (set_caller i C_idle s)"
| drain_call: "at_caller s i C_drain \<Longrightarrow> drain_write_buf (store s) = (Inr pending, t) \<Longrightarrow>
    caller_step i s (set_caller i (C_persist pending) (s\<lparr>store := t\<rparr>))"
| persist_call: "at_caller s i (C_persist pending) \<Longrightarrow> persist_root pending (store s) = (r, t) \<Longrightarrow>
    caller_step i s (set_caller i C_idle (s\<lparr>store := t, handed := handed s @ pending\<rparr>))"

text \<open>
  The environment: a spurious wake-up, which the condition variable permits, and the first statements
  of the destructor.
\<close>

inductive env_step :: "sys \<Rightarrow> sys \<Rightarrow> bool" where
  spurious: "flusher s = F_wait Asleep \<Longrightarrow> env_step s (s\<lparr>flusher := F_wait Checking\<rparr>)"
| spurious_caller: "at_caller s i (C_wait Asleep c) \<Longrightarrow> env_step s (set_caller i (C_wait Checking c) s)"
| shutdown: "env_step s (notify_all (s\<lparr>store := (store s)\<lparr>stopped := True\<rparr>\<rparr>))"

inductive reachable :: "tree \<Rightarrow> nat \<Rightarrow> sys \<Rightarrow> bool" for t n where
  start: "reachable t n (sys_init t n)"
| by_flusher: "reachable t n s \<Longrightarrow> flusher_step s s' \<Longrightarrow> reachable t n s'"
| by_caller: "reachable t n s \<Longrightarrow> caller_step i s s' \<Longrightarrow> reachable t n s'"
| by_env: "reachable t n s \<Longrightarrow> env_step s s' \<Longrightarrow> reachable t n s'"

subsection \<open>Invariants\<close>

fun busy :: "phase \<Rightarrow> bool" where
  "busy (F_wait w) = False"
| "busy F_woken = False"
| "busy F_begun = True"
| "busy (F_drained es) = True"
| "busy F_merged = True"
| "busy F_cleared = True"
| "busy F_ended = False"

text \<open>The request flag stays up from the wake-up to the end of the merge.\<close>

fun request_held :: "phase \<Rightarrow> tree \<Rightarrow> bool" where
  "request_held F_woken t = (flush_requested t \<or> stopped t)"
| "request_held F_begun t = flush_requested t"
| "request_held (F_drained es) t = flush_requested t"
| "request_held F_merged t = flush_requested t"
| "request_held p t = True"

fun carried :: "phase \<Rightarrow> entry list" where
  "carried (F_drained es) = es"
| "carried p = []"

fun carried_by :: "caller \<Rightarrow> entry list" where
  "carried_by (C_persist es) = es"
| "carried_by c = []"

definition in_transit :: "sys \<Rightarrow> entry list" where
  "in_transit s = carried (flusher s) @ concat (map carried_by (callers s))"

definition flags_ok :: "sys \<Rightarrow> bool" where
  "flags_ok s \<longleftrightarrow> (flush_in_progress (store s) \<longleftrightarrow> busy (flusher s)) \<and> request_held (flusher s) (store s)"

definition conserved :: "sys \<Rightarrow> bool" where
  "conserved s \<longleftrightarrow> sl_wf (write_buf (store s)) \<and>
     mset (entered s) = mset (sl_entries (write_buf (store s))) + mset (in_transit s) + mset (handed s)"

lemma resume_carried [simp]: "carried_by (resume c) = []"
  by (cases c) simp_all

lemma set_caller_sel [simp]:
  "store (set_caller i c s) = store s" "flusher (set_caller i c s) = flusher s"
  "entered (set_caller i c s) = entered s" "handed (set_caller i c s) = handed s"
  "callers (set_caller i c s) = (callers s)[i := c]"
  by (simp_all add: set_caller_def)

lemma notify_all_sel [simp]:
  "store (notify_all s) = store s" "flusher (notify_all s) = wake_phase (flusher s)"
  "entered (notify_all s) = entered s" "handed (notify_all s) = handed s"
  "callers (notify_all s) = map wake_caller (callers s)"
  by (simp_all add: notify_all_def)

lemma wake_phase_simps [simp]:
  "busy (wake_phase p) = busy p" "request_held (wake_phase p) t = request_held p t" "carried (wake_phase p) = carried p"
  by (cases p rule: wake_phase.cases; simp)+

lemma wake_caller_carried [simp]: "carried_by (wake_caller c) = carried_by c"
  by (cases c rule: wake_caller.cases) simp_all

lemma mset_callers_update:
  assumes "i < length cs"
  shows "mset (concat (map carried_by (cs[i := c]))) + mset (carried_by (cs ! i)) =
    mset (concat (map carried_by cs)) + mset (carried_by c)"
proof -
  have "cs = take i cs @ cs ! i # drop (Suc i) cs" using assms by (simp add: id_take_nth_drop)
  then have "mset (concat (map carried_by cs)) =
      mset (concat (map carried_by (take i cs @ cs ! i # drop (Suc i) cs)))" by simp
  then show ?thesis using assms by (simp add: upd_conv_take_nth_drop del: append_take_drop_id)
qed

text \<open>Moving a caller that carries nothing to a place where it carries \<open>c\<close>.\<close>

lemma in_transit_caller:
  assumes "i < length (callers s)" "carried_by (callers s ! i) = []"
  shows "mset (in_transit (set_caller i c s)) = mset (in_transit s) + mset (carried_by c)"
  using mset_callers_update [OF assms(1), of c] assms(2) by (simp add: in_transit_def)

lemma in_transit_cong:
  "flusher s' = flusher s \<Longrightarrow> callers s' = callers s \<Longrightarrow> in_transit s' = in_transit s"
  by (simp add: in_transit_def)

lemma outer_eq:
  assumes "inner_only m" "m t = (r, t')"
  shows "write_buf t' = write_buf t" "seq t' = seq t" "opts t' = opts t" "flush_requested t' = flush_requested t"
    "flush_in_progress t' = flush_in_progress t" "stopped t' = stopped t"
  using keepsD [OF assms(1), of t] assms(2) by (simp_all add: outer_def)

lemma drain_outer:
  assumes "drain_write_buf t = (Inr pending, t')" "sl_wf (write_buf t)"
  shows "pending = sl_entries (write_buf t)" "sl_wf (write_buf t')" "sl_entries (write_buf t') = []"
    "flush_requested t' = flush_requested t" "flush_in_progress t' = flush_in_progress t" "stopped t' = stopped t"
  using drain_ok [OF assms(2)] assms(1) by auto

lemma drain_flags:
  assumes "drain_write_buf t = (Inr pending, t')"
  shows "flush_requested t' = flush_requested t" "flush_in_progress t' = flush_in_progress t" "stopped t' = stopped t"
  using assms by (auto simp: drain_write_buf_def split: option.splits)

lemma locked_write_sel:
  assumes "locked_write k v del t = Some t'"
  shows "flush_requested t' = flush_requested t" "flush_in_progress t' = flush_in_progress t" "stopped t' = stopped t"
    "sl_wf (write_buf t) \<Longrightarrow> sl_wf (write_buf t')"
    "sl_wf (write_buf t) \<Longrightarrow> sl_entries (write_buf t') = insert_stable entry_less (new_entry k v del t) (sl_entries (write_buf t))"
  using assms skip_buffer.ins_ok [of "write_buf t" "new_entry k v del t"] by (auto simp: locked_write_def)

lemma get_buffered_same: "get_buffered k t = (r, t') \<Longrightarrow> t' = t"
  by (auto simp: get_buffered_def split: option.splits)

lemma notify_one_frame:
  assumes "notify_one s s'"
  shows "store s' = store s" "entered s' = entered s" "handed s' = handed s"
    "mset (in_transit s') = mset (in_transit s)" "busy (flusher s') = busy (flusher s)"
    "request_held (flusher s') t = request_held (flusher s) t"
    "length (callers s') = length (callers s)"
    "callers s ! i = c \<Longrightarrow> wake_caller c = c \<Longrightarrow> callers s' ! i = c"
proof -
  show "mset (in_transit s') = mset (in_transit s)"
    using assms
  proof cases
    case (a_caller i c)
    then show ?thesis using in_transit_caller [of i s "C_wait Checking c"] by simp
  qed (simp_all add: in_transit_def)
  show "callers s ! i = c \<Longrightarrow> wake_caller c = c \<Longrightarrow> callers s' ! i = c"
    using assms by cases (auto simp: nth_list_update)
qed (use assms in \<open>auto elim!: notify_one.cases\<close>)

lemma signals_frame:
  assumes "signals s s'"
  shows "store s' = signal_flush (store s)" "entered s' = entered s" "handed s' = handed s"
    "mset (in_transit s') = mset (in_transit s)" "busy (flusher s') = busy (flusher s)"
    "request_held (flusher s') t = request_held (flusher s) t"
    "length (callers s') = length (callers s)"
    "callers s ! i = c \<Longrightarrow> wake_caller c = c \<Longrightarrow> callers s' ! i = c"
  using assms
  by (cases; use notify_one_frame [of "s\<lparr>store := signal_flush (store s)\<rparr>" s'] in \<open>simp add: signal_flush_def in_transit_def\<close>)+

lemma request_held_mono:
  assumes "request_held p t" "flush_requested t \<Longrightarrow> flush_requested t'" "stopped t \<Longrightarrow> stopped t'"
  shows "request_held p t'"
  using assms by (cases p) auto

lemma flags_okI:
  assumes "flags_ok s" "busy (flusher s') = busy (flusher s)" "request_held (flusher s) (store s') \<Longrightarrow> request_held (flusher s') (store s')"
    and "flush_in_progress (store s') = flush_in_progress (store s)"
    "flush_requested (store s) \<Longrightarrow> flush_requested (store s')" "stopped (store s) \<Longrightarrow> stopped (store s')"
  shows "flags_ok s'"
  using assms request_held_mono [of "flusher s" "store s" "store s'"] by (simp add: flags_ok_def)

lemma flags_ok_flusher: "flags_ok s \<Longrightarrow> flusher_step s s' \<Longrightarrow> flags_ok s'"
proof (erule flusher_step.cases)
  fix s0 pending t
  assume "flags_ok s" "s = s0" "s' = s0\<lparr>store := t, flusher := F_drained pending\<rparr>" "flusher s0 = F_begun"
    "drain_write_buf (store s0) = (Inr pending, t)"
  then show "flags_ok s'" using drain_flags [of "store s0" pending t] by (simp add: flags_ok_def)
next
  fix s0 pending r t
  assume "flags_ok s" "s = s0" "s' = s0\<lparr>store := t, flusher := F_merged, handed := handed s0 @ pending\<rparr>"
    "flusher s0 = F_drained pending" "flush_round FUEL pending (store s0) = (r, t)"
  then show "flags_ok s'" using outer_eq [OF inner_flush_round] by (simp add: flags_ok_def)
qed (auto simp: flags_ok_def)

lemma flags_ok_signals:
  assumes "flags_ok s" "signals s s'"
  shows "flags_ok s'"
  using signals_frame [OF assms(2)] by (intro flags_okI [OF assms(1)]) (simp_all add: signal_flush_def)

lemma flags_ok_set_caller [simp]: "flags_ok (set_caller i c s) = flags_ok s"
  by (simp add: flags_ok_def)

lemma flags_ok_store:
  assumes "flags_ok s" "flush_requested t = flush_requested (store s)"
    "flush_in_progress t = flush_in_progress (store s)" "stopped t = stopped (store s)"
    "flusher s' = flusher s" "store s' = t"
  shows "flags_ok s'"
  using assms by (intro flags_okI [OF assms(1)]) simp_all

lemma flags_ok_caller: "flags_ok s \<Longrightarrow> caller_step i s s' \<Longrightarrow> flags_ok s'"
proof (erule caller_step.cases)
  fix s0 k v del t
  assume "flags_ok s" "s = s0" "locked_write k v del (store s0) = Some t"
    "s' = set_caller i C_signal (s0\<lparr>store := t, entered := entered s0 @ [new_entry k v del (store s0)]\<rparr>)"
  then show "flags_ok s'" using locked_write_sel(1-3) [of k v del "store s0" t] by - (rule flags_ok_store [of s t], simp_all)
next
  fix s0 k r t
  assume "flags_ok s" "s = s0" "get_on_disk FUEL k (store s0) = (Inr r, t)"
    "s' = set_caller i (C_done k r) (s0\<lparr>store := t\<rparr>)"
  then show "flags_ok s'" using outer_eq [OF inner_get_on_disk] by - (rule flags_ok_store [of s t], simp_all)
next
  fix s0 k e t
  assume "flags_ok s" "s = s0" "get_on_disk FUEL k (store s0) = (Inl e, t)" "s' = set_caller i C_idle (s0\<lparr>store := t\<rparr>)"
  then show "flags_ok s'" using outer_eq [OF inner_get_on_disk] by - (rule flags_ok_store [of s t], simp_all)
next
  fix s0 pending t
  assume "flags_ok s" "s = s0" "drain_write_buf (store s0) = (Inr pending, t)"
    "s' = set_caller i (C_persist pending) (s0\<lparr>store := t\<rparr>)"
  then show "flags_ok s'" using drain_flags [of "store s0" pending t] by - (rule flags_ok_store [of s t], simp_all)
next
  fix s0 pending r t
  assume "flags_ok s" "s = s0" "persist_root pending (store s0) = (r, t)"
    "s' = set_caller i C_idle (s0\<lparr>store := t, handed := handed s0 @ pending\<rparr>)"
  then show "flags_ok s'" using outer_eq [OF inner_persist_root] by - (rule flags_ok_store [of s t], simp_all)
qed (auto dest: get_buffered_same flags_ok_signals intro: flags_ok_store)

lemma flags_ok_env: "flags_ok s \<Longrightarrow> env_step s s' \<Longrightarrow> flags_ok s'"
  by (erule env_step.cases) (auto simp: flags_ok_def intro: request_held_mono)

subsection \<open>Conservation\<close>

lemma conservedI:
  assumes "conserved s" "sl_wf (write_buf (store s'))"
    and "mset (entered s') + mset (sl_entries (write_buf (store s))) + mset (in_transit s) + mset (handed s) =
      mset (entered s) + mset (sl_entries (write_buf (store s'))) + mset (in_transit s') + mset (handed s')"
  shows "conserved s'"
proof -
  have "mset (entered s) = mset (sl_entries (write_buf (store s))) + mset (in_transit s) + mset (handed s)"
    using assms(1) by (simp add: conserved_def)
  with assms(3) have "mset (entered s') = mset (sl_entries (write_buf (store s'))) + mset (in_transit s') + mset (handed s')"
    by (metis (no_types, lifting) add.assoc add.commute add_left_cancel)
  with assms(2) show ?thesis by (simp add: conserved_def)
qed

lemma conserved_same:
  assumes "conserved s" "write_buf (store s') = write_buf (store s)" "entered s' = entered s" "handed s' = handed s"
    "mset (in_transit s') = mset (in_transit s)"
  shows "conserved s'"
  using assms by (simp add: conserved_def)

lemma conserved_flusher: "conserved s \<Longrightarrow> flusher_step s s' \<Longrightarrow> conserved s'"
proof (erule flusher_step.cases)
  fix s0 pending t
  assume *: "conserved s" "s = s0" "s' = s0\<lparr>store := t, flusher := F_drained pending\<rparr>" "flusher s0 = F_begun"
    "drain_write_buf (store s0) = (Inr pending, t)"
  then have "sl_wf (write_buf (store s0))" by (simp add: conserved_def)
  from drain_outer [OF *(5) this] * show "conserved s'"
    by (intro conservedI [OF *(1)]) (simp_all add: in_transit_def)
next
  fix s0 pending r t
  assume *: "conserved s" "s = s0" "s' = s0\<lparr>store := t, flusher := F_merged, handed := handed s0 @ pending\<rparr>"
    "flusher s0 = F_drained pending" "flush_round FUEL pending (store s0) = (r, t)"
  then show "conserved s'" using outer_eq(1) [OF inner_flush_round *(5)]
    by (intro conservedI [OF *(1)]) (simp_all add: conserved_def in_transit_def)
qed (auto simp: conserved_def in_transit_def comp_def)

lemma conserved_signals: "conserved s \<Longrightarrow> signals s s' \<Longrightarrow> conserved s'"
  using signals_frame [of s s'] by (auto simp: signal_flush_def intro: conserved_same)

lemma conserved_move:
  assumes "conserved s" "i < length (callers s)" "carried_by (callers s ! i) = []" "carried_by c = []"
  shows "conserved (set_caller i c s)"
  using assms in_transit_caller [OF assms(2,3), of c] by (simp add: conserved_def)

lemma conserved_store:
  "conserved s \<Longrightarrow> write_buf t = write_buf (store s) \<Longrightarrow> conserved (s\<lparr>store := t\<rparr>)"
  by (simp add: conserved_def in_transit_def)

lemma conserved_caller: "conserved s \<Longrightarrow> caller_step i s s' \<Longrightarrow> conserved s'"
proof (erule caller_step.cases)
  fix s0 s1
  assume "conserved s" "s = s0" "at_caller s0 i C_idle" "signals s0 s1" "s' = set_caller i (C_wait Checking Flush_call) s1"
  then show "conserved s'"
    using signals_frame(7) [of s0 s1] signals_frame(8) [of s0 s1 i C_idle] conserved_signals [of s0 s1] by (auto intro: conserved_move)
next
  fix s0 s1
  assume "conserved s" "s = s0" "at_caller s0 i C_signal" "signals s0 s1" "s' = set_caller i C_idle s1"
  then show "conserved s'"
    using signals_frame(7) [of s0 s1] signals_frame(8) [of s0 s1 i C_signal] conserved_signals [of s0 s1] by (auto intro: conserved_move)
next
  fix s0 k v del t
  assume *: "conserved s" "s = s0" "at_caller s0 i (C_write k v del)" "locked_write k v del (store s0) = Some t"
    "s' = set_caller i C_signal (s0\<lparr>store := t, entered := entered s0 @ [new_entry k v del (store s0)]\<rparr>)"
  then have "sl_wf (write_buf (store s0))" by (simp add: conserved_def)
  from locked_write_sel(4,5) [OF *(4) this]
  have "conserved (s0\<lparr>store := t, entered := entered s0 @ [new_entry k v del (store s0)]\<rparr>)"
    using *(1,2) by (intro conservedI [OF *(1)]) (simp_all add: in_transit_def)
  then show "conserved s'" using * by (auto intro: conserved_move)
next
  fix s0 k r t
  assume "conserved s" "s = s0" "at_caller s0 i (C_search k)" "get_on_disk FUEL k (store s0) = (Inr r, t)"
    "s' = set_caller i (C_done k r) (s0\<lparr>store := t\<rparr>)"
  then show "conserved s'" using outer_eq(1) [OF inner_get_on_disk] by (auto intro!: conserved_move conserved_store)
next
  fix s0 k e t
  assume "conserved s" "s = s0" "at_caller s0 i (C_search k)" "get_on_disk FUEL k (store s0) = (Inl e, t)"
    "s' = set_caller i C_idle (s0\<lparr>store := t\<rparr>)"
  then show "conserved s'" using outer_eq(1) [OF inner_get_on_disk] by (auto intro!: conserved_move conserved_store)
next
  fix s0 pending t
  assume *: "conserved s" "s = s0" "at_caller s0 i C_drain" "drain_write_buf (store s0) = (Inr pending, t)"
    "s' = set_caller i (C_persist pending) (s0\<lparr>store := t\<rparr>)"
  then have "sl_wf (write_buf (store s0))" by (simp add: conserved_def)
  from drain_outer [OF *(4) this] * show "conserved s'"
    using in_transit_caller [of i "s0\<lparr>store := t\<rparr>" "C_persist pending"] in_transit_cong [of "s0\<lparr>store := t\<rparr>" s0]
    by (intro conservedI [OF *(1)]) simp_all
next
  fix s0 pending r t
  assume *: "conserved s" "s = s0" "at_caller s0 i (C_persist pending)" "persist_root pending (store s0) = (r, t)"
    "s' = set_caller i C_idle (s0\<lparr>store := t, handed := handed s0 @ pending\<rparr>)"
  have "mset (in_transit s') + mset pending = mset (in_transit s0)"
    using mset_callers_update [of i "callers s0" C_idle] * by (simp add: in_transit_def)
  then show "conserved s'" using outer_eq(1) [OF inner_persist_root *(4)] *
    by (intro conservedI [OF *(1)]) (simp_all add: conserved_def add.assoc [symmetric])
qed (auto dest: get_buffered_same intro!: conserved_move conserved_store)

lemma conserved_env: "conserved s \<Longrightarrow> env_step s s' \<Longrightarrow> conserved s'"
proof (erule env_step.cases)
  fix s0 i c
  assume "conserved s" "s = s0" "s' = set_caller i (C_wait Checking c) s0" "at_caller s0 i (C_wait Asleep c)"
  then show "conserved s'" by (auto intro: conserved_move)
qed (auto simp: conserved_def in_transit_def comp_def)

lemma reachable_inv:
  assumes "reachable t n s" "sl_wf (write_buf t)" "\<not> flush_in_progress t"
  shows "flags_ok s \<and> conserved s"
  using assms(1)
proof induction
  case start
  have "concat (replicate n ([] :: entry list)) = []" by (induction n) simp_all
  with assms(2,3) show ?case by (simp add: sys_init_def flags_ok_def conserved_def in_transit_def)
next
  case (by_flusher s s')
  then show ?case using flags_ok_flusher conserved_flusher by blast
next
  case (by_caller s i s')
  then show ?case using flags_ok_caller conserved_caller by blast
next
  case (by_env s s')
  then show ?case using flags_ok_env conserved_env by blast
qed

subsection \<open>The thread by itself\<close>

lemma round_steps:
  assumes "flusher s = F_wait Checking" "flush_requested (store s)" "\<not> stopped (store s)" "sl_wf (write_buf (store s))"
  shows "\<exists>s'. flusher_step\<^sup>*\<^sup>* s s' \<and> store s' = thread_round FUEL (store s) \<and> flusher s' = F_wait Checking \<and>
    callers s' = map wake_caller (callers s) \<and> entered s' = entered s"
proof -
  let ?t = "(store s)\<lparr>flush_in_progress := True\<rparr>"
  let ?s1 = "s\<lparr>flusher := F_woken\<rparr>" and ?s2 = "s\<lparr>store := ?t, flusher := F_begun\<rparr>"
  from drain_ok [of ?t] assms(4) obtain pending t3 where d: "drain_write_buf ?t = (Inr pending, t3)" by auto
  let ?s3 = "s\<lparr>store := t3, flusher := F_drained pending\<rparr>"
  obtain r t4 where m: "flush_round FUEL pending t3 = (r, t4)" by fastforce
  let ?s4 = "s\<lparr>store := t4, flusher := F_merged, handed := handed s @ pending\<rparr>"
  let ?s5 = "?s4\<lparr>store := t4\<lparr>flush_requested := False\<rparr>, flusher := F_cleared\<rparr>"
  let ?s6 = "notify_all (?s5\<lparr>store := t4\<lparr>flush_requested := False, flush_in_progress := False\<rparr>, flusher := F_wait Checking\<rparr>)"
  have "flusher_step s ?s1" using wake [of s] assms by simp
  moreover have "flusher_step ?s1 ?s2" using begin_round [of ?s1] assms(3) by simp
  moreover have "flusher_step ?s2 ?s3" using drain [of ?s2 pending t3] d by simp
  moreover have "flusher_step ?s3 ?s4" using merge [of ?s3 pending r t4] m by simp
  moreover have "flusher_step ?s4 ?s5" using clear_request [of ?s4] by simp
  moreover have "flusher_step ?s5 ?s6" using finish [of ?s5] by simp
  ultimately have "flusher_step\<^sup>*\<^sup>* s ?s6" by (meson converse_rtranclp_into_rtranclp rtranclp.rtrancl_refl)
  moreover have "thread_round FUEL (store s) = t4\<lparr>flush_requested := False, flush_in_progress := False\<rparr>"
    using d m by (simp add: thread_round_def bind_def)
  ultimately show ?thesis by (intro exI [of _ ?s6]) simp
qed

lemma reachable_flusher: "flusher_step\<^sup>*\<^sup>* s s' \<Longrightarrow> reachable t n s \<Longrightarrow> reachable t n s'"
  by (induction rule: rtranclp_induct) (auto intro: by_flusher)

end
