(* ===== verification/Thread_Races.thy ===== *)
theory Thread_Races
  imports Flush_Thread
begin

text \<open>
  What the interleavings of \<open>Flush_Thread\<close> guarantee and what they do not: the flags and the entries
  in flight are always accounted for and the thread finishes every round it begins, but an entry
  between the two locks is invisible, a notification can be missed, and a \<^verbatim>\<open>flush\<close> that overlaps a
  round can put an old version on top of a newer one.
\<close>

subsection \<open>Runs of a single caller\<close>

text \<open>Nobody is asleep, so a notification changes nothing.\<close>

definition awake :: "sys \<Rightarrow> bool" where
  "awake s \<longleftrightarrow> flusher s \<noteq> F_wait Asleep \<and> (\<forall>c\<in>set (callers s). wake_caller c = c)"

lemma signal_flush_again: "flush_requested t \<Longrightarrow> signal_flush t = t"
  by (cases t) (simp add: signal_flush_def)

lemma awake_signals: "awake s \<Longrightarrow> signals s (s\<lparr>store := signal_flush (store s)\<rparr>)"
  using notify_one.nobody [of "s\<lparr>store := signal_flush (store s)\<rparr>"] signals.first [of s] signals.already [of s]
  by (cases "flush_requested (store s)") (simp_all add: awake_def signal_flush_again)

lemma set_caller_twice [simp]: "set_caller i c (set_caller i d s) = set_caller i c s"
  by (simp add: set_caller_def)

lemma set_caller_store [simp]: "(set_caller i c s)\<lparr>store := t\<rparr> = set_caller i c (s\<lparr>store := t\<rparr>)"
  by (simp add: set_caller_def)

lemma set_caller_entered [simp]: "(set_caller i c s)\<lparr>entered := es\<rparr> = set_caller i c (s\<lparr>entered := es\<rparr>)"
  by (simp add: set_caller_def)

lemma set_caller_same: "at_caller s i c \<Longrightarrow> set_caller i c s = s"
  by (auto simp: set_caller_def list_update_same_conv)

lemma awake_set_caller: "awake s \<Longrightarrow> wake_caller c = c \<Longrightarrow> awake (set_caller i c s)"
  by (auto simp: awake_def dest!: set_update_subset_insert [THEN subsetD])

lemma awake_store [simp]: "awake (s\<lparr>store := t\<rparr>) = awake s" "awake (s\<lparr>entered := es\<rparr>) = awake s"
  by (simp_all add: awake_def)

text \<open>A write that is not interrupted has the effect of \<open>buffer_write\<close>.\<close>

lemma write_reach:
  assumes r: "reachable t n s" and i: "at_caller s i C_idle" and w: "awake s" "flush_complete (store s)" "sl_wf (write_buf (store s))"
  shows "\<exists>s' t'. reachable t n s' \<and> buffer_write k v del (store s) = (Inr (), t') \<and>
    s' = s\<lparr>store := t', entered := entered s @ [new_entry k v del (store s)]\<rparr>"
proof -
  let ?e = "new_entry k v del (store s)"
  from skip_buffer.ins_ok [OF w(3), of ?e] obtain t1 where t1: "locked_write k v del (store s) = Some t1"
    by (auto simp: locked_write_def)
  let ?s1 = "set_caller i (C_write k v del) s"
  have "reachable t n ?s1"
  proof (cases "sl_bytes (write_buf (store s)) \<ge> hard_limit (store s)")
    case True
    with i start_write [of i s k v del] have "reachable t n (set_caller i (C_wait Checking (Write_call k v del)) s)"
      by (auto intro: by_caller [OF r])
    from by_caller [OF this wait_over [of i _ "Write_call k v del"]] i w(2) show ?thesis by simp
  next
    case False
    with i start_write [of i s k v del] show ?thesis by (auto intro: by_caller [OF r])
  qed
  from by_caller [OF this put [of i _ k v del t1]] i t1
  have r2: "reachable t n (set_caller i C_signal (s\<lparr>store := t1, entered := entered s @ [?e]\<rparr>))" by simp
  let ?s2 = "set_caller i C_signal (s\<lparr>store := t1, entered := entered s @ [?e]\<rparr>)"
  have a2: "awake ?s2" using w(1) by (intro awake_set_caller) simp_all
  have idle: "set_caller i C_idle (s\<lparr>store := x, entered := es\<rparr>) = s\<lparr>store := x, entered := es\<rparr>" for x es
    using i by (intro set_caller_same) simp
  have swap: "s\<lparr>entered := es, store := x\<rparr> = s\<lparr>store := x, entered := es\<rparr>" for x es by simp
  show ?thesis
  proof (cases "sl_bytes (write_buf t1) \<ge> buffer_threshold (opts t1)")
    case True
    with by_caller [OF r2 signal_full [of i, OF _ _ awake_signals [OF a2]]] i
    have "reachable t n (s\<lparr>store := signal_flush t1, entered := entered s @ [?e]\<rparr>)" by (simp add: idle swap)
    with True t1 show ?thesis by (auto simp: buffer_write_locked)
  next
    case False
    with by_caller [OF r2 signal_not [of i]] i
    have "reachable t n (s\<lparr>store := t1, entered := entered s @ [?e]\<rparr>)" by (simp add: idle swap)
    with False t1 show ?thesis by (auto simp: buffer_write_locked)
  qed
qed

text \<open>A \<^verbatim>\<open>flush\<close> up to the point where it holds the drained entries.\<close>

lemma flush_reach:
  assumes r: "reachable t n s" and i: "at_caller s i C_idle" and w: "awake s" "flush_complete (store s)"
  shows "reachable t n (set_caller i C_drain (s\<lparr>store := signal_flush (store s)\<rparr>))"
proof -
  from by_caller [OF r start_flush [OF i awake_signals [OF w(1)]]]
  have "reachable t n (set_caller i (C_wait Checking Flush_call) (s\<lparr>store := signal_flush (store s)\<rparr>))" .
  from by_caller [OF this wait_over [of i _ Flush_call]] i w(2)
  show ?thesis by (simp add: flush_complete_def signal_flush_def)
qed

text \<open>The store with its buffer emptied, as the other threads find it while its entries are carried.\<close>

lemma gt_inv_emptied:
  assumes inv: "gt_inv l t" and t': "cache t' = cache t" "t_manifest t' = t_manifest t" "tdisk t' = tdisk t"
    "opts t' = opts t" "seq t' = seq t" "sl_wf (write_buf t')" "sl_entries (write_buf t') = []"
  shows "gt_inv l t'"
proof -
  note D = gt_invD [OF inv]
  have v: "node_view t' = node_view t" using t' by (intro node_view_cong) simp_all
  have "store_ok t'" using D(2) t' by (simp add: store_ok_def)
  moreover have "tree_inv t'" using D(1) t' v store_ok_std [OF \<open>store_ok t'\<close>] by (auto simp: tree_inv_def fresh_seq_def)
  ultimately show ?thesis using D(3,5,7,8) t' v by (simp add: gt_inv_def newer_than_def)
qed

lemma disk_get_contents:
  assumes "tree_inv t" "sl_entries (write_buf t) = []"
  shows "disk_get FUEL (node_view t) (root_id (t_manifest t)) k = Inr (contents t k)"
proof -
  have "\<exists>r. view_get FUEL [] (node_view t) (root_id (t_manifest t)) k = Inr r"
    using assms(1) by (intro view_get_total) (auto simp: tree_inv_def)
  then show ?thesis using assms(2) by (auto simp: contents_def view_get_def)
qed

lemma buffer_write_flags:
  assumes "buffer_write k v del t = (Inr (), t')"
  shows "flush_in_progress t' = flush_in_progress t" "stopped t' = stopped t" "flush_requested t \<Longrightarrow> flush_requested t'"
  using assms locked_write_sel(1-3) [of k v del t]
  by (auto simp: buffer_write_locked signal_flush_def split: option.splits if_splits)

lemma tree_open_flags:
  assumes "tree_open os d = (Inr (), t)"
  shows "\<not> flush_requested t" "\<not> flush_in_progress t" "\<not> stopped t"
proof -
  have m: "inner_only (bind alloc_id (\<lambda>rid. bind (create_in rid 0 [] []) (\<lambda>root.
        bind (on_manifest (\<lambda>m. set_root rid (register_node rid 0 (file_path root) m))) (\<lambda>_.
        bind save_manifest (\<lambda>_.
        bind (modify (\<lambda>t. t\<lparr>root_buf_bytes := 0\<rparr>)) (\<lambda>_. put_node rid root))))))"
    by (intro keeps_intros)
  have "outer t = outer t0" if "ensure_root t0 = (Inr (), t)" for t0
    using that keepsD [OF m, of t0]
    by (auto simp: ensure_root_def outer_def split: if_splits sum.splits)
  then show "\<not> flush_requested t" "\<not> flush_in_progress t" "\<not> stopped t"
    using assms by (auto simp: tree_open_def Let_def new_tree_def outer_def split: sum.splits)
qed

lemma drain_signalled:
  assumes "sl_wf (write_buf t)"
  obtains t' where "drain_write_buf (signal_flush t) = (Inr (sl_entries (write_buf t)), t')" "cache t' = cache t"
    "t_manifest t' = t_manifest t" "tdisk t' = tdisk t" "opts t' = opts t" "seq t' = seq t" "sl_wf (write_buf t')"
    "sl_entries (write_buf t') = []" "flush_requested t'" "flush_in_progress t' = flush_in_progress t" "stopped t' = stopped t"
  using drain_ok [of "signal_flush t"] assms that by (auto simp: signal_flush_def)

text \<open>A fresh store with two callers after the first one has inserted, and the thread up to its drain.\<close>

lemma first_insert_reach:
  fixes v :: bytes
  assumes "files d (data_dir os @ lit ''/manifest'') = None" "\<forall>p. openable d p" "k \<noteq> []" "0 < c"
  defines "e \<equiv> \<lparr>key = k, val = v, seq_no = 1, deleted = False\<rparr> :: entry"
  shows "\<exists>t n t1 s. tree_open os d = (Inr (), t) \<and> gt_inv 0 t \<and> contents t = Map.empty \<and>
    sl_entries (write_buf t) = [] \<and> node_view t (root_id (t_manifest t)) = Inr n \<and> buffer n = [] \<and>
    num_children n = 0 \<and> next_id (t_manifest t) = 2 \<and>
    reachable t c s \<and> s = (sys_init t c)\<lparr>store := t1, entered := [e]\<rparr> \<and> awake s \<and>
    gt_inv 0 t1 \<and> sl_entries (write_buf t1) = [e] \<and> seq t1 = 2 \<and> node_view t1 = node_view t \<and>
    t_manifest t1 = t_manifest t \<and> \<not> flush_in_progress t1 \<and> \<not> stopped t1"
proof -
  from gt_inv_open [OF assms(1,2)] obtain t n where t: "tree_open os d = (Inr (), t)" "gt_inv 0 t"
    "contents t = Map.empty" "seq t = 1" "sl_entries (write_buf t) = []" "node_view t (root_id (t_manifest t)) = Inr n"
    "buffer n = []" "num_children n = 0" "next_id (t_manifest t) = 2" by blast
  have wf: "sl_wf (write_buf t)" using gt_invD(1) [OF t(2)] by (simp add: tree_inv_def)
  let ?s0 = "sys_init t c"
  have i0: "at_caller ?s0 0 C_idle" "awake ?s0" "flush_complete (store ?s0)" "sl_wf (write_buf (store ?s0))"
    using wf tree_open_flags [OF t(1)] assms(4) by (simp_all add: sys_init_def awake_def flush_complete_def)
  from write_reach [OF reachable.start i0, of k v False] t(4,5) obtain t1 where
    t1: "buffer_write k v False t = (Inr (), t1)" "reachable t c (?s0\<lparr>store := t1, entered := [e]\<rparr>)"
    by (auto simp: sys_init_def new_entry_def e_def)
  from buffer_write_ok [OF wf, of k v False] t1(1) t(4,5) have w1: "t_manifest t1 = t_manifest t"
    "tdisk t1 = tdisk t" "cache t1 = cache t" "sl_entries (write_buf t1) = [e]" "seq t1 = 2" by (auto simp: e_def)
  moreover have "gt_inv 0 t1" using gt_inv_write [OF t(2) assms(3), of v False] t(4) t1(1) by auto
  moreover have "node_view t1 = node_view t" using w1 by (intro node_view_cong) simp_all
  moreover have "\<not> flush_in_progress t1" "\<not> stopped t1"
    using buffer_write_flags [OF t1(1)] tree_open_flags [OF t(1)] by simp_all
  moreover have "awake (?s0\<lparr>store := t1, entered := [e]\<rparr>)" using i0(2) by (simp add: awake_def)
  ultimately show ?thesis using t t1(2) by blast
qed

text \<open>One step of the flush thread or of a caller, and sequences of them.\<close>

definition sys_step :: "sys \<Rightarrow> sys \<Rightarrow> bool" where
  "sys_step s s' \<longleftrightarrow> flusher_step s s' \<or> (\<exists>i. caller_step i s s')"

lemma step_caller: "caller_step i s s' \<Longrightarrow> sys_step s s'"
  by (auto simp: sys_step_def)

lemma steps_flusher: "flusher_step\<^sup>*\<^sup>* s s' \<Longrightarrow> sys_step\<^sup>*\<^sup>* s s'"
  by (erule rtranclp_mono [THEN predicate2D, rotated]) (auto simp: sys_step_def)

lemma thread_drain_steps:
  assumes s: "flusher s = F_wait Checking" "flush_requested (store s)" "\<not> stopped (store s)" "sl_wf (write_buf (store s))"
  shows "\<exists>sl. sl_wf sl \<and> sl_entries sl = [] \<and> sys_step\<^sup>*\<^sup>* s (s\<lparr>store := (store s)\<lparr>flush_in_progress := True, write_buf := sl\<rparr>,
    flusher := F_drained (sl_entries (write_buf (store s)))\<rparr>)"
proof -
  let ?t = "(store s)\<lparr>flush_in_progress := True\<rparr>"
  from drain_ok [of ?t] s(4) obtain sl where sl: "drain_write_buf ?t = (Inr (sl_entries (write_buf (store s))), ?t\<lparr>write_buf := sl\<rparr>)"
    "sl_wf sl" "sl_entries sl = []" by auto
  have "flusher_step s (s\<lparr>flusher := F_woken\<rparr>)" using wake [of s] s by simp
  moreover have "flusher_step (s\<lparr>flusher := F_woken\<rparr>) (s\<lparr>store := ?t, flusher := F_begun\<rparr>)"
    using begin_round [of "s\<lparr>flusher := F_woken\<rparr>"] s(3) by simp
  moreover have "flusher_step (s\<lparr>store := ?t, flusher := F_begun\<rparr>)
      (s\<lparr>store := ?t\<lparr>write_buf := sl\<rparr>, flusher := F_drained (sl_entries (write_buf (store s)))\<rparr>)"
    using drain [of "s\<lparr>store := ?t, flusher := F_begun\<rparr>"] sl(1) by simp
  ultimately have "flusher_step\<^sup>*\<^sup>* s (s\<lparr>store := ?t\<lparr>write_buf := sl\<rparr>, flusher := F_drained (sl_entries (write_buf (store s)))\<rparr>)"
    by (meson converse_rtranclp_into_rtranclp rtranclp.rtrancl_refl)
  from steps_flusher [OF this] sl(2,3) show ?thesis by auto
qed

text \<open>
  A caller of \<^verbatim>\<open>flush\<close> past its wait is overtaken by the thread: it finds nothing to persist and returns, and
  the entries are with the thread.
\<close>

lemma overtaken_flush:
  assumes s: "callers s = [C_wait Checking Flush_call]" "flusher s = F_wait Checking" "store s = signal_flush t"
    and t: "gt_inv l t" "\<not> flush_in_progress t" "\<not> stopped t"
  shows "\<exists>s'. sys_step\<^sup>*\<^sup>* s s' \<and> callers s' = [C_idle] \<and> entered s' = entered s \<and> gt_inv l (store s') \<and>
    sl_entries (write_buf (store s')) = [] \<and>
    disk_get FUEL (node_view (store s')) (root_id (t_manifest (store s'))) k = disk_get FUEL (node_view t) (root_id (t_manifest t)) k"
proof -
  have wf: "sl_wf (write_buf t)" using gt_invD(1) [OF t(1)] by (simp add: tree_inv_def)
  let ?s1 = "set_caller 0 C_drain s"
  have "sys_step s ?s1"
    using step_caller [OF wait_over [of 0 s Flush_call]] s t(2) by (simp add: flush_complete_def signal_flush_def)
  moreover from thread_drain_steps [of ?s1] s t(3) wf obtain sl where sl: "sl_wf sl" "sl_entries sl = []"
    and run: "sys_step\<^sup>*\<^sup>* ?s1 (?s1\<lparr>store := (signal_flush t)\<lparr>flush_in_progress := True, write_buf := sl\<rparr>,
      flusher := F_drained (sl_entries (write_buf t))\<rparr>)" by (auto simp: signal_flush_def)
  let ?t2 = "(signal_flush t)\<lparr>flush_in_progress := True, write_buf := sl\<rparr>"
  let ?s2 = "?s1\<lparr>store := ?t2, flusher := F_drained (sl_entries (write_buf t))\<rparr>"
  have inv2: "gt_inv l ?t2" by (rule gt_inv_emptied [OF t(1)]) (simp_all add: signal_flush_def sl)
  from gt_inv_flush [OF inv2] obtain t4 where t4: "tree_flush ?t2 = (Inr (), t4)" "gt_inv l t4" "contents t4 = contents ?t2"
    "sl_entries (write_buf t4) = []" by blast
  from drain_ok [of ?t2] sl obtain t3 where t3: "drain_write_buf ?t2 = (Inr [], t3)" by auto
  with t4(1) have p: "persist_root [] t3 = (Inr (), t4)" by (simp add: tree_flush_def bind_Inr)
  let ?s3 = "set_caller 0 (C_persist []) (?s2\<lparr>store := t3\<rparr>)" and ?s4 = "set_caller 0 C_idle (?s2\<lparr>store := t4\<rparr>)"
  have "sys_step ?s2 ?s3" using step_caller [OF drain_call [of 0 ?s2 "[]" t3]] s(1) t3 by (simp add: set_caller_def)
  moreover have "sys_step ?s3 ?s4" using step_caller [OF persist_call [of 0 ?s3 "[]" "Inr ()" t4]] s(1) p by (simp add: set_caller_def)
  ultimately have "sys_step\<^sup>*\<^sup>* s ?s4" using run by (meson converse_rtranclp_into_rtranclp rtranclp.rtrancl_into_rtrancl)
  moreover have "node_view ?t2 = node_view t" by (intro node_view_cong) (simp_all add: signal_flush_def)
  then have "disk_get FUEL (node_view t4) (root_id (t_manifest t4)) k = disk_get FUEL (node_view t) (root_id (t_manifest t)) k"
    using disk_get_contents [OF gt_invD(1) [OF t4(2)] t4(4), of k] disk_get_contents [OF gt_invD(1) [OF inv2], of k] t4(3) sl(2)
    by (simp add: signal_flush_def)
  ultimately show ?thesis using s(1) t4(2,4) by (intro exI [of _ ?s4]) (simp add: set_caller_def)
qed

text \<open>A \<^verbatim>\<open>get\<close> of a key that is neither in the buffer nor in the tree.\<close>

lemma absent_get:
  assumes "callers s = [C_idle]" "sl_wf (write_buf (store s))" "sl_entries (write_buf (store s)) = []"
    and "disk_get FUEL (node_view (store s)) (root_id (t_manifest (store s))) k = Inr None"
  shows "\<exists>s'. sys_step\<^sup>*\<^sup>* s s' \<and> callers s' = [C_done k None] \<and> entered s' = entered s"
proof -
  have "get_buffered k (store s) = (Inr None, store s)"
    using skip_buffer.look_newest [OF assms(2), of k] assms(3) by (simp add: get_buffered_def)
  from step_caller [OF get_miss [of 0 s k "store s", OF _ this]] assms(1) have 1: "sys_step s (set_caller 0 (C_search k) s)" by simp
  obtain t where "get_on_disk FUEL k (store s) = (Inr None, t)" using get_on_disk_view [of FUEL k "store s"] assms(4) by auto
  with step_caller [OF search [of 0 "set_caller 0 (C_search k) s" k None t]] assms(1)
  have "sys_step (set_caller 0 (C_search k) s) (set_caller 0 (C_done k None) (s\<lparr>store := t\<rparr>))" by simp
  with 1 have "sys_step\<^sup>*\<^sup>* s (set_caller 0 (C_done k None) (s\<lparr>store := t\<rparr>))"
    by (meson converse_rtranclp_into_rtranclp rtranclp.rtrancl_refl)
  then show ?thesis using assms(1) by (intro exI [of _ "set_caller 0 (C_done k None) (s\<lparr>store := t\<rparr>)"]) (simp add: set_caller_def)
qed

text \<open>Two further writes by an idle caller.\<close>

lemma two_inserts_reach:
  fixes s v w
  assumes r: "reachable t n s" and i: "at_caller s i C_idle" "awake s" "\<not> flush_in_progress (store s)"
    and inv: "gt_inv l (store s)" "sl_entries (write_buf (store s)) = []" "seq (store s) = 2" and kj: "k \<noteq> []" "j \<noteq> []"
  defines "e \<equiv> \<lparr>key = k, val = v, seq_no = 2, deleted = False\<rparr> :: entry"
    and "f \<equiv> \<lparr>key = j, val = w, seq_no = 3, deleted = False\<rparr> :: entry"
  shows "\<exists>t'. reachable t n (s\<lparr>store := t', entered := entered s @ [e, f]\<rparr>) \<and> gt_inv l t' \<and>
    sl_entries (write_buf t') = insert_stable entry_less f [e] \<and> node_view t' = node_view (store s) \<and>
    t_manifest t' = t_manifest (store s) \<and> \<not> flush_in_progress t' \<and> stopped t' = stopped (store s) \<and>
    (flush_requested (store s) \<longrightarrow> flush_requested t')"
proof -
  have wf: "sl_wf (write_buf (store s))" using gt_invD(1) [OF inv(1)] by (simp add: tree_inv_def)
  have "flush_complete (store s)" using i(3) by (simp add: flush_complete_def)
  from write_reach [OF r i(1,2) this wf, of k v False] inv(3) obtain t1 where
    t1: "buffer_write k v False (store s) = (Inr (), t1)" "reachable t n (s\<lparr>store := t1, entered := entered s @ [e]\<rparr>)"
    by (auto simp: new_entry_def e_def)
  let ?s1 = "s\<lparr>store := t1, entered := entered s @ [e]\<rparr>"
  from buffer_write_ok [OF wf, of k v False] t1(1) inv(2,3) have w1: "sl_wf (write_buf t1)" "sl_entries (write_buf t1) = [e]"
    "seq t1 = 3" "t_manifest t1 = t_manifest (store s)" "tdisk t1 = tdisk (store s)" "cache t1 = cache (store s)"
    by (auto simp: e_def)
  note f1 = buffer_write_flags [OF t1(1)]
  have s1: "at_caller ?s1 i C_idle" "awake ?s1" "flush_complete (store ?s1)" "sl_wf (write_buf (store ?s1))"
    using i f1 w1(1) by (simp_all add: flush_complete_def awake_def)
  from write_reach [OF t1(2) s1, of j w False] w1(3) obtain t2 where
    t2: "buffer_write j w False t1 = (Inr (), t2)" "reachable t n (?s1\<lparr>store := t2, entered := entered s @ [e, f]\<rparr>)"
    by (auto simp: new_entry_def f_def)
  from buffer_write_ok [OF w1(1), of j w False] t2(1) w1 have w2: "sl_entries (write_buf t2) = insert_stable entry_less f [e]"
    "t_manifest t2 = t_manifest (store s)" "tdisk t2 = tdisk (store s)" "cache t2 = cache (store s)"
    by (auto simp: f_def)
  note f2 = buffer_write_flags [OF t2(1)]
  have "gt_inv l t1" using gt_inv_write [OF inv(1) kj(1), of v False] inv(3) t1(1) by auto
  from gt_inv_write [OF this kj(2), of w False] w1(3) t2(1) have "gt_inv l t2" by auto
  moreover have "node_view t2 = node_view (store s)" using w2 by (intro node_view_cong) simp_all
  ultimately show ?thesis using t2(2) w2 f1 f2 i(3) by (intro exI [of _ t2]) simp
qed

text \<open>Entries put into an empty root answer before anything below it.\<close>

lemma persist_answers:
  assumes inv: "gt_inv l t" "sl_entries (write_buf t) = []"
    and n: "node_view t (root_id (t_manifest t)) = Inr n" "buffer n = []" and f: "newest k es = Some f"
    and run: "persist_root es t = (r, t')"
  shows "fst (tree_get FUEL k t') = Inr (visible f)"
proof -
  note T = gt_invD(1) [OF inv(1), unfolded tree_inv_def]
  from T n(1) have id: "nid n = root_id (t_manifest t)" "std_paths t" by auto
  from persist_root_ok [OF n(1) id, of es] run obtain n' where
    t': "node_view t' = (node_view t)(root_id (t_manifest t) := Inr n')" "root_holds n es n'"
      "root_id (t_manifest t') = root_id (t_manifest t)" "write_buf t' = write_buf t" by auto
  have "disk_get FUEL (node_view t') (root_id (t_manifest t')) k = Inr (visible f)"
    unfolding t'(1,3) using root_answers [of "node_view t" "root_id (t_manifest t)" n es n' k f] n(1) t'(2) T n(2) f by simp
  moreover have "sl_wf (write_buf t')" using T t'(4) by simp
  ultimately show ?thesis
    using tree_get_view [of t' FUEL k] inv(2) t'(4) by (auto simp: view_get_def)
qed

text \<open>The caller of \<^verbatim>\<open>flush\<close> holds the drained entry, the second caller is idle.\<close>

lemma held_flush_reach:
  fixes v :: bytes
  assumes "files d (data_dir os @ lit ''/manifest'') = None" "\<forall>p. openable d p" "k \<noteq> []"
  defines "e \<equiv> \<lparr>key = k, val = v, seq_no = 1, deleted = False\<rparr> :: entry"
  shows "\<exists>t n s. tree_open os d = (Inr (), t) \<and> node_view t (root_id (t_manifest t)) = Inr n \<and> buffer n = [] \<and>
    num_children n = 0 \<and> next_id (t_manifest t) = 2 \<and> reachable t 2 s \<and> flusher s = F_wait Checking \<and>
    callers s = [C_persist [e], C_idle] \<and> entered s = [e] \<and> gt_inv 0 (store s) \<and> sl_entries (write_buf (store s)) = [] \<and>
    seq (store s) = 2 \<and> node_view (store s) = node_view t \<and> t_manifest (store s) = t_manifest t \<and>
    flush_requested (store s) \<and> \<not> flush_in_progress (store s) \<and> \<not> stopped (store s)"
proof -
  from first_insert_reach [OF assms(1-3), of 2 v] obtain t n t1 s1 where t: "tree_open os d = (Inr (), t)"
      "node_view t (root_id (t_manifest t)) = Inr n" "buffer n = []" "num_children n = 0" "next_id (t_manifest t) = 2"
    and s1: "reachable t 2 s1" "s1 = (sys_init t 2)\<lparr>store := t1, entered := [e]\<rparr>" "awake s1"
    and t1: "gt_inv 0 t1" "sl_entries (write_buf t1) = [e]" "seq t1 = 2" "node_view t1 = node_view t"
      "t_manifest t1 = t_manifest t" "\<not> flush_in_progress t1" "\<not> stopped t1"
    unfolding e_def by auto
  have "sl_wf (write_buf t1)" using gt_invD(1) [OF t1(1)] by (simp add: tree_inv_def)
  from drain_signalled [OF this] obtain t3 where
    t3: "drain_write_buf (signal_flush t1) = (Inr [e], t3)" "cache t3 = cache t1" "t_manifest t3 = t_manifest t"
      "tdisk t3 = tdisk t1" "opts t3 = opts t1" "seq t3 = 2" "sl_wf (write_buf t3)"
      "sl_entries (write_buf t3) = []" "flush_requested t3" "\<not> flush_in_progress t3" "\<not> stopped t3"
    using t1(2,3,5-7) by metis
  have "reachable t 2 (set_caller 0 C_drain (s1\<lparr>store := signal_flush t1\<rparr>))"
    using flush_reach [OF s1(1), of 0] s1(2,3) t1(6) by (simp add: flush_complete_def sys_init_def)
  from by_caller [OF this drain_call [of 0 _ "[e]" t3]] s1(2) t3(1)
  have "reachable t 2 (set_caller 0 (C_persist [e]) (s1\<lparr>store := t3\<rparr>))" by (simp add: sys_init_def)
  moreover have "gt_inv 0 t3" using gt_inv_emptied [OF t1(1)] t3 t1(3,5) by simp
  moreover have "node_view t3 = node_view t" unfolding t1(4) [symmetric] using t3 t1(5) by (intro node_view_cong) simp_all
  ultimately show ?thesis
    using t t3 s1(2) by (intro exI [of _ t] exI [of _ n] exI [of _ "set_caller 0 (C_persist [e]) (s1\<lparr>store := t3\<rparr>)"])
      (simp add: sys_init_def numeral_2_eq_2)
qed

subsection \<open>Properties\<close>

text \<open>
  C15. The flags of the flush thread tell the truth in every reachable state: \<^verbatim>\<open>flush_in_progress_\<close> is
  set exactly while the thread is inside a round, and from the wake-up to the merge the request that
  woke it (or the shutdown) is still up.
\<close>

theorem flush_flags_truthful:
  assumes "reachable t n s" and "sl_wf (write_buf t)" and "\<not> flush_in_progress t"
  shows "(flush_in_progress (store s) \<longleftrightarrow> busy (flusher s)) \<and> request_held (flusher s) (store s)"
  using reachable_inv [OF assms] by (simp add: flags_ok_def)

theorem flush_flags_truthful_witness:
  "\<exists>s. reachable (signal_flush (new_tree demo_options demo_disk)) 1 s \<and> flusher s = F_begun \<and>
     flush_in_progress (store s) \<and> flush_requested (store s)"
proof -
  let ?t = "signal_flush (new_tree demo_options demo_disk)"
  let ?s1 = "(sys_init ?t 1)\<lparr>flusher := F_woken\<rparr>" and ?s2 = "(sys_init ?t 1)\<lparr>store := ?t\<lparr>flush_in_progress := True\<rparr>, flusher := F_begun\<rparr>"
  have t: "sl_wf (write_buf ?t)" "\<not> flush_in_progress ?t" "flush_requested ?t" "\<not> stopped ?t"
    using skip_buffer.inv_fresh by (simp_all add: new_tree_def signal_flush_def)
  have "flusher_step (sys_init ?t 1) ?s1" using wake [of "sys_init ?t 1"] t(3) by (simp add: sys_init_def)
  from by_flusher [OF reachable.start this] have "reachable ?t 1 ?s1" .
  moreover have "flusher_step ?s1 ?s2" using begin_round [of ?s1] t(4) by (simp add: sys_init_def)
  ultimately have r: "reachable ?t 1 ?s2" by (rule by_flusher)
  from flush_flags_truthful [OF r t(1,2)] r show ?thesis by (intro exI [of _ ?s2]) simp
qed

text \<open>
  C8. No entry is lost or duplicated between the locks. In every reachable state, whatever the
  interleaving of writers, \<^verbatim>\<open>flush\<close> calls, rounds and shutdown and whatever the merges throw, the
  entries written so far are, as a multiset, those in the write buffer, those some thread has drained
  and carries, and those handed to a merge into the root.
\<close>

theorem no_entry_lost:
  assumes "reachable t n s" and "sl_wf (write_buf t)" and "\<not> flush_in_progress t"
  shows "mset (entered s) = mset (sl_entries (write_buf (store s))) + mset (carried (flusher s)) +
    mset (concat (map carried_by (callers s))) + mset (handed s)"
  using reachable_inv [OF assms] by (simp add: conserved_def in_transit_def add.assoc)

theorem no_entry_lost_witness:
  "\<exists>s. reachable (new_tree demo_options demo_disk) 1 s \<and>
     entered s = [new_entry [5] [6] False (new_tree demo_options demo_disk)] \<and>
     mset (entered s) = mset (sl_entries (write_buf (store s)))"
proof -
  let ?t = "new_tree demo_options demo_disk"
  let ?s = "sys_init ?t 1"
  have t: "sl_wf (write_buf ?t)" "\<not> flush_in_progress ?t" "sl_entries (write_buf ?t) = []"
    using skip_buffer.inv_fresh by (simp_all add: new_tree_def)
  have s: "at_caller ?s 0 C_idle" "awake ?s" "flush_complete (store ?s)" "sl_wf (write_buf (store ?s))"
    using t by (simp_all add: sys_init_def awake_def flush_complete_def)
  from write_reach [OF reachable.start s, of "[5]" "[6]" False] obtain t' where
    r: "reachable ?t 1 (?s\<lparr>store := t', entered := entered ?s @ [new_entry [5] [6] False (store ?s)]\<rparr>)" by blast
  from no_entry_lost [OF r t(1,2)] r t(3) show ?thesis
    by (intro exI [of _ "?s\<lparr>store := t', entered := entered ?s @ [new_entry [5] [6] False (store ?s)]\<rparr>"])
       (simp add: sys_init_def)
qed

text \<open>
  C16. A round that is requested completes: from the evaluation of its wait condition the flush thread
  comes back to it by its own steps, whatever the merge does, with the store as \<open>thread_round\<close> leaves
  it, both flags down and every sleeping caller awake.
\<close>

theorem requested_round_completes:
  assumes "flusher s = F_wait Checking" and "flush_requested (store s)" and "\<not> stopped (store s)"
    and "sl_wf (write_buf (store s))"
  shows "\<exists>s'. flusher_step\<^sup>*\<^sup>* s s' \<and> flusher s' = F_wait Checking \<and> store s' = thread_round FUEL (store s) \<and>
    \<not> flush_requested (store s') \<and> \<not> flush_in_progress (store s') \<and> (\<forall>c\<in>set (callers s'). wake_caller c = c)"
proof -
  have "wake_caller (wake_caller c) = wake_caller c" for c by (cases c rule: wake_caller.cases) simp_all
  with round_steps [OF assms] show ?thesis by (fastforce simp: thread_round_def)
qed

theorem requested_round_completes_witness:
  "\<exists>s'. flusher_step\<^sup>*\<^sup>* (sys_init (signal_flush (new_tree demo_options demo_disk)) 1) s' \<and>
     \<not> flush_requested (store s')"
  using requested_round_completes [of "sys_init (signal_flush (new_tree demo_options demo_disk)) 1"] skip_buffer.inv_fresh
  by (auto simp: sys_init_def signal_flush_def new_tree_def)

text \<open>
  C31. A wake-up can be lost. \<^verbatim>\<open>signal_flush\<close> notifies without holding the mutex of the wait: when the
  flush thread has found its condition false and not yet blocked, the notification reaches nobody. The
  thread then sleeps although a flush is requested, and no step of it or of any caller changes that,
  because every later \<^verbatim>\<open>signal_flush\<close> finds the flag already set.
\<close>

definition overslept :: "sys \<Rightarrow> bool" where
  "overslept s \<longleftrightarrow> flush_requested (store s) \<and> flusher s = F_wait Asleep"

lemma overslept_stays:
  assumes "overslept s" "flusher_step s s' \<or> caller_step i s s'"
  shows "overslept s'"
  using assms(2)
proof
  assume "flusher_step s s'"
  then show ?thesis using assms(1) by cases (simp_all add: overslept_def)
next
  have sig: "s2 = s" if "signals s s2" for s2 using that assms(1) by cases (simp_all add: overslept_def)
  assume "caller_step i s s'"
  then show ?thesis
  proof cases
    case (put k v del t)
    then show ?thesis using assms(1) locked_write_sel(1) [OF put(3)] by (simp add: overslept_def)
  next
    case (search k r t)
    then show ?thesis using assms(1) outer_eq(4) [OF inner_get_on_disk search(3)] by (simp add: overslept_def)
  next
    case (search_fails k e t)
    then show ?thesis using assms(1) outer_eq(4) [OF inner_get_on_disk search_fails(3)] by (simp add: overslept_def)
  next
    case (drain_call pending t)
    then show ?thesis using assms(1) drain_flags(1) [OF drain_call(3)] by (simp add: overslept_def)
  next
    case (persist_call pending r t)
    then show ?thesis using assms(1) outer_eq(4) [OF inner_persist_root persist_call(3)] by (simp add: overslept_def)
  qed (use assms(1) in \<open>auto simp: overslept_def dest: sig get_buffered_same\<close>)
qed

theorem wakeup_can_be_lost:
  assumes "\<not> flush_requested t" and "\<not> flush_in_progress t" and "\<not> stopped t" and "0 < n"
  shows "\<exists>s. reachable t n s \<and> flush_requested (store s) \<and> flusher s = F_wait Asleep \<and>
    (\<forall>s'. (\<lambda>x y. flusher_step x y \<or> (\<exists>i. caller_step i x y))\<^sup>*\<^sup>* s s' \<longrightarrow>
       flush_requested (store s') \<and> flusher s' = F_wait Asleep)"
proof -
  let ?s0 = "sys_init t n"
  let ?s1 = "?s0\<lparr>flusher := F_wait Deciding\<rparr>"
  let ?s2 = "set_caller 0 (C_wait Checking Flush_call) (?s1\<lparr>store := signal_flush t\<rparr>)"
  let ?s3 = "?s2\<lparr>flusher := F_wait Asleep\<rparr>"
  have "reachable t n ?s1"
    using assms(1,3) by (intro by_flusher [OF reachable.start decide]) (simp_all add: sys_init_def)
  moreover have "awake ?s1" by (simp add: awake_def sys_init_def)
  moreover have "at_caller ?s1 0 C_idle" using assms(4) by (simp add: sys_init_def)
  ultimately have "reachable t n ?s2"
    using by_caller [OF _ start_flush [OF _ awake_signals [of ?s1]]] by (simp add: sys_init_def)
  then have r: "reachable t n ?s3" by (rule by_flusher) (rule block, simp)
  have o: "overslept ?s3" by (simp add: overslept_def signal_flush_def)
  have "overslept s'" if "(\<lambda>x y. flusher_step x y \<or> (\<exists>i. caller_step i x y))\<^sup>*\<^sup>* ?s3 s'" for s'
    using that by (induction rule: rtranclp_induct) (auto intro: o overslept_stays)
  with r o show ?thesis unfolding overslept_def by blast
qed

theorem wakeup_can_be_lost_witness:
  "\<exists>s. reachable (new_tree demo_options demo_disk) 1 s \<and> flush_requested (store s) \<and> flusher s = F_wait Asleep"
  using wakeup_can_be_lost [of "new_tree demo_options demo_disk" 1] by (auto simp: new_tree_def)

text \<open>
  C32. The destructor can hang the same way: \<^verbatim>\<open>stop_\<close> is set and \<^verbatim>\<open>notify_all\<close> called without the mutex,
  so a flush thread about to block misses both, sleeps with no step of its own left, and is joined.
\<close>

theorem shutdown_can_hang:
  assumes "\<not> flush_requested t" and "\<not> stopped t"
  shows "\<exists>s. reachable t n s \<and> stopped (store s) \<and> flusher s = F_wait Asleep \<and> (\<forall>s'. \<not> flusher_step s s')"
proof -
  let ?s1 = "(sys_init t n)\<lparr>flusher := F_wait Deciding\<rparr>"
  let ?s2 = "notify_all (?s1\<lparr>store := t\<lparr>stopped := True\<rparr>\<rparr>)"
  let ?s3 = "?s2\<lparr>flusher := F_wait Asleep\<rparr>"
  have "reachable t n ?s1"
    using assms by (intro by_flusher [OF reachable.start decide]) (simp_all add: sys_init_def)
  from by_env [OF this shutdown] have "reachable t n ?s2" by (simp add: sys_init_def)
  then have "reachable t n ?s3" by (rule by_flusher) (rule block, simp)
  moreover have "\<not> flusher_step ?s3 s'" for s' by (auto elim: flusher_step.cases)
  ultimately show ?thesis by (intro exI [of _ ?s3]) simp
qed

theorem shutdown_can_hang_witness:
  "\<exists>s. reachable (new_tree demo_options demo_disk) 0 s \<and> stopped (store s) \<and> (\<forall>s'. \<not> flusher_step s s')"
  using shutdown_can_hang [of "new_tree demo_options demo_disk" 0] by (auto simp: new_tree_def)

text \<open>
  C29. A \<^verbatim>\<open>get\<close> can miss an entry that was written and flushed before. One client inserts a key, calls
  \<^verbatim>\<open>flush\<close> and, when it has returned, \<^verbatim>\<open>get\<close>. The \<^verbatim>\<open>flush\<close> itself wakes the flush thread; when the thread
  drains the buffer after the client has passed its wait, the client finds the buffer empty and returns,
  while the thread holds the entry and neither lock. The \<^verbatim>\<open>get\<close> that follows then finds the key neither in the
  buffer nor in the tree, although nothing else was ever called.
\<close>

theorem get_after_flush_misses:
  assumes "files d (data_dir os @ lit ''/manifest'') = None" and "\<forall>p. openable d p" and "k \<noteq> []"
  shows "\<exists>t s0 s1 s2 s3. tree_open os d = (Inr (), t) \<and> reachable t 1 s0 \<and> callers s0 = [C_idle] \<and>
    entered s0 = [\<lparr>key = k, val = v, seq_no = 1, deleted = False\<rparr>] \<and>
    sys_step\<^sup>*\<^sup>* s0 s1 \<and> callers s1 = [C_wait Checking Flush_call] \<and>
    sys_step\<^sup>*\<^sup>* s1 s2 \<and> callers s2 = [C_idle] \<and>
    sys_step\<^sup>*\<^sup>* s2 s3 \<and> callers s3 = [C_done k None] \<and> entered s3 = entered s0"
proof -
  let ?e = "\<lparr>key = k, val = v, seq_no = 1, deleted = False\<rparr> :: entry"
  from first_insert_reach [OF assms, of 1 v] obtain t t1 s0 where t: "tree_open os d = (Inr (), t)" "gt_inv 0 t"
      "contents t = Map.empty" "sl_entries (write_buf t) = []"
    and s0: "reachable t 1 s0" "s0 = (sys_init t 1)\<lparr>store := t1, entered := [?e]\<rparr>" "awake s0"
    and t1: "gt_inv 0 t1" "sl_entries (write_buf t1) = [?e]" "node_view t1 = node_view t" "t_manifest t1 = t_manifest t"
      "\<not> flush_in_progress t1" "\<not> stopped t1"
    by auto
  let ?s1 = "set_caller 0 (C_wait Checking Flush_call) (s0\<lparr>store := signal_flush t1\<rparr>)"
  have c0: "callers s0 = [C_idle]" "flusher s0 = F_wait Checking" using s0(2) by (simp_all add: sys_init_def)
  have "sys_step s0 ?s1" using step_caller [OF start_flush [OF _ awake_signals [OF s0(3)], of 0]] c0 s0(2) by simp
  moreover from overtaken_flush [of ?s1 t1 0 k, OF _ _ _ t1(1,5,6)] s0(2) c0 obtain s2 where
    s2: "sys_step\<^sup>*\<^sup>* ?s1 s2" "callers s2 = [C_idle]" "entered s2 = [?e]" "gt_inv 0 (store s2)"
      "sl_entries (write_buf (store s2)) = []"
      "disk_get FUEL (node_view (store s2)) (root_id (t_manifest (store s2))) k = disk_get FUEL (node_view t) (root_id (t_manifest t)) k"
    by (auto simp: set_caller_def t1(3,4))
  moreover have "disk_get FUEL (node_view t) (root_id (t_manifest t)) k = Inr None"
    using disk_get_contents [OF gt_invD(1) [OF t(2)] t(4), of k] t(3) by simp
  with absent_get [OF s2(2) _ s2(5), of k] s2(6) gt_invD(1) [OF s2(4)] obtain s3 where "sys_step\<^sup>*\<^sup>* s2 s3"
    "callers s3 = [C_done k None]" "entered s3 = entered s2" by (auto simp: tree_inv_def)
  ultimately show ?thesis using t(1) s0(1,2) c0 s2(1-3)
    by (intro exI [of _ t] exI [of _ s0] exI [of _ ?s1] exI [of _ s2] exI [of _ s3]) (auto simp: set_caller_def)
qed

theorem get_after_flush_misses_witness:
  "\<exists>t s0 s2 s3. tree_open demo_options demo_disk = (Inr (), t) \<and> reachable t 1 s0 \<and> callers s0 = [C_idle] \<and>
    entered s0 = [\<lparr>key = [5], val = [6], seq_no = 1, deleted = False\<rparr>] \<and>
    sys_step\<^sup>*\<^sup>* s0 s2 \<and> callers s2 = [C_idle] \<and> sys_step\<^sup>*\<^sup>* s2 s3 \<and> callers s3 = [C_done [5] None]"
proof -
  from get_after_flush_misses [of demo_disk demo_options "[5]" "[6]"] obtain t s0 s1 s2 s3 where
    "tree_open demo_options demo_disk = (Inr (), t)" "reachable t 1 s0" "callers s0 = [C_idle]"
    "entered s0 = [\<lparr>key = [5], val = [6], seq_no = 1, deleted = False\<rparr>]" "sys_step\<^sup>*\<^sup>* s0 s1" "sys_step\<^sup>*\<^sup>* s1 s2"
    "callers s2 = [C_idle]" "sys_step\<^sup>*\<^sup>* s2 s3" "callers s3 = [C_done [5] None]" by auto
  then show ?thesis using rtranclp_trans [of sys_step s0 s1 s2] by blast
qed

text \<open>
  C25. A \<^verbatim>\<open>flush\<close> that overlaps a round hides newer values. The caller of \<^verbatim>\<open>flush\<close> drains the buffer; before
  it takes the cache lock, other writes of the same key arrive, fill the root and are moved below it by
  the flush thread; then the drained old version is put into the root, where every \<^verbatim>\<open>get\<close> looks
  first. With all threads at rest \<^verbatim>\<open>get\<close> returns the overwritten value.
\<close>

theorem overlapping_flush_hides_newer:
  assumes "files d (data_dir os @ lit ''/manifest'') = None" and "\<forall>p. openable d p"
    and "k \<noteq> []" and "j \<noteq> []" and "k \<noteq> j" and "length k + length v2 + length j + length v3 + 18 \<ge> BUFFER_THRESHOLD"
  shows "\<exists>t s. tree_open os d = (Inr (), t) \<and> reachable t 2 s \<and> callers s = [C_idle, C_idle] \<and>
    flusher s = F_wait Checking \<and>
    entered s = [\<lparr>key = k, val = v1, seq_no = 1, deleted = False\<rparr>, \<lparr>key = k, val = v2, seq_no = 2, deleted = False\<rparr>,
      \<lparr>key = j, val = v3, seq_no = 3, deleted = False\<rparr>] \<and>
    fst (tree_get FUEL k (store s)) = Inr (Some v1)"
proof -
  let ?e1 = "\<lparr>key = k, val = v1, seq_no = 1, deleted = False\<rparr> :: entry"
  let ?e2 = "\<lparr>key = k, val = v2, seq_no = 2, deleted = False\<rparr> :: entry"
  let ?e3 = "\<lparr>key = j, val = v3, seq_no = 3, deleted = False\<rparr> :: entry"
  from held_flush_reach [OF assms(1-3), of v1] obtain t n s where t: "tree_open os d = (Inr (), t)"
      "node_view t (root_id (t_manifest t)) = Inr n" "buffer n = []" "num_children n = 0" "next_id (t_manifest t) = 2"
    and s: "reachable t 2 s" "flusher s = F_wait Checking" "callers s = [C_persist [?e1], C_idle]" "entered s = [?e1]"
      "gt_inv 0 (store s)" "sl_entries (write_buf (store s)) = []" "seq (store s) = 2" "node_view (store s) = node_view t"
      "t_manifest (store s) = t_manifest t" "flush_requested (store s)" "\<not> flush_in_progress (store s)" "\<not> stopped (store s)"
    by blast
  have "at_caller s 1 C_idle" "awake s" using s(2,3) by (simp_all add: awake_def)
  from two_inserts_reach [OF s(1) this s(11,5-7) assms(3,4), of v2 v3] s obtain s5 t5 where
    s5: "reachable t 2 s5" "store s5 = t5" "flusher s5 = F_wait Checking"
      "callers s5 = [C_persist [?e1], C_idle]" "entered s5 = [?e1, ?e2, ?e3]"
    and t5: "gt_inv 0 t5" "sl_entries (write_buf t5) = insert_stable entry_less ?e3 [?e2]" "flush_requested t5"
      "\<not> stopped t5" "node_view t5 = node_view t" "t_manifest t5 = t_manifest t"
    by auto
  let ?es = "buffer (push_pending (sl_entries (write_buf t5)) n)"
  have es: "?es = insert_stable entry_less ?e3 [?e2]"
    using assms(5) t(3) by (auto simp: push_pending_def t5(2) entry_less_def)
  have full: "buffer_full (push_pending (sl_entries (write_buf t5)) n)" "2 \<le> length ?es"
    using assms(6) unfolding buffer_full_def buffer_size_bytes_def es by auto
  have "quiet_round t5"
    using t(2-5) t5(5,6) assms(5) es by (auto simp: quiet_round_def clean_cut_def MAX_FANOUT_def push_pending_def)
  from gt_inv_round [OF t5(1) this, of "FUEL - 3"] FUEL_Suc3 obtain l where l: "gt_inv l (thread_round FUEL t5)"
    "sl_entries (write_buf (thread_round FUEL t5)) = []" by auto
  from leaf_round [OF t5(1) _ _ full] t(2,5) t5(5,6) obtain m where
    m: "node_view (thread_round FUEL t5) (root_id (t_manifest (thread_round FUEL t5))) = Inr m" "buffer m = []"
    by (auto simp: split_nodes_def MAX_FANOUT_def)
  have "sl_wf (write_buf t5)" using gt_invD(1) [OF t5(1)] by (simp add: tree_inv_def)
  with round_steps [OF s5(3)] s5 t5(3,4) obtain s6 where s6: "flusher_step\<^sup>*\<^sup>* s5 s6" "store s6 = thread_round FUEL t5"
    "flusher s6 = F_wait Checking" "callers s6 = [C_persist [?e1], C_idle]" "entered s6 = [?e1, ?e2, ?e3]" by auto
  obtain r t7 where t7: "persist_root [?e1] (thread_round FUEL t5) = (r, t7)" by fastforce
  let ?s7 = "set_caller 0 C_idle (s6\<lparr>store := t7, handed := handed s6 @ [?e1]\<rparr>)"
  have "reachable t 2 ?s7"
    using by_caller [OF reachable_flusher [OF s6(1) s5(1)] persist_call [of 0 s6 "[?e1]" r t7]] s6 t7 by simp
  moreover have "fst (tree_get FUEL k t7) = Inr (Some v1)"
    using persist_answers [OF l m, of k "[?e1]" ?e1] t7 by (simp add: visible_def)
  ultimately show ?thesis using t(1) s6 by (intro exI [of _ t] exI [of _ ?s7]) simp
qed

theorem overlapping_flush_hides_newer_witness:
  "\<exists>t s. tree_open demo_options demo_disk = (Inr (), t) \<and> reachable t 2 s \<and> callers s = [C_idle, C_idle] \<and>
     map val (entered s) = [[7], half_full, half_full] \<and> fst (tree_get FUEL [1] (store s)) = Inr (Some [7])"
  using overlapping_flush_hides_newer [of demo_disk demo_options "[1]" "[2]" half_full half_full "[7]"]
  by (fastforce simp: half_full_def BUFFER_THRESHOLD_def)

end
