(* ===== verification/Spec2Isabelle.thy ===== *)
theory Spec2Isabelle
  imports Bench_Verify Bench_Amplification Crash_Recovery Fanout_Overflow Thread_Races
begin

text \<open>
  GravTree is a key-value store. Writes go into a skip list in memory; a background thread moves them
  into the buffer of the root of a tree whose nodes are SSTable files, and from there, when a buffer is
  full, down the tree. A manifest file names the nodes. This development models the library code of
  \<^verbatim>\<open>src/src\<close> and \<^verbatim>\<open>src/include/gravtree\<close> and the programs under \<^verbatim>\<open>src/bench\<close>, and proves what they do.

  \<^bold>\<open>Parts and theories.\<close> Each theory opens with a note on what it holds.

  \<^item> \<open>Gt_Prelude\<close>, \<open>Std_Algorithms\<close>, \<open>Ieee_Double\<close>, \<open>Mersenne_Twister\<close>: errors, state-and-exception
    computations, the stable sort and binary search of the C++ library, double arithmetic on exact
    rationals with rounding, the random generator. They model what the sources use of the language and
    its library.
  \<^item> \<open>Entry_Types\<close> (\<^verbatim>\<open>types.h\<close>): entries, their order (key, then newest first), key ranges, constants.
    \<open>newest k es\<close> is the version of a key with the highest sequence number.
  \<^item> \<open>Byte_Codec\<close> (\<^verbatim>\<open>node.cpp\<close>, \<^verbatim>\<open>BinaryWriter\<close>, \<^verbatim>\<open>BinaryReader\<close>, \<^verbatim>\<open>crc64\<close>): bytes, words, checksum.
  \<^item> \<open>Bloom_Filter\<close> (\<^verbatim>\<open>bloom.h\<close>, \<^verbatim>\<open>bloom.cpp\<close>): hashes, sizing, bits, serialisation.
  \<^item> \<open>Skip_List\<close> (\<^verbatim>\<open>skiplist.h\<close>, \<^verbatim>\<open>skiplist.cpp\<close>): the write buffer on an explicit heap of nodes.
  \<^item> \<open>Sst_Node\<close> (\<^verbatim>\<open>node.h\<close>, \<^verbatim>\<open>node.cpp\<close>): a node in memory and as a file on a disk of named byte
    sequences.
  \<^item> \<open>Manifest_Store\<close> (\<^verbatim>\<open>manifest.h\<close>, \<^verbatim>\<open>manifest.cpp\<close>): the registry of nodes, its text form, garbage
    collection.
  \<^item> \<open>Local_Flush\<close> (\<^verbatim>\<open>flush.h\<close>, \<^verbatim>\<open>flush.cpp\<close>): partitioning a buffer over children and merging.
  \<^item> \<open>Grav_Tree\<close> (\<^verbatim>\<open>tree.h\<close>, \<^verbatim>\<open>tree.cpp\<close>): the state of \<^verbatim>\<open>class GravTree\<close> and its public operations;
    \<open>Tree_Maintenance\<close>: \<^verbatim>\<open>path_to\<close>, \<^verbatim>\<open>insert_child\<close>, \<^verbatim>\<open>split_leaf\<close>, \<^verbatim>\<open>do_flush\<close>,
    \<^verbatim>\<open>maybe_flush\<close> and the locked part of a flush round.
  \<^item> \<open>Tree_Operations\<close>: reading, writing, flushing, scanning, opening, as a client sees them.
  \<^item> \<open>Tree_Shape\<close>, \<open>Tree_Steps\<close>, \<open>Tree_Split\<close>, \<open>Tree_Flush\<close>, \<open>Tree_Insert\<close>, \<open>Tree_Grow\<close>: the search-tree
    invariant \<open>gtree\<close>, the frame of every elementary step, and the operations that restructure the tree.
    \<open>Fanout_Overflow\<close>: a flush that fills more leaves than the root has room for.
  \<^item> \<open>Tree_Rounds\<close>, \<open>Store_Runs\<close>: the invariant \<open>gt_inv\<close> of the whole store and \<open>durable\<close> of its files, rounds
    of the flush thread, and runs of calls and rounds. \<open>Store_Reopen\<close>: what opening the directory again finds;
    \<open>Crash_Recovery\<close>: what it finds after a process died inside a flush.
  \<^item> \<open>Flush_Thread\<close>, \<open>Thread_Races\<close>: the flush thread and its callers as an interleaved system.
  \<^item> \<open>Bench_Keys\<close>, \<open>Bench_Workloads\<close> (\<^verbatim>\<open>latency_bench.cpp\<close>, \<^verbatim>\<open>bench.cpp\<close>): keys and workloads over an engine;
    \<open>Bench_Verify\<close> (\<^verbatim>\<open>verify_bench.cpp\<close>): the end-to-end check; \<open>Bench_Stats\<close> (\<^verbatim>\<open>latency_bench.cpp\<close>): what is
    computed from the latencies; \<open>Bench_Amplification\<close> (\<^verbatim>\<open>wa_bench.cpp\<close>): bytes written per byte of payload.

  \<^bold>\<open>State.\<close> The record \<open>tree\<close> holds what \<^verbatim>\<open>GravTree\<close> holds: options, manifest, the cache of nodes, the
  skip list, flags, counters, and the disk. An operation is a function from a state to a result, a value
  or an error, and the state at the point where it returned or threw. Undefined behaviour of the C++
  code is the error \<open>Undefined_behaviour\<close>; the theorems show that it does not occur.
  \<open>node_view t i\<close> is the node \<^verbatim>\<open>get_node(i)\<close> gives, from the cache or the disk.

  \<^bold>\<open>What is shown.\<close> Below the tree: the skip list refines sorted insertion and finds the newest version;
  node files and manifests read back as they were written, with every change of up to eight bytes
  detected; the filter has no false negatives; a local flush moves each entry into the child of its key,
  keeps the newest versions and registers exactly the children it rewrites. For the tree: \<open>tree_inv\<close> and \<open>gt_inv\<close> are kept by every operation, in any
  order, and \<^verbatim>\<open>get\<close> answers as a map would; \<^verbatim>\<open>find_path\<close> and \<^verbatim>\<open>partition_entries\<close> agree on the child
  of a key; splitting the root, flushing down, splitting the leaves a flush fills and a full root change no answer;
  a store that is flushed or closed and opened again answers as before. For the threads: flags are
  consistent, no entry is lost between the locks, a round completes. For the programs under \<^verbatim>\<open>bench\<close>: in
  runs whose rounds of the flush thread fall between the calls and are quiet (\<open>quiet_schedule\<close>), the
  workloads end and their reads hit and \<^verbatim>\<open>verify_bench\<close> finds every key before and after reopening; the
  statistics are what they are called. Several theorems state where the code does not do what it means
  to: a split between two versions of a key, a flush that splits the root and needs it again, tombstones in \<^verbatim>\<open>range_scan\<close>, sequence numbers after a
  reopen, a crash between the rewritten parent and the manifest, a \<^verbatim>\<open>get\<close> that misses an entry after \<^verbatim>\<open>flush\<close> has returned, a missed wake-up, a \<^verbatim>\<open>flush\<close> that overlaps a round, unchecked
  lengths and blanks when files are read, a time series printed from sorted latencies.

  \<^bold>\<open>Interfaces.\<close> Locales state what one part relies on in another and are interpreted on the model: the
  buffer of the store (on the skip list), the set behind the filter, the registry (on the manifest),
  the choice of a child by key (on both scans), the key-value store (on the tree), the engine a workload
  drives (on the tree with its flush thread; RocksDB, which is not part of the sources, is a parameter).

  \<^bold>\<open>Bounds and fuel.\<close> Recursions over child pointers take fuel because a file can name any child;
  \<open>FUEL\<close> is \<open>2 ^ 32\<close>, more than any level, which is a 32-bit number, and \<^verbatim>\<open>find_path\<close> is shown to return
  with it. Runs of the store hand out at most \<open>2 ^ 30\<close> sequence numbers, so that the filter of a node
  stays below the 32-bit length in its file; keys are not empty, because the code takes the empty
  string for an unset bound of a range. \<open>quiet_round\<close> restricts the rounds of a run to those that cut a
  full root leaf between two keys, or flush down and either fill no child or fill leaves that can be cut
  between two keys and for whose halves, all but one, the root has room (the last may split the root, and
  the tree grows); it can be evaluated on a state. \<open>reaches\<close> and the engine of the workloads take a round as
  one step between calls; the interleaving of its parts with calls is that of \<open>Flush_Thread\<close>.

  \<^bold>\<open>Not modelled.\<close> The tests: they call the modelled operations. The layout of the text the programs
  under \<^verbatim>\<open>bench\<close> print, their command lines, and the walk over a directory that adds up file sizes.
  Partial writes and failing \<^verbatim>\<open>rename\<close>: a file that can be opened is written whole, and one that cannot
  is an error. The defaulted move operations of the skip list. Memory orders weaker than sequential
  consistency. Modelled, but without a theorem: the recursion of \<^verbatim>\<open>do_flush\<close> into inner children that
  overflow, and the split of a full inner node below the root in \<^verbatim>\<open>insert_child\<close>.
\<close>

end
